(* ===== verification/OW_Prelude.thy ===== *)
theory OW_Prelude
  imports Main "HOL-Library.Word"
begin

text \<open>
  Shared vocabulary of the development: the C integer types, byte strings, the two operations
  on byte arrays every component uses (\<open>window\<close> reads a field or a block-sized window,
  \<open>overwrite\<close> replaces one), little-endian storage of the packed structures, and the facts on
  words and lists the component proofs share.
\<close>

unbundle bit_operations_syntax

named_theorems window_simps \<open>evaluation of windows of concatenated fields\<close>
named_theorems unat_simps \<open>reading unsigned words as natural numbers\<close>

type_synonym u8 = "8 word"
type_synonym u16 = "16 word"
type_synonym u32 = "32 word"
type_synonym u64 = "64 word"
type_synonym bytes = "8 word list"

section \<open>Windows of byte arrays\<close>

definition window :: "nat \<Rightarrow> nat \<Rightarrow> 'a list \<Rightarrow> 'a list" where
  "window off n xs = take n (drop off xs)"

definition overwrite :: "nat \<Rightarrow> 'a list \<Rightarrow> 'a list \<Rightarrow> 'a list" where
  "overwrite off ys xs = take off xs @ ys @ drop (off + length ys) xs"

text \<open>Storage of an \<open>n\<close>-byte unsigned integer, least significant byte first.\<close>

definition le_store :: "nat \<Rightarrow> 'a::len word \<Rightarrow> bytes" where
  "le_store n w = map (\<lambda>i. ucast (drop_bit (8 * i) w)) [0..<n]"

primrec le_load :: "bytes \<Rightarrow> 'a::len word" where
  "le_load [] = 0"
| "le_load (b # bs) = ucast b OR push_bit 8 (le_load bs)"

definition le_stores :: "u32 list \<Rightarrow> bytes" where
  "le_stores ws = concat (map (le_store 4) ws)"

definition le_loads :: "nat \<Rightarrow> bytes \<Rightarrow> u32 list" where
  "le_loads n bs = map (\<lambda>i. le_load (window (4 * i) 4 bs)) [0..<n]"

section \<open>Lemmas\<close>

lemma length_window [simp]: "length (window off n xs) = min n (length xs - off)"
  by (simp add: window_def)

lemma nth_window [simp]: "i < n \<Longrightarrow> off + i < length xs \<Longrightarrow> window off n xs ! i = xs ! (off + i)"
  by (simp add: window_def)

lemma window_append_right [window_simps]:
  "length xs \<le> off \<Longrightarrow> window off n (xs @ ys) = window (off - length xs) n ys"
  by (simp add: window_def)

lemma window_append_left [window_simps]:
  "off + n \<le> length xs \<Longrightarrow> window off n (xs @ ys) = window off n xs"
  by (simp add: window_def)

lemma window_Cons [window_simps]: "0 < off \<Longrightarrow> window off n (x # xs) = window (off - 1) n xs"
  by (cases off) (simp_all add: window_def)

lemma window_all [window_simps]: "length xs = n \<Longrightarrow> window 0 n xs = xs"
  by (simp add: window_def)

lemma window_join: "off + n = off' \<Longrightarrow> window off n xs @ window off' m xs = window off (n + m) xs"
  by (auto simp: window_def take_add add.commute [of off n])

lemma window_join_more:
  "off + n = off' \<Longrightarrow> window off n xs @ (window off' m xs @ zs) = window off (n + m) xs @ zs"
  by (simp add: window_join flip: append_assoc)

lemma window_replicate [simp]: "window off n (replicate k x) = replicate (min n (k - off)) x"
  by (simp add: window_def)

lemma window_window: "a + n \<le> m \<Longrightarrow> window a n (window b m xs) = window (b + a) n xs"
  by (simp add: window_def drop_take min_def add.commute)

lemma length_overwrite [simp]:
  "off + length ys \<le> length xs \<Longrightarrow> length (overwrite off ys xs) = length xs"
  by (simp add: overwrite_def)

lemma nth_overwrite:
  assumes "off + length ys \<le> length xs" and "i < length xs"
  shows "overwrite off ys xs ! i = (if off \<le> i \<and> i < off + length ys then ys ! (i - off) else xs ! i)"
  using assms by (auto simp: overwrite_def nth_append)

lemma window_overwrite_same [simp]:
  "off + length ys \<le> length xs \<Longrightarrow> n = length ys \<Longrightarrow> window off n (overwrite off ys xs) = ys"
  by (simp add: overwrite_def window_def)

lemma window_overwrite_disjoint:
  assumes "off + length ys \<le> length xs" and "a + n \<le> off \<or> off + length ys \<le> a"
  shows "window a n (overwrite off ys xs) = window a n xs"
proof (rule nth_equalityI)
  show "length (window a n (overwrite off ys xs)) = length (window a n xs)"
    using assms by simp
next
  fix i assume "i < length (window a n (overwrite off ys xs))"
  with assms show "window a n (overwrite off ys xs) ! i = window a n xs ! i"
    by (auto simp: nth_overwrite)
qed

lemma overwrite_overwrite [simp]:
  "off + length ys \<le> length xs \<Longrightarrow> length zs = length ys \<Longrightarrow>
   overwrite off zs (overwrite off ys xs) = overwrite off zs xs"
  by (simp add: overwrite_def)

lemma overwrite_window [simp]: "off + n \<le> length xs \<Longrightarrow> overwrite off (window off n xs) xs = xs"
  by (simp add: overwrite_def window_def add.commute flip: drop_drop)

lemma length_le_store [simp]: "length (le_store n w) = n"
  by (simp add: le_store_def)

lemma bit_le_load:
  "bit (le_load bs :: 'a::len word) k \<longleftrightarrow>
     k < LENGTH('a) \<and> k div 8 < length bs \<and> bit (bs ! (k div 8)) (k mod 8)"
proof (induction bs arbitrary: k)
  case Nil
  then show ?case by simp
next
  case (Cons b bs)
  show ?case
  proof (cases "k < 8")
    case True
    then show ?thesis by (auto simp: bit_simps dest: bit_imp_le_length)
  next
    case False
    then have "k div 8 = Suc ((k - 8) div 8)" "k mod 8 = (k - 8) mod 8" "8 \<le> k"
      by (auto simp: le_div_geq le_mod_geq)
    moreover from False have "\<not> bit b k"
      by (auto dest: bit_imp_le_length)
    ultimately show ?thesis by (auto simp: bit_simps Cons.IH)
  qed
qed

lemma bit_le_store_nth:
  "i < n \<Longrightarrow> bit (le_store n w ! i) k \<longleftrightarrow> k < 8 \<and> bit w (8 * i + k)"
  by (simp add: le_store_def bit_simps)

lemma le_load_store:
  fixes w :: "'a::len word"
  assumes "LENGTH('a) = 8 * n"
  shows "le_load (le_store n w) = w"
proof (rule bit_word_eqI)
  fix k assume k: "k < LENGTH('a)"
  with assms have "k div 8 < n" by linarith
  with k show "bit (le_load (le_store n w) :: 'a word) k \<longleftrightarrow> bit w k"
    by (simp add: bit_le_load bit_le_store_nth)
qed

lemma le_store_load:
  assumes "LENGTH('a) = 8 * n" and "length bs = n"
  shows "le_store n (le_load bs :: 'a::len word) = bs"
proof (rule nth_equalityI)
  show "length (le_store n (le_load bs :: 'a word)) = length bs" using assms by simp
next
  fix i assume "i < length (le_store n (le_load bs :: 'a word))"
  then have i: "i < n" by simp
  show "le_store n (le_load bs :: 'a word) ! i = bs ! i"
  proof (rule bit_word_eqI)
    fix k assume "k < LENGTH(8)"
    then have k: "k < 8" by simp
    then have "(8 * i + k) div 8 = i" "(8 * i + k) mod 8 = k" by auto
    moreover have "8 * i + k < 8 * n" using i k by linarith
    ultimately show "bit (le_store n (le_load bs :: 'a word) ! i) k = bit (bs ! i) k"
      using i k assms by (simp add: bit_le_store_nth bit_le_load)
  qed
qed

lemmas le_simps [simp] =
  le_load_store [where 'a = 16 and n = 2, simplified]
  le_load_store [where 'a = 32 and n = 4, simplified]
  le_load_store [where 'a = 64 and n = 8, simplified]
  le_store_load [where 'a = 16 and n = 2, simplified]
  le_store_load [where 'a = 32 and n = 4, simplified]
  le_store_load [where 'a = 64 and n = 8, simplified]

lemma unat_ucast_up:
  "LENGTH('a) \<le> LENGTH('b) \<Longrightarrow> unat (ucast (w :: 'a::len word) :: 'b::len word) = unat w"
  by (simp add: unsigned_ucast_eq take_bit_nat_eq_self order_less_le_trans [OF unsigned_less])

lemma unat_of_nat_small: "n < 2 ^ LENGTH('a) \<Longrightarrow> unat (of_nat n :: 'a::len word) = n"
  by (simp add: unsigned_of_nat take_bit_nat_eq_self)

lemma unat_power: "k < LENGTH('a) \<Longrightarrow> unat (2 ^ k :: 'a::len word) = 2 ^ k"
  using unat_of_nat_small [of "2 ^ k", where 'a = 'a] by simp

lemma window_Nil [simp]: "window off 0 xs = []"
  by (simp add: window_def)

lemma window_single: "off < length xs \<Longrightarrow> window off 1 xs = [xs ! off]"
  by (simp add: window_def take_Suc_conv_app_nth)

lemma length_le_stores [simp]: "length (le_stores ws) = 4 * length ws"
  by (induction ws) (simp_all add: le_stores_def)

lemma le_stores_Cons: "le_stores (w # ws) = le_store 4 w @ le_stores ws"
  by (simp add: le_stores_def)

lemma window_le_stores: "i < length ws \<Longrightarrow> window (4 * i) 4 (le_stores ws) = le_store 4 (ws ! i)"
proof (induction ws arbitrary: i)
  case (Cons w ws)
  then show ?case
    by (cases i) (simp_all add: le_stores_Cons window_simps)
qed simp

lemma length_le_loads [simp]: "length (le_loads n bs) = n"
  by (simp add: le_loads_def)

lemma le_loads_stores [simp]: "length ws = n \<Longrightarrow> le_loads n (le_stores ws) = ws"
  by (rule nth_equalityI) (simp_all add: le_loads_def window_le_stores)

lemma le_loads_Suc: "le_loads (Suc n) bs = le_load (window 0 4 bs) # le_loads n (drop 4 bs)"
  by (simp add: le_loads_def upt_conv_Cons map_Suc_upt [symmetric] comp_def window_def add.commute [of 4] del: upt_Suc)

lemma le_stores_loads [simp]: "length bs = 4 * n \<Longrightarrow> le_stores (le_loads n bs) = bs"
proof (induction n arbitrary: bs)
  case (Suc n)
  then have "le_stores (le_loads (Suc n) bs) = window 0 4 bs @ drop 4 bs"
    by (simp add: le_stores_Cons le_loads_Suc)
  then show ?case by (simp add: window_def)
qed (simp add: le_stores_def le_loads_def)

lemma unat_plus1: "unat (w :: u32) < 2 ^ 32 - 1 \<Longrightarrow> unat (w + 1) = Suc (unat w)"
  by (simp add: unat_word_ariths)

end
