(* ===== verification/OW_Checksum.thy ===== *)
theory OW_Checksum
  imports OW_Prelude
begin

text \<open>
  \<^verbatim>\<open>common/src/ow_mem.c\<close> and \<^verbatim>\<open>common/src/ow_checksum.c\<close>: the freestanding memory routines,
  the CRC-32C over byte strings and over structures with an embedded checksum field, and the
  Fletcher-64 sum. A C pointer into an array is the array and an offset; a loop over an index is
  a recursion over the index range.
\<close>

unbundle bit_operations_syntax

section \<open>Memory routines\<close>

definition ow_memcpy :: "bytes \<Rightarrow> nat \<Rightarrow> bytes \<Rightarrow> nat \<Rightarrow> nat \<Rightarrow> bytes" where
  "ow_memcpy dest d src s n = fold (\<lambda>i buf. buf[d + i := src ! (s + i)]) [0..<n] dest"

definition ow_memset :: "bytes \<Rightarrow> nat \<Rightarrow> int \<Rightarrow> nat \<Rightarrow> bytes" where
  "ow_memset dest d val n = fold (\<lambda>i buf. buf[d + i := word_of_int val]) [0..<n] dest"

fun ow_memcmp_from :: "bytes \<Rightarrow> bytes \<Rightarrow> nat list \<Rightarrow> int" where
  "ow_memcmp_from p1 p2 [] = 0"
| "ow_memcmp_from p1 p2 (i # is) =
     (if p1 ! i \<noteq> p2 ! i then uint (p1 ! i) - uint (p2 ! i) else ow_memcmp_from p1 p2 is)"

definition ow_memcmp :: "bytes \<Rightarrow> bytes \<Rightarrow> nat \<Rightarrow> int" where
  "ow_memcmp a b n = ow_memcmp_from a b [0..<n]"

section \<open>CRC-32C\<close>

definition crc32c_bit :: "u32 \<Rightarrow> u32" where
  "crc32c_bit crc = (if crc AND 1 \<noteq> 0 then drop_bit 1 crc XOR 0x82F63B78 else drop_bit 1 crc)"

definition crc32c_byte :: "u32 \<Rightarrow> u8 \<Rightarrow> u32" where
  "crc32c_byte crc byte = (crc32c_bit ^^ 8) (crc XOR ucast byte)"

definition ow_crc32c :: "u32 \<Rightarrow> bytes \<Rightarrow> u32" where
  "ow_crc32c initial data = NOT (fold (\<lambda>b crc. crc32c_byte crc b) data (NOT initial))"

definition ow_crc32c_struct :: "bytes \<Rightarrow> nat \<Rightarrow> nat \<Rightarrow> u32" where
  "ow_crc32c_struct data struct_size checksum_offset =
     NOT (fold (\<lambda>i crc.
            let b = (if checksum_offset \<le> i \<and> i < checksum_offset + 4 then 0 else data ! i)
            in crc32c_byte crc b) [0..<struct_size] 0xFFFFFFFF)"

section \<open>Fletcher-64\<close>

definition fletcher_word :: "bytes \<Rightarrow> nat \<Rightarrow> u32" where
  "fletcher_word p i =
     ucast (p ! i) OR push_bit 8 (ucast (p ! (i + 1))) OR push_bit 16 (ucast (p ! (i + 2)))
       OR push_bit 24 (ucast (p ! (i + 3)))"

definition fletcher_step :: "u32 \<Rightarrow> u64 \<times> u64 \<Rightarrow> u64 \<times> u64" where
  "fletcher_step word s =
     (let sum1 = (fst s + ucast word) mod 0xFFFFFFFF; sum2 = (snd s + sum1) mod 0xFFFFFFFF
      in (sum1, sum2))"

definition fletcher_tail :: "bytes \<Rightarrow> nat \<Rightarrow> nat \<Rightarrow> u32" where
  "fletcher_tail p i len =
     fold (\<lambda>k word. word OR push_bit (8 * k) (ucast (p ! (i + k)))) [0..<len] 0"

function fletcher_loop :: "bytes \<Rightarrow> nat \<Rightarrow> nat \<Rightarrow> u64 \<times> u64 \<Rightarrow> u64 \<times> u64" where
  "fletcher_loop p i len s =
     (if 4 \<le> len then fletcher_loop p (i + 4) (len - 4) (fletcher_step (fletcher_word p i) s)
      else if 0 < len then fletcher_step (fletcher_tail p i len) s
      else s)"
  by pat_completeness auto
termination
  by (relation "measure (\<lambda>(p, i, len, s). len)") auto

definition ow_fletcher64 :: "bytes \<Rightarrow> nat \<Rightarrow> u64" where
  "ow_fletcher64 data len =
     (let s = fletcher_loop data 0 len (0, 0) in push_bit 32 (snd s) OR fst s)"

declare fletcher_loop.simps [simp del]

section \<open>Memory routines: what the loops compute\<close>

lemma fold_update_overwrite:
  assumes "d + n \<le> length xs"
  shows "fold (\<lambda>i buf. buf[d + i := f i]) [0..<n] xs = overwrite d (map f [0..<n]) xs"
  using assms
proof (induction n)
  case 0
  then show ?case by (simp add: overwrite_def)
next
  case (Suc n)
  then have IH: "fold (\<lambda>i buf. buf[d + i := f i]) [0..<n] xs = overwrite d (map f [0..<n]) xs"
    by simp
  have "(overwrite d (map f [0..<n]) xs)[d + n := f n] = overwrite d (map f [0..<Suc n]) xs"
    using Suc.prems
    by (intro nth_equalityI) (auto simp: nth_overwrite nth_list_update nth_append less_Suc_eq)
  with IH show ?case by simp
qed

lemma ow_memcpy_eq:
  assumes "d + n \<le> length dest" and "s + n \<le> length src"
  shows "ow_memcpy dest d src s n = overwrite d (window s n src) dest"
proof -
  have "map (\<lambda>i. src ! (s + i)) [0..<n] = window s n src"
    using assms by (intro nth_equalityI) auto
  with assms show ?thesis by (simp add: ow_memcpy_def fold_update_overwrite)
qed

lemma ow_memset_eq:
  "d + n \<le> length dest \<Longrightarrow> ow_memset dest d val n = overwrite d (replicate n (word_of_int val)) dest"
  by (simp add: ow_memset_def fold_update_overwrite map_replicate_const)

lemma ow_memcmp_from_0:
  "ow_memcmp_from p1 p2 is = 0 \<longleftrightarrow> (\<forall>i\<in>set is. p1 ! i = p2 ! i)"
  by (induction "is") (auto simp: word_uint_eq_iff)

section \<open>CRC-32C: linearity and detection\<close>

lemma and_1_bit: "(x :: u32) AND 1 \<noteq> 0 \<longleftrightarrow> bit x 0"
  by (simp add: and_one_eq bit_0 odd_iff_mod_2_eq_one)

lemma bit_crc32c_bit:
  "bit (crc32c_bit x) n \<longleftrightarrow> (bit x (Suc n) \<noteq> (bit x 0 \<and> bit (0x82F63B78 :: u32) n))"
  by (cases "bit x 0") (auto simp: crc32c_bit_def and_1_bit bit_simps)

lemma crc32c_bit_xor: "crc32c_bit (x XOR y) = crc32c_bit x XOR crc32c_bit y"
  by (rule bit_eqI) (auto simp: bit_crc32c_bit bit_xor_iff)

lemma crc32c_bit_inj: "inj crc32c_bit"
proof (rule injI)
  fix x y assume eq: "crc32c_bit x = crc32c_bit y"
  have top: "bit (crc32c_bit z) 31 = bit z 0" for z
  proof -
    have "\<not> bit z 32" by (auto dest: bit_imp_le_length)
    moreover have "bit (0x82F63B78 :: u32) 31" by simp
    ultimately show ?thesis by (simp add: bit_crc32c_bit)
  qed
  have "bit x n = bit y n" for n
  proof (cases n)
    case 0
    then show ?thesis using top [of x] top [of y] eq by simp
  next
    case (Suc m)
    have "bit x 0 = bit y 0" using top [of x] top [of y] eq by simp
    moreover have "bit (crc32c_bit x) m = bit (crc32c_bit y) m" using eq by simp
    ultimately show ?thesis unfolding Suc bit_crc32c_bit by blast
  qed
  then show "x = y" by (auto simp: bit_eq_iff)
qed

lemma crc32c_bits_xor: "(crc32c_bit ^^ n) (x XOR y) = (crc32c_bit ^^ n) x XOR (crc32c_bit ^^ n) y"
  by (induction n) (simp_all add: crc32c_bit_xor)

lemma crc32c_bits_inj: "inj (crc32c_bit ^^ n)"
proof (induction n)
  case (Suc n)
  from inj_compose [OF crc32c_bit_inj Suc] show ?case by (simp add: comp_def)
qed simp

lemma crc32c_bits_low_zero:
  "(\<And>k. k < n \<Longrightarrow> \<not> bit x k) \<Longrightarrow> (crc32c_bit ^^ n) x = drop_bit n x"
proof (induction n)
  case (Suc n)
  then have "(crc32c_bit ^^ Suc n) x = crc32c_bit (drop_bit n x)" by simp
  also have "\<dots> = drop_bit (Suc n) x"
    using Suc.prems [of n] by (intro bit_eqI) (simp add: bit_crc32c_bit bit_drop_bit_eq)
  finally show ?case .
qed simp

abbreviation crc_run :: "bytes \<Rightarrow> u32 \<Rightarrow> u32" where
  "crc_run data crc \<equiv> fold (\<lambda>b crc. crc32c_byte crc b) data crc"

lemma crc_run_inj: "crc_run data x = crc_run data y \<longleftrightarrow> x = y"
proof (induction data arbitrary: x y)
  case (Cons b data)
  have "crc32c_byte x b = crc32c_byte y b \<longleftrightarrow> x XOR ucast b = y XOR ucast b"
    by (simp add: crc32c_byte_def inj_eq [OF crc32c_bits_inj])
  also have "\<dots> \<longleftrightarrow> x = y" by (auto simp: bit_eq_iff bit_simps)
  finally show ?case using Cons by simp
qed simp

lemma crc_run_window:
  "length bs \<le> 4 \<Longrightarrow> crc_run bs x = (crc32c_bit ^^ (8 * length bs)) (x XOR le_load bs)"
proof (induction bs arbitrary: x)
  case (Cons b bs)
  define w :: u32 where "w = le_load bs"
  have "(crc32c_bit ^^ 8) (push_bit 8 w) = drop_bit 8 (push_bit 8 w)"
    by (rule crc32c_bits_low_zero) (simp add: bit_simps)
  also have "\<dots> = w"
    using Cons.prems by (intro bit_eqI) (auto simp: w_def bit_simps bit_le_load)
  finally have w: "(crc32c_bit ^^ 8) (push_bit 8 w) = w" .
  have load: "le_load (b # bs) = ucast b XOR push_bit 8 w"
    by (intro bit_eqI) (auto simp: w_def bit_simps dest: bit_imp_le_length)
  have "crc_run (b # bs) x = (crc32c_bit ^^ (8 * length bs)) (crc32c_byte x b XOR w)"
    using Cons by (simp add: w_def)
  also have "crc32c_byte x b XOR w = (crc32c_bit ^^ 8) (x XOR le_load (b # bs))"
    by (simp add: load crc32c_byte_def crc32c_bits_xor w xor.assoc [symmetric] del: le_load.simps)
  also have "(crc32c_bit ^^ (8 * length bs)) \<dots> = (crc32c_bit ^^ (8 * length (b # bs))) (x XOR le_load (b # bs))"
    by (simp add: funpow_add [symmetric] add.commute del: le_load.simps flip: comp_apply [of "crc32c_bit ^^ (8 * length bs)"])
  finally show ?case .
qed simp

lemma le_load_eq_iff:
  "length xs = length ys \<Longrightarrow> length xs \<le> 4 \<Longrightarrow> (le_load xs :: u32) = le_load ys \<longleftrightarrow> xs = ys"
proof
  assume len: "length xs = length ys" "length xs \<le> 4" and eq: "(le_load xs :: u32) = le_load ys"
  show "xs = ys"
  proof (rule nth_equalityI)
    fix i assume i: "i < length xs"
    show "xs ! i = ys ! i"
    proof (rule bit_word_eqI)
      fix k assume "k < LENGTH(8)"
      then have k: "k < 8" by simp
      then have "(8 * i + k) div 8 = i" "(8 * i + k) mod 8 = k" "8 * i + k < 32"
        using i len by auto
      moreover have "bit (le_load xs :: u32) (8 * i + k) = bit (le_load ys :: u32) (8 * i + k)"
        using eq by simp
      ultimately show "bit (xs ! i) k = bit (ys ! i) k"
        using i len by (simp add: bit_le_load)
    qed
  qed (use len in simp)
qed simp

lemma crc_run_burst:
  assumes "length a = length b" and "length a \<le> 4" and "a \<noteq> b"
  shows "crc_run (xs @ a @ ys) c \<noteq> crc_run (xs @ b @ ys) c"
proof
  assume "crc_run (xs @ a @ ys) c = crc_run (xs @ b @ ys) c"
  then have "crc_run a (crc_run xs c) = crc_run b (crc_run xs c)"
    by (simp add: crc_run_inj)
  with assms have "crc_run xs c XOR le_load a = crc_run xs c XOR le_load b"
    by (simp add: crc_run_window inj_eq [OF crc32c_bits_inj])
  then have "(le_load a :: u32) = le_load b" by (auto simp: bit_eq_iff bit_simps)
  with assms show False by (simp add: le_load_eq_iff)
qed

lemma ow_crc32c_append: "ow_crc32c (ow_crc32c i xs) ys = ow_crc32c i (xs @ ys)"
  by (simp add: ow_crc32c_def)

lemma all_ones_u32: "(0xFFFFFFFF :: u32) = - 1"
  by simp

lemma ow_crc32c_struct_eq:
  assumes "length data = n" and "off + 4 \<le> n"
  shows "ow_crc32c_struct data n off = ow_crc32c 0 (overwrite off (replicate 4 0) data)"
proof -
  let ?f = "\<lambda>i. if off \<le> i \<and> i < off + 4 then 0 else data ! i"
  have "map ?f [0..<n] = overwrite off (replicate 4 0) data"
    using assms by (intro nth_equalityI) (auto simp: nth_overwrite)
  moreover have "fold (\<lambda>i crc. crc32c_byte crc (?f i)) [0..<n] c = crc_run (map ?f [0..<n]) c" for c
    by (simp add: fold_map comp_def)
  ultimately show ?thesis
    by (simp add: ow_crc32c_struct_def ow_crc32c_def Let_def all_ones_u32)
qed

lemma ow_crc32c_struct_overwrite:
  "length data = n \<Longrightarrow> off + 4 \<le> n \<Longrightarrow> length c = 4 \<Longrightarrow>
   ow_crc32c_struct (overwrite off c data) n off = ow_crc32c_struct data n off"
  by (simp add: ow_crc32c_struct_eq)

lemma split_at_window:
  "a + n \<le> length xs \<Longrightarrow> xs = take a xs @ window a n xs @ drop (a + n) xs"
  unfolding window_def by (metis append_take_drop_id drop_drop add.commute)

lemma ow_crc32c_struct_burst:
  assumes len: "length d = n" "length d' = n" and off: "off + 4 \<le> n"
    and win: "a + m \<le> n" "m \<le> 4" and clear: "a + m \<le> off \<or> off + 4 \<le> a"
    and out: "\<And>i. i < n \<Longrightarrow> \<not> (a \<le> i \<and> i < a + m) \<Longrightarrow> d ! i = d' ! i"
    and diff: "d \<noteq> d'"
  shows "ow_crc32c_struct d n off \<noteq> ow_crc32c_struct d' n off"
proof -
  let ?z = "overwrite off (replicate 4 (0::u8))"
  have pre: "take a (?z d) = take a (?z d')"
    by (rule nth_equalityI) (use len off win out in \<open>auto simp: nth_overwrite\<close>)
  have post: "drop (a + m) (?z d) = drop (a + m) (?z d')"
    by (rule nth_equalityI) (use len off win out in \<open>auto simp: nth_overwrite\<close>)
  have wd: "window a m (?z d) = window a m d" "window a m (?z d') = window a m d'"
    using len off clear by (auto intro!: window_overwrite_disjoint)
  have "window a m d \<noteq> window a m d'"
  proof
    assume w: "window a m d = window a m d'"
    have "d ! i = d' ! i" if "i < n" for i
    proof (cases "a \<le> i \<and> i < a + m")
      case True
      then have "d ! i = window a m d ! (i - a)" "d' ! i = window a m d' ! (i - a)"
        using that len by auto
      then show ?thesis using w by simp
    qed (use that out in auto)
    with len diff show False by (metis nth_equalityI)
  qed
  then have "crc_run (take a (?z d) @ window a m d @ drop (a + m) (?z d)) c \<noteq>
      crc_run (take a (?z d) @ window a m d' @ drop (a + m) (?z d)) c" for c
    using len win by (intro crc_run_burst) auto
  moreover have "?z d = take a (?z d) @ window a m d @ drop (a + m) (?z d)"
    "?z d' = take a (?z d) @ window a m d' @ drop (a + m) (?z d)"
    using split_at_window [of a m "?z d"] split_at_window [of a m "?z d'"] len off win
    by (simp_all add: pre post wd)
  ultimately have "crc_run (?z d) c \<noteq> crc_run (?z d') c" for c by metis
  then show ?thesis
    using len off by (simp add: ow_crc32c_struct_eq ow_crc32c_def)
qed

section \<open>Fletcher-64: the sums it computes\<close>

text \<open>The little-endian 32-bit words of a byte string, the last one zero-padded.\<close>

function le_words :: "bytes \<Rightarrow> u32 list" where
  "le_words bs = (if bs = [] then [] else le_load (take 4 bs) # le_words (drop 4 bs))"
  by pat_completeness auto
termination
  by (relation "measure length") auto

declare le_words.simps [simp del]

abbreviation fletcher_run :: "u32 list \<Rightarrow> u64 \<times> u64 \<Rightarrow> u64 \<times> u64" where
  "fletcher_run ws s \<equiv> fold fletcher_step ws s"

lemma fletcher_word_eq: "i + 4 \<le> length p \<Longrightarrow> fletcher_word p i = le_load (window i 4 p)"
proof -
  assume "i + 4 \<le> length p"
  then have "window i 4 p = [p ! i, p ! (i + 1), p ! (i + 2), p ! (i + 3)]"
    by (intro nth_equalityI) (auto simp: less_Suc_eq numeral_eq_Suc)
  then show ?thesis
    by (simp add: fletcher_word_def bit_eq_iff bit_simps numeral_eq_Suc)
qed

lemma fletcher_tail_eq:
  "len < 4 \<Longrightarrow> i + len \<le> length p \<Longrightarrow> fletcher_tail p i len = le_load (window i len p)"
proof -
  assume len: "len < 4" and "i + len \<le> length p"
  then have "window i len p = map (\<lambda>k. p ! (i + k)) [0..<len]"
    by (intro nth_equalityI) auto
  moreover from len have "len = 0 \<or> len = Suc 0 \<or> len = Suc (Suc 0) \<or> len = Suc (Suc (Suc 0))"
    by auto
  ultimately show ?thesis
    by (elim disjE)
      (simp_all add: fletcher_tail_def push_bit_or push_bit_push_bit or.assoc)
qed

lemma fletcher_loop_eq:
  "i + len \<le> length p \<Longrightarrow> fletcher_loop p i len s = fletcher_run (le_words (window i len p)) s"
proof (induction p i len s rule: fletcher_loop.induct)
  case (1 p i len s)
  show ?case
  proof (cases "4 \<le> len")
    case True
    then have "fletcher_loop p i len s = fletcher_loop p (i + 4) (len - 4) (fletcher_step (fletcher_word p i) s)"
      by (simp add: fletcher_loop.simps [of p i len])
    also have "\<dots> = fletcher_run (le_words (window (i + 4) (len - 4) p)) (fletcher_step (fletcher_word p i) s)"
      using 1 True by simp
    also have "\<dots> = fletcher_run (le_load (window i 4 p) # le_words (window (i + 4) (len - 4) p)) s"
      using 1 True by (simp add: fletcher_word_eq)
    also have "le_load (window i 4 p) # le_words (window (i + 4) (len - 4) p) = le_words (window i len p)"
      using 1 True by (subst (2) le_words.simps) (auto simp: window_def drop_take add.commute)
    finally show ?thesis .
  next
    case False
    then have "fletcher_loop p i len s =
        (if 0 < len then fletcher_step (fletcher_tail p i len) s else s)"
      by (simp add: fletcher_loop.simps [of p i len])
    moreover have "le_words (window i len p) = (if 0 < len then [le_load (window i len p)] else [])"
    proof -
      have "window i len p = [] \<longleftrightarrow> len = 0"
        using 1(2) by (auto simp: window_def)
      with False 1(2) show ?thesis
        by (simp add: le_words.simps [of "window i len p"] le_words.simps [of "[]"])
    qed
    ultimately show ?thesis
      using False 1(2) by (simp add: fletcher_tail_eq)
  qed
qed

lemma ow_fletcher64_words:
  "length data = n \<Longrightarrow> ow_fletcher64 data n =
     (let s = fletcher_run (le_words data) (0, 0) in push_bit 32 (snd s) OR fst s)"
  by (simp add: ow_fletcher64_def fletcher_loop_eq window_all)

lemma le_words_append: "4 dvd length xs \<Longrightarrow> le_words (xs @ ys) = le_words xs @ le_words ys"
proof (induction xs rule: le_words.induct)
  case (1 bs)
  show ?case
  proof (cases "bs = []")
    case False
    with 1(2) have "4 \<le> length bs" by (auto dest: dvd_imp_le)
    with 1 False show ?thesis
      by (simp add: le_words.simps [of "bs @ ys"] le_words.simps [of bs])
  qed (simp add: le_words.simps [of "[]"])
qed

text \<open>The sums as natural numbers: no 64-bit addition of the loop wraps.\<close>

definition fletcher_bounded :: "u64 \<times> u64 \<Rightarrow> bool" where
  "fletcher_bounded s \<longleftrightarrow> unat (fst s) < 2 ^ 32 - 1 \<and> unat (snd s) < 2 ^ 32 - 1"

lemma unat_fletcher_step:
  assumes "fletcher_bounded s"
  shows "unat (fst (fletcher_step w s)) = (unat (fst s) + unat w) mod (2 ^ 32 - 1)"
    and "unat (snd (fletcher_step w s)) =
           (unat (snd s) + unat (fst (fletcher_step w s))) mod (2 ^ 32 - 1)"
    and "fletcher_bounded (fletcher_step w s)"
proof -
  let ?M = "0xFFFFFFFF :: u64"
  have w: "unat (ucast w :: u64) = unat w" "unat w < 2 ^ 32"
    using unsigned_less [of w, where ?'a = nat] by (simp_all add: unat_ucast_up)
  have add: "unat (x + y) = unat x + unat y" if "unat x < 2 ^ 33" "unat y < 2 ^ 33" for x y :: u64
    using that by (simp add: unat_word_ariths)
  have M: "unat (x mod ?M) = unat x mod (2 ^ 32 - 1)" for x :: u64
    by (simp add: unat_mod)
  have 1: "unat (fst (fletcher_step w s)) = (unat (fst s) + unat w) mod (2 ^ 32 - 1)"
    using assms w add [of "fst s" "ucast w"] M by (simp add: fletcher_step_def Let_def fletcher_bounded_def)
  moreover have 2: "unat (snd (fletcher_step w s)) =
     (unat (snd s) + unat (fst (fletcher_step w s))) mod (2 ^ 32 - 1)"
  proof -
    have "unat (fst (fletcher_step w s)) < 2 ^ 33"
      unfolding 1 by (rule less_trans [OF mod_less_divisor]) auto
    then show ?thesis
      using assms add [of "snd s" "fst (fletcher_step w s)"] M
      by (simp add: fletcher_step_def Let_def fletcher_bounded_def)
  qed
  ultimately show "unat (fst (fletcher_step w s)) = (unat (fst s) + unat w) mod (2 ^ 32 - 1)"
    "unat (snd (fletcher_step w s)) = (unat (snd s) + unat (fst (fletcher_step w s))) mod (2 ^ 32 - 1)"
    "fletcher_bounded (fletcher_step w s)"
    by (simp_all add: fletcher_bounded_def)
qed

text \<open>
  What the sums mean: after the words \<open>ws\<close> the first is their sum and the second the sum of the
  prefix sums, both modulo \<open>2 ^ 32 - 1\<close>.
\<close>

fun prefix_sums :: "nat \<Rightarrow> nat \<Rightarrow> u32 list \<Rightarrow> nat" where
  "prefix_sums a b [] = b"
| "prefix_sums a b (w # ws) = prefix_sums (a + unat w) (b + (a + unat w)) ws"

lemma prefix_sums_mod:
  "a mod m = a' mod m \<Longrightarrow> b mod m = b' mod m \<Longrightarrow> prefix_sums a b ws mod m = prefix_sums a' b' ws mod m"
proof (induction ws arbitrary: a b a' b')
  case (Cons w ws)
  from Cons.prems(1) have 1: "(a + unat w) mod m = (a' + unat w) mod m" by (rule mod_add_cong) simp
  from Cons.prems(2) 1 have "(b + (a + unat w)) mod m = (b' + (a' + unat w)) mod m" by (rule mod_add_cong)
  from Cons.IH [OF 1 this] show ?case by simp
qed simp

lemma fletcher_run_sums:
  assumes "fletcher_bounded s"
  shows "fletcher_bounded (fletcher_run ws s)"
    and "unat (fst (fletcher_run ws s)) = (unat (fst s) + sum_list (map unat ws)) mod (2 ^ 32 - 1)"
    and "unat (snd (fletcher_run ws s)) = prefix_sums (unat (fst s)) (unat (snd s)) ws mod (2 ^ 32 - 1)"
  using assms
proof (induction ws arbitrary: s)
  case Nil
  case 1 then show ?case by simp
  case 2 then show ?case by (simp add: fletcher_bounded_def)
  case 3 then show ?case by (simp add: fletcher_bounded_def)
next
  case (Cons w ws)
  note step = unat_fletcher_step
  case 1
  then show ?case using Cons.IH(1) step(3) by simp
  case 2
  then show ?case using Cons.IH(2) step(3) by (simp add: step(1) mod_add_left_eq add.assoc)
  case 3
  then have "unat (snd (fletcher_run (w # ws) s)) =
      prefix_sums (unat (fst (fletcher_step w s))) (unat (snd (fletcher_step w s))) ws mod (2 ^ 32 - 1)"
    using Cons.IH(3) step(3) by simp
  also have "\<dots> = prefix_sums (unat (fst s)) (unat (snd s)) (w # ws) mod (2 ^ 32 - 1)"
    unfolding prefix_sums.simps
    by (rule prefix_sums_mod) (simp_all add: step(1,2) [OF 3] mod_add_right_eq)
  finally show ?case .
qed

lemma unat_join_u64:
  "unat (hi :: u64) < 2 ^ 32 \<Longrightarrow> unat (lo :: u64) < 2 ^ 32 \<Longrightarrow>
   unat (push_bit 32 hi OR lo) = 2 ^ 32 * unat hi + unat lo"
proof -
  assume hi: "unat hi < 2 ^ 32" and lo: "unat lo < 2 ^ 32"
  have "push_bit 32 hi OR lo = push_bit 32 hi + lo"
  proof (rule disjunctive_add [symmetric])
    fix k show "\<not> bit (push_bit 32 hi) k \<or> \<not> bit lo k"
    proof (cases "k < 32")
      case False
      then have "(2::nat) ^ 32 \<le> 2 ^ k" by (intro power_increasing) auto
      with lo have "unat lo < 2 ^ k" by linarith
      then have "\<not> bit (unat lo) k" by (simp add: bit_iff_odd)
      then have "\<not> bit lo k" by (simp add: bit_unsigned_iff)
      then show ?thesis by simp
    qed (simp add: bit_simps)
  qed
  moreover have "unat (push_bit 32 hi) = 2 ^ 32 * unat hi"
    using hi by (simp add: push_bit_eq_mult unat_word_ariths)
  ultimately show ?thesis
    using hi lo by (simp add: unat_word_ariths)
qed

end
