(* ===== verification/OW_Crypto.thy ===== *)
theory OW_Crypto
  imports OW_Checksum
begin

text \<open>
  \<^verbatim>\<open>common/src/ow_crypto.c\<close>: the ChaCha20 block function and the in-place XOR of a buffer with
  its keystream. The 16-word state is a list of words; the 64-byte output is a byte list.
\<close>

unbundle bit_operations_syntax

definition rotl32 :: "u32 \<Rightarrow> nat \<Rightarrow> u32" where
  "rotl32 x n = push_bit n x OR drop_bit (32 - n) x"

definition load32_le :: "bytes \<Rightarrow> nat \<Rightarrow> u32" where
  "load32_le p i =
     ucast (p ! i) OR push_bit 8 (ucast (p ! (i + 1))) OR push_bit 16 (ucast (p ! (i + 2)))
       OR push_bit 24 (ucast (p ! (i + 3)))"

definition store32_le :: "u32 \<Rightarrow> bytes" where
  "store32_le v =
     [ucast (v AND 0xFF), ucast (drop_bit 8 v AND 0xFF), ucast (drop_bit 16 v AND 0xFF),
      ucast (drop_bit 24 v AND 0xFF)]"

definition chacha_qr :: "u32 \<Rightarrow> u32 \<Rightarrow> u32 \<Rightarrow> u32 \<Rightarrow> u32 \<times> u32 \<times> u32 \<times> u32" where
  "chacha_qr a b c d =
     (let a = a + b; d = rotl32 (d XOR a) 16;
          c = c + d; b = rotl32 (b XOR c) 12;
          a = a + b; d = rotl32 (d XOR a) 8;
          c = c + d; b = rotl32 (b XOR c) 7
      in (a, b, c, d))"

text \<open>The call \<^verbatim>\<open>chacha_qr(&work[i], &work[j], &work[k], &work[l])\<close>.\<close>

definition qr_at :: "nat \<Rightarrow> nat \<Rightarrow> nat \<Rightarrow> nat \<Rightarrow> u32 list \<Rightarrow> u32 list" where
  "qr_at i j k l work =
     (case chacha_qr (work ! i) (work ! j) (work ! k) (work ! l) of
        (a, b, c, d) \<Rightarrow> work[i := a, j := b, k := c, l := d])"

definition chacha_init_state :: "u32 \<Rightarrow> bytes \<Rightarrow> bytes \<Rightarrow> u32 list" where
  "chacha_init_state counter key nonce =
     [0x61707865, 0x3320646E, 0x79622D32, 0x6B206574]
     @ map (\<lambda>i. load32_le key (4 * i)) [0..<8]
     @ [counter, load32_le nonce 0, load32_le nonce 4, load32_le nonce 8]"

definition chacha_double_round :: "u32 list \<Rightarrow> u32 list" where
  "chacha_double_round work =
     (let work = qr_at 0 4 8 12 work; work = qr_at 1 5 9 13 work;
          work = qr_at 2 6 10 14 work; work = qr_at 3 7 11 15 work;
          work = qr_at 0 5 10 15 work; work = qr_at 1 6 11 12 work;
          work = qr_at 2 7 8 13 work; work = qr_at 3 4 9 14 work
      in work)"

definition ow_chacha20_block :: "u32 \<Rightarrow> bytes \<Rightarrow> bytes \<Rightarrow> bytes" where
  "ow_chacha20_block counter key nonce =
     (let state = chacha_init_state counter key nonce;
          work = (chacha_double_round ^^ 10) state
      in concat (map (\<lambda>i. store32_le (work ! i + state ! i)) [0..<16]))"

text \<open>The loop of \<^verbatim>\<open>ow_chacha20_xor\<close>: at \<open>pos\<close>, the next (up to) 64 bytes are XORed in place.\<close>

definition xor_chunk :: "bytes \<Rightarrow> nat \<Rightarrow> bytes \<Rightarrow> nat \<Rightarrow> bytes" where
  "xor_chunk data pos stream n =
     fold (\<lambda>i d. d[pos + i := d ! (pos + i) XOR stream ! i]) [0..<n] data"

function chacha20_xor_loop :: "u32 \<Rightarrow> bytes \<Rightarrow> bytes \<Rightarrow> bytes \<Rightarrow> nat \<Rightarrow> nat \<Rightarrow> bytes" where
  "chacha20_xor_loop counter key nonce data len pos =
     (if pos < len then
        let stream = ow_chacha20_block counter key nonce;
            chunk = (if len - pos > 64 then 64 else len - pos)
        in chacha20_xor_loop (counter + 1) key nonce (xor_chunk data pos stream chunk) len (pos + chunk)
      else data)"
  by pat_completeness auto
termination
  by (relation "measure (\<lambda>(counter, key, nonce, data, len, pos). len - pos)") auto

definition ow_chacha20_xor :: "u32 \<Rightarrow> bytes \<Rightarrow> bytes \<Rightarrow> bytes \<Rightarrow> nat \<Rightarrow> bytes" where
  "ow_chacha20_xor counter key nonce data len = chacha20_xor_loop counter key nonce data len 0"

declare chacha20_xor_loop.simps [simp del]

section \<open>The keystream\<close>

text \<open>Byte \<open>j\<close> of the keystream that starts at block counter \<open>counter\<close>.\<close>

definition keystream :: "u32 \<Rightarrow> bytes \<Rightarrow> bytes \<Rightarrow> nat \<Rightarrow> u8" where
  "keystream counter key nonce j =
     ow_chacha20_block (counter + of_nat (j div 64)) key nonce ! (j mod 64)"

lemma length_store32_le [simp]: "length (store32_le v) = 4"
  by (simp add: store32_le_def)

lemma store32_le_eq: "store32_le v = le_store 4 v"
proof -
  have byte: "ucast (x AND 0xFF) = (ucast x :: u8)" for x :: u32
  proof (rule bit_word_eqI)
    fix k assume "k < LENGTH(8)"
    then have "bit (0xFF :: u32) k"
      by (simp add: less_Suc_eq numeral_eq_Suc) (auto simp: bit_simps)
    then show "bit (ucast (x AND 0xFF) :: u8) k = bit (ucast x :: u8) k"
      by (simp add: bit_simps)
  qed
  show ?thesis
    by (simp add: store32_le_def le_store_def byte upt_conv_Cons)
qed

lemma load32_le_eq: "i + 4 \<le> length p \<Longrightarrow> load32_le p i = le_load (window i 4 p)"
  using fletcher_word_eq [of i p] by (simp add: load32_le_def fletcher_word_def)

lemma length_ow_chacha20_block [simp]: "length (ow_chacha20_block counter key nonce) = 64"
  by (simp add: ow_chacha20_block_def Let_def length_concat comp_def sum_list_triv)

lemma xor_chunk_nth:
  "pos + n \<le> length data \<Longrightarrow> n \<le> length stream \<Longrightarrow> j < length data \<Longrightarrow>
   xor_chunk data pos stream n ! j =
     (if pos \<le> j \<and> j < pos + n then data ! j XOR stream ! (j - pos) else data ! j)
   \<and> length (xor_chunk data pos stream n) = length data"
proof (induction n)
  case (Suc n)
  then show ?case by (auto simp: xor_chunk_def nth_list_update less_Suc_eq)
qed (auto simp: xor_chunk_def)

lemma length_xor_chunk [simp]: "length (xor_chunk data pos stream n) = length data"
  by (induction n) (simp_all add: xor_chunk_def)

lemma keystream_shift: "keystream (counter + 1) key nonce j = keystream counter key nonce (64 + j)"
  by (simp add: keystream_def div_add_self1 add.assoc)

lemma chacha20_xor_loop_nth:
  "len \<le> length data \<Longrightarrow>
   length (chacha20_xor_loop counter key nonce data len pos) = length data \<and>
   (\<forall>j < length data. chacha20_xor_loop counter key nonce data len pos ! j =
     (if pos \<le> j \<and> j < len then data ! j XOR keystream counter key nonce (j - pos) else data ! j))"
proof (induction counter key nonce data len pos rule: chacha20_xor_loop.induct)
  case (1 counter key nonce data len pos)
  show ?case
  proof (cases "pos < len")
    case False
    then show ?thesis by (auto simp add: chacha20_xor_loop.simps [of counter])
  next
    case True
    define n where "n = (if len - pos > 64 then 64 else len - pos)"
    define d where "d = xor_chunk data pos (ow_chacha20_block counter key nonce) n"
    have n: "0 < n" "n \<le> 64" "pos + n \<le> len" using True by (auto simp: n_def)
    have eq: "chacha20_xor_loop counter key nonce data len pos =
        chacha20_xor_loop (counter + 1) key nonce d len (pos + n)"
      using True by (simp add: chacha20_xor_loop.simps [of counter key nonce data] n_def d_def Let_def)
    have IH: "length (chacha20_xor_loop (counter + 1) key nonce d len (pos + n)) = length data"
      "j < length data \<Longrightarrow> chacha20_xor_loop (counter + 1) key nonce d len (pos + n) ! j =
        (if pos + n \<le> j \<and> j < len then d ! j XOR keystream (counter + 1) key nonce (j - (pos + n)) else d ! j)"
      for j
      using 1(1) [OF True refl n_def] 1(2) by (auto simp: d_def)
    have d: "d ! j = (if pos \<le> j \<and> j < pos + n
        then data ! j XOR keystream counter key nonce (j - pos) else data ! j)" if "j < length data" for j
      using xor_chunk_nth [of pos n data "ow_chacha20_block counter key nonce" j] that n 1(2)
      by (auto simp: d_def keystream_def)
    have full: "n = 64" if "pos + n < len" using that by (auto simp: n_def split: if_splits)
    show ?thesis
      unfolding eq using IH d full n(3)
      by (auto simp: keystream_shift)
  qed
qed

lemma length_ow_chacha20_xor [simp]:
  "len \<le> length data \<Longrightarrow> length (ow_chacha20_xor counter key nonce data len) = length data"
  by (simp add: ow_chacha20_xor_def chacha20_xor_loop_nth)

lemma ow_chacha20_xor_nth:
  "len \<le> length data \<Longrightarrow> j < length data \<Longrightarrow> ow_chacha20_xor counter key nonce data len ! j =
     (if j < len then data ! j XOR keystream counter key nonce j else data ! j)"
  by (simp add: ow_chacha20_xor_def chacha20_xor_loop_nth)

lemma ow_chacha20_xor_involution:
  "len \<le> length data \<Longrightarrow>
   ow_chacha20_xor counter key nonce (ow_chacha20_xor counter key nonce data len) len = data"
  by (intro nth_equalityI) (auto simp: ow_chacha20_xor_nth xor.assoc)

end
