(* ===== verification/OW_String.thy ===== *)
theory OW_String
  imports OW_Checksum "HOL-Library.List_Lexorder"
begin

text \<open>
  \<^verbatim>\<open>common/src/ow_string.c\<close>: SUTF-8 names. A C pointer and the length it may be read for are the
  byte list from that pointer on. The reference encoder \<open>sutf8_encode\<close> is the table in the
  comment of \<^verbatim>\<open>sutf8_decode_one\<close>; the lemmas show that decoding inverts it and accepts nothing
  else, that a byte string validates exactly when it is a sequence of such encodings, and that
  name comparison is the lexicographic order of the code points.
\<close>

unbundle bit_operations_syntax

section \<open>Decoding\<close>

text \<open>The result is the C return value and the code point stored through \<^verbatim>\<open>out_cp\<close> (0 when none
  is stored, the value the callers initialise it with).\<close>

definition sutf8_decode_one :: "bytes \<Rightarrow> int \<times> u32" where
  "sutf8_decode_one s =
    (if s = [] then (0, 0)
     else let u0 = s ! 0; len = length s in
     if u0 AND 0x80 = 0 then (1, ucast u0)
     else if u0 AND 0xE0 = 0xC0 then
       if len < 2 then (-1, 0)
       else if s ! 1 AND 0xC0 \<noteq> 0x80 then (-1, 0)
       else let cp = push_bit 6 (ucast (u0 AND 0x1F)) OR ucast (s ! 1 AND 0x3F) in
         if cp < 0x80 then (-1, 0) else (2, cp)
     else if u0 AND 0xF0 = 0xE0 then
       if len < 3 then (-1, 0)
       else if s ! 1 AND 0xC0 \<noteq> 0x80 \<or> s ! 2 AND 0xC0 \<noteq> 0x80 then (-1, 0)
       else let cp = push_bit 12 (ucast (u0 AND 0x0F)) OR push_bit 6 (ucast (s ! 1 AND 0x3F))
                       OR ucast (s ! 2 AND 0x3F) in
         if cp < 0x800 then (-1, 0) else (3, cp)
     else if u0 AND 0xF8 = 0xF0 then
       if len < 4 then (-1, 0)
       else if s ! 1 AND 0xC0 \<noteq> 0x80 \<or> s ! 2 AND 0xC0 \<noteq> 0x80 \<or> s ! 3 AND 0xC0 \<noteq> 0x80 then (-1, 0)
       else let cp = push_bit 18 (ucast (u0 AND 0x07)) OR push_bit 12 (ucast (s ! 1 AND 0x3F))
                       OR push_bit 6 (ucast (s ! 2 AND 0x3F)) OR ucast (s ! 3 AND 0x3F) in
         if cp < 0x10000 \<or> cp > 0x10FFFF then (-1, 0) else (4, cp)
     else if u0 AND 0xFC = 0xF8 then
       if len < 5 then (-1, 0)
       else if s ! 1 AND 0xC0 \<noteq> 0x80 \<or> s ! 2 AND 0xC0 \<noteq> 0x80 \<or> s ! 3 AND 0xC0 \<noteq> 0x80
             \<or> s ! 4 AND 0xC0 \<noteq> 0x80 then (-1, 0)
       else let cp = push_bit 24 (ucast (u0 AND 0x03)) OR push_bit 18 (ucast (s ! 1 AND 0x3F))
                       OR push_bit 12 (ucast (s ! 2 AND 0x3F)) OR push_bit 6 (ucast (s ! 3 AND 0x3F))
                       OR ucast (s ! 4 AND 0x3F) in
         if cp < 0x110000 \<or> cp > 0x3FFFFFF then (-1, 0) else (5, cp)
     else if u0 AND 0xFE = 0xFC then
       if len < 6 then (-1, 0)
       else if s ! 1 AND 0xC0 \<noteq> 0x80 \<or> s ! 2 AND 0xC0 \<noteq> 0x80 \<or> s ! 3 AND 0xC0 \<noteq> 0x80
             \<or> s ! 4 AND 0xC0 \<noteq> 0x80 \<or> s ! 5 AND 0xC0 \<noteq> 0x80 then (-1, 0)
       else let cp = push_bit 30 (ucast (u0 AND 0x01)) OR push_bit 24 (ucast (s ! 1 AND 0x3F))
                       OR push_bit 18 (ucast (s ! 2 AND 0x3F)) OR push_bit 12 (ucast (s ! 3 AND 0x3F))
                       OR push_bit 6 (ucast (s ! 4 AND 0x3F)) OR ucast (s ! 5 AND 0x3F) in
         if cp < 0x4000000 then (-1, 0)
         else if cp \<ge> 0x7FFFFFF0 then (-1, 0)
         else (6, cp)
     else (-1, 0))"

function sutf8_validate_loop :: "bytes \<Rightarrow> bool" where
  "sutf8_validate_loop s =
     (if s = [] then True
      else let n = fst (sutf8_decode_one s) in
        if n \<le> 0 then False else sutf8_validate_loop (drop (nat n) s))"
  by pat_completeness auto
termination
  by (relation "measure length") auto

definition ow_sutf8_validate :: "bytes option \<Rightarrow> nat \<Rightarrow> bool" where
  "ow_sutf8_validate s len =
     (case s of None \<Rightarrow> False | Some s \<Rightarrow> sutf8_validate_loop (take len s))"

function sutf8_cmp_loop :: "bytes \<Rightarrow> bytes \<Rightarrow> int" where
  "sutf8_cmp_loop a b =
     (if a \<noteq> [] \<and> b \<noteq> [] then
        let (na, ca) = sutf8_decode_one a; (nb, cb) = sutf8_decode_one b in
        if na \<le> 0 \<or> nb \<le> 0 then (if na \<le> 0 then -1 else 1)
        else if ca \<noteq> cb then (if ca < cb then -1 else 1)
        else sutf8_cmp_loop (drop (nat na) a) (drop (nat nb) b)
      else if a \<noteq> [] then 1
      else if b \<noteq> [] then -1
      else 0)"
  by pat_completeness auto
termination
  by (relation "measure (\<lambda>(a, b). length a)") auto

definition ow_sutf8_name_cmp :: "bytes \<Rightarrow> nat \<Rightarrow> bytes \<Rightarrow> nat \<Rightarrow> int" where
  "ow_sutf8_name_cmp a a_len b b_len = sutf8_cmp_loop (take a_len a) (take b_len b)"

text \<open>The destination is an array (its length at least \<open>dest_cap\<close>), or NULL; the result is the
  array afterwards and the number of bytes copied.\<close>

definition ow_sutf8_name_copy :: "bytes option \<Rightarrow> nat \<Rightarrow> bytes option \<Rightarrow> nat \<Rightarrow> bytes option \<times> nat" where
  "ow_sutf8_name_copy dest dest_cap src src_len =
     (case dest of
        None \<Rightarrow> (None, 0)
      | Some d \<Rightarrow>
          if dest_cap = 0 then (Some d, 0)
          else
            let copy_len = (if src_len < dest_cap then src_len else dest_cap - 1);
                d = (case src of
                       None \<Rightarrow> d
                     | Some s \<Rightarrow> if copy_len > 0 then ow_memcpy d 0 s 0 copy_len else d)
            in (Some (d[copy_len := 0]), copy_len))"

declare sutf8_validate_loop.simps [simp del] sutf8_cmp_loop.simps [simp del]

section \<open>The reference encoding\<close>

definition sutf8_cont :: "nat \<Rightarrow> u32 \<Rightarrow> u8" where
  "sutf8_cont k cp = 0x80 OR (ucast (drop_bit k cp) AND 0x3F)"

definition sutf8_transportable :: "u32 \<Rightarrow> bool" where
  "sutf8_transportable cp \<longleftrightarrow> cp < 0x7FFFFFF0"

definition sutf8_encode :: "u32 \<Rightarrow> bytes" where
  "sutf8_encode cp =
     (if cp < 0x80 then [ucast cp]
      else if cp < 0x800 then [0xC0 OR ucast (drop_bit 6 cp), sutf8_cont 0 cp]
      else if cp < 0x10000 then
        [0xE0 OR ucast (drop_bit 12 cp), sutf8_cont 6 cp, sutf8_cont 0 cp]
      else if cp < 0x110000 then
        [0xF0 OR ucast (drop_bit 18 cp), sutf8_cont 12 cp, sutf8_cont 6 cp, sutf8_cont 0 cp]
      else if cp < 0x4000000 then
        [0xF8 OR ucast (drop_bit 24 cp), sutf8_cont 18 cp, sutf8_cont 12 cp, sutf8_cont 6 cp,
         sutf8_cont 0 cp]
      else
        [0xFC OR ucast (drop_bit 30 cp), sutf8_cont 24 cp, sutf8_cont 18 cp, sutf8_cont 12 cp,
         sutf8_cont 6 cp, sutf8_cont 0 cp])"

abbreviation sutf8_text :: "u32 list \<Rightarrow> bytes" where
  "sutf8_text cps \<equiv> concat (map sutf8_encode cps)"

section \<open>Bits of bytes and code points\<close>

lemma u32_less_pow_iff:
  assumes "k < 32"
  shows "(w :: u32) < 2 ^ k \<longleftrightarrow> (\<forall>n\<ge>k. \<not> bit w n)"
proof -
  have "w < 2 ^ k \<longleftrightarrow> unat w < 2 ^ k"
    using assms by (simp add: word_less_nat_alt unat_power)
  also have "\<dots> \<longleftrightarrow> take_bit k (unat w) = unat w"
    by (simp add: take_bit_nat_eq_self_iff)
  also have "\<dots> \<longleftrightarrow> (\<forall>n\<ge>k. \<not> bit w n)"
  proof
    assume eq: "take_bit k (unat w) = unat w"
    show "\<forall>n\<ge>k. \<not> bit w n"
    proof (intro allI impI)
      fix n assume "k \<le> n"
      then have "\<not> bit (take_bit k (unat w)) n" by (simp add: bit_take_bit_iff)
      then show "\<not> bit w n" unfolding eq by (simp add: bit_unsigned_iff)
    qed
  next
    assume "\<forall>n\<ge>k. \<not> bit w n"
    then show "take_bit k (unat w) = unat w"
      by (intro bit_eqI) (auto simp: bit_take_bit_iff bit_unsigned_iff not_le [symmetric])
  qed
  finally show ?thesis .
qed

lemma less_8_cases: "n < 8 \<longleftrightarrow> n = 0 \<or> n = 1 \<or> n = 2 \<or> n = 3 \<or> n = 4 \<or> n = 5 \<or> n = 6 \<or> n = (7::nat)"
  by auto

lemma less_32_cases: "n < 32 \<longleftrightarrow> n < 8 \<or> (\<exists>m<8. n = 8 + m) \<or> (\<exists>m<8. n = 16 + m) \<or> (\<exists>m<8. n = 24 + (m::nat))"
  by presburger

lemma u8_eq_iff:
  "(x :: u8) = y \<longleftrightarrow> (bit x 0 = bit y 0 \<and> bit x 1 = bit y 1 \<and> bit x 2 = bit y 2 \<and> bit x 3 = bit y 3 \<and>
     bit x 4 = bit y 4 \<and> bit x 5 = bit y 5 \<and> bit x 6 = bit y 6 \<and> bit x 7 = bit y 7)"
proof
  assume *: "bit x 0 = bit y 0 \<and> bit x 1 = bit y 1 \<and> bit x 2 = bit y 2 \<and> bit x 3 = bit y 3 \<and>
     bit x 4 = bit y 4 \<and> bit x 5 = bit y 5 \<and> bit x 6 = bit y 6 \<and> bit x 7 = bit y 7"
  show "x = y"
  proof (rule bit_word_eqI)
    fix n assume "n < LENGTH(8)"
    then have "n < 8" by simp
    then show "bit x n = bit y n" using * unfolding less_8_cases by (elim disjE) simp_all
  qed
qed simp

lemma sutf8_lead_iff:
  "u AND 0x80 = 0 \<longleftrightarrow> \<not> bit (u::u8) 7"
  "u AND 0xE0 = 0xC0 \<longleftrightarrow> bit (u::u8) 7 \<and> bit u 6 \<and> \<not> bit u 5"
  "u AND 0xF0 = 0xE0 \<longleftrightarrow> bit (u::u8) 7 \<and> bit u 6 \<and> bit u 5 \<and> \<not> bit u 4"
  "u AND 0xF8 = 0xF0 \<longleftrightarrow> bit (u::u8) 7 \<and> bit u 6 \<and> bit u 5 \<and> bit u 4 \<and> \<not> bit u 3"
  "u AND 0xFC = 0xF8 \<longleftrightarrow> bit (u::u8) 7 \<and> bit u 6 \<and> bit u 5 \<and> bit u 4 \<and> bit u 3 \<and> \<not> bit u 2"
  "u AND 0xFE = 0xFC \<longleftrightarrow> bit (u::u8) 7 \<and> bit u 6 \<and> bit u 5 \<and> bit u 4 \<and> bit u 3 \<and> bit u 2 \<and> \<not> bit u 1"
  "u AND 0xC0 = 0x80 \<longleftrightarrow> bit (u::u8) 7 \<and> \<not> bit u 6"
  by (simp_all add: u8_eq_iff bit_and_iff) blast+

lemma all_less_32: "(\<forall>n<(32::nat). P n) \<longleftrightarrow> P 0 \<and> P 1 \<and> P 2 \<and> P 3 \<and> P 4 \<and> P 5 \<and> P 6 \<and> P 7 \<and> P 8 \<and> P 9 \<and> P 10 \<and> P 11 \<and> P 12 \<and> P 13 \<and> P 14 \<and> P 15 \<and> 
     P 16 \<and> P 17 \<and> P 18 \<and> P 19 \<and> P 20 \<and> P 21 \<and> P 22 \<and> P 23 \<and> P 24 \<and> P 25 \<and> P 26 \<and> P 27 \<and> P 28 \<and> P 29 \<and> P 30 \<and> P 31"
  by (simp add: numeral_eq_Suc All_less_Suc) blast

lemma u32_eq_iff: "(x :: u32) = y \<longleftrightarrow> (\<forall>n<32. bit x n = bit y n)"
  by (auto intro: bit_word_eqI)

lemma u8_high_bits: "8 \<le> n \<Longrightarrow> \<not> bit (x :: u8) n"
  by (auto dest: bit_imp_le_length)

lemma bit_sutf8_cont: "bit (sutf8_cont k cp) n \<longleftrightarrow> n = 7 \<or> n < 6 \<and> bit cp (k + n)"
proof (cases "n < 8")
  case True
  then show ?thesis unfolding less_8_cases
    by (elim disjE) (simp_all add: sutf8_cont_def bit_or_iff bit_and_iff bit_ucast_iff bit_drop_bit_eq)
next
  case False
  then show ?thesis by (auto simp: dest: bit_imp_le_length)
qed

lemmas sutf8_bits = sutf8_lead_iff bit_sutf8_cont bit_or_iff bit_and_iff bit_ucast_iff bit_drop_bit_eq bit_push_bit_iff
  all_less_32 u8_high_bits


lemma u32_high_bits: "(cp :: u32) < 2 ^ k \<Longrightarrow> k < 32 \<Longrightarrow> k \<le> n \<Longrightarrow> \<not> bit cp n"
  using u32_less_pow_iff [of k cp] by simp

lemma sutf8_decode_encode:
  assumes "sutf8_transportable cp"
  shows "sutf8_decode_one (sutf8_encode cp @ rest) = (int (length (sutf8_encode cp)), cp)"
proof -
  consider "cp < 0x80" | "\<not> cp < 0x80" "cp < 0x800" | "\<not> cp < 0x80" "\<not> cp < 0x800" "cp < 0x10000"
    | "\<not> cp < 0x80" "\<not> cp < 0x800" "\<not> cp < 0x10000" "cp < 0x110000"
    | "\<not> cp < 0x80" "\<not> cp < 0x800" "\<not> cp < 0x10000" "\<not> cp < 0x110000" "cp < 0x4000000"
    | "\<not> cp < 0x80" "\<not> cp < 0x800" "\<not> cp < 0x10000" "\<not> cp < 0x110000" "\<not> cp < 0x4000000"
    by blast
  then show ?thesis
  proof cases
    case 1
    then have hi: "\<not> bit cp n" if "7 \<le> n" for n using that u32_high_bits [of cp 7 n] by simp
    have "ucast (ucast cp :: u8) = cp" by (simp add: u32_eq_iff sutf8_bits hi)
    with 1 show ?thesis by (simp add: sutf8_decode_one_def sutf8_encode_def sutf8_bits hi)
  next
    case 2
    then have hi: "\<not> bit cp n" if "11 \<le> n" for n using that u32_high_bits [of cp 11 n] by simp
    have "push_bit 6 (ucast ((0xC0 OR ucast (drop_bit 6 cp) :: u8) AND 0x1F)) OR ucast (sutf8_cont 0 cp AND 0x3F) = cp"
      by (simp add: u32_eq_iff sutf8_bits hi)
    with 2 show ?thesis by (simp add: sutf8_decode_one_def sutf8_encode_def Let_def sutf8_bits hi)
  next
    case 3
    then have hi: "\<not> bit cp n" if "16 \<le> n" for n using that u32_high_bits [of cp 16 n] by simp
    have "push_bit 12 (ucast ((0xE0 OR ucast (drop_bit 12 cp) :: u8) AND 0x0F)) OR
        push_bit 6 (ucast (sutf8_cont 6 cp AND 0x3F)) OR ucast (sutf8_cont 0 cp AND 0x3F) = cp"
      by (simp add: u32_eq_iff sutf8_bits hi)
    with 3 show ?thesis
      by (simp add: sutf8_decode_one_def sutf8_encode_def Let_def sutf8_bits hi)
  next
    case 4
    then have "cp < 0x200000" by (simp add: word_less_nat_alt)
    then have hi: "\<not> bit cp n" if "21 \<le> n" for n using that u32_high_bits [of cp 21 n] by simp
    have "push_bit 18 (ucast ((0xF0 OR ucast (drop_bit 18 cp) :: u8) AND 0x07)) OR
        push_bit 12 (ucast (sutf8_cont 12 cp AND 0x3F)) OR
        push_bit 6 (ucast (sutf8_cont 6 cp AND 0x3F)) OR ucast (sutf8_cont 0 cp AND 0x3F) = cp"
      by (simp add: u32_eq_iff sutf8_bits hi)
    moreover from 4 have "\<not> cp > 0x10FFFF" by (simp add: word_less_nat_alt)
    ultimately show ?thesis
      using 4 by (simp add: sutf8_decode_one_def sutf8_encode_def Let_def sutf8_bits hi)
  next
    case 5
    then have hi: "\<not> bit cp n" if "26 \<le> n" for n using that u32_high_bits [of cp 26 n] by simp
    have "push_bit 24 (ucast ((0xF8 OR ucast (drop_bit 24 cp) :: u8) AND 0x03)) OR
        push_bit 18 (ucast (sutf8_cont 18 cp AND 0x3F)) OR
        push_bit 12 (ucast (sutf8_cont 12 cp AND 0x3F)) OR
        push_bit 6 (ucast (sutf8_cont 6 cp AND 0x3F)) OR ucast (sutf8_cont 0 cp AND 0x3F) = cp"
      by (simp add: u32_eq_iff sutf8_bits hi)
    moreover from 5 have "\<not> cp > 0x3FFFFFF" by (simp add: word_less_nat_alt)
    ultimately show ?thesis
      using 5 by (simp add: sutf8_decode_one_def sutf8_encode_def Let_def sutf8_bits hi)
  next
    case 6
    have "cp < 0x80000000" using assms by (simp add: sutf8_transportable_def word_less_nat_alt)
    then have hi: "\<not> bit cp n" if "31 \<le> n" for n using that u32_high_bits [of cp 31 n] by simp
    have "push_bit 30 (ucast ((0xFC OR ucast (drop_bit 30 cp) :: u8) AND 0x01)) OR
        push_bit 24 (ucast (sutf8_cont 24 cp AND 0x3F)) OR
        push_bit 18 (ucast (sutf8_cont 18 cp AND 0x3F)) OR
        push_bit 12 (ucast (sutf8_cont 12 cp AND 0x3F)) OR
        push_bit 6 (ucast (sutf8_cont 6 cp AND 0x3F)) OR ucast (sutf8_cont 0 cp AND 0x3F) = cp"
      by (simp add: u32_eq_iff sutf8_bits hi)
    then show ?thesis
      using 6 assms
      by (simp add: sutf8_decode_one_def sutf8_encode_def Let_def sutf8_bits hi sutf8_transportable_def not_le)
  qed
qed

lemma u32_less_pow_bits:
  "k < 32 \<Longrightarrow> (w :: u32) < 2 ^ k \<longleftrightarrow> (\<forall>n<32. k \<le> n \<longrightarrow> \<not> bit w n)"
  using bit_imp_le_length [of w] by (fastforce simp: u32_less_pow_iff)

lemma upt_small:
  "[0..<2] = [0, 1::nat]" "[0..<3] = [0, 1, 2::nat]" "[0..<4] = [0, 1, 2, 3::nat]"
  "[0..<5] = [0, 1, 2, 3, 4::nat]" "[0..<6] = [0, 1, 2, 3, 4, 5::nat]"
  by (simp_all add: numeral_eq_Suc)

lemma sutf8_decode_canonical:
  assumes dec: "sutf8_decode_one s = (n, cp)" and pos: "0 < n"
  shows "sutf8_transportable cp \<and> sutf8_encode cp = take (nat n) s"
proof -
  have ne: "s \<noteq> []" using dec pos by (auto simp: sutf8_decode_one_def)
  let ?u = "s ! 0"
  have take: "take k s = map ((!) s) [0..<k]" if "k \<le> length s" for k
    using that by (simp add: list_eq_iff_nth_eq)
  note D = dec [unfolded sutf8_decode_one_def Let_def sutf8_lead_iff]
  consider "\<not> bit ?u 7"
    | "bit ?u 7" "bit ?u 6" "\<not> bit ?u 5"
    | "bit ?u 7" "bit ?u 6" "bit ?u 5" "\<not> bit ?u 4"
    | "bit ?u 7" "bit ?u 6" "bit ?u 5" "bit ?u 4" "\<not> bit ?u 3"
    | "bit ?u 7" "bit ?u 6" "bit ?u 5" "bit ?u 4" "bit ?u 3" "\<not> bit ?u 2"
    | "bit ?u 7" "bit ?u 6" "bit ?u 5" "bit ?u 4" "bit ?u 3" "bit ?u 2" "\<not> bit ?u 1"
    | "bit ?u 7" "bit ?u 6" "bit ?u 5" "bit ?u 4" "bit ?u 3" "bit ?u 2" "bit ?u 1"
    | "bit ?u 7" "\<not> bit ?u 6"
    by blast
  then show ?thesis
  proof cases
    case 1
    then have n: "n = 1" and cp: "cp = ucast ?u" using D ne by auto
    have "cp < 2 ^ 7" by (subst u32_less_pow_bits) (simp_all add: cp sutf8_bits 1)
    then have "cp < 0x80" by simp
    moreover have "ucast cp = ?u" by (simp add: cp u8_eq_iff sutf8_bits 1)
    moreover from \<open>cp < 0x80\<close> have "sutf8_transportable cp"
      by (simp add: sutf8_transportable_def word_less_nat_alt)
    ultimately show ?thesis using ne by (simp add: n sutf8_encode_def take_Suc_conv_app_nth)
  next
    case 2
    then have n: "n = 2" and len: "2 \<le> length s"
      and c: "bit (s ! 1) 7" "\<not> bit (s ! 1) 6"
      and cp: "cp = push_bit 6 (ucast (?u AND 0x1F)) OR ucast (s ! 1 AND 0x3F)"
      and rng: "\<not> cp < 0x80"
      using D ne pos by (auto split: if_splits simp del: One_nat_def)
    have "cp < 2 ^ 11" by (subst u32_less_pow_bits) (simp_all add: cp sutf8_bits)
    then have hi: "cp < 0x800" by simp
    have "0xC0 OR ucast (drop_bit 6 cp) = ?u"
      "sutf8_cont 0 cp = s ! 1"
      by (simp_all add: cp u8_eq_iff sutf8_bits 2 [unfolded One_nat_def] c [unfolded One_nat_def] numeral_2_eq_2 [symmetric])
    moreover have "sutf8_transportable cp"
      using rng hi by (simp add: sutf8_transportable_def word_less_nat_alt word_le_nat_alt)
    ultimately show ?thesis using len rng hi
      by (simp add: n take sutf8_encode_def upt_small word_less_nat_alt word_le_nat_alt)
  next
    case 3
    then have n: "n = 3" and len: "3 \<le> length s"
      and c: "bit (s ! 1) 7" "\<not> bit (s ! 1) 6" "bit (s ! 2) 7" "\<not> bit (s ! 2) 6"
      and cp: "cp = push_bit 12 (ucast (?u AND 0x0F)) OR push_bit 6 (ucast (s ! 1 AND 0x3F)) OR ucast (s ! 2 AND 0x3F)"
      and rng: "\<not> cp < 0x800"
      using D ne pos by (auto split: if_splits simp del: One_nat_def)
    have "cp < 2 ^ 16" by (subst u32_less_pow_bits) (simp_all add: cp sutf8_bits)
    then have hi: "cp < 0x10000" by simp
    have "0xE0 OR ucast (drop_bit 12 cp) = ?u"
      "sutf8_cont 6 cp = s ! 1" "sutf8_cont 0 cp = s ! 2"
      by (simp_all add: cp u8_eq_iff sutf8_bits 3 [unfolded One_nat_def] c [unfolded One_nat_def] numeral_2_eq_2 [symmetric])
    moreover have "sutf8_transportable cp"
      using rng hi by (simp add: sutf8_transportable_def word_less_nat_alt word_le_nat_alt)
    ultimately show ?thesis using len rng hi
      by (simp add: n take sutf8_encode_def upt_small word_less_nat_alt word_le_nat_alt)
  next
    case 4
    then have n: "n = 4" and len: "4 \<le> length s"
      and c: "bit (s ! 1) 7" "\<not> bit (s ! 1) 6" "bit (s ! 2) 7" "\<not> bit (s ! 2) 6" "bit (s ! 3) 7" "\<not> bit (s ! 3) 6"
      and cp: "cp = push_bit 18 (ucast (?u AND 0x07)) OR push_bit 12 (ucast (s ! 1 AND 0x3F)) OR push_bit 6 (ucast (s ! 2 AND 0x3F)) OR ucast (s ! 3 AND 0x3F)"
      and rng: "\<not> cp < 0x10000" "\<not> cp > 0x10FFFF"
      using D ne pos by (auto split: if_splits simp del: One_nat_def)
    have "0xF0 OR ucast (drop_bit 18 cp) = ?u"
      "sutf8_cont 12 cp = s ! 1" "sutf8_cont 6 cp = s ! 2" "sutf8_cont 0 cp = s ! 3"
      by (simp_all add: cp u8_eq_iff sutf8_bits 4 [unfolded One_nat_def] c [unfolded One_nat_def] numeral_2_eq_2 [symmetric])
    moreover have "sutf8_transportable cp"
      using rng by (simp add: sutf8_transportable_def word_less_nat_alt word_le_nat_alt)
    ultimately show ?thesis using len rng
      by (simp add: n take sutf8_encode_def upt_small word_less_nat_alt word_le_nat_alt)
  next
    case 5
    then have n: "n = 5" and len: "5 \<le> length s"
      and c: "bit (s ! 1) 7" "\<not> bit (s ! 1) 6" "bit (s ! 2) 7" "\<not> bit (s ! 2) 6" "bit (s ! 3) 7" "\<not> bit (s ! 3) 6" "bit (s ! 4) 7" "\<not> bit (s ! 4) 6"
      and cp: "cp = push_bit 24 (ucast (?u AND 0x03)) OR push_bit 18 (ucast (s ! 1 AND 0x3F)) OR push_bit 12 (ucast (s ! 2 AND 0x3F)) OR push_bit 6 (ucast (s ! 3 AND 0x3F)) OR ucast (s ! 4 AND 0x3F)"
      and rng: "\<not> cp < 0x110000" "\<not> cp > 0x3FFFFFF"
      using D ne pos by (auto split: if_splits simp del: One_nat_def)
    have "0xF8 OR ucast (drop_bit 24 cp) = ?u"
      "sutf8_cont 18 cp = s ! 1" "sutf8_cont 12 cp = s ! 2" "sutf8_cont 6 cp = s ! 3" "sutf8_cont 0 cp = s ! 4"
      by (simp_all add: cp u8_eq_iff sutf8_bits 5 [unfolded One_nat_def] c [unfolded One_nat_def] numeral_2_eq_2 [symmetric])
    moreover have "sutf8_transportable cp"
      using rng by (simp add: sutf8_transportable_def word_less_nat_alt word_le_nat_alt)
    ultimately show ?thesis using len rng
      by (simp add: n take sutf8_encode_def upt_small word_less_nat_alt word_le_nat_alt)
  next
    case 6
    then have n: "n = 6" and len: "6 \<le> length s"
      and c: "bit (s ! 1) 7" "\<not> bit (s ! 1) 6" "bit (s ! 2) 7" "\<not> bit (s ! 2) 6" "bit (s ! 3) 7" "\<not> bit (s ! 3) 6" "bit (s ! 4) 7" "\<not> bit (s ! 4) 6" "bit (s ! 5) 7" "\<not> bit (s ! 5) 6"
      and cp: "cp = push_bit 30 (ucast (?u AND 0x01)) OR push_bit 24 (ucast (s ! 1 AND 0x3F)) OR push_bit 18 (ucast (s ! 2 AND 0x3F)) OR push_bit 12 (ucast (s ! 3 AND 0x3F)) OR push_bit 6 (ucast (s ! 4 AND 0x3F)) OR ucast (s ! 5 AND 0x3F)"
      and rng: "\<not> cp < 0x4000000" "\<not> cp \<ge> 0x7FFFFFF0"
      using D ne pos by (auto split: if_splits simp del: One_nat_def)
    have "0xFC OR ucast (drop_bit 30 cp) = ?u"
      "sutf8_cont 24 cp = s ! 1" "sutf8_cont 18 cp = s ! 2" "sutf8_cont 12 cp = s ! 3" "sutf8_cont 6 cp = s ! 4" "sutf8_cont 0 cp = s ! 5"
      by (simp_all add: cp u8_eq_iff sutf8_bits 6 [unfolded One_nat_def] c [unfolded One_nat_def] numeral_2_eq_2 [symmetric])
    moreover have "sutf8_transportable cp"
      using rng by (simp add: sutf8_transportable_def word_less_nat_alt word_le_nat_alt)
    ultimately show ?thesis using len rng
      by (simp add: n take sutf8_encode_def upt_small word_less_nat_alt word_le_nat_alt)
  next
    case 7
    then show ?thesis using D ne pos by simp
  next
    case 8
    then show ?thesis using D ne pos by simp
  qed
qed

lemma sutf8_encode_nonempty [simp]: "sutf8_encode cp \<noteq> []"
  by (simp add: sutf8_encode_def)

lemma sutf8_decode_length:
  "sutf8_decode_one s = (n, cp) \<Longrightarrow> 0 < n \<Longrightarrow> s = sutf8_encode cp @ drop (nat n) s"
  using sutf8_decode_canonical [of s n cp] by (metis append_take_drop_id)

lemma sutf8_validate_text: "\<forall>c\<in>set cps. sutf8_transportable c \<Longrightarrow> sutf8_validate_loop (sutf8_text cps)"
  by (induction cps)
    (simp_all add: sutf8_validate_loop.simps [of "[]"] sutf8_validate_loop.simps [of "_ @ _"]
      sutf8_decode_encode Let_def)

lemma sutf8_validate_iff:
  "sutf8_validate_loop s \<longleftrightarrow> (\<exists>cps. (\<forall>c\<in>set cps. sutf8_transportable c) \<and> s = sutf8_text cps)"
proof
  show "sutf8_validate_loop s \<Longrightarrow> \<exists>cps. (\<forall>c\<in>set cps. sutf8_transportable c) \<and> s = sutf8_text cps"
  proof (induction s rule: sutf8_validate_loop.induct)
    case (1 s)
    show ?case
    proof (cases "s = []")
      case True
      then show ?thesis by (intro exI [of _ "[]"]) simp
    next
      case False
      obtain n cp where d: "sutf8_decode_one s = (n, cp)" by force
      with 1(2) False have n: "0 < n" and v: "sutf8_validate_loop (drop (nat n) s)"
        by (auto simp: sutf8_validate_loop.simps [of s] Let_def split: if_splits)
      from 1(1) [OF False refl] d n v obtain cps
        where cps: "\<forall>c\<in>set cps. sutf8_transportable c" "drop (nat n) s = sutf8_text cps"
        by auto
      from sutf8_decode_canonical [OF d n] sutf8_decode_length [OF d n] cps
      show ?thesis by (intro exI [of _ "cp # cps"]) simp
    qed
  qed
qed (auto intro: sutf8_validate_text)

lemma sutf8_cmp_text:
  "\<forall>c\<in>set as. sutf8_transportable c \<Longrightarrow> \<forall>c\<in>set bs. sutf8_transportable c \<Longrightarrow>
   sutf8_cmp_loop (sutf8_text as) (sutf8_text bs) = (if as < bs then -1 else if as = bs then 0 else 1)"
proof (induction as arbitrary: bs)
  case Nil
  then show ?case by (cases bs) (simp_all add: sutf8_cmp_loop.simps [of "[]"])
next
  case (Cons a as)
  show ?case
  proof (cases bs)
    case Nil
    then show ?thesis by (simp add: sutf8_cmp_loop.simps [of "_ @ _"])
  next
    case (Cons b bs')
    with Cons.prems Cons.IH [of bs'] show ?thesis
      by (auto simp: sutf8_cmp_loop.simps [of "_ @ _"] sutf8_decode_encode)
  qed
qed

lemma sutf8_cmp_0:
  "sutf8_cmp_loop a b = 0 \<longleftrightarrow> a = b \<and> sutf8_validate_loop a"
proof
  show "sutf8_cmp_loop a b = 0 \<Longrightarrow> a = b \<and> sutf8_validate_loop a"
  proof (induction a b rule: sutf8_cmp_loop.induct)
    case (1 a b)
    obtain na ca nb cb where d: "sutf8_decode_one a = (na, ca)" "sutf8_decode_one b = (nb, cb)"
      by force
    show ?case
    proof (cases "a \<noteq> [] \<and> b \<noteq> []")
      case True
      with 1(2) d have n: "0 < na" "0 < nb" "ca = cb"
        and r: "sutf8_cmp_loop (drop (nat na) a) (drop (nat nb) b) = 0"
        by (auto simp: sutf8_cmp_loop.simps [of a] split: if_splits)
      have IH: "drop (nat na) a = drop (nat nb) b \<and> sutf8_validate_loop (drop (nat na) a)"
        using 1(1) [OF True d(1) [symmetric] refl d(2) [symmetric] refl] n r by auto
      with n sutf8_decode_length [OF d(1)] sutf8_decode_length [OF d(2)] have "a = b" by metis
      moreover have "sutf8_validate_loop a"
        using conjunct2 [OF IH] True d n by (subst sutf8_validate_loop.simps) (simp add: Let_def)
      ultimately show ?thesis ..
    next
      case False
      with 1(2) show ?thesis
        by (auto simp: sutf8_cmp_loop.simps [of a] sutf8_validate_loop.simps [of "[]"] split: if_splits)
    qed
  qed
next
  assume "a = b \<and> sutf8_validate_loop a"
  then show "sutf8_cmp_loop a b = 0" by (auto simp: sutf8_validate_iff sutf8_cmp_text)
qed

section \<open>Copying names\<close>

lemma ow_sutf8_name_copy_eq:
  assumes "0 < cap" and "cap \<le> length d" and "n \<le> length s"
  shows "ow_sutf8_name_copy (Some d) cap (Some s) n =
     (let m = min n (cap - 1) in (Some (overwrite 0 (take m s @ [0]) d), m))"
proof -
  define m where "m = (if n < cap then n else cap - 1)"
  have m: "m = min n (cap - 1)" "m < cap" "m \<le> length s" using assms by (auto simp: m_def)
  have "(if m > 0 then ow_memcpy d 0 s 0 m else d)[m := 0] = overwrite 0 (take m s @ [0]) d"
    using assms m
    by (intro nth_equalityI)
      (auto simp: ow_memcpy_eq nth_overwrite nth_list_update nth_append)
  with assms show ?thesis
    by (simp add: ow_sutf8_name_copy_def Let_def m_def [symmetric] m(1) [symmetric] flip: One_nat_def)
qed

text \<open>The name argument of an operation: a buffer of at least \<open>name_len\<close> bytes, or NULL.\<close>

definition name_arg_ok :: "bytes option \<Rightarrow> nat \<Rightarrow> bool" where
  "name_arg_ok name name_len \<longleftrightarrow> (case name of None \<Rightarrow> True | Some nm \<Rightarrow> name_len \<le> length nm)"

end
