(* ===== verification/OW_Sec.thy ===== *)
theory OW_Sec
  imports OW_Prelude
begin

text \<open>
  \<^verbatim>\<open>common/src/ow_sec.c\<close>: the current principal and the resolution of a 9-bit mode against it.
  The static \<^verbatim>\<open>g_current\<close> is the state of this component; the operations that read it take it as
  an argument. Every file-system operation that checks access or visibility takes the principal
  the same way.
\<close>

unbundle bit_operations_syntax

record ow_identity =
  uid :: u32
  gid :: u32

definition OW_ACCESS_READ :: u8 where "OW_ACCESS_READ = 1"
definition OW_ACCESS_WRITE :: u8 where "OW_ACCESS_WRITE = 2"
definition OW_ACCESS_EXEC :: u8 where "OW_ACCESS_EXEC = 4"

text \<open>\<^verbatim>\<open>g_current\<close> at start-up.\<close>

definition g_current_init :: ow_identity where
  "g_current_init = \<lparr>uid = 0, gid = 0\<rparr>"

definition ow_sec_reset :: "ow_identity \<Rightarrow> ow_identity" where
  "ow_sec_reset g = g\<lparr>uid := 0, gid := 0\<rparr>"

definition ow_sec_set_identity :: "ow_identity option \<Rightarrow> ow_identity \<Rightarrow> ow_identity" where
  "ow_sec_set_identity i g =
     (case i of None \<Rightarrow> ow_sec_reset g | Some i \<Rightarrow> g\<lparr>uid := uid i, gid := gid i\<rparr>)"

definition ow_sec_current :: "ow_identity \<Rightarrow> ow_identity" where
  "ow_sec_current g = g"

definition ow_sec_is_superuser :: "ow_identity \<Rightarrow> bool" where
  "ow_sec_is_superuser g \<longleftrightarrow> uid g = 0"

definition ow_sec_access :: "ow_identity \<Rightarrow> u16 \<Rightarrow> u16 \<Rightarrow> u16 \<Rightarrow> u8 \<Rightarrow> bool" where
  "ow_sec_access g mode owner_uid owner_gid want =
     (if uid g = 0 then True
      else
        let bits = (if uid g = ucast owner_uid then drop_bit 6 mode AND 7
                    else if gid g = ucast owner_gid then drop_bit 3 mode AND 7
                    else mode AND 7)
        in if want AND OW_ACCESS_READ \<noteq> 0 \<and> bits AND 4 = 0 then False
           else if want AND OW_ACCESS_WRITE \<noteq> 0 \<and> bits AND 2 = 0 then False
           else if want AND OW_ACCESS_EXEC \<noteq> 0 \<and> bits AND 1 = 0 then False
           else True)"

section \<open>Lemmas\<close>

text \<open>The class of the principal selects one rwx triple; \<open>access_shift\<close> is the position of its
  execute bit in the mode.\<close>

definition access_shift :: "ow_identity \<Rightarrow> u16 \<Rightarrow> u16 \<Rightarrow> nat" where
  "access_shift g owner_uid owner_gid =
     (if uid g = ucast owner_uid then 6 else if gid g = ucast owner_gid then 3 else 0)"

lemma and_pow_eq_0: "(w :: 'a::len word) AND 2 ^ k = 0 \<longleftrightarrow> \<not> bit w k"
  by (simp add: and_exp_eq_0_iff_not_bit)

lemma mask_bits:
  "(w :: 'a::len word) AND 1 = 0 \<longleftrightarrow> \<not> bit w 0"
  "(w :: 'a::len word) AND 2 = 0 \<longleftrightarrow> \<not> bit w 1"
  "(w :: 'a::len word) AND 4 = 0 \<longleftrightarrow> \<not> bit w 2"
  using and_pow_eq_0 [of w 0] and_pow_eq_0 [of w 1] and_pow_eq_0 [of w 2] by simp_all

text \<open>The state masks of both file systems (dirty 1, error 2, locked 4).\<close>

lemma state_mask_bits:
  "(w :: u32) AND (4 OR 2) \<noteq> 0 \<longleftrightarrow> bit w 2 \<or> bit w 1"
  "(w :: u32) AND (1 OR 4 OR 2) \<noteq> 0 \<longleftrightarrow> bit w 0 \<or> bit w 2 \<or> bit w 1"
  "(w :: u32) AND (1 OR 4) \<noteq> 0 \<longleftrightarrow> bit w 0 \<or> bit w 2"
  using mask_bits [of w] by (simp_all only: bit.conj_disj_distrib or_eq_0_iff de_Morgan_conj, simp_all)

lemma state_bits [simp]:
  "(w :: u32) AND 2 = 0 \<longleftrightarrow> \<not> bit w 1"
  "bit (w OR 1) k \<longleftrightarrow> bit w k \<or> k = 0"
  "bit (w OR 2) k \<longleftrightarrow> bit w k \<or> k = 1"
  "bit (w OR 4) k \<longleftrightarrow> bit w k \<or> k = 2"
  "bit (w AND NOT (1 OR 4)) k \<longleftrightarrow> bit w k \<and> k \<noteq> 0 \<and> k \<noteq> 2"
  "bit (w AND NOT (1 OR 4 OR 2)) k \<longleftrightarrow>
     bit w k \<and> k \<noteq> 0 \<and> k \<noteq> 2 \<and> k \<noteq> 1"
proof -
  have p: "bit (1 :: u32) k \<longleftrightarrow> k = 0" "bit (2 :: u32) k \<longleftrightarrow> k = 1" "bit (4 :: u32) k \<longleftrightarrow> k = 2"
    using bit_exp_iff [of 0 k, where 'a = u32] bit_exp_iff [of 1 k, where 'a = u32] bit_exp_iff [of 2 k, where 'a = u32]
    by auto
  have k: "bit w k \<Longrightarrow> k < 32" by (auto dest: bit_imp_le_length)
  show "(w :: u32) AND 2 = 0 \<longleftrightarrow> \<not> bit w 1" by (rule mask_bits)
  show "bit (w OR 1) k \<longleftrightarrow> bit w k \<or> k = 0" "bit (w OR 2) k \<longleftrightarrow> bit w k \<or> k = 1"
    "bit (w OR 4) k \<longleftrightarrow> bit w k \<or> k = 2"
    by (simp_all only: bit_or_iff p)
  show "bit (w AND NOT (1 OR 4)) k \<longleftrightarrow> bit w k \<and> k \<noteq> 0 \<and> k \<noteq> 2"
    "bit (w AND NOT (1 OR 4 OR 2)) k \<longleftrightarrow>
     bit w k \<and> k \<noteq> 0 \<and> k \<noteq> 2 \<and> k \<noteq> 1"
    using k by (simp_all only: bit_or_iff bit_and_iff bit_not_iff p) auto
qed

lemmas state_bits_evaluated [simp] = state_bits(5,6) [simplified]

lemma ow_sec_access_bits:
  assumes "uid g \<noteq> 0"
  shows "ow_sec_access g mode ou og want \<longleftrightarrow>
    (let s = access_shift g ou og in
      (bit want 0 \<longrightarrow> bit mode (s + 2)) \<and> (bit want 1 \<longrightarrow> bit mode (s + 1)) \<and> (bit want 2 \<longrightarrow> bit mode s))"
proof -
  have 7: "bit (7 :: u16) 0" "bit (7 :: u16) 1" "bit (7 :: u16) 2" by simp_all
  show ?thesis
    using assms
    by (auto simp: ow_sec_access_def OW_ACCESS_READ_def OW_ACCESS_WRITE_def OW_ACCESS_EXEC_def
        mask_bits access_shift_def Let_def bit_and_iff bit_drop_bit_eq 7 numeral_2_eq_2 [symmetric])
qed

abbreviation superuser :: ow_identity where
  "superuser \<equiv> \<lparr>uid = 0, gid = 0\<rparr>"

end
