(* ===== verification/OW_Htl.thy ===== *)
theory OW_Htl
  imports OW_Checksum
begin

text \<open>
  \<^verbatim>\<open>common/src/ow_htl.c\<close>: the hardware translation layer. A device carries its driver's callbacks
  and the driver's context; a callback is a function of the context that returns its status, the
  bytes it leaves in the caller's buffer and the context afterwards, so a driver may keep any state
  and fail at any call. The driver is code the library calls and does not contain: the locale
  \<open>htl_driver\<close> states what a working driver promises, \<open>htl_reliable\<close> that a device has one, and
  the RAM disks of the host tests (\<^verbatim>\<open>owfs/tests/test_owfs.c\<close>, \<^verbatim>\<open>usfs/tests/test_usfs.c\<close>) are shown to keep the promise.
\<close>

unbundle bit_operations_syntax

datatype htl_status =
    HTL_OK | HTL_ERR_IO | HTL_ERR_TIMEOUT | HTL_ERR_INVALID_BLOCK | HTL_ERR_NOT_READY
  | HTL_ERR_WRITE_PROTECT | HTL_ERR_NO_DEVICE | HTL_ERR_INVALID_PARAM

datatype htl_device_type = HTL_DEV_UNKNOWN | HTL_DEV_NVME | HTL_DEV_AHCI_SATA | HTL_DEV_USB_MASS

record 'c htl_device =
  read_block :: "('c \<Rightarrow> u32 \<Rightarrow> u32 \<Rightarrow> htl_status \<times> bytes \<times> 'c) option"
  write_block :: "('c \<Rightarrow> u32 \<Rightarrow> bytes \<Rightarrow> u32 \<Rightarrow> htl_status \<times> 'c) option"
  flush_cache :: "('c \<Rightarrow> htl_status \<times> 'c) option"
  entropy :: "('c \<Rightarrow> nat \<Rightarrow> htl_status \<times> bytes \<times> 'c) option"
  driver_ctx :: 'c
  device_type :: htl_device_type
  block_size :: u32
  total_blocks :: u32
  write_protect :: u8

definition htl_device_valid :: "'c htl_device \<Rightarrow> bool" where
  "htl_device_valid dev \<longleftrightarrow>
     read_block dev \<noteq> None \<and> write_block dev \<noteq> None \<and> \<not> block_size dev < 0x200"

definition htl_read_block :: "'c htl_device \<Rightarrow> u32 \<Rightarrow> htl_status \<times> bytes \<times> 'c htl_device" where
  "htl_read_block dev block_num =
     (if \<not> htl_device_valid dev then (HTL_ERR_INVALID_PARAM, [], dev)
      else if total_blocks dev > 0 \<and> block_num \<ge> total_blocks dev then (HTL_ERR_INVALID_BLOCK, [], dev)
      else case read_block dev of
          None \<Rightarrow> (HTL_ERR_INVALID_PARAM, [], dev)
        | Some rd \<Rightarrow> (case rd (driver_ctx dev) block_num (block_size dev) of
            (st, buf, c) \<Rightarrow> (st, buf, dev\<lparr>driver_ctx := c\<rparr>)))"

definition htl_write_block :: "'c htl_device \<Rightarrow> u32 \<Rightarrow> bytes \<Rightarrow> htl_status \<times> 'c htl_device" where
  "htl_write_block dev block_num buf =
     (if \<not> htl_device_valid dev then (HTL_ERR_INVALID_PARAM, dev)
      else if write_protect dev \<noteq> 0 then (HTL_ERR_WRITE_PROTECT, dev)
      else if total_blocks dev > 0 \<and> block_num \<ge> total_blocks dev then (HTL_ERR_INVALID_BLOCK, dev)
      else case write_block dev of
          None \<Rightarrow> (HTL_ERR_INVALID_PARAM, dev)
        | Some wr \<Rightarrow> (case wr (driver_ctx dev) block_num buf (block_size dev) of
            (st, c) \<Rightarrow> (st, dev\<lparr>driver_ctx := c\<rparr>)))"

definition htl_flush_cache :: "'c htl_device \<Rightarrow> htl_status \<times> 'c htl_device" where
  "htl_flush_cache dev =
     (if \<not> htl_device_valid dev then (HTL_ERR_INVALID_PARAM, dev)
      else case flush_cache dev of
          Some fl \<Rightarrow> (case fl (driver_ctx dev) of (st, c) \<Rightarrow> (st, dev\<lparr>driver_ctx := c\<rparr>))
        | None \<Rightarrow> (HTL_OK, dev))"

definition htl_get_entropy :: "'c htl_device \<Rightarrow> nat \<Rightarrow> htl_status \<times> bytes \<times> 'c htl_device" where
  "htl_get_entropy dev len =
     (if \<not> htl_device_valid dev \<or> len = 0 then (HTL_ERR_INVALID_PARAM, [], dev)
      else case entropy dev of
          None \<Rightarrow> (HTL_ERR_NOT_READY, [], dev)
        | Some en \<Rightarrow> (case en (driver_ctx dev) len of
            (st, out, c) \<Rightarrow> (st, out, dev\<lparr>driver_ctx := c\<rparr>)))"

definition htl_zero_block :: "'c htl_device \<Rightarrow> u32 \<Rightarrow> htl_status \<times> 'c htl_device" where
  "htl_zero_block dev block_num =
     (if \<not> htl_device_valid dev then (HTL_ERR_INVALID_PARAM, dev)
      else
        let zero_buf = replicate 4096 0 in
        if block_size dev \<le> 4096 then htl_write_block dev block_num zero_buf
        else (HTL_ERR_INVALID_PARAM, dev))"

section \<open>The RAM disks of the host tests\<close>

record ramdisk =
  g_ramdisk :: bytes
  g_entropy_state :: u32

definition ramdisk_read :: "ramdisk \<Rightarrow> u32 \<Rightarrow> u32 \<Rightarrow> htl_status \<times> bytes \<times> ramdisk" where
  "ramdisk_read c block_num bsize =
     (if block_num \<ge> 512 \<or> bsize \<noteq> 0x1000 then (HTL_ERR_INVALID_BLOCK, [], c)
      else (HTL_OK, window (unat block_num * 4096) 4096 (g_ramdisk c), c))"

definition ramdisk_write :: "ramdisk \<Rightarrow> u32 \<Rightarrow> bytes \<Rightarrow> u32 \<Rightarrow> htl_status \<times> ramdisk" where
  "ramdisk_write c block_num buf bsize =
     (if block_num \<ge> 512 \<or> bsize \<noteq> 0x1000 then (HTL_ERR_INVALID_BLOCK, c)
      else (HTL_OK, c\<lparr>g_ramdisk := ow_memcpy (g_ramdisk c) (unat block_num * 4096) buf 0 4096\<rparr>))"

definition ramdisk_flush :: "ramdisk \<Rightarrow> htl_status \<times> ramdisk" where
  "ramdisk_flush c = (HTL_OK, c)"

fun ramdisk_entropy_loop :: "nat \<Rightarrow> u32 \<Rightarrow> bytes \<times> u32" where
  "ramdisk_entropy_loop 0 s = ([], s)"
| "ramdisk_entropy_loop (Suc n) s =
     (let s = s * 1664525 + 1013904223; (bs, s') = ramdisk_entropy_loop n s
      in (ucast (drop_bit 16 s) # bs, s'))"

definition ramdisk_entropy :: "ramdisk \<Rightarrow> nat \<Rightarrow> htl_status \<times> bytes \<times> ramdisk" where
  "ramdisk_entropy c len =
     (case ramdisk_entropy_loop len (g_entropy_state c) of
        (out, s) \<Rightarrow> (HTL_OK, out, c\<lparr>g_entropy_state := s\<rparr>))"

text \<open>The device the tests build on a zeroed RAM disk.\<close>

definition ramdisk_device :: "ramdisk htl_device" where
  "ramdisk_device =
     \<lparr>read_block = Some ramdisk_read, write_block = Some ramdisk_write, flush_cache = Some ramdisk_flush,
      entropy = Some ramdisk_entropy,
      driver_ctx = \<lparr>g_ramdisk = replicate (512 * 4096) 0, g_entropy_state = 0x12345678\<rparr>,
      device_type = HTL_DEV_AHCI_SATA, block_size = 0x1000, total_blocks = 512, write_protect = 0\<rparr>"

text \<open>The USFS tests have a driver of their own: half as many blocks, and the top byte of the generator's state.\<close>

definition usfs_ramdisk_read :: "ramdisk \<Rightarrow> u32 \<Rightarrow> u32 \<Rightarrow> htl_status \<times> bytes \<times> ramdisk" where
  "usfs_ramdisk_read c block_num bsize =
     (if block_num \<ge> 256 \<or> bsize \<noteq> 0x1000 then (HTL_ERR_INVALID_BLOCK, [], c)
      else (HTL_OK, window (unat block_num * 4096) 4096 (g_ramdisk c), c))"

definition usfs_ramdisk_write :: "ramdisk \<Rightarrow> u32 \<Rightarrow> bytes \<Rightarrow> u32 \<Rightarrow> htl_status \<times> ramdisk" where
  "usfs_ramdisk_write c block_num buf bsize =
     (if block_num \<ge> 256 \<or> bsize \<noteq> 0x1000 then (HTL_ERR_INVALID_BLOCK, c)
      else (HTL_OK, c\<lparr>g_ramdisk := ow_memcpy (g_ramdisk c) (unat block_num * 4096) buf 0 4096\<rparr>))"

definition usfs_ramdisk_flush :: "ramdisk \<Rightarrow> htl_status \<times> ramdisk" where
  "usfs_ramdisk_flush c = (HTL_OK, c)"

fun usfs_ramdisk_entropy_loop :: "nat \<Rightarrow> u32 \<Rightarrow> bytes \<times> u32" where
  "usfs_ramdisk_entropy_loop 0 s = ([], s)"
| "usfs_ramdisk_entropy_loop (Suc n) s =
     (let s = s * 1664525 + 1013904223; (bs, s') = usfs_ramdisk_entropy_loop n s
      in (ucast (drop_bit 24 s) # bs, s'))"

definition usfs_ramdisk_entropy :: "ramdisk \<Rightarrow> nat \<Rightarrow> htl_status \<times> bytes \<times> ramdisk" where
  "usfs_ramdisk_entropy c len =
     (case usfs_ramdisk_entropy_loop len (g_entropy_state c) of
        (out, s) \<Rightarrow> (HTL_OK, out, c\<lparr>g_entropy_state := s\<rparr>))"

definition usfs_ramdisk_device :: "ramdisk htl_device" where
  "usfs_ramdisk_device =
     \<lparr>read_block = Some usfs_ramdisk_read, write_block = Some usfs_ramdisk_write, flush_cache = Some usfs_ramdisk_flush,
      entropy = Some usfs_ramdisk_entropy,
      driver_ctx = \<lparr>g_ramdisk = replicate (256 * 4096) 0, g_entropy_state = 0x9E3779B9\<rparr>,
      device_type = HTL_DEV_USB_MASS, block_size = 0x1000, total_blocks = 256, write_protect = 0\<rparr>"

section \<open>What a working driver promises\<close>

locale htl_driver =
  fixes rd :: "'c \<Rightarrow> u32 \<Rightarrow> u32 \<Rightarrow> htl_status \<times> bytes \<times> 'c"
    and wr :: "'c \<Rightarrow> u32 \<Rightarrow> bytes \<Rightarrow> u32 \<Rightarrow> htl_status \<times> 'c"
    and fl :: "('c \<Rightarrow> htl_status \<times> 'c) option"
    and en :: "('c \<Rightarrow> nat \<Rightarrow> htl_status \<times> bytes \<times> 'c) option"
    and capacity :: u32
    and inv :: "'c \<Rightarrow> bool"
  assumes read_ok: "inv c \<Longrightarrow> b < capacity \<Longrightarrow> \<exists>data. rd c b 4096 = (HTL_OK, data, c) \<and> length data = 4096"
    and write_ok: "inv c \<Longrightarrow> b < capacity \<Longrightarrow> length buf = 4096 \<Longrightarrow>
      \<exists>c'. wr c b buf 4096 = (HTL_OK, c') \<and> inv c' \<and>
        (\<forall>x. x < capacity \<longrightarrow> fst (snd (rd c' x 4096)) = (if x = b then buf else fst (snd (rd c x 4096))))"
    and flush_ok: "inv c \<Longrightarrow> fl = Some f \<Longrightarrow>
      \<exists>c'. f c = (HTL_OK, c') \<and> inv c' \<and> (\<forall>x. x < capacity \<longrightarrow> fst (snd (rd c' x 4096)) = fst (snd (rd c x 4096)))"
    and entropy_ok: "inv c \<Longrightarrow> en = Some e \<Longrightarrow> e c n = (st, out, c') \<Longrightarrow>
      inv c' \<and> (st = HTL_OK \<longrightarrow> length out = n) \<and>
      (\<forall>x. x < capacity \<longrightarrow> fst (snd (rd c' x 4096)) = fst (snd (rd c x 4096)))"
begin

definition content :: "'c \<Rightarrow> u32 \<Rightarrow> bytes" where
  "content c b = fst (snd (rd c b 4096))"

lemma read_content: "inv c \<Longrightarrow> b < capacity \<Longrightarrow> rd c b 4096 = (HTL_OK, content c b, c)"
  using read_ok [of c b] by (auto simp: content_def)

lemma length_content: "inv c \<Longrightarrow> b < capacity \<Longrightarrow> length (content c b) = 4096"
  using read_ok [of c b] by (auto simp: content_def)

lemma write_content:
  assumes "inv c" and "b < capacity" and "length buf = 4096"
  shows "fst (wr c b buf 4096) = HTL_OK" and "inv (snd (wr c b buf 4096))"
    and "x < capacity \<Longrightarrow> content (snd (wr c b buf 4096)) x = (if x = b then buf else content c x)"
  using write_ok [OF assms] by (auto simp: content_def)

end

text \<open>A driver that copies blocks from and to an array keeps the promise, whatever its size.\<close>

lemma ramdisk_driver:
  fixes N :: u32 and rd :: "ramdisk \<Rightarrow> u32 \<Rightarrow> u32 \<Rightarrow> htl_status \<times> bytes \<times> ramdisk"
  assumes rd: "\<And>c x. rd c x 4096 = (if x \<ge> N then (HTL_ERR_INVALID_BLOCK, [], c)
      else (HTL_OK, window (unat x * 4096) 4096 (g_ramdisk c), c))"
    and wr: "\<And>c x buf. wr c x buf 4096 = (if x \<ge> N then (HTL_ERR_INVALID_BLOCK, c)
      else (HTL_OK, c\<lparr>g_ramdisk := ow_memcpy (g_ramdisk c) (unat x * 4096) buf 0 4096\<rparr>))"
    and fl: "\<And>c. fl c = (HTL_OK, c)"
    and en: "\<And>c n st out c'. en c n = (st, out, c') \<Longrightarrow> length out = n \<and> g_ramdisk c' = g_ramdisk c"
  shows "htl_driver rd wr (Some fl) (Some en) N (\<lambda>c. length (g_ramdisk c) = unat N * 4096)"
proof
  fix c :: ramdisk and b :: u32
  assume c: "length (g_ramdisk c) = unat N * 4096" and b: "b < N"
  then have ub: "unat b < unat N" by (simp add: word_less_nat_alt)
  then have room: "unat b * 4096 + 4096 \<le> unat N * 4096" by linarith
  show "\<exists>data. rd c b 4096 = (HTL_OK, data, c) \<and> length data = 4096" using b c room by (simp add: rd not_le)
  fix buf :: bytes assume buf: "length buf = 4096"
  let ?c' = "c\<lparr>g_ramdisk := overwrite (unat b * 4096) buf (g_ramdisk c)\<rparr>"
  have w: "wr c b buf 4096 = (HTL_OK, ?c')" using b c buf room by (simp add: wr not_le ow_memcpy_eq window_all)
  have l: "length (g_ramdisk ?c') = unat N * 4096" using c buf room by simp
  have "fst (snd (rd ?c' x 4096)) = (if x = b then buf else fst (snd (rd c x 4096)))" if x: "x < N" for x
  proof -
    have "unat x * 4096 + 4096 \<le> unat N * 4096" using x by (simp add: word_less_nat_alt)
    moreover have "x \<noteq> b \<Longrightarrow> unat x < unat b \<or> unat b < unat x" by (meson linorder_neqE_nat word_unat_eq_iff)
    ultimately show ?thesis using c buf x room by (auto simp: rd not_le intro!: window_overwrite_disjoint)
  qed
  with w l show "\<exists>c'. wr c b buf 4096 = (HTL_OK, c') \<and> length (g_ramdisk c') = unat N * 4096 \<and>
      (\<forall>x. x < N \<longrightarrow> fst (snd (rd c' x 4096)) = (if x = b then buf else fst (snd (rd c x 4096))))" by blast
qed (use fl en in \<open>auto simp: rd\<close>)

lemma length_ramdisk_entropy:
  "length (fst (ramdisk_entropy_loop n s)) = n" "length (fst (usfs_ramdisk_entropy_loop n s)) = n"
  by (induction n arbitrary: s) (simp_all add: Let_def case_prod_beta)

interpretation ram: htl_driver ramdisk_read ramdisk_write "Some ramdisk_flush" "Some ramdisk_entropy" 512
    "\<lambda>c. length (g_ramdisk c) = unat (512 :: u32) * 4096"
  by (rule ramdisk_driver)
    (auto simp: ramdisk_read_def ramdisk_write_def ramdisk_flush_def ramdisk_entropy_def length_ramdisk_entropy case_prod_beta)

interpretation usb_ram: htl_driver usfs_ramdisk_read usfs_ramdisk_write "Some usfs_ramdisk_flush" "Some usfs_ramdisk_entropy" 256
    "\<lambda>c. length (g_ramdisk c) = unat (256 :: u32) * 4096"
  by (rule ramdisk_driver)
    (auto simp: usfs_ramdisk_read_def usfs_ramdisk_write_def usfs_ramdisk_flush_def usfs_ramdisk_entropy_def length_ramdisk_entropy case_prod_beta)

section \<open>Reliable devices\<close>

definition htl_reliable :: "'c htl_device \<Rightarrow> bool" where
  "htl_reliable dev \<longleftrightarrow>
     (\<exists>rd wr inv. read_block dev = Some rd \<and> write_block dev = Some wr \<and>
        htl_driver rd wr (flush_cache dev) (entropy dev) (total_blocks dev) inv \<and> inv (driver_ctx dev))
     \<and> block_size dev = 4096 \<and> write_protect dev = 0 \<and> 0 < total_blocks dev"

text \<open>The content of block \<open>b\<close>, and the device after a completed write or flush.\<close>

definition blk :: "'c htl_device \<Rightarrow> u32 \<Rightarrow> bytes" where
  "blk dev b = (case read_block dev of
      None \<Rightarrow> [] | Some rd \<Rightarrow> fst (snd (rd (driver_ctx dev) b (block_size dev))))"

definition blk_write :: "'c htl_device \<Rightarrow> u32 \<Rightarrow> bytes \<Rightarrow> 'c htl_device" where
  "blk_write dev b buf = snd (htl_write_block dev b buf)"

definition htl_flushed :: "'c htl_device \<Rightarrow> 'c htl_device" where
  "htl_flushed dev = snd (htl_flush_cache dev)"

text \<open>Two devices agree on everything but the driver's context: no operation of the library
  replaces a callback or changes the geometry.\<close>

definition same_device :: "'c htl_device \<Rightarrow> 'c htl_device \<Rightarrow> bool" where
  "same_device dev dev' \<longleftrightarrow> dev' = dev\<lparr>driver_ctx := driver_ctx dev'\<rparr>"

text \<open>Some blocks of a set have been filled with zeros and the others kept.\<close>

definition kept_or_zero :: "u32 set \<Rightarrow> 'c htl_device \<Rightarrow> 'c htl_device \<Rightarrow> bool" where
  "kept_or_zero R dev dev' \<longleftrightarrow> (\<forall>x \<in> R. blk dev' x = blk dev x \<or> blk dev' x = replicate 4096 0)"

lemma kept_or_zero_trans [trans]: "kept_or_zero R a b \<Longrightarrow> kept_or_zero R b c \<Longrightarrow> kept_or_zero R a c"
  by (force simp: kept_or_zero_def)

named_theorems dev_simps \<open>device operations on a reliable device\<close>

lemma htl_reliableE:
  assumes "htl_reliable dev"
  obtains rd wr inv where "read_block dev = Some rd" "write_block dev = Some wr"
    "htl_driver rd wr (flush_cache dev) (entropy dev) (total_blocks dev) inv" "inv (driver_ctx dev)"
    "block_size dev = 4096" "write_protect dev = 0" "0 < total_blocks dev" "htl_device_valid dev"
    "blk dev = htl_driver.content rd (driver_ctx dev)"
proof -
  from assms obtain rd wr inv where *: "read_block dev = Some rd" "write_block dev = Some wr"
    "htl_driver rd wr (flush_cache dev) (entropy dev) (total_blocks dev) inv" "inv (driver_ctx dev)"
    "block_size dev = 4096" "write_protect dev = 0" "0 < total_blocks dev"
    by (auto simp: htl_reliable_def)
  moreover from * have "htl_device_valid dev" by (simp add: htl_device_valid_def)
  moreover from * have "blk dev = htl_driver.content rd (driver_ctx dev)"
    by (simp add: fun_eq_iff blk_def htl_driver.content_def [OF *(3)])
  ultimately show thesis by (rule that)
qed

lemma htl_read_reliable [dev_simps]:
  assumes "htl_reliable dev" and "b < total_blocks dev"
  shows "htl_read_block dev b = (HTL_OK, blk dev b, dev)"
  using assms(1)
  by (rule htl_reliableE)
    (simp add: htl_read_block_def htl_driver.read_content assms(2) not_le)

lemma length_blk [dev_simps]:
  "htl_reliable dev \<Longrightarrow> b < total_blocks dev \<Longrightarrow> length (blk dev b) = 4096"
  by (erule htl_reliableE) (simp add: htl_driver.length_content)

lemma htl_write_reliable [dev_simps]:
  assumes "htl_reliable dev" and "b < total_blocks dev" and "length buf = 4096"
  shows "htl_write_block dev b buf = (HTL_OK, blk_write dev b buf)"
proof -
  from assms(1) have "fst (htl_write_block dev b buf) = HTL_OK"
  proof (rule htl_reliableE)
    fix rd wr inv
    assume *: "write_block dev = Some wr"
      "htl_driver rd wr (flush_cache dev) (entropy dev) (total_blocks dev) inv" "inv (driver_ctx dev)"
      "block_size dev = 4096" "write_protect dev = 0" "htl_device_valid dev"
    from htl_driver.write_content(1) [OF *(2,3) assms(2,3)] * assms(2)
    show ?thesis by (auto simp: htl_write_block_def not_le split: prod.splits)
  qed
  then show ?thesis by (simp add: blk_write_def prod_eq_iff)
qed

lemma htl_zero_reliable [dev_simps]:
  "htl_reliable dev \<Longrightarrow> b < total_blocks dev \<Longrightarrow>
   htl_zero_block dev b = (HTL_OK, blk_write dev b (replicate 4096 0))"
  using htl_write_reliable [of dev b "replicate 4096 0"]
  by (auto simp: htl_zero_block_def elim: htl_reliableE)

lemma same_write [simp]: "same_device dev (blk_write dev b buf)"
  by (simp add: same_device_def blk_write_def htl_write_block_def split: option.split prod.split)

lemma same_flush [simp]: "same_device dev (htl_flushed dev)"
  by (simp add: same_device_def htl_flushed_def htl_flush_cache_def split: option.split prod.split)

lemma same_refl [simp]: "same_device dev dev"
  by (simp add: same_device_def)

lemma same_trans [trans]: "same_device a b \<Longrightarrow> same_device b c \<Longrightarrow> same_device a c"
  unfolding same_device_def by (metis htl_device.update_convs(5) htl_device.surjective htl_device.select_convs)

lemma same_deviceD:
  "same_device dev dev' \<Longrightarrow> total_blocks dev' = total_blocks dev \<and> block_size dev' = block_size dev
    \<and> write_protect dev' = write_protect dev"
  by (metis htl_device.ext_inject htl_device.surjective htl_device.update_convs(5) same_device_def)

lemma geometry_write [simp]:
  "total_blocks (blk_write dev b buf) = total_blocks dev"
  "block_size (blk_write dev b buf) = block_size dev"
  "write_protect (blk_write dev b buf) = write_protect dev"
  using same_deviceD [OF same_write] by metis+

lemma geometry_flush [simp]:
  "total_blocks (htl_flushed dev) = total_blocks dev"
  "block_size (htl_flushed dev) = block_size dev"
  "write_protect (htl_flushed dev) = write_protect dev"
  using same_deviceD [OF same_flush] by metis+

lemma blk_write_reliable [dev_simps]:
  assumes dev: "htl_reliable dev" and b: "b < total_blocks dev" and len: "length buf = 4096"
  shows "htl_reliable (blk_write dev b buf)"
    and "x < total_blocks dev \<Longrightarrow> blk (blk_write dev b buf) x = (if x = b then buf else blk dev x)"
proof -
  from dev obtain rd wr inv where *: "read_block dev = Some rd" "write_block dev = Some wr"
    "htl_driver rd wr (flush_cache dev) (entropy dev) (total_blocks dev) inv" "inv (driver_ctx dev)"
    "block_size dev = 4096" "write_protect dev = 0" "0 < total_blocks dev" "htl_device_valid dev"
    "blk dev = htl_driver.content rd (driver_ctx dev)"
    by (rule htl_reliableE)
  note w = htl_driver.write_content [OF *(3,4) b len]
  have eq: "blk_write dev b buf = dev\<lparr>driver_ctx := snd (wr (driver_ctx dev) b buf 4096)\<rparr>"
    using * b by (simp add: blk_write_def htl_write_block_def not_le split: prod.split)
  show "htl_reliable (blk_write dev b buf)"
    unfolding htl_reliable_def eq using * w(2) by auto
  show "blk (blk_write dev b buf) x = (if x = b then buf else blk dev x)" if "x < total_blocks dev"
    unfolding eq using * w(3) [OF that]
    by (simp add: blk_def htl_driver.content_def [OF *(3)])
qed

lemma htl_flush_reliable [dev_simps]:
  assumes dev: "htl_reliable dev"
  shows "htl_flush_cache dev = (HTL_OK, htl_flushed dev)"
    and "htl_reliable (htl_flushed dev)"
    and "x < total_blocks dev \<Longrightarrow> blk (htl_flushed dev) x = blk dev x"
proof -
  from dev obtain rd wr inv where *: "read_block dev = Some rd" "write_block dev = Some wr"
    "htl_driver rd wr (flush_cache dev) (entropy dev) (total_blocks dev) inv" "inv (driver_ctx dev)"
    "block_size dev = 4096" "write_protect dev = 0" "0 < total_blocks dev" "htl_device_valid dev"
    "blk dev = htl_driver.content rd (driver_ctx dev)"
    by (rule htl_reliableE)
  have "htl_flush_cache dev = (HTL_OK, htl_flushed dev) \<and> htl_reliable (htl_flushed dev) \<and>
    (\<forall>x. x < total_blocks dev \<longrightarrow> blk (htl_flushed dev) x = blk dev x)"
  proof (cases "flush_cache dev")
    case None
    then show ?thesis using * dev by (simp add: htl_flushed_def htl_flush_cache_def)
  next
    case (Some f)
    from htl_driver.flush_ok [OF *(3,4) this] obtain c' where f: "f (driver_ctx dev) = (HTL_OK, c')"
      "inv c'" "\<forall>x. x < total_blocks dev \<longrightarrow> fst (snd (rd c' x 4096)) = fst (snd (rd (driver_ctx dev) x 4096))"
      by blast
    have "htl_flush_cache dev = (HTL_OK, dev\<lparr>driver_ctx := c'\<rparr>)"
      using * f Some by (simp add: htl_flush_cache_def)
    then show ?thesis
      using *(1-8) f by (auto simp: htl_flushed_def htl_reliable_def blk_def)
  qed
  then show "htl_flush_cache dev = (HTL_OK, htl_flushed dev)" "htl_reliable (htl_flushed dev)"
    "x < total_blocks dev \<Longrightarrow> blk (htl_flushed dev) x = blk dev x"
    by blast+
qed

lemma htl_entropy_reliable:
  assumes dev: "htl_reliable dev" and e: "htl_get_entropy dev n = (st, out, dev')"
  shows "htl_reliable dev'" and "same_device dev dev'" and "st = HTL_OK \<Longrightarrow> length out = n"
    and "x < total_blocks dev \<Longrightarrow> blk dev' x = blk dev x"
proof -
  from dev obtain rd wr inv where *: "read_block dev = Some rd" "write_block dev = Some wr"
    "htl_driver rd wr (flush_cache dev) (entropy dev) (total_blocks dev) inv" "inv (driver_ctx dev)"
    "block_size dev = 4096" "write_protect dev = 0" "0 < total_blocks dev" "htl_device_valid dev"
    "blk dev = htl_driver.content rd (driver_ctx dev)"
    by (rule htl_reliableE)
  have "htl_reliable dev' \<and> same_device dev dev' \<and> (st = HTL_OK \<longrightarrow> length out = n) \<and>
    (\<forall>x. x < total_blocks dev \<longrightarrow> blk dev' x = blk dev x)"
  proof (cases "n = 0 \<or> entropy dev = None")
    case True
    then have "st \<noteq> HTL_OK" "dev' = dev"
      using *(8) e by (auto simp: htl_get_entropy_def split: if_splits)
    then show ?thesis using dev by simp
  next
    case False
    then obtain f where f: "entropy dev = Some f" by blast
    obtain c' where c': "f (driver_ctx dev) n = (st, out, c')" "dev' = dev\<lparr>driver_ctx := c'\<rparr>"
      using e f False * by (auto simp: htl_get_entropy_def split: prod.splits)
    from htl_driver.entropy_ok [OF *(3,4) f c'(1)] show ?thesis
      using *(1-8) c'(2) by (auto simp: htl_reliable_def blk_def same_device_def)
  qed
  then show "htl_reliable dev'" "same_device dev dev'" "st = HTL_OK \<Longrightarrow> length out = n"
    "x < total_blocks dev \<Longrightarrow> blk dev' x = blk dev x"
    by blast+
qed

lemma ramdisk_reliable: "htl_reliable ramdisk_device"
  using ram.htl_driver_axioms
  by (auto simp: htl_reliable_def ramdisk_device_def intro!: exI [of _ ramdisk_read] exI [of _ ramdisk_write]
      exI [of _ "\<lambda>c. length (g_ramdisk c) = 512 * 4096"])

lemma usfs_ramdisk_reliable: "htl_reliable usfs_ramdisk_device"
  using usb_ram.htl_driver_axioms
  by (auto simp: htl_reliable_def usfs_ramdisk_device_def intro!: exI [of _ usfs_ramdisk_read] exI [of _ usfs_ramdisk_write]
      exI [of _ "\<lambda>c. length (g_ramdisk c) = 256 * 4096"])

lemma htl_read_same: "htl_reliable dev \<Longrightarrow> \<exists>st buf. htl_read_block dev b = (st, buf, dev)"
proof (cases "b < total_blocks dev")
  case False
  assume "htl_reliable dev"
  then show ?thesis
    using False by (elim htl_reliableE) (auto simp: htl_read_block_def not_less)
qed (simp add: htl_read_reliable)

end
