(* ===== verification/OW_Common.thy ===== *)
theory OW_Common
  imports OW_Crypto OW_String OW_Sec OW_Htl
begin

text \<open>
  The properties of the common layer that both file systems build on: checksums, the stream cipher,
  names, access control and the device layer. Each rests on the lemmas of its component's theory.
\<close>

unbundle bit_operations_syntax

section \<open>Checksums\<close>

text \<open>C36: the CRC-32C that protects every on-disk structure notices any damage confined to four adjacent bytes that
  do not overlap the checksum field: two images of the same length that differ, and only inside such a window, have
  different checksums.\<close>

theorem ow_crc32c_struct_detects_burst:
  assumes "length d = n" and "length d' = n" and "off + 4 \<le> n" and "a + m \<le> n" and "m \<le> 4"
    and "a + m \<le> off \<or> off + 4 \<le> a"
    and "\<And>i. i < n \<Longrightarrow> \<not> (a \<le> i \<and> i < a + m) \<Longrightarrow> d ! i = d' ! i" and "d \<noteq> d'"
  shows "ow_crc32c_struct d n off \<noteq> ow_crc32c_struct d' n off"
  using assms by (rule ow_crc32c_struct_burst)

theorem ow_crc32c_struct_detects_burst_witness:
  "ow_crc32c_struct [1, 2, 3, 4, 5, 6, 7, 8] 8 4 \<noteq> ow_crc32c_struct [1, 0, 0, 9, 5, 6, 7, 8] 8 4"
  by (rule ow_crc32c_struct_detects_burst [where a = 1 and m = 3]) (auto simp: nth_Cons' numeral_eq_Suc)

text \<open>C37: the Fletcher-64 of a byte string is the pair of sums modulo 2^32 - 1 that the algorithm is defined by: the
  low half is the sum of its little-endian 32-bit words, the last one zero-padded, and the high half the sum of
  the prefix sums; the 64-bit accumulators never wrap.\<close>

theorem ow_fletcher64_correct:
  "unat (ow_fletcher64 data (length data)) =
     2 ^ 32 * (prefix_sums 0 0 (le_words data) mod (2 ^ 32 - 1)) + sum_list (map unat (le_words data)) mod (2 ^ 32 - 1)"
proof -
  define s where "s = fletcher_run (le_words data) (0, 0)"
  have "fletcher_bounded (0, 0)" by (simp add: fletcher_bounded_def)
  note r = fletcher_run_sums [OF this, of "le_words data", folded s_def]
  have "unat (push_bit 32 (snd s) OR fst s) = 2 ^ 32 * unat (snd s) + unat (fst s)"
    using r(1) by (intro unat_join_u64) (auto simp: fletcher_bounded_def)
  with r(2,3) show ?thesis by (simp add: ow_fletcher64_words s_def Let_def)
qed

text \<open>The check value of CRC-32C (the code of \<^verbatim>\<open>123456789\<close>), by running the model.\<close>

lemma crc32c_byte_steps:
  "crc32c_byte c b = crc32c_bit (crc32c_bit (crc32c_bit (crc32c_bit (crc32c_bit (crc32c_bit (crc32c_bit (crc32c_bit (c XOR ucast b))))))))"
  by (simp add: crc32c_byte_def numeral_eq_Suc)

lemma crc32c_bit_numeral:
  "crc32c_bit (numeral n) = (if (numeral n :: u32) AND 1 \<noteq> 0 then drop_bit 1 (numeral n) XOR 0x82F63B78 else drop_bit 1 (numeral n))"
  by (simp only: crc32c_bit_def)

lemma crc32c_bit_neg:
  "crc32c_bit (- numeral n) = (if (- numeral n :: u32) AND 1 \<noteq> 0 then drop_bit 1 (- numeral n) XOR 0x82F63B78 else drop_bit 1 (- numeral n))"
  by (simp only: crc32c_bit_def)

lemma ow_crc32c_check_value: "ow_crc32c 0 [0x31,0x32,0x33,0x34,0x35,0x36,0x37,0x38,0x39] = 0xE3069283"
  by (simp add: ow_crc32c_def crc32c_byte_steps crc32c_bit_numeral crc32c_bit_neg)

section \<open>The stream cipher\<close>

text \<open>The quarter round on the example of RFC 8439, section 2.1.1.\<close>

lemma chacha_qr_example:
  "chacha_qr 0x11111111 0x01020304 0x9b8d6f43 0x01234567 = (0xea2a92f4, 0xcb1cf8ce, 0x4581472e, 0x5881c4bb)"
  by (simp add: chacha_qr_def rotl32_def Let_def)

text \<open>C38: applying the cipher XORs each of the first \<open>len\<close> bytes with the keystream, which is the concatenation of
  the ChaCha20 blocks of successive counters (the counter wraps at 2^32), leaves the bytes beyond \<open>len\<close> alone, and
  applying it again with the same counter, key and nonce restores the data.\<close>

theorem ow_chacha20_xor_correct:
  assumes "len \<le> length data"
  shows "ow_chacha20_xor counter key nonce data len =
      map (\<lambda>j. if j < len then data ! j XOR ow_chacha20_block (counter + of_nat (j div 64)) key nonce ! (j mod 64) else data ! j)
        [0..<length data] \<and>
    ow_chacha20_xor counter key nonce (ow_chacha20_xor counter key nonce data len) len = data"
proof (rule conjI, rule nth_equalityI)
  fix j assume "j < length (ow_chacha20_xor counter key nonce data len)"
  with assms show "ow_chacha20_xor counter key nonce data len ! j =
      map (\<lambda>j. if j < len then data ! j XOR ow_chacha20_block (counter + of_nat (j div 64)) key nonce ! (j mod 64) else data ! j)
        [0..<length data] ! j"
    by (simp add: ow_chacha20_xor_nth keystream_def)
qed (use assms in \<open>simp_all add: ow_chacha20_xor_involution\<close>)

theorem ow_chacha20_xor_correct_witness:
  "ow_chacha20_xor 7 (replicate 32 1) (replicate 12 2) (ow_chacha20_xor 7 (replicate 32 1) (replicate 12 2) [10, 20, 30] 2) 2 = [10, 20, 30]"
  by (rule conjunct2 [OF ow_chacha20_xor_correct]) simp

section \<open>Names\<close>

text \<open>C39: the validator accepts a byte string exactly when it is the canonical (shortest-form) encoding of a sequence
  of code points below the reserved range that starts at 7FFFFFF0.\<close>

theorem ow_sutf8_validate_correct:
  "ow_sutf8_validate (Some s) len \<longleftrightarrow>
     (\<exists>cps. (\<forall>c \<in> set cps. sutf8_transportable c) \<and> take len s = concat (map sutf8_encode cps))"
  by (simp add: ow_sutf8_validate_def sutf8_validate_iff)

theorem ow_sutf8_validate_correct_witness: "ow_sutf8_validate (Some [0xC3, 0xA9, 0xFF]) 2"
proof -
  have "take 2 [0xC3, 0xA9, 0xFF] = concat (map sutf8_encode [0xE9])"
    by (simp add: sutf8_encode_def sutf8_cont_def)
  then show ?thesis
    unfolding ow_sutf8_validate_correct by (intro exI [of _ "[0xE9]"]) (simp add: sutf8_transportable_def)
qed

text \<open>C40: on valid names the comparison is the lexicographic order of their code points, so it returns 0 exactly for
  equal names, and it orders them totally.\<close>

theorem ow_sutf8_name_cmp_correct:
  assumes a: "\<forall>c \<in> set as. sutf8_transportable c" and b: "\<forall>c \<in> set bs. sutf8_transportable c"
    and "take m x = concat (map sutf8_encode as)" and "take n y = concat (map sutf8_encode bs)"
  shows "ow_sutf8_name_cmp x m y n = (if as < bs then -1 else if as = bs then 0 else 1)"
  unfolding ow_sutf8_name_cmp_def assms(3,4) by (rule sutf8_cmp_text [OF a b])

theorem ow_sutf8_name_cmp_correct_witness: "ow_sutf8_name_cmp [97, 98] 2 [97, 99] 2 = - 1"
  using ow_sutf8_name_cmp_correct [of "[97, 98]" "[97, 99]" 2 "[97, 98]" 2 "[97, 99]"]
  by (simp add: sutf8_encode_def sutf8_transportable_def)

section \<open>Access control\<close>

text \<open>An ordinary user is granted what is asked for exactly when the rwx triple of the one class the user falls in
  (owner before group before others) has every requested bit; the superuser is granted everything.\<close>

lemma ow_sec_access_correct:
  "ow_sec_access g mode owner_uid owner_gid want \<longleftrightarrow>
     uid g = 0 \<or>
     (let s = (if uid g = ucast owner_uid then 6 else if gid g = ucast owner_gid then 3 else 0) in
       (\<not> bit want 0 \<or> bit mode (s + 2)) \<and> (\<not> bit want 1 \<or> bit mode (s + 1)) \<and> (\<not> bit want 2 \<or> bit mode s))"
proof (cases "uid g = 0")
  case False
  then show ?thesis by (auto simp: ow_sec_access_bits access_shift_def Let_def)
qed (simp add: ow_sec_access_def)

section \<open>The device layer\<close>

text \<open>On a device whose driver keeps its promise, writing a block inside the device succeeds, the device stays
  reliable, reading that block returns the bytes written and every other block reads as before; a block outside the
  device is refused by both calls without touching the driver.\<close>

lemma htl_write_read_correct:
  assumes "htl_reliable dev" and "length buf = 4096"
  shows "if b < total_blocks dev
    then \<exists>dev'. htl_write_block dev b buf = (HTL_OK, dev') \<and> htl_reliable dev' \<and>
      (\<forall>x. x < total_blocks dev \<longrightarrow> htl_read_block dev' x = (HTL_OK, if x = b then buf else blk dev x, dev'))
    else htl_write_block dev b buf = (HTL_ERR_INVALID_BLOCK, dev) \<and> htl_read_block dev b = (HTL_ERR_INVALID_BLOCK, [], dev)"
proof (cases "b < total_blocks dev")
  case True
  note w = blk_write_reliable [OF assms(1) True assms(2)]
  have "htl_read_block (blk_write dev b buf) x = (HTL_OK, if x = b then buf else blk dev x, blk_write dev b buf)"
    if "x < total_blocks dev" for x
    using w that by (simp add: dev_simps)
  with w htl_write_reliable [OF assms(1) True assms(2)] True show ?thesis by auto
next
  case False
  with assms(1) show ?thesis
    by (auto simp: htl_reliable_def htl_write_block_def htl_read_block_def htl_device_valid_def not_less)
qed

end
