(* ===== verification/OW_Record.thy ===== *)
theory OW_Record
  imports OW_Htl
begin

text \<open>
  The on-disk records share one discipline: a packed C structure of fixed size whose image carries
  a CRC-32C of itself computed with the checksum field read as zero. The locale \<open>disk_record\<close>
  states what a structure's layout promises and derives, once, that a sealed record verifies, that
  it survives the trip through its image, and that corruption of up to four adjacent bytes is
  noticed. \<open>slot_record\<close> adds tables of 256-byte records, sixteen to a block. The superblocks,
  inodes, catalog entries and USFS entries interpret them in their own theories.
\<close>

text \<open>The record and its image determine each other, field for field, and every image of the right length is one of a record.\<close>

definition packed :: "('r \<Rightarrow> bytes) \<Rightarrow> (bytes \<Rightarrow> 'r) \<Rightarrow> ('r \<Rightarrow> bool) \<Rightarrow> nat \<Rightarrow> bool" where
  "packed enc dec ok n \<longleftrightarrow> (\<forall>r. ok r \<longrightarrow> length (enc r) = n \<and> dec (enc r) = r) \<and>
     (\<forall>bs. length bs = n \<longrightarrow> ok (dec bs) \<and> enc (dec bs) = bs)"

locale disk_record =
  fixes enc :: "'r \<Rightarrow> bytes"
    and dec :: "bytes \<Rightarrow> 'r"
    and wf :: "'r \<Rightarrow> bool"
    and rsize :: nat
    and csum_off :: nat
    and csum :: "'r \<Rightarrow> u32"
    and set_csum :: "u32 \<Rightarrow> 'r \<Rightarrow> 'r"
  assumes len_enc: "wf r \<Longrightarrow> length (enc r) = rsize"
    and dec_enc: "wf r \<Longrightarrow> dec (enc r) = r"
    and wf_dec: "length bs = rsize \<Longrightarrow> wf (dec bs)"
    and enc_dec: "length bs = rsize \<Longrightarrow> enc (dec bs) = bs"
    and csum_in: "csum_off + 4 \<le> rsize"
    and csum_enc: "wf r \<Longrightarrow> window csum_off 4 (enc r) = le_store 4 (csum r)"
    and wf_set: "wf r \<Longrightarrow> wf (set_csum c r)"
    and enc_set: "wf r \<Longrightarrow> enc (set_csum c r) = overwrite csum_off (le_store 4 c) (enc r)"
begin

lemma layout: "packed enc dec wf rsize"
  by (simp add: packed_def len_enc dec_enc wf_dec enc_dec)

definition crc_of :: "'r \<Rightarrow> u32" where
  "crc_of r = ow_crc32c_struct (enc r) rsize csum_off"

definition seal :: "'r \<Rightarrow> 'r" where
  "seal r = set_csum (crc_of r) r"

lemma crc_of_set: "wf r \<Longrightarrow> crc_of (set_csum c r) = crc_of r"
  by (simp add: crc_of_def enc_set len_enc csum_in ow_crc32c_struct_overwrite)

lemma csum_set:
  assumes "wf r"
  shows "csum (set_csum c r) = c"
proof -
  have "le_store 4 (csum (set_csum c r)) = le_store 4 c"
    using csum_enc [OF wf_set [OF assms], of c] assms csum_in by (simp add: enc_set len_enc)
  then have "(le_load (le_store 4 (csum (set_csum c r))) :: u32) = le_load (le_store 4 c)" by simp
  then show ?thesis by simp
qed

lemma seal_verifies: "wf r \<Longrightarrow> csum (seal r) = crc_of (seal r)"
  by (simp add: seal_def csum_set crc_of_set)

lemma wf_seal: "wf r \<Longrightarrow> wf (seal r)"
  by (simp add: seal_def wf_set)

lemma seal_round_trip: "wf r \<Longrightarrow> dec (enc (seal r)) = seal r"
  by (simp add: dec_enc wf_seal)

text \<open>Corruption of the image: the damaged bytes \<open>bs\<close> agree with the sealed record outside a
  window of at most four bytes that does not straddle the border of the checksum field.\<close>

lemma corruption_noticed:
  assumes wf: "wf r" and ok: "csum r = crc_of r" and len: "length bs = rsize"
    and win: "a + m \<le> rsize" "m \<le> 4"
    and clear: "a + m \<le> csum_off \<or> csum_off + 4 \<le> a \<or> csum_off \<le> a \<and> a + m \<le> csum_off + 4"
    and out: "\<And>i. i < rsize \<Longrightarrow> \<not> (a \<le> i \<and> i < a + m) \<Longrightarrow> bs ! i = enc r ! i"
    and diff: "bs \<noteq> enc r"
  shows "csum (dec bs) \<noteq> crc_of (dec bs)"
proof (cases "csum_off \<le> a \<and> a + m \<le> csum_off + 4")
  case True
  have zero: "overwrite csum_off (replicate 4 0) bs = overwrite csum_off (replicate 4 (0::u8)) (enc r)"
    by (rule nth_equalityI) (use True len wf len_enc csum_in out in \<open>auto simp: nth_overwrite\<close>)
  then have "crc_of (dec bs) = crc_of r"
    using len wf csum_in by (simp add: crc_of_def enc_dec len_enc ow_crc32c_struct_eq)
  moreover have "window csum_off 4 bs \<noteq> window csum_off 4 (enc r)"
  proof
    assume w: "window csum_off 4 bs = window csum_off 4 (enc r)"
    have "bs ! i = enc r ! i" if "i < rsize" for i
    proof (cases "csum_off \<le> i \<and> i < csum_off + 4")
      case True
      then have "bs ! i = window csum_off 4 bs ! (i - csum_off)"
        "enc r ! i = window csum_off 4 (enc r) ! (i - csum_off)"
        using that len wf len_enc by auto
      then show ?thesis using w by simp
    qed (use that out True in auto)
    then have "bs = enc r" using len wf len_enc by (metis nth_equalityI)
    with diff show False ..
  qed
  then have "csum (dec bs) \<noteq> csum r"
    using csum_enc [OF wf] csum_enc [OF wf_dec [OF len]] by (auto simp: enc_dec len)
  ultimately show ?thesis using ok by simp
next
  case False
  with clear have clear': "a + m \<le> csum_off \<or> csum_off + 4 \<le> a" by blast
  have "ow_crc32c_struct bs rsize csum_off \<noteq> ow_crc32c_struct (enc r) rsize csum_off"
    by (rule ow_crc32c_struct_burst [OF len len_enc [OF wf] csum_in win clear'])
      (use out diff in auto)
  moreover have "window csum_off 4 bs = window csum_off 4 (enc r)"
    by (rule nth_equalityI) (use False clear' len wf len_enc out in auto)
  then have "le_store 4 (csum (dec bs)) = le_store 4 (csum r)"
    using csum_enc [OF wf] csum_enc [OF wf_dec [OF len]] by (simp add: enc_dec len)
  then have "(le_load (le_store 4 (csum (dec bs))) :: u32) = le_load (le_store 4 (csum r))" by simp
  then have "csum (dec bs) = csum r" by simp
  ultimately show ?thesis using ok by (simp add: crc_of_def enc_dec len)
qed

end

locale slot_record = disk_record +
  assumes slot_size: "rsize = 256"
begin

definition slot_get :: "bytes \<Rightarrow> nat \<Rightarrow> 'a" where
  "slot_get block i = dec (window (i * 256) 256 block)"

definition slot_put :: "bytes \<Rightarrow> nat \<Rightarrow> 'a \<Rightarrow> bytes" where
  "slot_put block i r = overwrite (i * 256) (enc r) block"

lemma length_slot_put: "length block = 4096 \<Longrightarrow> i < 16 \<Longrightarrow> wf r \<Longrightarrow> length (slot_put block i r) = 4096"
  by (simp add: slot_put_def len_enc slot_size)

lemma slot_get_put_same:
  "length block = 4096 \<Longrightarrow> i < 16 \<Longrightarrow> wf r \<Longrightarrow> slot_get (slot_put block i r) i = r"
  by (simp add: slot_get_def slot_put_def len_enc slot_size dec_enc)

lemma slot_get_put_other:
  "length block = 4096 \<Longrightarrow> i < 16 \<Longrightarrow> wf r \<Longrightarrow> i \<noteq> j \<Longrightarrow>
   window (j * 256) 256 (slot_put block i r) = window (j * 256) 256 block"
  unfolding slot_put_def
  by (rule window_overwrite_disjoint) (auto simp: len_enc slot_size neq_iff)

lemma wf_slot: "length block = 4096 \<Longrightarrow> i < 16 \<Longrightarrow> wf (slot_get block i)"
  by (simp add: slot_get_def wf_dec slot_size)

text \<open>A table of records in consecutive blocks of a device, as the inode table and the USFS entry table
  are: record \<open>i\<close> is slot \<open>i mod 16\<close> of block \<open>i div 16\<close>.\<close>

definition table_get :: "'c htl_device \<Rightarrow> u32 \<Rightarrow> nat \<Rightarrow> 'a" where
  "table_get dev start i = slot_get (blk dev (start + of_nat (i div 16))) (i mod 16)"

definition table_put :: "'c htl_device \<Rightarrow> u32 \<Rightarrow> nat \<Rightarrow> 'a \<Rightarrow> 'c htl_device" where
  "table_put dev start i r =
     (let b = start + of_nat (i div 16) in blk_write dev b (slot_put (blk dev b) (i mod 16) r))"

lemma table_block:
  assumes "unat start + nblocks \<le> unat (total_blocks dev)" and "i < 16 * nblocks"
  shows "unat (start + of_nat (i div 16)) = unat start + i div 16" and "start + of_nat (i div 16) < total_blocks dev"
    and "unat (start + of_nat (i div 16)) < unat start + nblocks"
proof -
  have d: "i div 16 < nblocks" using assms(2) by (simp add: less_mult_imp_div_less mult.commute)
  then have lt: "unat start + i div 16 < unat (total_blocks dev)" using assms(1) by simp
  moreover from lt have "unat start + i div 16 < 2 ^ 32" using unsigned_less [of "total_blocks dev", where 'a = nat] by simp
  ultimately show u: "unat (start + of_nat (i div 16)) = unat start + i div 16" and "start + of_nat (i div 16) < total_blocks dev"
    by (simp_all add: word_less_nat_alt unat_word_ariths unat_of_nat_small)
  show "unat (start + of_nat (i div 16)) < unat start + nblocks" using u d by simp
qed

lemma wf_table:
  assumes "htl_reliable dev" and "unat start + nblocks \<le> unat (total_blocks dev)" and "i < 16 * nblocks"
  shows "wf (table_get dev start i)"
  using assms table_block(2) [OF assms(2,3)] by (simp add: table_get_def wf_slot length_blk)

lemma table_put_props:
  assumes dev: "htl_reliable dev" and tab: "unat start + nblocks \<le> unat (total_blocks dev)" and i: "i < 16 * nblocks" and wf: "wf r"
  shows "length (slot_put (blk dev (start + of_nat (i div 16))) (i mod 16) r) = 4096"
    and "htl_reliable (table_put dev start i r)" and "same_device dev (table_put dev start i r)"
    and "x < total_blocks dev \<Longrightarrow> unat x < unat start \<or> unat start + nblocks \<le> unat x \<Longrightarrow> blk (table_put dev start i r) x = blk dev x"
    and "j < 16 * nblocks \<Longrightarrow> table_get (table_put dev start i r) start j = (if j = i then r else table_get dev start j)"
proof -
  note b = table_block [OF tab i]
  let ?b = "start + of_nat (i div 16)"
  have len: "length (blk dev ?b) = 4096" by (rule length_blk [OF dev b(2)])
  then show len': "length (slot_put (blk dev ?b) (i mod 16) r) = 4096" using wf by (simp add: length_slot_put)
  show "htl_reliable (table_put dev start i r)" "same_device dev (table_put dev start i r)"
    using dev b(2) len' by (simp_all add: table_put_def Let_def dev_simps)
  show "blk (table_put dev start i r) x = blk dev x" if "x < total_blocks dev" "unat x < unat start \<or> unat start + nblocks \<le> unat x"
  proof -
    have "x \<noteq> ?b" using that(2) b by auto
    then show ?thesis using dev b(2) len' that(1) by (simp add: table_put_def Let_def dev_simps)
  qed
  show "table_get (table_put dev start i r) start j = (if j = i then r else table_get dev start j)" if j: "j < 16 * nblocks"
  proof (cases "j div 16 = i div 16")
    case False
    then have "start + of_nat (j div 16) \<noteq> ?b" using b(1) table_block(1) [OF tab j] by (metis add_left_cancel)
    then show ?thesis
      using False dev b(2) len' table_block(2) [OF tab j] by (auto simp: table_get_def table_put_def Let_def dev_simps)
  next
    case True
    then have ji: "j = i \<longleftrightarrow> j mod 16 = i mod 16" by (metis div_mult_mod_eq)
    have "table_get (table_put dev start i r) start j = slot_get (slot_put (blk dev ?b) (i mod 16) r) (j mod 16)"
      using True dev b(2) len' by (simp add: table_get_def table_put_def Let_def dev_simps)
    then show ?thesis
      using slot_get_put_same [OF len _ wf, of "i mod 16"] slot_get_put_other [OF len _ wf, of "i mod 16" "j mod 16"]
        ji True by (auto simp: slot_get_def table_get_def)
  qed
qed

end

end
