(* ===== verification/OWFS_Superblock.thy ===== *)
theory OWFS_Superblock
  imports OW_Record OW_Sec
begin

text \<open>
  \<^verbatim>\<open>owfs/include/owfs_types.h\<close>, \<^verbatim>\<open>owfs_superblock.h\<close>, \<^verbatim>\<open>owfs/src/owfs_superblock.c\<close>,
  \<^verbatim>\<open>owfs_blockio.c\<close> and the two state predicates of \<^verbatim>\<open>owfs_sync.c\<close>: constants and status codes,
  the superblock structure with its packed little-endian image, its checksum, its validation, and
  reading and writing it at block 16. Pointers to devices and structures are passed by value and
  returned updated; they are never NULL in the model.
\<close>

unbundle bit_operations_syntax

section \<open>Constants and status codes\<close>

abbreviation OWFS_SUPERBLOCK_BLOCK :: u32 where "OWFS_SUPERBLOCK_BLOCK \<equiv> 16"
abbreviation OWFS_MAGIC :: u32 where "OWFS_MAGIC \<equiv> 0x4F574653"
abbreviation OWFS_ENTRY_FILE :: u8 where "OWFS_ENTRY_FILE \<equiv> 0x01"
abbreviation OWFS_ENTRY_CATALOG :: u8 where "OWFS_ENTRY_CATALOG \<equiv> 0x02"
abbreviation OWFS_ENTRY_DELETED :: u8 where "OWFS_ENTRY_DELETED \<equiv> 0x80"
abbreviation OWFS_SEC_ENCRYPTED :: "'a::len word" where "OWFS_SEC_ENCRYPTED \<equiv> 1"
abbreviation OWFS_SEC_READONLY :: "'a::len word" where "OWFS_SEC_READONLY \<equiv> 2"
abbreviation OWFS_SEC_HIDDEN :: "'a::len word" where "OWFS_SEC_HIDDEN \<equiv> 4"
abbreviation OWFS_MODE_DEFAULT_FILE :: u16 where "OWFS_MODE_DEFAULT_FILE \<equiv> 0x1A4"
abbreviation OWFS_MODE_DEFAULT_DIR :: u16 where "OWFS_MODE_DEFAULT_DIR \<equiv> 0x1ED"
abbreviation OWFS_STATE_DIRTY :: u32 where "OWFS_STATE_DIRTY \<equiv> 1"
abbreviation OWFS_STATE_ERROR :: u32 where "OWFS_STATE_ERROR \<equiv> 2"
abbreviation OWFS_STATE_LOCKED :: u32 where "OWFS_STATE_LOCKED \<equiv> 4"

datatype owfs_status =
    OWFS_OK | OWFS_ERR_INVALID_MAGIC | OWFS_ERR_CORRUPT_SUPERBLOCK | OWFS_ERR_CHECKSUM_MISMATCH
  | OWFS_ERR_NO_FREE_BLOCKS | OWFS_ERR_NO_FREE_INODES | OWFS_ERR_NAME_TOO_LONG | OWFS_ERR_NOT_FOUND
  | OWFS_ERR_ALREADY_EXISTS | OWFS_ERR_NOT_CATALOG | OWFS_ERR_NOT_FILE | OWFS_ERR_IO
  | OWFS_ERR_BUFFER_TOO_SMALL | OWFS_ERR_CATALOG_FULL | OWFS_ERR_VOLUME_DIRTY
  | OWFS_ERR_WRITE_PROTECTED | OWFS_ERR_INVALID_PARAM | OWFS_ERR_ACCESS_DENIED | OWFS_ERR_KEY_INVALID

section \<open>The superblock\<close>

record owfs_superblock =
  sb_magic :: u32
  sb_version_major :: u16
  sb_version_minor :: u16
  sb_block_size :: u32
  sb_total_blocks :: u32
  sb_free_blocks :: u32
  sb_total_inodes :: u32
  sb_free_inodes :: u32
  sb_bitmap_start_block :: u32
  sb_bitmap_block_count :: u32
  sb_inode_table_start :: u32
  sb_inode_table_blocks :: u32
  sb_data_region_start :: u32
  sb_root_inode :: u32
  sb_mount_count :: u32
  sb_state_flags :: u32
  sb_fletcher64_bitmap :: u64
  sb_volume_label :: bytes
  sb_checksum :: u32
  sb_security_flags :: u32
  sb_key_slot_1 :: bytes
  sb_key_slot_2 :: bytes
  sb_crypto_nonce :: bytes
  sb_reserved :: bytes

definition owfs_superblock_bytes :: "owfs_superblock \<Rightarrow> bytes" where
  "owfs_superblock_bytes r =
     le_store 4 (sb_magic r) @ le_store 2 (sb_version_major r) @
     le_store 2 (sb_version_minor r) @ le_store 4 (sb_block_size r) @
     le_store 4 (sb_total_blocks r) @ le_store 4 (sb_free_blocks r) @
     le_store 4 (sb_total_inodes r) @ le_store 4 (sb_free_inodes r) @
     le_store 4 (sb_bitmap_start_block r) @ le_store 4 (sb_bitmap_block_count r) @
     le_store 4 (sb_inode_table_start r) @ le_store 4 (sb_inode_table_blocks r) @
     le_store 4 (sb_data_region_start r) @ le_store 4 (sb_root_inode r) @
     le_store 4 (sb_mount_count r) @ le_store 4 (sb_state_flags r) @
     le_store 8 (sb_fletcher64_bitmap r) @ sb_volume_label r @ le_store 4 (sb_checksum r) @
     le_store 4 (sb_security_flags r) @ sb_key_slot_1 r @ sb_key_slot_2 r @
     sb_crypto_nonce r @ sb_reserved r"

definition owfs_superblock_of_bytes :: "bytes \<Rightarrow> owfs_superblock" where
  "owfs_superblock_of_bytes bs =
     \<lparr>sb_magic = le_load (window 0 4 bs), sb_version_major = le_load (window 4 2 bs),
      sb_version_minor = le_load (window 6 2 bs), sb_block_size = le_load (window 8 4 bs),
      sb_total_blocks = le_load (window 12 4 bs), sb_free_blocks = le_load (window 16 4 bs),
      sb_total_inodes = le_load (window 20 4 bs), sb_free_inodes = le_load (window 24 4 bs),
      sb_bitmap_start_block = le_load (window 28 4 bs),
      sb_bitmap_block_count = le_load (window 32 4 bs),
      sb_inode_table_start = le_load (window 36 4 bs),
      sb_inode_table_blocks = le_load (window 40 4 bs),
      sb_data_region_start = le_load (window 44 4 bs),
      sb_root_inode = le_load (window 48 4 bs), sb_mount_count = le_load (window 52 4 bs),
      sb_state_flags = le_load (window 56 4 bs),
      sb_fletcher64_bitmap = le_load (window 60 8 bs), sb_volume_label = window 68 64 bs,
      sb_checksum = le_load (window 132 4 bs), sb_security_flags = le_load (window 136 4 bs),
      sb_key_slot_1 = window 140 256 bs, sb_key_slot_2 = window 396 256 bs,
      sb_crypto_nonce = window 652 12 bs, sb_reserved = window 664 3432 bs\<rparr>"

text \<open>The array fields have their declared lengths.\<close>

definition owfs_superblock_wf :: "owfs_superblock \<Rightarrow> bool" where
  "owfs_superblock_wf r \<longleftrightarrow>
     length (sb_volume_label r) = 64 \<and> length (sb_key_slot_1 r) = 256 \<and> length (sb_key_slot_2 r) = 256 \<and> length (sb_crypto_nonce r) = 12 \<and> length (sb_reserved r) = 3432"

definition owfs_superblock_compute_checksum :: "owfs_superblock \<Rightarrow> u32" where
  "owfs_superblock_compute_checksum sb = ow_crc32c_struct (owfs_superblock_bytes sb) 0x1000 0x84"

definition owfs_superblock_validate :: "owfs_superblock \<Rightarrow> bool" where
  "owfs_superblock_validate sb =
     (if sb_magic sb \<noteq> OWFS_MAGIC then False
      else if sb_block_size sb \<noteq> 0x1000 then False
      else if sb_checksum sb \<noteq> owfs_superblock_compute_checksum sb then False
      else True)"

text \<open>A read that fails leaves the caller's structure alone.\<close>

definition owfs_superblock_read ::
  "'c htl_device \<Rightarrow> owfs_superblock \<Rightarrow> owfs_status \<times> 'c htl_device \<times> owfs_superblock" where
  "owfs_superblock_read dev sb =
     (case htl_read_block dev OWFS_SUPERBLOCK_BLOCK of (hres, buf, dev) \<Rightarrow>
        if hres \<noteq> HTL_OK then (OWFS_ERR_IO, dev, sb)
        else let sb = owfs_superblock_of_bytes buf in
          if \<not> owfs_superblock_validate sb then (OWFS_ERR_CORRUPT_SUPERBLOCK, dev, sb)
          else (OWFS_OK, dev, sb))"

definition owfs_superblock_write ::
  "'c htl_device \<Rightarrow> owfs_superblock \<Rightarrow> owfs_status \<times> 'c htl_device \<times> owfs_superblock" where
  "owfs_superblock_write dev sb =
     (let sb = sb\<lparr>sb_checksum := owfs_superblock_compute_checksum sb\<rparr> in
      case htl_write_block dev OWFS_SUPERBLOCK_BLOCK (owfs_superblock_bytes sb) of (hres, dev) \<Rightarrow>
        if hres \<noteq> HTL_OK then
          if hres = HTL_ERR_WRITE_PROTECT then (OWFS_ERR_WRITE_PROTECTED, dev, sb)
          else (OWFS_ERR_IO, dev, sb)
        else (OWFS_OK, dev, sb))"

section \<open>Block I/O\<close>

definition owfs_block_read :: "'c htl_device \<Rightarrow> u32 \<Rightarrow> (owfs_status + bytes) \<times> 'c htl_device" where
  "owfs_block_read dev block =
     (case htl_read_block dev block of (hres, buf, dev) \<Rightarrow>
        if hres \<noteq> HTL_OK then (Inl OWFS_ERR_IO, dev) else (Inr buf, dev))"

definition owfs_block_write :: "'c htl_device \<Rightarrow> u32 \<Rightarrow> bytes \<Rightarrow> owfs_status \<times> 'c htl_device" where
  "owfs_block_write dev block buf =
     (case htl_write_block dev block buf of (hres, dev) \<Rightarrow>
        if hres \<noteq> HTL_OK then
          if hres = HTL_ERR_WRITE_PROTECT then (OWFS_ERR_WRITE_PROTECTED, dev) else (OWFS_ERR_IO, dev)
        else (OWFS_OK, dev))"

definition owfs_block_zero :: "'c htl_device \<Rightarrow> u32 \<Rightarrow> owfs_status \<times> 'c htl_device" where
  "owfs_block_zero dev block =
     (case htl_zero_block dev block of (hres, dev) \<Rightarrow>
        if hres \<noteq> HTL_OK then
          if hres = HTL_ERR_WRITE_PROTECT then (OWFS_ERR_WRITE_PROTECTED, dev) else (OWFS_ERR_IO, dev)
        else (OWFS_OK, dev))"

section \<open>Volume state\<close>

definition owfs_is_dirty :: "owfs_superblock \<Rightarrow> bool" where
  "owfs_is_dirty sb \<longleftrightarrow>
     sb_state_flags sb AND (OWFS_STATE_DIRTY OR OWFS_STATE_LOCKED OR OWFS_STATE_ERROR) \<noteq> 0"

definition owfs_volume_writable :: "owfs_superblock \<Rightarrow> owfs_status" where
  "owfs_volume_writable sb =
     (if sb_state_flags sb AND (OWFS_STATE_LOCKED OR OWFS_STATE_ERROR) \<noteq> 0 then OWFS_ERR_VOLUME_DIRTY
      else if sb_security_flags sb AND OWFS_SEC_READONLY \<noteq> 0 then OWFS_ERR_WRITE_PROTECTED
      else OWFS_OK)"

text \<open>The status a failed device write is reported as, used throughout the OWFS sources.\<close>

abbreviation owfs_write_error :: "htl_status \<Rightarrow> owfs_status" where
  "owfs_write_error hres \<equiv>
     (if hres = HTL_ERR_WRITE_PROTECT then OWFS_ERR_WRITE_PROTECTED else OWFS_ERR_IO)"

section \<open>Lemmas\<close>

lemma length_owfs_superblock_bytes [simp]:
  "owfs_superblock_wf sb \<Longrightarrow> length (owfs_superblock_bytes sb) = 4096"
  by (simp add: owfs_superblock_bytes_def owfs_superblock_wf_def)

lemma owfs_superblock_dec_enc:
  "owfs_superblock_wf sb \<Longrightarrow> owfs_superblock_of_bytes (owfs_superblock_bytes sb) = sb"
  by (simp add: owfs_superblock_of_bytes_def owfs_superblock_bytes_def owfs_superblock_wf_def window_simps)

lemma owfs_superblock_enc_dec:
  "length bs = 4096 \<Longrightarrow> owfs_superblock_bytes (owfs_superblock_of_bytes bs) = bs"
  by (simp add: owfs_superblock_of_bytes_def owfs_superblock_bytes_def window_join window_all)

interpretation sbr: disk_record owfs_superblock_bytes owfs_superblock_of_bytes owfs_superblock_wf
    4096 132 sb_checksum "\<lambda>c. sb_checksum_update (\<lambda>_. c)"
proof
  show "owfs_superblock_bytes (sb\<lparr>sb_checksum := c\<rparr>) =
      overwrite 132 (le_store 4 c) (owfs_superblock_bytes sb)" if "owfs_superblock_wf sb" for sb c
    using that by (simp add: owfs_superblock_bytes_def owfs_superblock_wf_def overwrite_def)
qed (simp_all add: owfs_superblock_dec_enc owfs_superblock_enc_dec,
    simp_all add: owfs_superblock_wf_def owfs_superblock_of_bytes_def owfs_superblock_bytes_def window_simps)

lemmas sb_seal_defs = sbr.seal_def sbr.crc_of_def owfs_superblock_compute_checksum_def

abbreviation owfs_sealed :: "owfs_superblock \<Rightarrow> owfs_superblock" where
  "owfs_sealed sb \<equiv> sb\<lparr>sb_checksum := owfs_superblock_compute_checksum sb\<rparr>"

lemma owfs_sealed_eq: "owfs_sealed sb = sbr.seal sb"
  by (simp add: sb_seal_defs)

lemma owfs_sealed_wf [simp]: "owfs_superblock_wf sb \<Longrightarrow> owfs_superblock_wf (owfs_sealed sb)"
  by (simp add: owfs_superblock_wf_def)

lemma owfs_sealed_verifies:
  "owfs_superblock_wf sb \<Longrightarrow>
   owfs_superblock_compute_checksum (owfs_sealed sb) = owfs_superblock_compute_checksum sb"
  using sbr.crc_of_set [of sb] by (simp add: sb_seal_defs)

lemma owfs_sealed_validate:
  "owfs_superblock_wf sb \<Longrightarrow>
   owfs_superblock_validate (owfs_sealed sb) \<longleftrightarrow> sb_magic sb = OWFS_MAGIC \<and> sb_block_size sb = 0x1000"
  by (simp add: owfs_superblock_validate_def owfs_sealed_verifies)

lemma owfs_superblock_write_reliable:
  "htl_reliable dev \<Longrightarrow> 16 < total_blocks dev \<Longrightarrow> owfs_superblock_wf sb \<Longrightarrow>
   owfs_superblock_write dev sb =
     (OWFS_OK, blk_write dev 16 (owfs_superblock_bytes (owfs_sealed sb)), owfs_sealed sb)"
  by (simp add: owfs_superblock_write_def htl_write_reliable Let_def)

lemma owfs_superblock_read_reliable:
  "htl_reliable dev \<Longrightarrow> 16 < total_blocks dev \<Longrightarrow>
   owfs_superblock_read dev sb0 =
     (let sb = owfs_superblock_of_bytes (blk dev 16) in
      (if owfs_superblock_validate sb then OWFS_OK else OWFS_ERR_CORRUPT_SUPERBLOCK, dev, sb))"
  by (simp add: owfs_superblock_read_def htl_read_reliable Let_def)

lemma owfs_volume_writable_iff:
  "owfs_volume_writable sb = OWFS_OK \<longleftrightarrow>
     \<not> bit (sb_state_flags sb) 1 \<and> \<not> bit (sb_state_flags sb) 2 \<and> \<not> bit (sb_security_flags sb) 1"
  unfolding owfs_volume_writable_def state_mask_bits mask_bits by auto

end
