(* ===== verification/OW_Allocator.thy ===== *)
theory OW_Allocator
  imports OW_Prelude
begin

text \<open>
  What the block layers above a bitmap rely on. An allocator hands out blocks of a region; the
  locale states its contract over the set of allocated blocks and derives what a client that takes
  and returns several blocks needs: successive blocks are distinct, were free, and a request fails
  only when the region is full. Both file systems interpret it on their bitmap operations.
\<close>

locale block_allocator =
  fixes alloc :: "'s \<Rightarrow> ('e + u32) \<times> 's"
    and release :: "'s \<Rightarrow> u32 \<Rightarrow> 'e \<times> 's"
    and ok :: 'e
    and inv :: "'s \<Rightarrow> bool"
    and region :: "'s \<Rightarrow> u32 set"
    and allocated :: "'s \<Rightarrow> u32 set"
    and content :: "'s \<Rightarrow> u32 \<Rightarrow> bytes"
  assumes alloc_some: "inv s \<Longrightarrow> alloc s = (Inr b, s') \<Longrightarrow>
      inv s' \<and> region s' = region s \<and> b \<in> region s - allocated s \<and>
      allocated s' = insert b (allocated s) \<and> (\<forall>x\<in>region s. content s' x = content s x)"
    and alloc_none: "inv s \<Longrightarrow> alloc s = (Inl e, s') \<Longrightarrow> s' = s \<and> region s \<subseteq> allocated s"
    and release_ok: "inv s \<Longrightarrow> b \<in> allocated s \<Longrightarrow> release s b = (e, s') \<Longrightarrow>
      e = ok \<and> inv s' \<and> region s' = region s \<and> allocated s' = allocated s - {b} \<and>
      (\<forall>x\<in>region s. content s' x = content s x)"
    and allocated_region: "inv s \<Longrightarrow> allocated s \<subseteq> region s"
begin

text \<open>A client that takes \<open>n\<close> blocks and stops at the first failure.\<close>

fun alloc_n :: "nat \<Rightarrow> 's \<Rightarrow> u32 list \<times> 's" where
  "alloc_n 0 s = ([], s)"
| "alloc_n (Suc n) s =
     (case alloc s of
        (Inl e, s') \<Rightarrow> ([], s')
      | (Inr b, s') \<Rightarrow> (case alloc_n n s' of (bs, s'') \<Rightarrow> (b # bs, s'')))"

lemma alloc_succeeds_iff:
  assumes "inv s"
  shows "(\<exists>b s'. alloc s = (Inr b, s')) \<longleftrightarrow> \<not> region s \<subseteq> allocated s"
proof (cases "alloc s")
  case (Pair r s')
  show ?thesis
  proof (cases r)
    case (Inl e)
    with Pair alloc_none [OF assms, of e s'] show ?thesis by simp
  next
    case (Inr b)
    with Pair alloc_some [OF assms, of b s'] show ?thesis by auto
  qed
qed

lemma alloc_n_spec:
  assumes "inv s" and "alloc_n n s = (bs, s')"
  shows "inv s' \<and> region s' = region s \<and> distinct bs \<and> set bs \<subseteq> region s - allocated s \<and>
    allocated s' = allocated s \<union> set bs \<and> (\<forall>x\<in>region s. content s' x = content s x) \<and>
    length bs = min n (card (region s - allocated s))"
  using assms
proof (induction n arbitrary: s bs)
  case (Suc n)
  obtain r t where r: "alloc s = (r, t)" by (cases "alloc s")
  show ?case
  proof (cases r)
    case (Inl e)
    from alloc_none [OF Suc.prems(1)] r Inl have "t = s" "region s \<subseteq> allocated s" by auto
    with Suc.prems r Inl show ?thesis by (auto simp: Diff_eq_empty_iff [THEN iffD2])
  next
    case (Inr b)
    obtain cs u where cs: "alloc_n n t = (cs, u)" by (cases "alloc_n n t")
    note a = alloc_some [OF Suc.prems(1), of b t]
    have "region s - allocated s = insert b (region t - allocated t)" "b \<notin> region t - allocated t"
      using a r Inr by auto
    then have "card (region s - allocated s) = Suc (card (region t - allocated t))" by simp
    with Suc.IH [of t cs] Suc.prems(2) a r Inr cs show ?thesis by auto
  qed
qed simp

lemma alloc_release:
  assumes "inv s" and "alloc s = (Inr b, s')" and "release s' b = (e, s'')"
  shows "e = ok \<and> inv s'' \<and> allocated s'' = allocated s"
  using alloc_some [OF assms(1,2)] release_ok [of s' b e s''] assms(3) by auto

end

end
