(* ===== verification/OW_Bits.thy ===== *)
theory OW_Bits
  imports OW_Record OW_Sec
begin

text \<open>
  Bit strings stored in blocks, as both allocation bitmaps have them: bit \<open>p\<close> of a block is bit
  \<open>p mod 8\<close> of its byte \<open>p div 8\<close>, and a block holds 32768 bits. The facts on searching and counting
  over index ranges that the scans of both file systems rest on.
\<close>

unbundle bit_operations_syntax

definition bits_of :: "bytes \<Rightarrow> nat \<Rightarrow> bool" where
  "bits_of buf p = bit (buf ! (p div 8)) (p mod 8)"

definition bits_put :: "bytes \<Rightarrow> nat \<Rightarrow> bool \<Rightarrow> bytes" where
  "bits_put buf p v =
     buf[p div 8 := (if v then buf ! (p div 8) OR push_bit (p mod 8) 1
                     else buf ! (p div 8) AND NOT (push_bit (p mod 8) 1))]"

lemma and_bit_test [simp]:
  "(x :: 'a::len word) AND 2 ^ k = 0 \<longleftrightarrow> \<not> bit x k"
  "(x :: 'a::len word) AND push_bit k 1 = 0 \<longleftrightarrow> \<not> bit x k"
  by (simp_all add: and_pow_eq_0 push_bit_eq_mult)

lemma bits_of_put:
  "p < 8 * length buf \<Longrightarrow> q < 8 * length buf \<Longrightarrow>
   bits_of (bits_put buf p v) q = (if q = p then v else bits_of buf q)"
proof -
  assume p: "p < 8 * length buf" and q: "q < 8 * length buf"
  show ?thesis
  proof (cases "q div 8 = p div 8")
    case True
    moreover from True have "q = p \<longleftrightarrow> q mod 8 = p mod 8" by (metis div_mult_mod_eq)
    ultimately show ?thesis
      using p by (auto simp: bits_of_def bits_put_def bit_simps nth_list_update)
  next
    case False
    then show ?thesis by (auto simp: bits_of_def bits_put_def)
  qed
qed

lemma length_bits_put [simp]: "length (bits_put buf p v) = length buf"
  by (simp add: bits_put_def)

lemma find_append: "find P (xs @ ys) = (case find P xs of None \<Rightarrow> find P ys | Some x \<Rightarrow> Some x)"
  by (induction xs) simp_all

lemma find_upt_shift:
  "find P [c..<c + n] = map_option ((+) c) (find (\<lambda>k. P (c + k)) [0..<n])"
  by (induction n) (simp_all add: find_append split: option.split)

lemma upt_split_block:
  "a < n \<Longrightarrow> [32768 * a..<32768 * n] = [32768 * a..<32768 * a + 32768] @ [32768 * Suc a..<32768 * n]"
  using upt_add_eq_append [of "32768 * a" "32768 * a + 32768" "32768 * n - (32768 * a + 32768)"]
  by (simp add: add.commute)

lemma find_upt_bound: "find P [a..<n] = Some k \<Longrightarrow> a \<le> k \<and> k < n"
  by (auto simp: find_Some_iff)

lemma bits_split: "rel mod 32768 div 8 = rel div 8 mod 4096" "rel mod 32768 mod 8 = rel mod 8" for rel :: nat
  using mod_mult2_eq [of rel 8 4096] by simp_all

lemma bits_of_byte:
  "bits_of buf (rel mod 32768) = bit (buf ! (rel div 8 mod 4096)) (rel mod 8)"
  by (simp add: bits_of_def bits_split)

lemma filter_upt_shift: "length (filter P [c..<c + n]) = length (filter (\<lambda>k. P (c + k)) [0..<n])"
  by (induction n) simp_all

lemma le_words_loads: "length bs = 4 * n \<Longrightarrow> le_words bs = le_loads n bs"
proof (induction n arbitrary: bs)
  case (Suc n)
  then show ?case by (subst le_words.simps) (auto simp: le_loads_Suc window_def)
qed (simp add: le_loads_def le_words.simps)

lemma block_fletcher_run:
  assumes "length buf = 4096"
  shows "fold (\<lambda>k s. fletcher_step (fletcher_word buf (4 * k)) s) [0..<1024] s = fletcher_run (le_words buf) s"
proof -
  have "map (\<lambda>k. fletcher_word buf (4 * k)) [0..<1024] = le_loads 1024 buf"
    using assms unfolding le_loads_def by (intro map_cong refl fletcher_word_eq) auto
  then have "fletcher_run (le_words buf) s = fold fletcher_step (map (\<lambda>k. fletcher_word buf (4 * k)) [0..<1024]) s"
    using le_words_loads [of buf 1024] assms by simp
  then show ?thesis by (simp add: fold_map comp_def del: upt_rec_numeral)
qed

lemma length_concat_blocks:
  "(\<And>b. b \<in> set bs \<Longrightarrow> length (f b) = 4096) \<Longrightarrow> length (concat (map f bs)) = 4096 * length bs"
  by (induction bs) simp_all

end
