(* ===== verification/OWFS_Bitmap.thy ===== *)
theory OWFS_Bitmap
  imports OWFS_Superblock OW_Allocator OW_Bits
begin

text \<open>
  \<^verbatim>\<open>owfs/src/owfs_bitmap.c\<close>: the allocation bitmap, one bit per block of the data region. A loop
  over an unsigned counter is a recursion over the list of the counter's values, so that the
  early returns of its body are branches. The lemmas read the bitmap blocks as one bit string
  \<open>owfs_used\<close> and show that allocation is first-fit on it, that freeing and testing act on the
  named bit, and that counting and summing see exactly its content.
\<close>

unbundle bit_operations_syntax

definition bitmap_bounds_ok :: "owfs_superblock \<Rightarrow> u32 \<Rightarrow> bool" where
  "bitmap_bounds_ok sb rel_block \<longleftrightarrow> rel_block \<le> sb_total_blocks sb - 1 - sb_data_region_start sb"

fun owfs_bitmap_init_loop :: "'c htl_device \<Rightarrow> owfs_superblock \<Rightarrow> nat list \<Rightarrow> owfs_status \<times> 'c htl_device" where
  "owfs_bitmap_init_loop dev sb [] = (OWFS_OK, dev)"
| "owfs_bitmap_init_loop dev sb (i # is) =
     (let bnum = sb_bitmap_start_block sb + of_nat i in
      if bnum \<ge> sb_data_region_start sb then (OWFS_ERR_INVALID_PARAM, dev)
      else case htl_write_block dev bnum (replicate 4096 0) of (hres, dev) \<Rightarrow>
        if hres \<noteq> HTL_OK then (owfs_write_error hres, dev)
        else owfs_bitmap_init_loop dev sb is)"

definition owfs_bitmap_init :: "'c htl_device \<Rightarrow> owfs_superblock \<Rightarrow> owfs_status \<times> 'c htl_device" where
  "owfs_bitmap_init dev sb =
     (if sb_bitmap_start_block sb = 0 \<or> sb_bitmap_block_count sb = 0 then (OWFS_ERR_INVALID_PARAM, dev)
      else owfs_bitmap_init_loop dev sb [0..<unat (sb_bitmap_block_count sb)])"

text \<open>The loop over the 1024 words of one bitmap block.\<close>

definition bitmap_block_fletcher :: "bytes \<Rightarrow> u64 \<times> u64 \<Rightarrow> u64 \<times> u64" where
  "bitmap_block_fletcher buf s = fold (\<lambda>k s. fletcher_step (fletcher_word buf (4 * k)) s) [0..<1024] s"

fun bitmap_fletcher_loop ::
  "'c htl_device \<Rightarrow> owfs_superblock \<Rightarrow> nat list \<Rightarrow> u64 \<times> u64 \<Rightarrow> u64 \<times> 'c htl_device" where
  "bitmap_fletcher_loop dev sb [] s = (push_bit 32 (snd s) OR fst s, dev)"
| "bitmap_fletcher_loop dev sb (b # bs) s =
     (case htl_read_block dev (sb_bitmap_start_block sb + of_nat b) of (hres, buf, dev) \<Rightarrow>
        if hres \<noteq> HTL_OK then (0, dev)
        else bitmap_fletcher_loop dev sb bs (bitmap_block_fletcher buf s))"

definition owfs_bitmap_compute_fletcher64 :: "'c htl_device \<Rightarrow> owfs_superblock \<Rightarrow> u64 \<times> 'c htl_device" where
  "owfs_bitmap_compute_fletcher64 dev sb =
     bitmap_fletcher_loop dev sb [0..<unat (sb_bitmap_block_count sb)] (0, 0)"

text \<open>The bit loop (left by \<^verbatim>\<open>break\<close> at the first index past the data region) and the byte loop of
  \<^verbatim>\<open>owfs_bitmap_count_free\<close>.\<close>

fun count_free_bits :: "u32 \<Rightarrow> nat \<Rightarrow> nat \<Rightarrow> u8 \<Rightarrow> nat list \<Rightarrow> u32 \<Rightarrow> u32" where
  "count_free_bits data_blocks b byte_idx byte [] free_count = free_count"
| "count_free_bits data_blocks b byte_idx byte (k # ks) free_count =
     (let rel = (of_nat b * 4096 + of_nat byte_idx) * 8 + of_nat k in
      if rel \<ge> data_blocks then free_count
      else count_free_bits data_blocks b byte_idx byte ks
        (if byte AND push_bit k 1 = 0 then free_count + 1 else free_count))"

definition count_free_block :: "u32 \<Rightarrow> nat \<Rightarrow> bytes \<Rightarrow> u32 \<Rightarrow> u32" where
  "count_free_block data_blocks b buf free_count =
     fold (\<lambda>byte_idx fc. count_free_bits data_blocks b byte_idx (buf ! byte_idx) [0..<8] fc)
       [0..<4096] free_count"

fun count_free_loop ::
  "'c htl_device \<Rightarrow> owfs_superblock \<Rightarrow> u32 \<Rightarrow> nat list \<Rightarrow> u32 \<Rightarrow> u32 \<times> 'c htl_device" where
  "count_free_loop dev sb data_blocks [] free_count = (free_count, dev)"
| "count_free_loop dev sb data_blocks (b # bs) free_count =
     (case htl_read_block dev (sb_bitmap_start_block sb + of_nat b) of (hres, buf, dev) \<Rightarrow>
        if hres \<noteq> HTL_OK then (0, dev)
        else count_free_loop dev sb data_blocks bs (count_free_block data_blocks b buf free_count))"

definition owfs_bitmap_count_free :: "'c htl_device \<Rightarrow> owfs_superblock \<Rightarrow> u32 \<times> 'c htl_device" where
  "owfs_bitmap_count_free dev sb =
     count_free_loop dev sb (sb_total_blocks sb - sb_data_region_start sb)
       [0..<unat (sb_bitmap_block_count sb)] 0"

text \<open>The inner loops of \<^verbatim>\<open>owfs_bitmap_alloc\<close>: the first clear bit of a byte, and the first byte with
  one.\<close>

fun bitmap_scan_bits :: "u8 \<Rightarrow> nat list \<Rightarrow> nat option" where
  "bitmap_scan_bits byte [] = None"
| "bitmap_scan_bits byte (k # ks) =
     (if byte AND push_bit k 1 = 0 then Some k else bitmap_scan_bits byte ks)"

fun bitmap_scan_bytes :: "bytes \<Rightarrow> nat list \<Rightarrow> (nat \<times> nat) option" where
  "bitmap_scan_bytes buf [] = None"
| "bitmap_scan_bytes buf (i # is) =
     (if buf ! i \<noteq> 0xFF then
        case bitmap_scan_bits (buf ! i) [0..<8] of
          Some k \<Rightarrow> Some (i, k)
        | None \<Rightarrow> bitmap_scan_bytes buf is
      else bitmap_scan_bytes buf is)"

fun owfs_bitmap_alloc_loop ::
  "'c htl_device \<Rightarrow> owfs_superblock \<Rightarrow> nat list \<Rightarrow> (owfs_status + u32) \<times> 'c htl_device \<times> owfs_superblock" where
  "owfs_bitmap_alloc_loop dev sb [] = (Inl OWFS_ERR_NO_FREE_BLOCKS, dev, sb)"
| "owfs_bitmap_alloc_loop dev sb (b # bs) =
     (let bnum = sb_bitmap_start_block sb + of_nat b in
      case htl_read_block dev bnum of (hres, buf, dev) \<Rightarrow>
      if hres \<noteq> HTL_OK then (Inl OWFS_ERR_IO, dev, sb)
      else case bitmap_scan_bytes buf [0..<4096] of
          None \<Rightarrow> owfs_bitmap_alloc_loop dev sb bs
        | Some (byte_idx, k) \<Rightarrow>
            let rel = (of_nat b * 4096 + of_nat byte_idx) * 8 + of_nat k in
            if rel > sb_total_blocks sb - 1 - sb_data_region_start sb then
              (Inl OWFS_ERR_NO_FREE_BLOCKS, dev, sb)
            else
              let block = sb_data_region_start sb + rel;
                  buf = buf[byte_idx := buf ! byte_idx OR push_bit k 1]
              in case htl_write_block dev bnum buf of (hres, dev) \<Rightarrow>
                if hres \<noteq> HTL_OK then (Inl (owfs_write_error hres), dev, sb)
                else (Inr block, dev, sb\<lparr>sb_free_blocks := sb_free_blocks sb - 1\<rparr>))"

definition owfs_bitmap_alloc ::
  "'c htl_device \<Rightarrow> owfs_superblock \<Rightarrow> (owfs_status + u32) \<times> 'c htl_device \<times> owfs_superblock" where
  "owfs_bitmap_alloc dev sb =
     (if sb_free_blocks sb = 0 then (Inl OWFS_ERR_NO_FREE_BLOCKS, dev, sb)
      else owfs_bitmap_alloc_loop dev sb [0..<unat (sb_bitmap_block_count sb)])"

definition owfs_bitmap_free ::
  "'c htl_device \<Rightarrow> owfs_superblock \<Rightarrow> u32 \<Rightarrow> owfs_status \<times> 'c htl_device \<times> owfs_superblock" where
  "owfs_bitmap_free dev sb block =
     (if block < sb_data_region_start sb \<or> block \<ge> sb_total_blocks sb then (OWFS_ERR_INVALID_PARAM, dev, sb)
      else
        let rel_block = block - sb_data_region_start sb;
            bit_index = rel_block AND 7;
            byte_offset = drop_bit 3 rel_block;
            bitmap_block = sb_bitmap_start_block sb + drop_bit 12 byte_offset
        in
        if \<not> bitmap_bounds_ok sb rel_block then (OWFS_ERR_INVALID_PARAM, dev, sb)
        else case htl_read_block dev bitmap_block of (hres, buf, dev) \<Rightarrow>
        if hres \<noteq> HTL_OK then (OWFS_ERR_IO, dev, sb)
        else
          let in_block = unat (byte_offset AND 0xFFF) in
          if buf ! in_block AND push_bit (unat bit_index) 1 \<noteq> 0 then
            let buf = buf[in_block := buf ! in_block AND NOT (push_bit (unat bit_index) 1)] in
            case htl_write_block dev bitmap_block buf of (hres, dev) \<Rightarrow>
              if hres \<noteq> HTL_OK then (owfs_write_error hres, dev, sb)
              else (OWFS_OK, dev, sb\<lparr>sb_free_blocks := sb_free_blocks sb + 1\<rparr>)
          else (OWFS_OK, dev, sb))"

definition owfs_bitmap_is_used :: "'c htl_device \<Rightarrow> owfs_superblock \<Rightarrow> u32 \<Rightarrow> bool \<times> 'c htl_device" where
  "owfs_bitmap_is_used dev sb block =
     (if block < sb_data_region_start sb \<or> block \<ge> sb_total_blocks sb then (False, dev)
      else
        let rel_block = block - sb_data_region_start sb;
            bit_index = rel_block AND 7;
            byte_offset = drop_bit 3 rel_block;
            bitmap_block = sb_bitmap_start_block sb + drop_bit 12 byte_offset
        in case htl_read_block dev bitmap_block of (hres, buf, dev) \<Rightarrow>
          if hres \<noteq> HTL_OK then (False, dev)
          else (buf ! unat (byte_offset AND 0xFFF) AND push_bit (unat bit_index) 1 \<noteq> 0, dev))"

section \<open>The bitmap as one bit string\<close>

definition owfs_used :: "'c htl_device \<Rightarrow> owfs_superblock \<Rightarrow> nat \<Rightarrow> bool" where
  "owfs_used dev sb rel =
     bits_of (blk dev (sb_bitmap_start_block sb + of_nat (rel div 32768))) (rel mod 32768)"

definition owfs_data_blocks :: "owfs_superblock \<Rightarrow> nat" where
  "owfs_data_blocks sb = unat (sb_total_blocks sb) - unat (sb_data_region_start sb)"

text \<open>The regions of a volume in order: superblock, bitmap, inode table, data; the bitmap covers the
  data region and has no more bits than a 32-bit block number can name, and the inode table holds
  every inode.\<close>

definition owfs_geometry :: "'c htl_device \<Rightarrow> owfs_superblock \<Rightarrow> bool" where
  "owfs_geometry dev sb \<longleftrightarrow>
     unat (sb_total_blocks sb) \<le> unat (total_blocks dev) \<and>
     16 < unat (sb_bitmap_start_block sb) \<and>
     unat (sb_bitmap_start_block sb) + unat (sb_bitmap_block_count sb) \<le> unat (sb_inode_table_start sb) \<and>
     unat (sb_inode_table_start sb) + unat (sb_inode_table_blocks sb) \<le> unat (sb_data_region_start sb) \<and>
     unat (sb_data_region_start sb) < unat (sb_total_blocks sb) \<and>
     owfs_data_blocks sb \<le> unat (sb_bitmap_block_count sb) * 32768 \<and>
     unat (sb_bitmap_block_count sb) \<le> 131072 \<and>
     unat (sb_total_inodes sb) \<le> unat (sb_inode_table_blocks sb) * 16"

text \<open>The device after one bit of the bitmap has been changed and its block written back.\<close>

definition owfs_mark :: "'c htl_device \<Rightarrow> owfs_superblock \<Rightarrow> nat \<Rightarrow> bool \<Rightarrow> 'c htl_device" where
  "owfs_mark dev sb rel v =
     (let b = sb_bitmap_start_block sb + of_nat (rel div 32768)
      in blk_write dev b (bits_put (blk dev b) (rel mod 32768) v))"

section \<open>Scanning\<close>

lemma bitmap_scan_bits_find: "bitmap_scan_bits x ks = find (\<lambda>k. \<not> bit x k) ks"
  by (induction ks) simp_all

lemma bitmap_scan_bits_full: "bitmap_scan_bits (0xFF :: u8) [0..<8] = None"
proof -
  have "bit (0xFF :: u8) k" if "k < 8" for k
    using that bit_mask_iff [of 8 k, where 'a = u8] by (simp add: mask_eq_exp_minus_1)
  then show ?thesis by (auto simp: bitmap_scan_bits_find find_None_iff simp del: upt_rec_numeral)
qed

lemma bitmap_scan_bytes_Cons:
  "bitmap_scan_bytes buf (i # is) =
     (case bitmap_scan_bits (buf ! i) [0..<8] of
        Some k \<Rightarrow> Some (i, k) | None \<Rightarrow> bitmap_scan_bytes buf is)"
  using bitmap_scan_bits_full by (simp del: upt_Suc split: option.split)

lemma bitmap_scan_bytes_find:
  "a \<le> n \<Longrightarrow> map_option (\<lambda>(i, k). 8 * i + k) (bitmap_scan_bytes buf [a..<n]) =
     find (\<lambda>p. \<not> bits_of buf p) [8 * a..<8 * n]"
proof (induction "n - a" arbitrary: a)
  case (Suc d)
  then have "a < n" by simp
  then have 1: "[a..<n] = a # [Suc a..<n]" by (rule upt_conv_Cons)
  have 2: "[8 * a..<8 * n] = [8 * a..<8 * a + 8] @ [8 * Suc a..<8 * n]"
    using upt_add_eq_append [of "8 * a" "8 * a + 8" "8 * n - (8 * a + 8)"] \<open>a < n\<close>
    by (simp add: add.commute)
  have 3: "find (\<lambda>k. \<not> bits_of buf (8 * a + k)) [0..<8] = find (\<lambda>k. \<not> bit (buf ! a) k) [0..<8]"
    by (rule find_cong) (auto simp: bits_of_def)
  have IH: "map_option (\<lambda>(i, k). 8 * i + k) (bitmap_scan_bytes buf [Suc a..<n]) =
     find (\<lambda>p. \<not> bits_of buf p) [8 * Suc a..<8 * n]"
    using Suc(1) [of "Suc a"] Suc(2) by simp
  show ?case
    unfolding 1 2 bitmap_scan_bytes_Cons find_append find_upt_shift [of _ "8 * a" 8] 3 bitmap_scan_bits_find IH [symmetric]
    by (cases "find (\<lambda>k. \<not> bit (buf ! a) k) [0..<8]") (simp_all only: option.case option.map prod.case)
qed simp
section \<open>The geometry of the bitmap\<close>

lemma owfs_geometryD:
  assumes "owfs_geometry dev sb" and "rel < 32768 * unat (sb_bitmap_block_count sb)"
  shows "unat (sb_bitmap_start_block sb + of_nat (rel div 32768)) = unat (sb_bitmap_start_block sb) + rel div 32768"
    and "sb_bitmap_start_block sb + of_nat (rel div 32768) < total_blocks dev"
proof -
  have "unat (sb_bitmap_start_block sb) + rel div 32768 < unat (total_blocks dev)"
    using assms by (auto simp: owfs_geometry_def less_mult_imp_div_less mult.commute
        intro: order_less_le_trans [where y = "unat (sb_bitmap_start_block sb) + unat (sb_bitmap_block_count sb)"])
  moreover from this have "unat (sb_bitmap_start_block sb) + rel div 32768 < 2 ^ 32"
    using unsigned_less [of "total_blocks dev", where 'a = nat] by simp
  ultimately show "unat (sb_bitmap_start_block sb + of_nat (rel div 32768)) = unat (sb_bitmap_start_block sb) + rel div 32768"
    "sb_bitmap_start_block sb + of_nat (rel div 32768) < total_blocks dev"
    by (simp_all add: word_less_nat_alt unat_word_ariths unat_of_nat_small)
qed

lemma owfs_bitmap_block_inj:
  assumes "owfs_geometry dev sb" and "p < 32768 * unat (sb_bitmap_block_count sb)"
    and "q < 32768 * unat (sb_bitmap_block_count sb)"
  shows "sb_bitmap_start_block sb + of_nat (p div 32768) = sb_bitmap_start_block sb + of_nat (q div 32768)
    \<longleftrightarrow> p div 32768 = q div 32768"
  using owfs_geometryD(1) [OF assms(1,2)] owfs_geometryD(1) [OF assms(1,3)] by (metis add_left_cancel)

lemma owfs_mark_reliable:
  assumes "htl_reliable dev" and "owfs_geometry dev sb" and "rel < 32768 * unat (sb_bitmap_block_count sb)"
  shows "htl_reliable (owfs_mark dev sb rel v)"
    and "total_blocks (owfs_mark dev sb rel v) = total_blocks dev"
    and "b < total_blocks dev \<Longrightarrow> b < sb_bitmap_start_block sb \<or> sb_inode_table_start sb \<le> b \<Longrightarrow>
      blk (owfs_mark dev sb rel v) b = blk dev b"
    and "q < 32768 * unat (sb_bitmap_block_count sb) \<Longrightarrow>
      owfs_used (owfs_mark dev sb rel v) sb q = (if q = rel then v else owfs_used dev sb q)"
proof -
  note g = owfs_geometryD [OF assms(2,3)]
  show "htl_reliable (owfs_mark dev sb rel v)"
    using assms g by (simp add: owfs_mark_def Let_def dev_simps)
  show "total_blocks (owfs_mark dev sb rel v) = total_blocks dev"
    by (simp add: owfs_mark_def Let_def)
  show "blk (owfs_mark dev sb rel v) b = blk dev b"
    if b: "b < total_blocks dev" "b < sb_bitmap_start_block sb \<or> sb_inode_table_start sb \<le> b"
  proof -
    have "rel div 32768 < unat (sb_bitmap_block_count sb)"
      using assms(3) by (simp add: less_mult_imp_div_less mult.commute)
    then have "b \<noteq> sb_bitmap_start_block sb + of_nat (rel div 32768)"
      using b(2) g(1) assms(2) by (auto simp: owfs_geometry_def word_less_nat_alt word_le_nat_alt)
    then show ?thesis
      using assms g b(1) by (simp add: owfs_mark_def Let_def dev_simps)
  qed
  show "owfs_used (owfs_mark dev sb rel v) sb q = (if q = rel then v else owfs_used dev sb q)"
    if q: "q < 32768 * unat (sb_bitmap_block_count sb)"
  proof -
    have "q = rel \<longleftrightarrow> q div 32768 = rel div 32768 \<and> q mod 32768 = rel mod 32768"
      by (metis div_mult_mod_eq)
    then show ?thesis
      using assms g owfs_geometryD(2) [OF assms(2) q] owfs_bitmap_block_inj [OF assms(2) q assms(3)]
      by (simp add: owfs_used_def owfs_mark_def Let_def dev_simps bits_of_put)
  qed
qed

lemma owfs_data_blocks_pred:
  assumes "owfs_geometry dev sb"
  shows "unat (sb_total_blocks sb - 1 - sb_data_region_start sb) = owfs_data_blocks sb - 1"
    and "unat (sb_total_blocks sb - sb_data_region_start sb) = owfs_data_blocks sb"
    and "0 < owfs_data_blocks sb"
proof -
  have "unat (sb_total_blocks sb - 1) = unat (sb_total_blocks sb) - 1"
    using assms by (auto simp: owfs_geometry_def unat_sub word_le_nat_alt)
  then show "unat (sb_total_blocks sb - 1 - sb_data_region_start sb) = owfs_data_blocks sb - 1"
    "unat (sb_total_blocks sb - sb_data_region_start sb) = owfs_data_blocks sb"
    "0 < owfs_data_blocks sb"
    using assms by (auto simp: owfs_geometry_def unat_sub word_le_nat_alt owfs_data_blocks_def)
qed

text \<open>The index a scan computes from a bitmap block, a byte and a bit does not wrap.\<close>

lemma owfs_rel_index:
  assumes "i < 4096" and "k < 8" and "32768 * b + (8 * i + k) < 2 ^ 32"
  shows "unat ((of_nat b * 4096 + of_nat i) * 8 + of_nat k :: u32) = 32768 * b + (8 * i + k)"
proof -
  have "(of_nat b * 4096 + of_nat i) * 8 + of_nat k = (of_nat (32768 * b + (8 * i + k)) :: u32)"
    by (simp add: algebra_simps)
  moreover have "unat (of_nat (32768 * b + (8 * i + k)) :: u32) = 32768 * b + (8 * i + k)"
    using assms by (intro unat_of_nat_small) simp
  ultimately show ?thesis by (rule trans [OF arg_cong])
qed

section \<open>Allocation\<close>

lemma find_used_block:
  "find (\<lambda>r. \<not> owfs_used dev sb r) [32768 * a..<32768 * a + 32768] =
     map_option (\<lambda>(i, k). 32768 * a + (8 * i + k))
       (bitmap_scan_bytes (blk dev (sb_bitmap_start_block sb + of_nat a)) [0..<4096])"
proof -
  have "find (\<lambda>k. \<not> owfs_used dev sb (32768 * a + k)) [0..<32768] =
      find (\<lambda>p. \<not> bits_of (blk dev (sb_bitmap_start_block sb + of_nat a)) p) [8 * 0..<8 * 4096]"
    by (rule find_cong) (simp_all add: owfs_used_def)
  then show ?thesis
    unfolding find_upt_shift [of _ "32768 * a"] bitmap_scan_bytes_find [OF le0, symmetric]
    by (simp add: option.map_comp comp_def case_prod_unfold del: upt_rec_numeral)
qed

lemma bitmap_scan_bytes_bounds:
  assumes "bitmap_scan_bytes buf is = Some (i, k)"
  shows "i \<in> set is" and "k < 8"
proof -
  have "i \<in> set is \<and> k < 8"
    using assms
  proof (induction "is")
    case (Cons j js)
    then show ?case
      by (auto simp: bitmap_scan_bytes_Cons bitmap_scan_bits_find simp del: bitmap_scan_bytes.simps upt_rec_numeral
          split: option.splits dest!: find_upt_bound)
  qed simp
  then show "i \<in> set is" "k < 8" by simp_all
qed

lemma owfs_bitmap_alloc_loop_find:
  assumes dev: "htl_reliable dev" and geo: "owfs_geometry dev sb"
    and "a \<le> n" "n = unat (sb_bitmap_block_count sb)"
  shows "owfs_bitmap_alloc_loop dev sb [a..<n] =
     (case find (\<lambda>r. \<not> owfs_used dev sb r) [32768 * a..<32768 * n] of
        None \<Rightarrow> (Inl OWFS_ERR_NO_FREE_BLOCKS, dev, sb)
      | Some rel \<Rightarrow>
          if owfs_data_blocks sb \<le> rel then (Inl OWFS_ERR_NO_FREE_BLOCKS, dev, sb)
          else (Inr (sb_data_region_start sb + of_nat rel), owfs_mark dev sb rel True,
                sb\<lparr>sb_free_blocks := sb_free_blocks sb - 1\<rparr>))"
  using assms(3)
proof (induction "n - a" arbitrary: a)
  case (Suc d)
  then have a: "a < n" and l: "[a..<n] = a # [Suc a..<n]" by (simp_all add: upt_conv_Cons)
  let ?b = "sb_bitmap_start_block sb + of_nat a"
  have "32768 * a < 32768 * unat (sb_bitmap_block_count sb)" using a assms(4) by simp
  from owfs_geometryD(2) [OF geo this] have b: "?b < total_blocks dev" by simp
  show ?case
  proof (cases "bitmap_scan_bytes (blk dev ?b) [0..<4096]")
    case None
    then show ?thesis
      using Suc(1) [of "Suc a"] Suc(2) a b dev
      by (simp add: l htl_read_reliable upt_split_block [OF a] find_append find_used_block Let_def
          del: upt_rec_numeral)
  next
    case (Some ik)
    obtain i k where ik: "ik = (i, k)" by (cases ik)
    from bitmap_scan_bytes_bounds [OF Some [unfolded ik]] have i: "i < 4096" "k < 8" by auto
    let ?rel = "32768 * a + (8 * i + k)"
    have "32768 * Suc a \<le> 32768 * 131072" "32768 * Suc a \<le> 32768 * n" using a assms(4) geo
      unfolding owfs_geometry_def by (intro mult_left_mono; simp)+
    then have r: "?rel < 32768 * n" "?rel < 2 ^ 32" using i by simp_all
    let ?w = "(of_nat a * 4096 + of_nat i) * 8 + of_nat k :: u32"
    from i r have w: "unat ?w = ?rel" by (intro owfs_rel_index)
    have w': "?w = of_nat ?rel"
    using arg_cong [OF w, of "of_nat :: nat \<Rightarrow> u32"] by simp
    have lt: "sb_total_blocks sb - 1 - sb_data_region_start sb < ?w \<longleftrightarrow> owfs_data_blocks sb \<le> ?rel"
      using owfs_data_blocks_pred(1,3) [OF geo] unfolding word_less_nat_alt w by auto
    have d: "?rel div 32768 = a" "?rel mod 32768 = 8 * i + k" "(8 * i + k) div 8 = i" "(8 * i + k) mod 8 = k"
      using i by simp_all
    have m: "htl_write_block dev ?b ((blk dev ?b)[i := blk dev ?b ! i OR push_bit k 1]) =
       (HTL_OK, owfs_mark dev sb ?rel True)"
      using dev b unfolding owfs_mark_def d Let_def bits_put_def by (simp add: dev_simps)
    show ?thesis
      using Some dev b m lt
      unfolding l upt_split_block [OF a] find_append find_used_block owfs_bitmap_alloc_loop.simps Let_def
      by (simp add: ik htl_read_reliable w' del: upt_rec_numeral)
  qed
qed simp

lemma owfs_bitmap_alloc_find:
  assumes "htl_reliable dev" and "owfs_geometry dev sb"
  shows "owfs_bitmap_alloc dev sb =
     (if sb_free_blocks sb = 0 then (Inl OWFS_ERR_NO_FREE_BLOCKS, dev, sb)
      else case find (\<lambda>r. \<not> owfs_used dev sb r) [0..<owfs_data_blocks sb] of
        None \<Rightarrow> (Inl OWFS_ERR_NO_FREE_BLOCKS, dev, sb)
      | Some rel \<Rightarrow>
          (Inr (sb_data_region_start sb + of_nat rel), owfs_mark dev sb rel True,
           sb\<lparr>sb_free_blocks := sb_free_blocks sb - 1\<rparr>))"
proof -
  let ?n = "32768 * unat (sb_bitmap_block_count sb)"
  have le: "owfs_data_blocks sb \<le> ?n" using assms(2) by (simp add: owfs_geometry_def mult.commute)
  then have split: "[0..<?n] = [0..<owfs_data_blocks sb] @ [owfs_data_blocks sb..<?n]"
    using upt_add_eq_append [of 0 "owfs_data_blocks sb" "?n - owfs_data_blocks sb"] by simp
  have *: "(case find P [0..<?n] of None \<Rightarrow> e | Some r \<Rightarrow> if owfs_data_blocks sb \<le> r then e else f r) =
      (case find P [0..<owfs_data_blocks sb] of None \<Rightarrow> e | Some r \<Rightarrow> f r)" for P e f
    unfolding split find_append by (auto split: option.split dest!: find_upt_bound)
  from owfs_bitmap_alloc_loop_find [OF assms le0 refl] show ?thesis
    by (simp add: owfs_bitmap_alloc_def *)
qed

section \<open>Freeing, testing\<close>

lemma owfs_bit_position:
  assumes "sb_data_region_start sb \<le> block"
  defines "rel \<equiv> unat block - unat (sb_data_region_start sb)"
  shows "unat (block - sb_data_region_start sb) = rel"
    and "unat ((block - sb_data_region_start sb) AND 7) = rel mod 8"
    and "unat (drop_bit 3 (block - sb_data_region_start sb) AND 0xFFF) = rel div 8 mod 4096"
    and "drop_bit 12 (drop_bit 3 (block - sb_data_region_start sb)) = of_nat (rel div 32768)"
proof -
  show *: "unat (block - sb_data_region_start sb) = rel"
    using assms by (simp add: unat_sub)
  then have lt: "rel < 4294967296"
    using unsigned_less [of "block - sb_data_region_start sb", where 'a = nat] by simp
  have "x AND 7 = take_bit 3 x" "x AND 0xFFF = take_bit 12 x" for x :: u32
    by (simp_all add: take_bit_eq_mask mask_eq_exp_minus_1)
  with lt show "unat ((block - sb_data_region_start sb) AND 7) = rel mod 8"
    "unat (drop_bit 3 (block - sb_data_region_start sb) AND 0xFFF) = rel div 8 mod 4096"
    by (simp_all only: unsigned_take_bit_eq unsigned_drop_bit_eq *)
      (simp_all add: take_bit_eq_mod drop_bit_eq_div)
  have "unat (drop_bit 12 (drop_bit 3 (block - sb_data_region_start sb))) = rel div 32768"
    using lt by (simp only: unsigned_drop_bit_eq *) (simp add: take_bit_eq_mod drop_bit_eq_div div_mult2_eq)
  then show "drop_bit 12 (drop_bit 3 (block - sb_data_region_start sb)) = of_nat (rel div 32768)"
    by (metis of_nat_unat ucast_id)
qed

lemma owfs_data_block_rel:
  assumes "owfs_geometry dev sb" and "sb_data_region_start sb \<le> block" and "block < sb_total_blocks sb"
  shows "unat block - unat (sb_data_region_start sb) < owfs_data_blocks sb"
    and "unat block - unat (sb_data_region_start sb) < 32768 * unat (sb_bitmap_block_count sb)"
    and "bitmap_bounds_ok sb (block - sb_data_region_start sb)"
proof -
  show *: "unat block - unat (sb_data_region_start sb) < owfs_data_blocks sb"
    using assms by (auto simp: owfs_data_blocks_def word_less_nat_alt word_le_nat_alt)
  then show "unat block - unat (sb_data_region_start sb) < 32768 * unat (sb_bitmap_block_count sb)"
    using assms(1) by (auto simp: owfs_geometry_def)
  show "bitmap_bounds_ok sb (block - sb_data_region_start sb)"
    using * unfolding bitmap_bounds_ok_def word_le_nat_alt owfs_bit_position(1) [OF assms(2)]
      owfs_data_blocks_pred [OF assms(1)] by simp
qed

lemma owfs_bitmap_free_reliable:
  assumes dev: "htl_reliable dev" and geo: "owfs_geometry dev sb"
  shows "owfs_bitmap_free dev sb block =
     (if block < sb_data_region_start sb \<or> sb_total_blocks sb \<le> block then (OWFS_ERR_INVALID_PARAM, dev, sb)
      else let rel = unat block - unat (sb_data_region_start sb) in
        if owfs_used dev sb rel then
          (OWFS_OK, owfs_mark dev sb rel False, sb\<lparr>sb_free_blocks := sb_free_blocks sb + 1\<rparr>)
        else (OWFS_OK, dev, sb))"
proof (cases "block < sb_data_region_start sb \<or> sb_total_blocks sb \<le> block")
  case False
  then have b: "sb_data_region_start sb \<le> block" "block < sb_total_blocks sb" by (simp_all add: not_le not_less)
  define rel where "rel = unat block - unat (sb_data_region_start sb)"
  note pos = owfs_bit_position [OF b(1), folded rel_def]
  note r = owfs_data_block_rel [OF geo b, folded rel_def]
  note g = owfs_geometryD [OF geo r(2)]
  let ?b = "sb_bitmap_start_block sb + of_nat (rel div 32768)"
  have u: "owfs_used dev sb rel = bit (blk dev ?b ! (rel div 8 mod 4096)) (rel mod 8)"
    by (simp add: owfs_used_def bits_of_byte)
  have m: "owfs_mark dev sb rel False = blk_write dev ?b ((blk dev ?b)[rel div 8 mod 4096 :=
      blk dev ?b ! (rel div 8 mod 4096) AND NOT (push_bit (rel mod 8) 1)])"
    by (simp add: owfs_mark_def bits_put_def bits_split Let_def)
  show ?thesis
    using dev b r g unfolding owfs_bitmap_free_def Let_def pos rel_def [symmetric] m u
    by (auto simp: dev_simps not_less not_le)
qed (simp add: owfs_bitmap_free_def)

lemma owfs_bitmap_is_used_reliable:
  assumes dev: "htl_reliable dev" and geo: "owfs_geometry dev sb"
  shows "owfs_bitmap_is_used dev sb block =
     (sb_data_region_start sb \<le> block \<and> block < sb_total_blocks sb \<and>
        owfs_used dev sb (unat block - unat (sb_data_region_start sb)), dev)"
proof (cases "block < sb_data_region_start sb \<or> sb_total_blocks sb \<le> block")
  case False
  then have b: "sb_data_region_start sb \<le> block" "block < sb_total_blocks sb" by (simp_all add: not_le not_less)
  define rel where "rel = unat block - unat (sb_data_region_start sb)"
  note pos = owfs_bit_position [OF b(1), folded rel_def]
  note r = owfs_data_block_rel [OF geo b, folded rel_def]
  note g = owfs_geometryD [OF geo r(2)]
  show ?thesis
    using dev b r g unfolding owfs_bitmap_is_used_def Let_def pos rel_def [symmetric] owfs_used_def bits_of_byte
    by (auto simp: dev_simps not_less not_le)
qed (auto simp: owfs_bitmap_is_used_def)

section \<open>Counting and the free-block counter\<close>

lemma count_free_bits_filter:
  assumes "i < 4096" and "j \<le> 8" and "b < 131072"
  shows "count_free_bits d b i x [j..<8] fc =
    fc + of_nat (length (filter (\<lambda>k. 32768 * b + (8 * i + k) < unat d \<and> \<not> bit x k) [j..<8]))"
  using assms(2)
proof (induction "8 - j" arbitrary: j fc)
  case (Suc n)
  then have j: "j < 8" and l: "[j..<8] = j # [Suc j..<8]" by (simp_all add: upt_conv_Cons)
  have w: "unat ((of_nat b * 4096 + of_nat i) * 8 + of_nat j :: u32) = 32768 * b + (8 * i + j)"
    using assms(1,3) j by (intro owfs_rel_index) auto
  have IH: "count_free_bits d b i x [Suc j..<8] fc =
    fc + of_nat (length (filter (\<lambda>k. 32768 * b + (8 * i + k) < unat d \<and> \<not> bit x k) [Suc j..<8]))" for fc
    using Suc by simp
  have none: "filter (\<lambda>k. 32768 * b + (8 * i + k) < unat d \<and> \<not> bit x k) [Suc j..<8] = []"
    if "unat d \<le> 32768 * b + (8 * i + j)"
    using that by (auto simp: filter_empty_conv simp del: upt_rec_numeral upt_Suc)
  show ?case
    unfolding l count_free_bits.simps Let_def word_le_nat_alt w IH
    using none by (auto simp del: upt_rec_numeral upt_Suc)
qed simp

lemma count_free_block_filter:
  assumes "b < 131072" and "n \<le> 4096"
  shows "fold (\<lambda>i fc. count_free_bits d b i (buf ! i) [0..<8] fc) [0..<n] fc =
    fc + of_nat (length (filter (\<lambda>p. 32768 * b + p < unat d \<and> \<not> bits_of buf p) [0..<8 * n]))"
  using assms(2)
proof (induction n)
  case (Suc n)
  have "filter (\<lambda>k. 32768 * b + (8 * n + k) < unat d \<and> \<not> bit (buf ! n) k) [0..<8] =
      filter (\<lambda>k. 32768 * b + (8 * n + k) < unat d \<and> \<not> bits_of buf (8 * n + k)) [0..<8]"
    by (rule filter_cong) (auto simp: bits_of_def)
  then have "length (filter (\<lambda>p. 32768 * b + p < unat d \<and> \<not> bits_of buf p) [8 * n..<8 * n + 8]) =
      length (filter (\<lambda>k. 32768 * b + (8 * n + k) < unat d \<and> \<not> bit (buf ! n) k) [0..<8])"
    by (simp only: filter_upt_shift)
  moreover have "[0..<8 * Suc n] = [0..<8 * n] @ [8 * n..<8 * n + 8]"
    using upt_add_eq_append [of 0 "8 * n" 8] by (simp add: add.commute)
  ultimately show ?case
    using Suc count_free_bits_filter [of n 0 b d "buf ! n"] assms(1)
    by (simp del: upt_rec_numeral mult_Suc_right)
qed simp

definition owfs_free_set :: "'c htl_device \<Rightarrow> owfs_superblock \<Rightarrow> nat set" where
  "owfs_free_set dev sb = {r. r < owfs_data_blocks sb \<and> \<not> owfs_used dev sb r}"

lemma count_free_loop_filter:
  assumes dev: "htl_reliable dev" and geo: "owfs_geometry dev sb" and "unat d = owfs_data_blocks sb"
    and "n \<le> unat (sb_bitmap_block_count sb)"
  shows "a \<le> n \<Longrightarrow> count_free_loop dev sb d [a..<n] fc =
    (fc + of_nat (length (filter (\<lambda>r. r < owfs_data_blocks sb \<and> \<not> owfs_used dev sb r) [32768 * a..<32768 * n])), dev)"
proof (induction "n - a" arbitrary: a fc)
  case (Suc m)
  then have a: "a < n" and l: "[a..<n] = a # [Suc a..<n]" by (simp_all add: upt_conv_Cons)
  let ?b = "sb_bitmap_start_block sb + of_nat a"
  have "32768 * a < 32768 * unat (sb_bitmap_block_count sb)" using a assms(4) by simp
  from owfs_geometryD(2) [OF geo this] have b: "?b < total_blocks dev" by simp
  have "a < 131072" using a assms(4) geo by (simp add: owfs_geometry_def)
  moreover have "filter (\<lambda>k. 32768 * a + k < unat d \<and> \<not> owfs_used dev sb (32768 * a + k)) [0..<32768] =
      filter (\<lambda>p. 32768 * a + p < unat d \<and> \<not> bits_of (blk dev ?b) p) [0..<8 * 4096]"
    by (rule filter_cong) (auto simp: owfs_used_def)
  ultimately have "count_free_block d a (blk dev ?b) fc = fc + of_nat
      (length (filter (\<lambda>r. r < owfs_data_blocks sb \<and> \<not> owfs_used dev sb r) [32768 * a..<32768 * a + 32768]))"
    unfolding count_free_block_def filter_upt_shift using assms(3)
    by (simp only: count_free_block_filter)
  then show ?case
    using Suc a b dev unfolding upt_split_block [OF a] l
    by (simp add: htl_read_reliable del: upt_rec_numeral mult_Suc_right)
qed simp

lemma owfs_bitmap_count_free_card:
  assumes "htl_reliable dev" and "owfs_geometry dev sb"
  shows "owfs_bitmap_count_free dev sb = (of_nat (card (owfs_free_set dev sb)), dev)"
proof -
  let ?n = "32768 * unat (sb_bitmap_block_count sb)"
  have "owfs_free_set dev sb = set (filter (\<lambda>r. r < owfs_data_blocks sb \<and> \<not> owfs_used dev sb r) [0..<?n])"
    using assms(2) by (auto simp: owfs_free_set_def owfs_geometry_def)
  then have "card (owfs_free_set dev sb) =
      length (filter (\<lambda>r. r < owfs_data_blocks sb \<and> \<not> owfs_used dev sb r) [0..<?n])"
    by (simp only: distinct_card distinct_filter distinct_upt)
  then show ?thesis
    using count_free_loop_filter [OF assms owfs_data_blocks_pred(2) [OF assms(2)] order_refl le0]
    by (simp add: owfs_bitmap_count_free_def)
qed

text \<open>The invariant of the allocator: the counter in the superblock is the number of clear bits.\<close>

definition owfs_counted :: "'c htl_device \<Rightarrow> owfs_superblock \<Rightarrow> bool" where
  "owfs_counted dev sb \<longleftrightarrow> unat (sb_free_blocks sb) = card (owfs_free_set dev sb)"

definition owfs_alloc_inv :: "'c htl_device \<Rightarrow> owfs_superblock \<Rightarrow> bool" where
  "owfs_alloc_inv dev sb \<longleftrightarrow> htl_reliable dev \<and> owfs_geometry dev sb \<and> owfs_counted dev sb"

lemma finite_owfs_free_set [simp]: "finite (owfs_free_set dev sb)"
  by (rule finite_subset [of _ "{..<owfs_data_blocks sb}"]) (auto simp: owfs_free_set_def)

lemma owfs_geometry_cong [simp]:
  "owfs_geometry dev (sb\<lparr>sb_free_blocks := f\<rparr>) = owfs_geometry dev sb"
  "owfs_used dev (sb\<lparr>sb_free_blocks := f\<rparr>) = owfs_used dev sb"
  "owfs_data_blocks (sb\<lparr>sb_free_blocks := f\<rparr>) = owfs_data_blocks sb"
  "owfs_free_set dev (sb\<lparr>sb_free_blocks := f\<rparr>) = owfs_free_set dev sb"
  by (simp_all add: owfs_geometry_def owfs_used_def owfs_data_blocks_def owfs_free_set_def fun_eq_iff)

lemma owfs_geometry_dev: "total_blocks dev' = total_blocks dev \<Longrightarrow> owfs_geometry dev' sb = owfs_geometry dev sb"
  by (simp add: owfs_geometry_def)

lemma owfs_rel_bitmap:
  "owfs_geometry dev sb \<Longrightarrow> rel < owfs_data_blocks sb \<Longrightarrow> rel < 32768 * unat (sb_bitmap_block_count sb)"
  by (simp add: owfs_geometry_def)

lemma owfs_free_set_mark:
  assumes "htl_reliable dev" and "owfs_geometry dev sb" and "rel < owfs_data_blocks sb"
  shows "owfs_free_set (owfs_mark dev sb rel v) sb =
    (if v then owfs_free_set dev sb - {rel} else insert rel (owfs_free_set dev sb))"
  using owfs_mark_reliable(4) [OF assms(1,2) owfs_rel_bitmap [OF assms(2,3)]] owfs_rel_bitmap [OF assms(2)] assms(3)
  by (auto simp: owfs_free_set_def split: if_splits)

lemma card_owfs_free_set: "card (owfs_free_set dev sb) \<le> owfs_data_blocks sb"
  using card_mono [of "{..<owfs_data_blocks sb}" "owfs_free_set dev sb"] by (auto simp: owfs_free_set_def)

lemma owfs_alloc_inv_mark:
  assumes inv: "owfs_alloc_inv dev sb" and rel: "rel < owfs_data_blocks sb" "\<not> owfs_used dev sb rel"
  shows "owfs_alloc_inv (owfs_mark dev sb rel True) (sb\<lparr>sb_free_blocks := sb_free_blocks sb - 1\<rparr>)"
proof -
  from inv have i: "htl_reliable dev" "owfs_geometry dev sb" "unat (sb_free_blocks sb) = card (owfs_free_set dev sb)"
    by (simp_all add: owfs_alloc_inv_def owfs_counted_def)
  note m = owfs_mark_reliable(1,2) [OF i(1,2) owfs_rel_bitmap [OF i(2) rel(1)]]
  have mem: "rel \<in> owfs_free_set dev sb" using rel by (simp add: owfs_free_set_def)
  then have "0 < card (owfs_free_set dev sb)" by (auto simp: card_gt_0_iff)
  then have "unat (sb_free_blocks sb - 1) = card (owfs_free_set dev sb) - 1"
    using i(3) by (simp add: unat_sub word_le_nat_alt)
  with i mem show ?thesis
    using m owfs_geometry_dev [OF m(2)]
    by (simp add: owfs_alloc_inv_def owfs_counted_def owfs_free_set_mark rel(1))
qed

lemma owfs_alloc_inv_unmark:
  assumes inv: "owfs_alloc_inv dev sb" and rel: "rel < owfs_data_blocks sb" "owfs_used dev sb rel"
  shows "owfs_alloc_inv (owfs_mark dev sb rel False) (sb\<lparr>sb_free_blocks := sb_free_blocks sb + 1\<rparr>)"
proof -
  from inv have i: "htl_reliable dev" "owfs_geometry dev sb" "unat (sb_free_blocks sb) = card (owfs_free_set dev sb)"
    by (simp_all add: owfs_alloc_inv_def owfs_counted_def)
  note m = owfs_mark_reliable(1,2) [OF i(1,2) owfs_rel_bitmap [OF i(2) rel(1)]]
  have mem: "rel \<notin> owfs_free_set dev sb" using rel by (simp add: owfs_free_set_def)
  then have card: "card (insert rel (owfs_free_set dev sb)) = Suc (card (owfs_free_set dev sb))" by simp
  have "card (owfs_free_set (owfs_mark dev sb rel False) sb) \<le> owfs_data_blocks sb"
    by (rule card_owfs_free_set)
  then have "Suc (card (owfs_free_set dev sb)) \<le> owfs_data_blocks sb"
    using card by (simp add: owfs_free_set_mark i rel)
  moreover have "owfs_data_blocks sb < 2 ^ 32"
    using unsigned_less [of "sb_total_blocks sb", where 'a = nat] by (simp add: owfs_data_blocks_def)
  ultimately have "unat (sb_free_blocks sb + 1) = Suc (card (owfs_free_set dev sb))"
    using i(3) by (simp add: unat_word_ariths)
  with i card show ?thesis
    using m owfs_geometry_dev [OF m(2)]
    by (simp add: owfs_alloc_inv_def owfs_counted_def owfs_free_set_mark rel(1))
qed

section \<open>The allocator as a set of blocks\<close>

definition owfs_region :: "owfs_superblock \<Rightarrow> u32 set" where
  "owfs_region sb = {b. sb_data_region_start sb \<le> b \<and> b < sb_total_blocks sb}"

definition owfs_allocated :: "'c htl_device \<Rightarrow> owfs_superblock \<Rightarrow> u32 set" where
  "owfs_allocated dev sb =
     {b \<in> owfs_region sb. owfs_used dev sb (unat b - unat (sb_data_region_start sb))}"

lemma owfs_block_of_rel:
  assumes "owfs_geometry dev sb" and "rel < owfs_data_blocks sb"
  shows "unat (sb_data_region_start sb + of_nat rel) = unat (sb_data_region_start sb) + rel"
    and "sb_data_region_start sb + of_nat rel \<in> owfs_region sb"
proof -
  have "unat (sb_data_region_start sb) + rel < unat (sb_total_blocks sb)"
    using assms by (simp add: owfs_data_blocks_def)
  moreover from this have "unat (sb_data_region_start sb) + rel < 2 ^ 32"
    using unsigned_less [of "sb_total_blocks sb", where 'a = nat] by simp
  ultimately show "unat (sb_data_region_start sb + of_nat rel) = unat (sb_data_region_start sb) + rel"
    "sb_data_region_start sb + of_nat rel \<in> owfs_region sb"
    by (simp_all add: owfs_region_def word_less_nat_alt word_le_nat_alt unat_word_ariths unat_of_nat_small)
qed

lemma owfs_region_rel:
  assumes "b \<in> owfs_region sb"
  shows "unat b - unat (sb_data_region_start sb) < owfs_data_blocks sb"
    and "unat b = unat (sb_data_region_start sb) + (unat b - unat (sb_data_region_start sb))"
  using assms by (auto simp: owfs_region_def owfs_data_blocks_def word_less_nat_alt word_le_nat_alt)

lemma owfs_allocated_mark:
  assumes "htl_reliable dev" and "owfs_geometry dev sb" and "b \<in> owfs_region sb"
  defines "rel \<equiv> unat b - unat (sb_data_region_start sb)"
  shows "owfs_allocated (owfs_mark dev sb rel v) sb =
    (if v then insert b (owfs_allocated dev sb) else owfs_allocated dev sb - {b})"
proof -
  have eq: "unat x - unat (sb_data_region_start sb) = rel \<longleftrightarrow> x = b" if "x \<in> owfs_region sb" for x
    using owfs_region_rel(2) [OF that] owfs_region_rel(2) [OF assms(3)] unfolding rel_def
    by (metis word_unat_eq_iff)
  have "owfs_used (owfs_mark dev sb rel v) sb (unat x - unat (sb_data_region_start sb)) =
      (if x = b then v else owfs_used dev sb (unat x - unat (sb_data_region_start sb)))"
    if "x \<in> owfs_region sb" for x
    using owfs_mark_reliable(4) [OF assms(1,2), of rel] eq [OF that] owfs_region_rel(1) [OF that]
      owfs_region_rel(1) [OF assms(3)] owfs_rel_bitmap [OF assms(2)] by (auto simp: rel_def)
  then show ?thesis using assms(3) by (auto simp: owfs_allocated_def split: if_splits)
qed

lemma owfs_region_cong [simp]:
  "owfs_region (sb\<lparr>sb_free_blocks := f\<rparr>) = owfs_region sb"
  "owfs_allocated dev (sb\<lparr>sb_free_blocks := f\<rparr>) = owfs_allocated dev sb"
  by (simp_all add: owfs_region_def owfs_allocated_def)

lemma owfs_region_word: "owfs_region sb = {sb_data_region_start sb ..< sb_total_blocks sb}"
  by (auto simp: owfs_region_def)

lemma owfs_bitmap_alloc_some:
  assumes inv: "owfs_alloc_inv dev sb" and "owfs_bitmap_alloc dev sb = (Inr b, dev', sb')"
  shows "owfs_alloc_inv dev' sb'" and "sb' = sb\<lparr>sb_free_blocks := sb_free_blocks sb - 1\<rparr>"
    and "b \<in> owfs_region sb - owfs_allocated dev sb"
    and "owfs_allocated dev' sb' = insert b (owfs_allocated dev sb)"
    and "total_blocks dev' = total_blocks dev"
    and "x < total_blocks dev \<Longrightarrow> x < sb_bitmap_start_block sb \<or> sb_inode_table_start sb \<le> x \<Longrightarrow>
      blk dev' x = blk dev x"
    and "y \<in> owfs_region sb - owfs_allocated dev sb \<Longrightarrow> b \<le> y"
proof -
  from inv have i: "htl_reliable dev" "owfs_geometry dev sb" by (simp_all add: owfs_alloc_inv_def)
  from assms(2) obtain rel where rel: "find (\<lambda>r. \<not> owfs_used dev sb r) [0..<owfs_data_blocks sb] = Some rel"
    and b: "b = sb_data_region_start sb + of_nat rel" "dev' = owfs_mark dev sb rel True"
    and sb': "sb' = sb\<lparr>sb_free_blocks := sb_free_blocks sb - 1\<rparr>"
    by (auto simp: owfs_bitmap_alloc_find [OF i] split: if_splits option.splits)
  from rel have r: "rel < owfs_data_blocks sb" "\<not> owfs_used dev sb rel" "\<And>q. q < rel \<Longrightarrow> owfs_used dev sb q"
    by (auto simp: find_Some_iff)
  note m = owfs_mark_reliable [OF i owfs_rel_bitmap [OF i(2) r(1)]]
  note br = owfs_block_of_rel [OF i(2) r(1), folded b(1)]
  then have brel: "unat b - unat (sb_data_region_start sb) = rel" by simp
  show "owfs_alloc_inv dev' sb'" unfolding b sb' by (rule owfs_alloc_inv_mark [OF inv r(1,2)])
  show "sb' = sb\<lparr>sb_free_blocks := sb_free_blocks sb - 1\<rparr>" by (rule sb')
  show "b \<in> owfs_region sb - owfs_allocated dev sb"
    using br brel r(2) by (simp add: owfs_allocated_def)
  show "owfs_allocated dev' sb' = insert b (owfs_allocated dev sb)"
    using owfs_allocated_mark [OF i br(2), of True] by (simp add: b(2) sb' brel)
  show "total_blocks dev' = total_blocks dev" using m(2) by (simp add: b)
  show "blk dev' x = blk dev x"
    if "x < total_blocks dev" "x < sb_bitmap_start_block sb \<or> sb_inode_table_start sb \<le> x"
    using m(3) that by (simp add: b)
  show "b \<le> y" if y: "y \<in> owfs_region sb - owfs_allocated dev sb"
  proof -
    from y have "\<not> unat y - unat (sb_data_region_start sb) < rel"
      using r(3) by (auto simp: owfs_allocated_def)
    then show ?thesis using br(1) owfs_region_rel(2) [of y sb] y by (simp add: word_le_nat_alt)
  qed
qed

lemma owfs_bitmap_alloc_none:
  assumes inv: "owfs_alloc_inv dev sb" and "owfs_bitmap_alloc dev sb = (Inl e, dev', sb')"
  shows "e = OWFS_ERR_NO_FREE_BLOCKS" and "dev' = dev" and "sb' = sb" and "sb_free_blocks sb = 0"
    and "owfs_region sb \<subseteq> owfs_allocated dev sb"
proof -
  from inv have i: "htl_reliable dev" "owfs_geometry dev sb" by (simp_all add: owfs_alloc_inv_def)
  have "sb_free_blocks sb = 0 \<longleftrightarrow> owfs_free_set dev sb = {}"
    using inv unfolding owfs_alloc_inv_def owfs_counted_def by (metis card_0_eq finite_owfs_free_set unat_eq_0)
  moreover from assms(2) have "sb_free_blocks sb = 0 \<or> owfs_free_set dev sb = {}"
    by (auto simp: owfs_bitmap_alloc_find [OF i] owfs_free_set_def find_None_iff split: if_splits option.splits)
  ultimately show z: "sb_free_blocks sb = 0" and "owfs_region sb \<subseteq> owfs_allocated dev sb"
    by (auto simp: owfs_allocated_def owfs_free_set_def dest: owfs_region_rel(1))
  from assms(2) z show "e = OWFS_ERR_NO_FREE_BLOCKS" "dev' = dev" "sb' = sb"
    by (simp_all add: owfs_bitmap_alloc_find [OF i])
qed

lemma owfs_bitmap_free_ok:
  assumes inv: "owfs_alloc_inv dev sb" and b: "b \<in> owfs_region sb"
    and f: "owfs_bitmap_free dev sb b = (e, dev', sb')"
  shows "e = OWFS_OK" and "owfs_alloc_inv dev' sb'" and "sb' = sb\<lparr>sb_free_blocks := sb_free_blocks sb'\<rparr>"
    and "owfs_allocated dev' sb' = owfs_allocated dev sb - {b}"
    and "total_blocks dev' = total_blocks dev"
    and "x < total_blocks dev \<Longrightarrow> x < sb_bitmap_start_block sb \<or> sb_inode_table_start sb \<le> x \<Longrightarrow>
      blk dev' x = blk dev x"
proof -
  from inv have i: "htl_reliable dev" "owfs_geometry dev sb" by (simp_all add: owfs_alloc_inv_def)
  note r = owfs_region_rel(1) [OF b]
  note m = owfs_mark_reliable [OF i owfs_rel_bitmap [OF i(2) r]]
  from b have "\<not> b < sb_data_region_start sb" "\<not> sb_total_blocks sb \<le> b" by (auto simp: owfs_region_def)
  then have f': "owfs_bitmap_free dev sb b = (let rel = unat b - unat (sb_data_region_start sb) in
        if owfs_used dev sb rel then
          (OWFS_OK, owfs_mark dev sb rel False, sb\<lparr>sb_free_blocks := sb_free_blocks sb + 1\<rparr>)
        else (OWFS_OK, dev, sb))" by (simp add: owfs_bitmap_free_reliable [OF i])
  show "e = OWFS_OK" "sb' = sb\<lparr>sb_free_blocks := sb_free_blocks sb'\<rparr>" "total_blocks dev' = total_blocks dev"
    using f m(2) by (auto simp: f' Let_def split: if_splits)
  show "owfs_alloc_inv dev' sb'"
    using f owfs_alloc_inv_unmark [OF inv r] inv by (auto simp: f' Let_def split: if_splits)
  show "owfs_allocated dev' sb' = owfs_allocated dev sb - {b}"
  proof (cases "owfs_used dev sb (unat b - unat (sb_data_region_start sb))")
    case True
    then have "dev' = owfs_mark dev sb (unat b - unat (sb_data_region_start sb)) False"
      "owfs_allocated dev' sb' = owfs_allocated dev' sb"
      using f by (auto simp: f' Let_def)
    with owfs_allocated_mark [OF i b, of False] show ?thesis by simp
  next
    case False
    then have "dev' = dev" "sb' = sb" "b \<notin> owfs_allocated dev sb"
      using f by (simp_all add: f' Let_def owfs_allocated_def)
    then show ?thesis by simp
  qed
  show "blk dev' x = blk dev x"
    if "x < total_blocks dev" "x < sb_bitmap_start_block sb \<or> sb_inode_table_start sb \<le> x"
    using f m(3) that by (auto simp: f' Let_def split: if_splits)
qed

lemma owfs_region_outside:
  assumes "owfs_geometry dev sb" and "b \<in> owfs_region sb"
  shows "b < total_blocks dev" and "sb_inode_table_start sb \<le> b"
  using assms by (auto simp: owfs_geometry_def owfs_region_def word_less_nat_alt word_le_nat_alt)

interpretation owfs_alloc: block_allocator
  "\<lambda>(dev, sb). owfs_bitmap_alloc dev sb" "\<lambda>(dev, sb) b. owfs_bitmap_free dev sb b" OWFS_OK
  "\<lambda>(dev, sb). owfs_alloc_inv dev sb" "\<lambda>(dev, sb). owfs_region sb"
  "\<lambda>(dev, sb). owfs_allocated dev sb" "\<lambda>(dev, sb). blk dev"
proof (unfold_locales, goal_cases)
  case (1 s b s')
  obtain dev sb dev' sb' where s: "s = (dev, sb)" "s' = (dev', sb')" by (cases s; cases s')
  note a = owfs_bitmap_alloc_some [OF 1 [unfolded s prod.case]]
  have g: "owfs_geometry dev sb" using 1 s by (simp add: owfs_alloc_inv_def)
  show ?case
    using a(1-4) owfs_region_outside [OF g] a(6) by (auto simp: s)
next
  case (2 s e s')
  obtain dev sb dev' sb' where s: "s = (dev, sb)" "s' = (dev', sb')" by (cases s; cases s')
  show ?case
    using owfs_bitmap_alloc_none [OF 2 [unfolded s prod.case]] by (simp add: s)
next
  case (3 s b e s')
  obtain dev sb dev' sb' where s: "s = (dev, sb)" "s' = (dev', sb')" by (cases s; cases s')
  have "b \<in> owfs_region sb" using 3(2) s by (simp add: owfs_allocated_def)
  note f = owfs_bitmap_free_ok [OF 3(1) [unfolded s prod.case] this 3(3) [unfolded s prod.case]]
  have g: "owfs_geometry dev sb" using 3 s by (simp add: owfs_alloc_inv_def)
  have "owfs_region sb' = owfs_region sb" by (subst f(3)) simp
  then show ?case
    using f(1,2,4) owfs_region_outside [OF g] f(6) by (auto simp: s)
next
  case (4 s)
  then show ?case by (auto simp: owfs_allocated_def split: prod.splits)
qed

section \<open>The checksum of the bitmap\<close>

lemma bitmap_block_fletcher_run:
  "length buf = 4096 \<Longrightarrow> bitmap_block_fletcher buf s = fletcher_run (le_words buf) s"
  unfolding bitmap_block_fletcher_def by (rule block_fletcher_run)

definition owfs_bitmap_bytes :: "'c htl_device \<Rightarrow> owfs_superblock \<Rightarrow> bytes" where
  "owfs_bitmap_bytes dev sb =
     concat (map (\<lambda>b. blk dev (sb_bitmap_start_block sb + of_nat b)) [0..<unat (sb_bitmap_block_count sb)])"

lemma owfs_bitmap_block_lt:
  assumes "owfs_geometry dev sb" and "b < unat (sb_bitmap_block_count sb)"
  shows "sb_bitmap_start_block sb + of_nat b < total_blocks dev"
  using owfs_geometryD(2) [OF assms(1), of "32768 * b"] assms(2) by simp

lemma bitmap_fletcher_loop_run:
  assumes "htl_reliable dev" and "owfs_geometry dev sb"
  shows "\<forall>b\<in>set bs. b < unat (sb_bitmap_block_count sb) \<Longrightarrow>
    bitmap_fletcher_loop dev sb bs s =
      (let s = fletcher_run (le_words (concat (map (\<lambda>b. blk dev (sb_bitmap_start_block sb + of_nat b)) bs))) s
       in (push_bit 32 (snd s) OR fst s, dev))"
proof (induction bs arbitrary: s)
  case (Cons b bs)
  then show ?case
    using assms owfs_bitmap_block_lt [OF assms(2)]
    by (simp add: dev_simps le_words_append bitmap_block_fletcher_run)
qed (simp add: le_words.simps)

lemma owfs_bitmap_fletcher64_eq:
  assumes "htl_reliable dev" and "owfs_geometry dev sb"
  shows "owfs_bitmap_compute_fletcher64 dev sb =
    (ow_fletcher64 (owfs_bitmap_bytes dev sb) (4096 * unat (sb_bitmap_block_count sb)), dev)"
proof -
  have "length (owfs_bitmap_bytes dev sb) = 4096 * unat (sb_bitmap_block_count sb)"
    unfolding owfs_bitmap_bytes_def using owfs_bitmap_block_lt [OF assms(2)] assms(1)
    by (subst length_concat_blocks) (simp_all add: dev_simps)
  then show ?thesis
    by (simp add: owfs_bitmap_compute_fletcher64_def bitmap_fletcher_loop_run [OF assms]
        ow_fletcher64_words owfs_bitmap_bytes_def Let_def)
qed

section \<open>Initialisation\<close>

lemma owfs_bitmap_init_loop_ok:
  assumes "htl_reliable dev" and "owfs_geometry dev sb" and "\<forall>b\<in>set is. b < unat (sb_bitmap_block_count sb)"
  shows "\<exists>dev'. owfs_bitmap_init_loop dev sb is = (OWFS_OK, dev') \<and> htl_reliable dev' \<and> same_device dev dev' \<and>
    (\<forall>x. x < total_blocks dev \<longrightarrow> blk dev' x =
       (if x \<in> (\<lambda>b. sb_bitmap_start_block sb + of_nat b) ` set is then replicate 4096 0 else blk dev x))"
  using assms
proof (induction "is" arbitrary: dev)
  case (Cons i "is")
  let ?b = "sb_bitmap_start_block sb + of_nat i"
  let ?d = "blk_write dev ?b (replicate 4096 0)"
  have b: "?b < total_blocks dev" using Cons.prems(2,3) by (intro owfs_bitmap_block_lt) auto
  have "unat ?b = unat (sb_bitmap_start_block sb) + i"
    using owfs_geometryD(1) [OF Cons.prems(2), of "32768 * i"] Cons.prems(3) by simp
  then have lt: "\<not> sb_data_region_start sb \<le> ?b"
    using Cons.prems(2,3) by (auto simp: owfs_geometry_def word_le_nat_alt)
  have d: "htl_reliable ?d" "owfs_geometry ?d sb" "same_device dev ?d"
    using Cons.prems b by (simp_all add: dev_simps owfs_geometry_def)
  obtain dev' where IH: "owfs_bitmap_init_loop ?d sb is = (OWFS_OK, dev')" "htl_reliable dev'" "same_device ?d dev'"
    "\<forall>x. x < total_blocks dev \<longrightarrow> blk dev' x =
       (if x \<in> (\<lambda>b. sb_bitmap_start_block sb + of_nat b) ` set is then replicate 4096 0 else blk ?d x)"
    using Cons.IH [OF d(1,2)] Cons.prems(3) by auto
  from same_trans [OF d(3) IH(3)] have "same_device dev dev'" .
  moreover have "owfs_bitmap_init_loop dev sb (i # is) = (OWFS_OK, dev')"
    using Cons.prems(1) b lt IH(1) by (simp add: dev_simps Let_def)
  ultimately show ?case using IH(2,4) Cons.prems(1) b by (auto simp: dev_simps)
qed simp

lemma owfs_bitmap_init_ok:
  assumes "htl_reliable dev" and "owfs_geometry dev sb" and "sb_bitmap_block_count sb \<noteq> 0"
  obtains dev' where "owfs_bitmap_init dev sb = (OWFS_OK, dev')" "htl_reliable dev'" "same_device dev dev'"
    "\<And>rel. rel < 32768 * unat (sb_bitmap_block_count sb) \<Longrightarrow> \<not> owfs_used dev' sb rel"
    "\<And>x. x < total_blocks dev \<Longrightarrow> x < sb_bitmap_start_block sb \<or> sb_inode_table_start sb \<le> x \<Longrightarrow> blk dev' x = blk dev x"
proof -
  let ?B = "(\<lambda>b. sb_bitmap_start_block sb + of_nat b) ` {0..<unat (sb_bitmap_block_count sb)}"
  obtain dev' where d: "owfs_bitmap_init_loop dev sb [0..<unat (sb_bitmap_block_count sb)] = (OWFS_OK, dev')"
    "htl_reliable dev'" "same_device dev dev'"
    "\<forall>x. x < total_blocks dev \<longrightarrow> blk dev' x = (if x \<in> ?B then replicate 4096 0 else blk dev x)"
    using owfs_bitmap_init_loop_ok [OF assms(1,2), of "[0..<unat (sb_bitmap_block_count sb)]"] by auto
  have "sb_bitmap_start_block sb \<noteq> 0" using assms(2) by (auto simp: owfs_geometry_def)
  then have "owfs_bitmap_init dev sb = (OWFS_OK, dev')"
    using assms(3) d(1) by (simp add: owfs_bitmap_init_def)
  moreover have "\<not> owfs_used dev' sb rel" if r: "rel < 32768 * unat (sb_bitmap_block_count sb)" for rel
  proof -
    have "rel div 32768 < unat (sb_bitmap_block_count sb)"
      using r by (simp add: less_mult_imp_div_less mult.commute)
    then show ?thesis
      using d(4) owfs_geometryD(2) [OF assms(2) r] by (auto simp: owfs_used_def bits_of_def)
  qed
  moreover have "blk dev' x = blk dev x"
    if "x < total_blocks dev" "x < sb_bitmap_start_block sb \<or> sb_inode_table_start sb \<le> x" for x
  proof -
    have "x \<notin> ?B"
      using that(2) assms(2) owfs_geometryD(1) [OF assms(2), of "32768 * _"]
      by (auto simp: owfs_geometry_def word_less_nat_alt word_le_nat_alt)
    then show ?thesis using d(4) that(1) by simp
  qed
  ultimately show thesis using d(2,3) that by blast
qed

end
