(* ===== verification/OWFS_Blockmap.thy ===== *)
theory OWFS_Blockmap
  imports OWFS_Bitmap
begin

text \<open>
  The inode structure of \<^verbatim>\<open>owfs/include/owfs_inode.h\<close> and \<^verbatim>\<open>owfs/src/owfs_blockmap.c\<close>: translation
  of logical block indices through ten direct pointers and one indirect block, allocation on demand
  and release. The lemmas read the map as the list of the blocks of a file, \<open>owfs_blocks\<close>: looking
  up is indexing, ensuring appends one fresh zeroed block, releasing truncates, and the blocks
  leave and enter the allocator accordingly.
\<close>

unbundle bit_operations_syntax

section \<open>Inodes\<close>

record owfs_inode =
  ino_inode_number :: u32
  ino_entry_type :: u8
  ino_name_length :: u8
  ino_permissions :: u16
  ino_flags :: u16
  ino_size_bytes :: u32
  ino_block_count :: u32
  ino_created_timestamp :: u32
  ino_modified_timestamp :: u32
  ino_parent_inode :: u32
  ino_direct_blocks :: "u32 list"
  ino_indirect_block :: u32
  ino_name :: bytes
  ino_owner_uid :: u16
  ino_owner_gid :: u16
  ino_security_flags :: u8
  ino_reserved :: bytes
  ino_checksum :: u32

definition owfs_inode_bytes :: "owfs_inode \<Rightarrow> bytes" where
  "owfs_inode_bytes r =
     le_store 4 (ino_inode_number r) @ [ino_entry_type r] @ [ino_name_length r] @
     le_store 2 (ino_permissions r) @ le_store 2 (ino_flags r) @
     le_store 4 (ino_size_bytes r) @ le_store 4 (ino_block_count r) @
     le_store 4 (ino_created_timestamp r) @ le_store 4 (ino_modified_timestamp r) @
     le_store 4 (ino_parent_inode r) @ le_stores (ino_direct_blocks r) @
     le_store 4 (ino_indirect_block r) @ ino_name r @ le_store 2 (ino_owner_uid r) @
     le_store 2 (ino_owner_gid r) @ [ino_security_flags r] @ ino_reserved r @
     le_store 4 (ino_checksum r)"

definition owfs_inode_of_bytes :: "bytes \<Rightarrow> owfs_inode" where
  "owfs_inode_of_bytes bs =
     \<lparr>ino_inode_number = le_load (window 0 4 bs), ino_entry_type = bs ! 4,
      ino_name_length = bs ! 5, ino_permissions = le_load (window 6 2 bs),
      ino_flags = le_load (window 8 2 bs), ino_size_bytes = le_load (window 10 4 bs),
      ino_block_count = le_load (window 14 4 bs),
      ino_created_timestamp = le_load (window 18 4 bs),
      ino_modified_timestamp = le_load (window 22 4 bs),
      ino_parent_inode = le_load (window 26 4 bs),
      ino_direct_blocks = le_loads 10 (window 30 40 bs),
      ino_indirect_block = le_load (window 70 4 bs), ino_name = window 74 128 bs,
      ino_owner_uid = le_load (window 202 2 bs), ino_owner_gid = le_load (window 204 2 bs),
      ino_security_flags = bs ! 206, ino_reserved = window 207 45 bs,
      ino_checksum = le_load (window 252 4 bs)\<rparr>"

text \<open>The array fields have their declared lengths.\<close>

definition owfs_inode_wf :: "owfs_inode \<Rightarrow> bool" where
  "owfs_inode_wf r \<longleftrightarrow>
     length (ino_direct_blocks r) = 10 \<and> length (ino_name r) = 128 \<and> length (ino_reserved r) = 45"

section \<open>Operations\<close>

text \<open>Four bytes of a buffer at an offset. The offset of an index beyond the 1034 blocks a file can
  have lies outside the buffer, where the C code is undefined and the model unspecified.\<close>

definition ptr_load :: "bytes \<Rightarrow> nat \<Rightarrow> u32" where
  "ptr_load p i =
     ucast (p ! i) OR push_bit 8 (ucast (p ! (i + 1))) OR push_bit 16 (ucast (p ! (i + 2)))
       OR push_bit 24 (ucast (p ! (i + 3)))"

definition ptr_store :: "bytes \<Rightarrow> nat \<Rightarrow> u32 \<Rightarrow> bytes" where
  "ptr_store p i v =
     p[i := ucast (v AND 0xFF), i + 1 := ucast (drop_bit 8 v AND 0xFF),
       i + 2 := ucast (drop_bit 16 v AND 0xFF), i + 3 := ucast (drop_bit 24 v AND 0xFF)]"

definition owfs_blockmap_get ::
  "'c htl_device \<Rightarrow> owfs_inode \<Rightarrow> u32 \<Rightarrow> (owfs_status + u32) \<times> 'c htl_device" where
  "owfs_blockmap_get dev inode idx =
     (if idx \<ge> ino_block_count inode then (Inl OWFS_ERR_INVALID_PARAM, dev)
      else if idx < 10 then
        if ino_direct_blocks inode ! unat idx = 0 then (Inl OWFS_ERR_INVALID_PARAM, dev)
        else (Inr (ino_direct_blocks inode ! unat idx), dev)
      else if ino_indirect_block inode = 0 then (Inl OWFS_ERR_INVALID_PARAM, dev)
      else case htl_read_block dev (ino_indirect_block inode) of (hres, buf, dev) \<Rightarrow>
        if hres \<noteq> HTL_OK then (Inl OWFS_ERR_IO, dev)
        else
          let entry = idx - 10; b = ptr_load buf (unat (entry * 4)) in
          if b = 0 then (Inl OWFS_ERR_INVALID_PARAM, dev) else (Inr b, dev))"

definition alloc_and_zero ::
  "'c htl_device \<Rightarrow> owfs_superblock \<Rightarrow> (owfs_status + u32) \<times> 'c htl_device \<times> owfs_superblock" where
  "alloc_and_zero dev sb =
     (case owfs_bitmap_alloc dev sb of
        (Inl res, dev, sb) \<Rightarrow> (Inl res, dev, sb)
      | (Inr b, dev, sb) \<Rightarrow>
          case htl_zero_block dev b of (hres, dev) \<Rightarrow>
          if hres \<noteq> HTL_OK then
            case owfs_bitmap_free dev sb b of (_, dev, sb) \<Rightarrow> (Inl (owfs_write_error hres), dev, sb)
          else (Inr b, dev, sb))"

text \<open>The branch of \<^verbatim>\<open>owfs_blockmap_ensure\<close> for an index past the direct pointers: the indirect block
  is created or read, then the pointer is stored in it.\<close>

definition ensure_indirect ::
  "'c htl_device \<Rightarrow> owfs_superblock \<Rightarrow> owfs_inode \<Rightarrow> u32 \<Rightarrow> u32 \<Rightarrow>
   owfs_status \<times> 'c htl_device \<times> owfs_superblock \<times> owfs_inode" where
  "ensure_indirect dev sb inode idx data_block =
     (let store = (\<lambda>dev sb inode ibuf.
        let entry = idx - 10; ibuf = ptr_store ibuf (unat (entry * 4)) data_block in
        case htl_write_block dev (ino_indirect_block inode) ibuf of (hres, dev) \<Rightarrow>
        if hres \<noteq> HTL_OK then
          case owfs_bitmap_free dev sb data_block of (_, dev, sb) \<Rightarrow>
          if ino_block_count inode = 10 \<and> entry = 0 then
            case owfs_bitmap_free dev sb (ino_indirect_block inode) of (_, dev, sb) \<Rightarrow>
              (owfs_write_error hres, dev, sb, inode\<lparr>ino_indirect_block := 0\<rparr>)
          else (owfs_write_error hres, dev, sb, inode)
        else (OWFS_OK, dev, sb, inode))
      in
      if ino_indirect_block inode = 0 then
        case alloc_and_zero dev sb of
          (Inl res, dev, sb) \<Rightarrow>
            (case owfs_bitmap_free dev sb data_block of (_, dev, sb) \<Rightarrow> (res, dev, sb, inode))
        | (Inr ind, dev, sb) \<Rightarrow>
            store dev sb (inode\<lparr>ino_indirect_block := ind\<rparr>) (replicate 4096 0)
      else case htl_read_block dev (ino_indirect_block inode) of (hres, ibuf, dev) \<Rightarrow>
        if hres \<noteq> HTL_OK then
          case owfs_bitmap_free dev sb data_block of (_, dev, sb) \<Rightarrow> (OWFS_ERR_IO, dev, sb, inode)
        else store dev sb inode ibuf)"

definition owfs_blockmap_ensure ::
  "'c htl_device \<Rightarrow> owfs_superblock \<Rightarrow> owfs_inode \<Rightarrow> u32 \<Rightarrow>
   (owfs_status + u32) \<times> 'c htl_device \<times> owfs_superblock \<times> owfs_inode" where
  "owfs_blockmap_ensure dev sb inode idx =
     (if idx \<ge> 1034 then (Inl OWFS_ERR_NO_FREE_BLOCKS, dev, sb, inode)
      else if owfs_volume_writable sb \<noteq> OWFS_OK then (Inl (owfs_volume_writable sb), dev, sb, inode)
      else if idx < ino_block_count inode then
        case owfs_blockmap_get dev inode idx of (r, dev) \<Rightarrow> (r, dev, sb, inode)
      else if idx \<noteq> ino_block_count inode then (Inl OWFS_ERR_INVALID_PARAM, dev, sb, inode)
      else case alloc_and_zero dev sb of
          (Inl res, dev, sb) \<Rightarrow> (Inl res, dev, sb, inode)
        | (Inr data_block, dev, sb) \<Rightarrow>
            if idx < 10 then
              (Inr data_block, dev, sb,
               inode\<lparr>ino_direct_blocks := (ino_direct_blocks inode)[unat idx := data_block],
                     ino_block_count := ino_block_count inode + 1\<rparr>)
            else case ensure_indirect dev sb inode idx data_block of (res, dev, sb, inode) \<Rightarrow>
              if res \<noteq> OWFS_OK then (Inl res, dev, sb, inode)
              else (Inr data_block, dev, sb, inode\<lparr>ino_block_count := ino_block_count inode + 1\<rparr>))"

text \<open>The loop of \<^verbatim>\<open>owfs_blockmap_release\<close>; \<open>ibuf\<close> is the indirect block once it is loaded.\<close>

fun blockmap_release_loop ::
  "'c htl_device \<Rightarrow> owfs_superblock \<Rightarrow> owfs_inode \<Rightarrow> bytes option \<Rightarrow> nat list \<Rightarrow>
   owfs_status \<times> 'c htl_device \<times> owfs_superblock" where
  "blockmap_release_loop dev sb inode ibuf [] = (OWFS_OK, dev, sb)"
| "blockmap_release_loop dev sb inode ibuf (idx # is) =
     (let free_b = (\<lambda>b dev ibuf.
        if b \<noteq> 0 then
          case owfs_bitmap_free dev sb b of (res, dev, sb) \<Rightarrow>
          if res \<noteq> OWFS_OK then (res, dev, sb) else blockmap_release_loop dev sb inode ibuf is
        else blockmap_release_loop dev sb inode ibuf is)
      in
      if idx < 10 then free_b (ino_direct_blocks inode ! idx) dev ibuf
      else if ino_indirect_block inode \<noteq> 0 then
        case ibuf of
          Some buf \<Rightarrow> free_b (ptr_load buf (unat ((of_nat idx - 10) * 4 :: u32))) dev ibuf
        | None \<Rightarrow> (case htl_read_block dev (ino_indirect_block inode) of (hres, buf, dev) \<Rightarrow>
            if hres \<noteq> HTL_OK then (OWFS_ERR_IO, dev, sb)
            else free_b (ptr_load buf (unat ((of_nat idx - 10) * 4 :: u32))) dev (Some buf))
      else free_b 0 dev ibuf)"

definition owfs_blockmap_release ::
  "'c htl_device \<Rightarrow> owfs_superblock \<Rightarrow> owfs_inode \<Rightarrow> u32 \<Rightarrow>
   owfs_status \<times> 'c htl_device \<times> owfs_superblock \<times> owfs_inode" where
  "owfs_blockmap_release dev sb inode from_idx =
     (if owfs_volume_writable sb \<noteq> OWFS_OK then (owfs_volume_writable sb, dev, sb, inode)
      else if from_idx \<ge> ino_block_count inode then (OWFS_OK, dev, sb, inode)
      else case blockmap_release_loop dev sb inode None [unat from_idx..<unat (ino_block_count inode)] of
        (res, dev, sb) \<Rightarrow>
        if res \<noteq> OWFS_OK then (res, dev, sb, inode)
        else
          let inode = inode\<lparr>ino_direct_blocks := fold (\<lambda>idx ds. ds[idx := 0])
                [unat from_idx..<min (unat (ino_block_count inode)) 10] (ino_direct_blocks inode)\<rparr>;
              indirect_in_use = from_idx > 10
          in
          if \<not> indirect_in_use \<and> ino_indirect_block inode \<noteq> 0 then
            case owfs_bitmap_free dev sb (ino_indirect_block inode) of (res, dev, sb) \<Rightarrow>
            if res \<noteq> OWFS_OK then (res, dev, sb, inode)
            else (OWFS_OK, dev, sb, inode\<lparr>ino_indirect_block := 0, ino_block_count := from_idx\<rparr>)
          else (OWFS_OK, dev, sb, inode\<lparr>ino_block_count := from_idx\<rparr>))"

section \<open>The blocks of a file\<close>

definition owfs_block_at :: "'c htl_device \<Rightarrow> owfs_inode \<Rightarrow> nat \<Rightarrow> u32" where
  "owfs_block_at dev inode i =
     (if i < 10 then ino_direct_blocks inode ! i
      else ptr_load (blk dev (ino_indirect_block inode)) ((i - 10) * 4))"

definition owfs_blocks :: "'c htl_device \<Rightarrow> owfs_inode \<Rightarrow> u32 list" where
  "owfs_blocks dev inode = map (owfs_block_at dev inode) [0..<unat (ino_block_count inode)]"

definition owfs_owned :: "'c htl_device \<Rightarrow> owfs_inode \<Rightarrow> u32 set" where
  "owfs_owned dev inode =
     set (owfs_blocks dev inode) \<union> (if ino_block_count inode > 10 then {ino_indirect_block inode} else {})"

text \<open>A well-formed map: the blocks of the file and its indirect block are distinct allocated data
  blocks, and there is an indirect block exactly when there are more than ten blocks.\<close>

definition owfs_map_ok :: "'c htl_device \<Rightarrow> owfs_superblock \<Rightarrow> owfs_inode \<Rightarrow> bool" where
  "owfs_map_ok dev sb inode \<longleftrightarrow>
     owfs_inode_wf inode \<and> ino_block_count inode \<le> 1034 \<and>
     distinct (owfs_blocks dev inode) \<and> owfs_owned dev inode \<subseteq> owfs_allocated dev sb \<and>
     (if ino_block_count inode > 10 then ino_indirect_block inode \<notin> set (owfs_blocks dev inode)
      else ino_indirect_block inode = 0)"

text \<open>What a device change leaves alone: every block outside the bitmap and the set \<open>S\<close>.\<close>

definition owfs_frame :: "owfs_superblock \<Rightarrow> u32 set \<Rightarrow> 'c htl_device \<Rightarrow> 'c htl_device \<Rightarrow> bool" where
  "owfs_frame sb S dev dev' \<longleftrightarrow>
     total_blocks dev' = total_blocks dev \<and>
     (\<forall>x. x < total_blocks dev \<longrightarrow> x < sb_bitmap_start_block sb \<or> sb_inode_table_start sb \<le> x \<longrightarrow>
        x \<notin> S \<longrightarrow> blk dev' x = blk dev x)"

section \<open>Pointers in the indirect block\<close>

lemma ptr_load_eq: "i + 4 \<le> length p \<Longrightarrow> ptr_load p i = le_load (window i 4 p)"
  using fletcher_word_eq [of i p] by (simp add: ptr_load_def fletcher_word_def)

lemma le_store_4: "le_store 4 (v :: u32) =
    [ucast v, ucast (drop_bit 8 v), ucast (drop_bit 16 v), ucast (drop_bit 24 v)]"
  by (simp add: le_store_def numeral_eq_Suc)

lemma ptr_store_eq:
  assumes "i + 4 \<le> length p"
  shows "ptr_store p i v = overwrite i (le_store 4 v) p"
proof -
  have "bit (0xFF :: u32) k" if "k < 8" for k
    using that bit_mask_iff [of 8 k, where 'a = u32] by (simp add: mask_eq_exp_minus_1)
  then have m: "ucast (w AND 0xFF) = (ucast w :: u8)" for w :: u32
    by (intro bit_word_eqI) (simp add: bit_simps)
  show ?thesis
    by (rule nth_equalityI)
      (use assms in \<open>auto simp: ptr_store_def m le_store_4 nth_overwrite nth_list_update nth_Cons' \<close>)
qed

lemma length_ptr_store [simp]: "length (ptr_store p i v) = length p"
  by (simp add: ptr_store_def)

lemma ptr_load_store:
  "length p = 4096 \<Longrightarrow> i < 1024 \<Longrightarrow> j < 1024 \<Longrightarrow>
   ptr_load (ptr_store p (i * 4) v) (j * 4) = (if i = j then v else ptr_load p (j * 4))"
  by (cases i j rule: linorder_cases) (simp_all add: ptr_load_eq ptr_store_eq window_overwrite_disjoint)

lemma ptr_load_zero: "i + 4 \<le> 4096 \<Longrightarrow> ptr_load (replicate 4096 0) i = 0"
  by (simp add: ptr_load_def)

lemma entry_offset:
  assumes "10 \<le> idx" and "idx < 1034"
  shows "unat ((idx - 10) * 4 :: u32) = (unat idx - 10) * 4"
proof -
  have "unat (idx - 10) = unat idx - 10" "unat idx < 1034"
    using assms by (simp_all add: unat_sub word_le_nat_alt word_less_nat_alt)
  then show ?thesis by (simp only: unat_word_ariths) simp
qed

lemma entry_offset_nat:
  assumes "10 \<le> i" and "i < 1034"
  shows "unat ((of_nat i - 10) * 4 :: u32) = (i - 10) * 4"
proof -
  have "unat (of_nat i :: u32) = i" using assms(2) by (intro unat_of_nat_small) simp
  then show ?thesis
    using entry_offset [of "of_nat i"] assms by (simp add: word_le_nat_alt word_less_nat_alt)
qed

section \<open>Frames and the allocator invariant\<close>

lemma owfs_frame_refl [simp]: "owfs_frame sb S dev dev"
  by (simp add: owfs_frame_def)

lemma owfs_frame_trans:
  "owfs_frame sb S d1 d2 \<Longrightarrow> owfs_frame sb T d2 d3 \<Longrightarrow> owfs_frame sb (S \<union> T) d1 d3"
  by (simp add: owfs_frame_def)

lemma owfs_frame_mono: "owfs_frame sb S dev dev' \<Longrightarrow> S \<subseteq> T \<Longrightarrow> owfs_frame sb T dev dev'"
  by (auto simp: owfs_frame_def)

lemma owfs_frameD:
  "owfs_frame sb S dev dev' \<Longrightarrow> owfs_geometry dev sb \<Longrightarrow> x \<in> owfs_region sb - S \<Longrightarrow> blk dev' x = blk dev x"
  using owfs_region_outside [of dev sb x] by (auto simp: owfs_frame_def)

lemma owfs_frame_write:
  "htl_reliable dev \<Longrightarrow> b < total_blocks dev \<Longrightarrow> length buf = 4096 \<Longrightarrow>
   owfs_frame sb {b} dev (blk_write dev b buf)"
  by (simp add: owfs_frame_def dev_simps)

lemma owfs_frame_sb [simp]:
  "owfs_frame (sb\<lparr>sb_free_blocks := f\<rparr>) = owfs_frame sb"
  by (simp add: fun_eq_iff owfs_frame_def)

text \<open>Writing a block outside the bitmap keeps the allocator's state.\<close>

lemma owfs_used_write:
  assumes "htl_reliable dev" and "owfs_geometry dev sb" and "b < total_blocks dev" and "length buf = 4096"
    and "b < sb_bitmap_start_block sb \<or> sb_inode_table_start sb \<le> b"
    and "rel < 32768 * unat (sb_bitmap_block_count sb)"
  shows "owfs_used (blk_write dev b buf) sb rel = owfs_used dev sb rel"
proof -
  have "rel div 32768 < unat (sb_bitmap_block_count sb)"
    using assms(6) by (simp add: less_mult_imp_div_less mult.commute)
  then have "b \<noteq> sb_bitmap_start_block sb + of_nat (rel div 32768)"
    using owfs_geometryD(1) [OF assms(2,6)] assms(2,5)
    by (auto simp: owfs_geometry_def word_less_nat_alt word_le_nat_alt)
  then show ?thesis
    using assms owfs_geometryD(2) [OF assms(2,6)] by (simp add: owfs_used_def dev_simps)
qed

lemma owfs_alloc_inv_write:
  assumes inv: "owfs_alloc_inv dev sb" and b: "b < total_blocks dev" and "length buf = 4096"
    and "b < sb_bitmap_start_block sb \<or> sb_inode_table_start sb \<le> b"
  shows "owfs_alloc_inv (blk_write dev b buf) sb"
    and "owfs_allocated (blk_write dev b buf) sb = owfs_allocated dev sb"
proof -
  from inv have i: "htl_reliable dev" "owfs_geometry dev sb" by (simp_all add: owfs_alloc_inv_def)
  note u = owfs_used_write [OF i assms(2-4) owfs_rel_bitmap [OF i(2)]]
  have "owfs_free_set (blk_write dev b buf) sb = owfs_free_set dev sb"
    using u by (auto simp: owfs_free_set_def)
  then show "owfs_alloc_inv (blk_write dev b buf) sb"
    using inv b assms(3) owfs_geometry_dev [of "blk_write dev b buf" dev sb]
    by (simp add: owfs_alloc_inv_def owfs_counted_def dev_simps)
  show "owfs_allocated (blk_write dev b buf) sb = owfs_allocated dev sb"
    using u owfs_region_rel(1) by (auto simp: owfs_allocated_def)
qed

lemma owfs_alloc_inv_region_write:
  assumes "owfs_alloc_inv dev sb" and "b \<in> owfs_region sb" and "length buf = 4096"
  shows "htl_write_block dev b buf = (HTL_OK, blk_write dev b buf)"
    and "owfs_alloc_inv (blk_write dev b buf) sb"
    and "owfs_allocated (blk_write dev b buf) sb = owfs_allocated dev sb"
    and "owfs_frame sb {b} dev (blk_write dev b buf)"
    and "blk (blk_write dev b buf) b = buf"
proof -
  from assms(1) have i: "htl_reliable dev" "owfs_geometry dev sb" by (simp_all add: owfs_alloc_inv_def)
  note r = owfs_region_outside [OF i(2) assms(2)]
  show "htl_write_block dev b buf = (HTL_OK, blk_write dev b buf)"
    "owfs_frame sb {b} dev (blk_write dev b buf)" "blk (blk_write dev b buf) b = buf"
    using i r assms(3) by (simp_all add: dev_simps owfs_frame_write)
  show "owfs_alloc_inv (blk_write dev b buf) sb"
    "owfs_allocated (blk_write dev b buf) sb = owfs_allocated dev sb"
    using owfs_alloc_inv_write [OF assms(1) r(1) assms(3)] r(2) by simp_all
qed

lemma alloc_and_zero_some:
  assumes inv: "owfs_alloc_inv dev sb" and a: "alloc_and_zero dev sb = (Inr b, dev', sb')"
  shows "owfs_alloc_inv dev' sb'" and "sb' = sb\<lparr>sb_free_blocks := sb_free_blocks sb - 1\<rparr>"
    and "b \<in> owfs_region sb - owfs_allocated dev sb"
    and "owfs_allocated dev' sb' = insert b (owfs_allocated dev sb)"
    and "owfs_frame sb {b} dev dev'" and "blk dev' b = replicate 4096 0"
proof -
  obtain dev1 sb1 where b: "owfs_bitmap_alloc dev sb = (Inr b, dev1, sb1)"
    using a by (auto simp: alloc_and_zero_def split: prod.splits sum.splits if_splits)
  note o = owfs_bitmap_alloc_some [OF inv b]
  have r1: "b \<in> owfs_region sb1" using o(2,3) by simp
  note w = owfs_alloc_inv_region_write [OF o(1) r1, of "replicate 4096 0"]
  have "htl_zero_block dev1 b = (HTL_OK, blk_write dev1 b (replicate 4096 0))"
    using o(1) owfs_region_outside [of dev1 sb1 b] r1 by (auto simp: owfs_alloc_inv_def dev_simps)
  then have d: "dev' = blk_write dev1 b (replicate 4096 0)" "sb' = sb1"
    using a b by (simp_all add: alloc_and_zero_def)
  have "owfs_frame sb {} dev dev1" using o(5,6) by (simp add: owfs_frame_def)
  then show "owfs_frame sb {b} dev dev'"
    using owfs_frame_trans [of sb "{}" dev dev1 "{b}" dev'] w(4) o(2) by (simp add: d)
  show "owfs_alloc_inv dev' sb'" "sb' = sb\<lparr>sb_free_blocks := sb_free_blocks sb - 1\<rparr>"
    "b \<in> owfs_region sb - owfs_allocated dev sb"
    "owfs_allocated dev' sb' = insert b (owfs_allocated dev sb)" "blk dev' b = replicate 4096 0"
    using w o by (simp_all add: d)
qed

lemma alloc_and_zero_none:
  assumes inv: "owfs_alloc_inv dev sb" and a: "alloc_and_zero dev sb = (Inl e, dev', sb')"
  shows "e = OWFS_ERR_NO_FREE_BLOCKS" and "dev' = dev" and "sb' = sb" and "sb_free_blocks sb = 0"
proof -
  have "owfs_bitmap_alloc dev sb = (Inl e, dev', sb')"
  proof (cases "owfs_bitmap_alloc dev sb")
    case (fields r dev1 sb1)
    show ?thesis
    proof (cases r)
      case (Inr b)
      note o = owfs_bitmap_alloc_some [OF inv fields [unfolded Inr]]
      then have "b \<in> owfs_region sb1" by simp
      then have "htl_zero_block dev1 b = (HTL_OK, blk_write dev1 b (replicate 4096 0))"
        using o(1) owfs_region_outside [of dev1 sb1 b] by (auto simp: owfs_alloc_inv_def dev_simps)
      with a fields Inr show ?thesis by (simp add: alloc_and_zero_def)
    qed (use a fields in \<open>simp add: alloc_and_zero_def\<close>)
  qed
  from owfs_bitmap_alloc_none [OF inv this]
  show "e = OWFS_ERR_NO_FREE_BLOCKS" "dev' = dev" "sb' = sb" "sb_free_blocks sb = 0" by simp_all
qed

section \<open>Looking up\<close>

lemma length_owfs_blocks [simp]: "length (owfs_blocks dev inode) = unat (ino_block_count inode)"
  by (simp add: owfs_blocks_def)

lemma owfs_map_okD:
  assumes "owfs_alloc_inv dev sb" and "owfs_map_ok dev sb inode"
  shows "htl_reliable dev" and "owfs_geometry dev sb" and "owfs_inode_wf inode"
    and "length (ino_direct_blocks inode) = 10"
    and "owfs_owned dev inode \<subseteq> owfs_allocated dev sb" and "owfs_allocated dev sb \<subseteq> owfs_region sb"
    and "unat (ino_block_count inode) \<le> 1034" and "distinct (owfs_blocks dev inode)"
    and "i < unat (ino_block_count inode) \<Longrightarrow> owfs_block_at dev inode i \<in> owfs_owned dev inode"
  using assms by (auto simp: owfs_alloc_inv_def owfs_map_ok_def owfs_inode_wf_def word_le_nat_alt
      owfs_owned_def owfs_blocks_def owfs_allocated_def)

lemma owfs_region_nonzero: "owfs_geometry dev sb \<Longrightarrow> b \<in> owfs_region sb \<Longrightarrow> b \<noteq> 0"
  by (auto simp: owfs_geometry_def owfs_region_def word_le_nat_alt)

lemma owfs_indirect_owned:
  assumes "owfs_alloc_inv dev sb" and "owfs_map_ok dev sb inode" and "10 < unat (ino_block_count inode)"
  shows "ino_indirect_block inode \<in> owfs_allocated dev sb" and "ino_indirect_block inode \<in> owfs_region sb"
    and "ino_indirect_block inode \<noteq> 0" and "ino_indirect_block inode < total_blocks dev"
    and "ino_indirect_block inode \<notin> set (owfs_blocks dev inode)"
    and "length (blk dev (ino_indirect_block inode)) = 4096"
proof -
  note d = owfs_map_okD [OF assms(1,2)]
  have *: "10 < ino_block_count inode" using assms(3) by (simp add: word_less_nat_alt)
  then show a: "ino_indirect_block inode \<in> owfs_allocated dev sb" using d(5) by (auto simp: owfs_owned_def)
  then show r: "ino_indirect_block inode \<in> owfs_region sb" using d(6) by blast
  then show "ino_indirect_block inode \<noteq> 0" by (rule owfs_region_nonzero [OF d(2)])
  from owfs_region_outside [OF d(2) r] show "ino_indirect_block inode < total_blocks dev" by simp
  then show "length (blk dev (ino_indirect_block inode)) = 4096" by (rule length_blk [OF d(1)])
  show "ino_indirect_block inode \<notin> set (owfs_blocks dev inode)"
    using assms(2) * by (simp add: owfs_map_ok_def)
qed

lemma owfs_blockmap_get_ok:
  assumes inv: "owfs_alloc_inv dev sb" and map: "owfs_map_ok dev sb inode" and i: "idx < ino_block_count inode"
  shows "owfs_blockmap_get dev inode idx = (Inr (owfs_blocks dev inode ! unat idx), dev)"
proof -
  note d = owfs_map_okD [OF inv map]
  from i have i': "unat idx < unat (ino_block_count inode)" by (simp add: word_less_nat_alt)
  then have nth: "owfs_blocks dev inode ! unat idx = owfs_block_at dev inode (unat idx)"
    by (simp add: owfs_blocks_def)
  have nz: "owfs_block_at dev inode (unat idx) \<noteq> 0"
    using d(5,6) d(9) [OF i'] owfs_region_nonzero [OF d(2)] by blast
  show ?thesis
  proof (cases "idx < 10")
    case True
    then have "unat idx < 10" by (simp add: word_less_nat_alt)
    with True i nz show ?thesis by (simp add: owfs_blockmap_get_def nth owfs_block_at_def not_le)
  next
    case False
    then have u: "10 \<le> unat idx" "unat idx < 1034" "10 < unat (ino_block_count inode)"
      using i' d(7) by (simp_all add: word_less_nat_alt)
    then have off: "unat ((idx - 10) * 4) = (unat idx - 10) * 4"
      by (intro entry_offset) (simp_all add: word_less_nat_alt word_le_nat_alt)
    from owfs_indirect_owned [OF inv map u(3)] show ?thesis
      unfolding owfs_blockmap_get_def Let_def off using False i nz u d(1)
      by (simp add: nth owfs_block_at_def not_le htl_read_reliable)
  qed
qed

lemma owfs_block_at_frame:
  assumes "owfs_geometry dev sb" and "owfs_frame sb S dev dev'"
    and "10 \<le> i \<Longrightarrow> ino_indirect_block inode \<in> owfs_region sb - S"
  shows "owfs_block_at dev' inode i = owfs_block_at dev inode i"
  using owfs_frameD [OF assms(2,1)] assms(3) by (auto simp: owfs_block_at_def)

lemma owfs_blocks_frame:
  assumes "owfs_alloc_inv dev sb" and "owfs_map_ok dev sb inode" and "owfs_frame sb S dev dev'"
    and "10 < unat (ino_block_count inode) \<Longrightarrow> ino_indirect_block inode \<notin> S"
  shows "owfs_blocks dev' inode = owfs_blocks dev inode" and "owfs_owned dev' inode = owfs_owned dev inode"
proof -
  have "owfs_block_at dev' inode i = owfs_block_at dev inode i" if "i < unat (ino_block_count inode)" for i
    using that assms(4) owfs_indirect_owned(2) [OF assms(1,2)]
    by (intro owfs_block_at_frame [OF owfs_map_okD(2) [OF assms(1,2)] assms(3)]) auto
  then show "owfs_blocks dev' inode = owfs_blocks dev inode" by (simp add: owfs_blocks_def)
  then show "owfs_owned dev' inode = owfs_owned dev inode" by (simp add: owfs_owned_def)
qed

lemma owfs_blocks_append:
  assumes "unat (ino_block_count inode') = Suc (unat (ino_block_count inode))"
    and "\<And>i. i < unat (ino_block_count inode) \<Longrightarrow> owfs_block_at dev' inode' i = owfs_block_at dev inode i"
    and "owfs_block_at dev' inode' (unat (ino_block_count inode)) = b"
  shows "owfs_blocks dev' inode' = owfs_blocks dev inode @ [b]"
  using assms by (simp add: owfs_blocks_def)

section \<open>Ensuring a block\<close>

lemma word_minus_plus1: "(w :: u32) - 1 + 1 = w"
  by simp

text \<open>Storing a pointer in an indirect block that exists.\<close>

lemma owfs_blocks_store:
  fixes b :: u32
  assumes "owfs_alloc_inv dev sb" and "owfs_inode_wf inode"
    and ind: "ino_indirect_block inode \<in> owfs_region sb"
    and n: "10 \<le> unat (ino_block_count inode)" "unat (ino_block_count inode) < 1034"
  defines "dev' \<equiv> blk_write dev (ino_indirect_block inode)
      (ptr_store (blk dev (ino_indirect_block inode)) ((unat (ino_block_count inode) - 10) * 4) b)"
    and "inode' \<equiv> inode\<lparr>ino_block_count := ino_block_count inode + 1\<rparr>"
  shows "owfs_blocks dev' inode' = owfs_blocks dev inode @ [b]"
proof (rule owfs_blocks_append)
  from assms(1) have i: "htl_reliable dev" "owfs_geometry dev sb" by (simp_all add: owfs_alloc_inv_def)
  have len: "length (blk dev (ino_indirect_block inode)) = 4096"
    using owfs_region_outside [OF i(2) ind] i(1) by (simp add: length_blk)
  note w = owfs_alloc_inv_region_write [OF assms(1) ind, of "ptr_store (blk dev (ino_indirect_block inode)) _ b"]
  have c: "blk dev' (ino_indirect_block inode) =
      ptr_store (blk dev (ino_indirect_block inode)) ((unat (ino_block_count inode) - 10) * 4) b"
    unfolding dev'_def by (rule w(5)) (simp add: len)
  show "unat (ino_block_count inode') = Suc (unat (ino_block_count inode))"
    using n by (simp add: inode'_def unat_plus1)
  show "owfs_block_at dev' inode' (unat (ino_block_count inode)) = b"
    using n c len by (simp add: owfs_block_at_def inode'_def ptr_load_store)
  show "owfs_block_at dev' inode' i = owfs_block_at dev inode i" if "i < unat (ino_block_count inode)" for i
    using that n c len by (auto simp: owfs_block_at_def inode'_def ptr_load_store)
qed

lemma ensure_indirect_existing:
  assumes inv: "owfs_alloc_inv dev sb" and wf: "owfs_inode_wf inode"
    and ind: "ino_indirect_block inode \<in> owfs_region sb"
    and n: "10 \<le> unat (ino_block_count inode)" "unat (ino_block_count inode) < 1034"
  shows "ensure_indirect dev sb inode (ino_block_count inode) b =
     (OWFS_OK, blk_write dev (ino_indirect_block inode)
       (ptr_store (blk dev (ino_indirect_block inode)) ((unat (ino_block_count inode) - 10) * 4) b), sb, inode)"
proof -
  from inv have i: "htl_reliable dev" "owfs_geometry dev sb" by (simp_all add: owfs_alloc_inv_def)
  note r = owfs_region_outside [OF i(2) ind] owfs_region_nonzero [OF i(2) ind]
  have off: "unat ((ino_block_count inode - 10) * 4) = (unat (ino_block_count inode) - 10) * 4"
    using n by (intro entry_offset) (simp_all add: word_le_nat_alt word_less_nat_alt)
  show ?thesis
    unfolding ensure_indirect_def Let_def off using i r by (simp add: dev_simps)
qed

lemma ensure_indirect_fresh:
  assumes "ino_indirect_block inode = 0"
    and a: "alloc_and_zero dev sb = (Inr ind, dev1, sb1)" and inv1: "owfs_alloc_inv dev1 sb1"
    and "ind \<in> owfs_region sb1" and zero: "blk dev1 ind = replicate 4096 0"
  shows "ensure_indirect dev sb inode idx b =
    ensure_indirect dev1 sb1 (inode\<lparr>ino_indirect_block := ind\<rparr>) idx b"
proof -
  from inv1 have i: "htl_reliable dev1" "owfs_geometry dev1 sb1" by (simp_all add: owfs_alloc_inv_def)
  note r = owfs_region_outside [OF i(2) assms(4)] owfs_region_nonzero [OF i(2) assms(4)]
  show ?thesis
    using assms(1) a r i zero by (simp add: ensure_indirect_def htl_read_reliable)
qed

lemma owfs_map_ok_extend:
  assumes inv: "owfs_alloc_inv dev sb" and map: "owfs_map_ok dev sb inode"
    and blocks: "owfs_blocks dev' inode' = owfs_blocks dev inode @ [b]"
    and b: "b \<notin> owfs_allocated dev sb"
    and all: "owfs_allocated dev' sb' = insert b (owfs_allocated dev sb \<union> I)"
    and wf: "owfs_inode_wf inode'" and n: "unat (ino_block_count inode') \<le> 1034"
    and ind: "if ino_block_count inode' > 10 then
        (if ino_block_count inode > 10 then ino_indirect_block inode' = ino_indirect_block inode \<and> I = {}
         else I = {ino_indirect_block inode'} \<and> ino_indirect_block inode' \<notin> insert b (owfs_allocated dev sb))
      else ino_indirect_block inode' = 0"
  shows "owfs_map_ok dev' sb' inode'"
proof -
  note d = owfs_map_okD [OF inv map]
  have sub: "set (owfs_blocks dev inode) \<subseteq> owfs_allocated dev sb"
    and sub': "10 < ino_block_count inode \<Longrightarrow> ino_indirect_block inode \<in> owfs_allocated dev sb"
    and di: "10 < ino_block_count inode \<Longrightarrow> ino_indirect_block inode \<notin> set (owfs_blocks dev inode)"
    using d(5) map by (auto simp: owfs_owned_def owfs_map_ok_def split: if_splits)
  have "distinct (owfs_blocks dev' inode')" using d(8) sub b blocks by auto
  moreover have "owfs_owned dev' inode' \<subseteq> owfs_allocated dev' sb'"
    using sub sub' ind by (auto simp: owfs_owned_def blocks all split: if_splits)
  moreover have "10 < ino_block_count inode' \<Longrightarrow> ino_indirect_block inode' \<notin> set (owfs_blocks dev' inode')"
    using ind sub sub' di b by (auto simp: blocks split: if_splits)
  ultimately show ?thesis
    using wf n ind by (auto simp: owfs_map_ok_def word_le_nat_alt split: if_splits)
qed

text \<open>The blocks a file may take or rewrite when it grows by one.\<close>

definition owfs_grow_set :: "'c htl_device \<Rightarrow> owfs_superblock \<Rightarrow> owfs_inode \<Rightarrow> u32 set" where
  "owfs_grow_set dev sb inode = (owfs_region sb - owfs_allocated dev sb) \<union>
     (if 10 < ino_block_count inode then {ino_indirect_block inode} else {})"

definition owfs_grown ::
  "'c htl_device \<Rightarrow> owfs_superblock \<Rightarrow> owfs_inode \<Rightarrow> u32 \<Rightarrow> 'c htl_device \<Rightarrow> owfs_superblock \<Rightarrow> owfs_inode \<Rightarrow> bool"
  where
  "owfs_grown dev sb inode b dev' sb' inode' \<longleftrightarrow>
     owfs_alloc_inv dev' sb' \<and> owfs_map_ok dev' sb' inode' \<and>
     owfs_blocks dev' inode' = owfs_blocks dev inode @ [b] \<and>
     b \<in> owfs_region sb - owfs_allocated dev sb \<and> blk dev' b = replicate 4096 0 \<and>
     owfs_allocated dev' sb' = owfs_allocated dev sb \<union> owfs_owned dev' inode' \<and>
     owfs_frame sb (owfs_grow_set dev sb inode) dev dev' \<and>
     owfs_owned dev' inode' \<subseteq> owfs_owned dev inode \<union> (owfs_region sb - owfs_allocated dev sb) \<and>
     (10 < ino_block_count inode \<longrightarrow> ino_indirect_block inode' = ino_indirect_block inode) \<and>
     sb' = sb\<lparr>sb_free_blocks := sb_free_blocks sb'\<rparr> \<and>
     inode' = inode\<lparr>ino_direct_blocks := ino_direct_blocks inode', ino_indirect_block := ino_indirect_block inode',
                    ino_block_count := ino_block_count inode + 1\<rparr>"

lemma owfs_inode_wf_simps [simp]:
  "owfs_inode_wf (inode\<lparr>ino_block_count := n\<rparr>) = owfs_inode_wf inode"
  "owfs_inode_wf (inode\<lparr>ino_indirect_block := n\<rparr>) = owfs_inode_wf inode"
  "owfs_inode_wf (inode\<lparr>ino_direct_blocks := (ino_direct_blocks inode)[i := b]\<rparr>) = owfs_inode_wf inode"
  by (simp_all add: owfs_inode_wf_def)

lemma ensure_direct_grown:
  assumes inv: "owfs_alloc_inv dev sb" and map: "owfs_map_ok dev sb inode"
    and n: "unat (ino_block_count inode) < 10"
    and a: "alloc_and_zero dev sb = (Inr b, dev1, sb1)"
  shows "owfs_grown dev sb inode b dev1 sb1
    (inode\<lparr>ino_direct_blocks := (ino_direct_blocks inode)[unat (ino_block_count inode) := b],
           ino_block_count := ino_block_count inode + 1\<rparr>)" (is "owfs_grown dev sb inode b dev1 sb1 ?i")
proof -
  note z = alloc_and_zero_some [OF inv a]
  note d = owfs_map_okD [OF inv map]
  have n1: "unat (ino_block_count inode + 1) = Suc (unat (ino_block_count inode))"
    using n by (simp add: unat_plus1)
  then have le: "\<not> 10 < ino_block_count inode" "\<not> 10 < ino_block_count inode + 1"
    using n by (simp_all add: word_less_nat_alt)
  have blocks: "owfs_blocks dev1 ?i = owfs_blocks dev inode @ [b]"
    by (rule owfs_blocks_append) (use n n1 d(4) in \<open>auto simp: owfs_block_at_def\<close>)
  have ind: "ino_indirect_block inode = 0" using map le by (simp add: owfs_map_ok_def)
  have "owfs_map_ok dev1 sb1 ?i"
    by (rule owfs_map_ok_extend [OF inv map blocks, where I = "{}"]) (use z d(3) n n1 le ind in auto)
  moreover have "owfs_frame sb (owfs_grow_set dev sb inode) dev dev1"
    by (rule owfs_frame_mono [OF z(5)]) (use z(3) in \<open>auto simp: owfs_grow_set_def\<close>)
  moreover have "owfs_allocated dev1 sb1 = owfs_allocated dev sb \<union> owfs_owned dev1 ?i"
    using z(4) d(5) le by (auto simp: owfs_owned_def blocks)
  moreover have "owfs_owned dev1 ?i \<subseteq> owfs_owned dev inode \<union> (owfs_region sb - owfs_allocated dev sb)"
    using z(3) le by (auto simp: owfs_owned_def blocks)
  ultimately show ?thesis
    using z blocks le by (simp add: owfs_grown_def)
qed

lemma ensure_existing_grown:
  assumes inv: "owfs_alloc_inv dev sb" and map: "owfs_map_ok dev sb inode"
    and n: "10 < unat (ino_block_count inode)" "unat (ino_block_count inode) < 1034"
    and a: "alloc_and_zero dev sb = (Inr b, dev1, sb1)"
  shows "\<exists>dev2. ensure_indirect dev1 sb1 inode (ino_block_count inode) b = (OWFS_OK, dev2, sb1, inode) \<and>
    owfs_grown dev sb inode b dev2 sb1 (inode\<lparr>ino_block_count := ino_block_count inode + 1\<rparr>)"
proof -
  note z = alloc_and_zero_some [OF inv a]
  note d = owfs_map_okD [OF inv map]
  note o = owfs_indirect_owned [OF inv map n(1)]
  have ne: "ino_indirect_block inode \<noteq> b" and r: "ino_indirect_block inode \<in> owfs_region sb1"
    using z(2,3) o(1,2) by auto
  let ?buf = "ptr_store (blk dev1 (ino_indirect_block inode)) ((unat (ino_block_count inode) - 10) * 4) b"
  let ?d2 = "blk_write dev1 (ino_indirect_block inode) ?buf"
  let ?i = "inode\<lparr>ino_block_count := ino_block_count inode + 1\<rparr>"
  from z(1) have i1: "htl_reliable dev1" "owfs_geometry dev1 sb1" by (simp_all add: owfs_alloc_inv_def)
  have len: "length ?buf = 4096"
    using i1 owfs_region_outside [OF i1(2) r] by (simp add: length_blk)
  note w = owfs_alloc_inv_region_write [OF z(1) r len]
  have n1: "unat (ino_block_count inode + 1) = Suc (unat (ino_block_count inode))"
    using n by (simp add: unat_plus1)
  have gt: "10 < ino_block_count inode" "10 < ino_block_count inode + 1"
    using n n1 by (simp_all add: word_less_nat_alt)
  have "owfs_blocks dev1 inode = owfs_blocks dev inode"
    using owfs_blocks_frame(1) [OF inv map z(5)] ne by simp
  then have blocks: "owfs_blocks ?d2 ?i = owfs_blocks dev inode @ [b]"
    using owfs_blocks_store [OF z(1) d(3) r, of b] n by simp
  have ok: "owfs_map_ok ?d2 sb1 ?i"
    by (rule owfs_map_ok_extend [OF inv map blocks, where I = "{}"])
      (use z w d(3) n n1 gt in auto)
  have "owfs_frame sb ({b} \<union> {ino_indirect_block inode}) dev ?d2"
    by (rule owfs_frame_trans [OF z(5)]) (use w(4) z(2) in simp)
  then have "owfs_frame sb (owfs_grow_set dev sb inode) dev ?d2"
    by (rule owfs_frame_mono) (use z(3) gt in \<open>auto simp: owfs_grow_set_def\<close>)
  moreover have "owfs_allocated ?d2 sb1 = owfs_allocated dev sb \<union> owfs_owned ?d2 ?i"
    using z(4) w(3) d(5) o(1) gt by (auto simp: owfs_owned_def blocks)
  moreover have "blk ?d2 b = replicate 4096 0"
    using owfs_frameD [OF w(4) i1(2), of b] z ne by simp
  moreover have "owfs_owned ?d2 ?i \<subseteq> owfs_owned dev inode \<union> (owfs_region sb - owfs_allocated dev sb)"
    using z(3) gt by (auto simp: owfs_owned_def blocks)
  ultimately have "owfs_grown dev sb inode b ?d2 sb1 ?i"
    using z w(2) blocks ok by (simp add: owfs_grown_def)
  moreover have "ensure_indirect dev1 sb1 inode (ino_block_count inode) b = (OWFS_OK, ?d2, sb1, inode)"
    using ensure_indirect_existing [OF z(1) d(3) r] n by simp
  ultimately show ?thesis by blast
qed

lemma ensure_fresh_grown:
  assumes inv: "owfs_alloc_inv dev sb" and map: "owfs_map_ok dev sb inode"
    and n: "unat (ino_block_count inode) = 10"
    and a: "alloc_and_zero dev sb = (Inr b, dev1, sb1)"
    and a2: "alloc_and_zero dev1 sb1 = (Inr ind, dev2, sb2)"
  shows "\<exists>dev3. ensure_indirect dev1 sb1 inode (ino_block_count inode) b =
      (OWFS_OK, dev3, sb2, inode\<lparr>ino_indirect_block := ind\<rparr>) \<and>
    owfs_grown dev sb inode b dev3 sb2
      (inode\<lparr>ino_indirect_block := ind, ino_block_count := ino_block_count inode + 1\<rparr>)"
proof -
  note z = alloc_and_zero_some [OF inv a]
  note y = alloc_and_zero_some [OF z(1) a2]
  note d = owfs_map_okD [OF inv map]
  let ?j = "inode\<lparr>ino_indirect_block := ind\<rparr>"
  let ?i = "?j\<lparr>ino_block_count := ino_block_count inode + 1\<rparr>"
  have n1: "unat (ino_block_count inode + 1) = 11" using n by (simp add: unat_plus1)
  then have le: "\<not> 10 < ino_block_count inode" "10 < ino_block_count inode + 1"
    using n by (simp_all add: word_less_nat_alt)
  then have i0: "ino_indirect_block inode = 0" using map by (simp add: owfs_map_ok_def)
  have ne: "ind \<noteq> b" "ind \<notin> owfs_allocated dev sb" and r1: "ind \<in> owfs_region sb" and r: "ind \<in> owfs_region sb2"
    using y(2,3) z(2,4) by auto
  from y(1) have i2: "htl_reliable dev2" "owfs_geometry dev2 sb2" by (simp_all add: owfs_alloc_inv_def)
  have gdev1: "owfs_geometry dev1 sb1" using z(1) by (simp add: owfs_alloc_inv_def)
  let ?buf = "ptr_store (blk dev2 ind) 0 b"
  let ?d3 = "blk_write dev2 ind ?buf"
  have len: "length ?buf = 4096" using y(6) by simp
  note w = owfs_alloc_inv_region_write [OF y(1) r len]
  have "ensure_indirect dev2 sb2 ?j (ino_block_count ?j) b = (OWFS_OK, ?d3, sb2, ?j)"
    using ensure_indirect_existing [of dev2 sb2 ?j b, OF y(1)] d(3) r n by simp
  then have ens: "ensure_indirect dev1 sb1 inode (ino_block_count inode) b = (OWFS_OK, ?d3, sb2, ?j)"
    using ensure_indirect_fresh [OF i0 a2 y(1) r y(6)] by simp
  have "owfs_blocks dev2 ?j = owfs_blocks dev inode"
    using n by (auto simp: owfs_blocks_def owfs_block_at_def)
  then have blocks: "owfs_blocks ?d3 ?i = owfs_blocks dev inode @ [b]"
    using owfs_blocks_store [of dev2 sb2 ?j b, OF y(1)] d(3) r n by simp
  have ok: "owfs_map_ok ?d3 sb2 ?i"
    by (rule owfs_map_ok_extend [OF inv map blocks, where I = "{ind}"])
      (use z y w d(3) n n1 le ne in auto)
  have "owfs_frame sb ({b} \<union> {ind} \<union> {ind}) dev ?d3"
    by (rule owfs_frame_trans [OF owfs_frame_trans [OF z(5)]]) (use w(4) y(2,5) z(2) in simp_all)
  then have "owfs_frame sb (owfs_grow_set dev sb inode) dev ?d3"
    by (rule owfs_frame_mono) (use z(3) ne r1 in \<open>auto simp: owfs_grow_set_def\<close>)
  moreover have "owfs_allocated ?d3 sb2 = owfs_allocated dev sb \<union> owfs_owned ?d3 ?i"
    using z(4) y(4) w(3) d(5) le by (auto simp: owfs_owned_def blocks)
  moreover have "blk ?d3 b = replicate 4096 0"
    using owfs_frameD [OF w(4) i2(2), of b] owfs_frameD [OF y(5) gdev1, of b] z(2,3,6) y(2) ne(1) by simp
  moreover have "owfs_owned ?d3 ?i \<subseteq> owfs_owned dev inode \<union> (owfs_region sb - owfs_allocated dev sb)"
    using z(3) ne(2) r1 by (auto simp: owfs_owned_def blocks)
  ultimately have "owfs_grown dev sb inode b ?d3 sb2 ?i"
    using z y w(2) blocks ok le by (simp add: owfs_grown_def)
  with ens show ?thesis by (intro exI [of _ ?d3]) simp
qed

lemma owfs_blockmap_ensure_grown:
  assumes inv: "owfs_alloc_inv dev sb" and map: "owfs_map_ok dev sb inode"
    and e: "owfs_blockmap_ensure dev sb inode (ino_block_count inode) = (Inr b, dev', sb', inode')"
  shows "owfs_grown dev sb inode b dev' sb' inode'"
proof -
  have vw: "owfs_volume_writable sb = OWFS_OK" and lt: "\<not> 1034 \<le> ino_block_count inode"
    using e by (auto simp: owfs_blockmap_ensure_def split: if_splits)
  then have n: "unat (ino_block_count inode) < 1034" by (simp add: word_le_nat_alt)
  obtain dev1 sb1 where a: "alloc_and_zero dev sb = (Inr b, dev1, sb1)"
    using e vw lt by (auto simp: owfs_blockmap_ensure_def split: prod.splits sum.splits if_splits)
  consider "unat (ino_block_count inode) < 10" | "unat (ino_block_count inode) = 10"
    | "10 < unat (ino_block_count inode)" by linarith
  then show ?thesis
  proof cases
    case 1
    then have "ino_block_count inode < 10" by (simp add: word_less_nat_alt)
    with ensure_direct_grown [OF inv map 1 a] e vw lt a show ?thesis
      by (simp add: owfs_blockmap_ensure_def)
  next
    case 2
    then have ge: "\<not> ino_block_count inode < 10" and "\<not> 10 < ino_block_count inode"
      by (simp_all add: word_less_nat_alt)
    then have i0: "ino_indirect_block inode = 0" using map by (simp add: owfs_map_ok_def)
    obtain r dev2 sb2 where a2: "alloc_and_zero dev1 sb1 = (r, dev2, sb2)" by (cases "alloc_and_zero dev1 sb1")
    show ?thesis
    proof (cases r)
      case (Inl err)
      with alloc_and_zero_none [OF alloc_and_zero_some(1) [OF inv a]] a2
      have "err = OWFS_ERR_NO_FREE_BLOCKS" by blast
      with e vw lt ge a a2 i0 Inl show ?thesis
        by (auto simp: owfs_blockmap_ensure_def ensure_indirect_def split: prod.splits)
    next
      case (Inr ind)
      from ensure_fresh_grown [OF inv map 2 a a2 [unfolded Inr]] e vw lt ge a show ?thesis
        by (auto simp: owfs_blockmap_ensure_def)
    qed
  next
    case 3
    then have "\<not> ino_block_count inode < 10" by (simp add: word_less_nat_alt)
    with ensure_existing_grown [OF inv map 3 n a] e vw lt a show ?thesis
      by (auto simp: owfs_blockmap_ensure_def)
  qed
qed

text \<open>Growing fails only for lack of space, and then gives back what it took: with one block left, the
  data block is taken and freed again when there is none for the indirect block.\<close>

definition owfs_unchanged ::
  "'c htl_device \<Rightarrow> owfs_superblock \<Rightarrow> 'c htl_device \<Rightarrow> owfs_superblock \<Rightarrow> bool" where
  "owfs_unchanged dev sb dev' sb' \<longleftrightarrow> sb' = sb \<and> owfs_alloc_inv dev' sb' \<and>
     owfs_allocated dev' sb' = owfs_allocated dev sb \<and>
     owfs_frame sb (owfs_region sb - owfs_allocated dev sb) dev dev'"

lemma alloc_then_free:
  assumes inv: "owfs_alloc_inv dev sb" and a: "alloc_and_zero dev sb = (Inr b, dev1, sb1)"
    and f: "owfs_bitmap_free dev1 sb1 b = (e, dev2, sb2)"
  shows "owfs_unchanged dev sb dev2 sb2"
proof -
  note z = alloc_and_zero_some [OF inv a]
  have rb: "b \<in> owfs_region sb1" and ub: "b \<in> owfs_allocated dev1 sb1" using z(2,3,4) by auto
  note g = owfs_bitmap_free_ok [OF z(1) rb f]
  from z(1) have i1: "htl_reliable dev1" "owfs_geometry dev1 sb1" by (simp_all add: owfs_alloc_inv_def)
  have "sb2 = sb1\<lparr>sb_free_blocks := sb_free_blocks sb1 + 1\<rparr>"
    using f ub rb by (auto simp: owfs_bitmap_free_reliable [OF i1] owfs_allocated_def owfs_region_def Let_def
        split: if_splits)
  then have sb2: "sb2 = sb" using z(2) by simp
  have "owfs_frame sb {} dev1 dev2" using g(5,6) z(2) by (simp add: owfs_frame_def)
  from owfs_frame_trans [OF z(5) this] have "owfs_frame sb (owfs_region sb - owfs_allocated dev sb) dev dev2"
    by (rule owfs_frame_mono) (use z(3) in auto)
  then show ?thesis using g(2,4) sb2 z(3,4) by (auto simp: owfs_unchanged_def)
qed

lemma ensure_full_at_10:
  assumes inv: "owfs_alloc_inv dev sb" and map: "owfs_map_ok dev sb inode"
    and vw: "owfs_volume_writable sb = OWFS_OK" and lt: "\<not> 1034 \<le> ino_block_count inode"
    and e: "owfs_blockmap_ensure dev sb inode (ino_block_count inode) = (Inl err, dev', sb', inode')"
    and a: "alloc_and_zero dev sb = (Inr b, dev1, sb1)"
  shows "unat (ino_block_count inode) = 10" and "\<exists>x dev2 sb2. alloc_and_zero dev1 sb1 = (Inl x, dev2, sb2)"
proof -
  have n: "unat (ino_block_count inode) < 1034" using lt by (simp add: word_le_nat_alt)
  show n10: "unat (ino_block_count inode) = 10"
  proof (rule ccontr)
    assume "unat (ino_block_count inode) \<noteq> 10"
    then consider "unat (ino_block_count inode) < 10" | "10 < unat (ino_block_count inode)" by linarith
    then show False
    proof cases
      case 1
      with e vw lt a show False by (simp add: owfs_blockmap_ensure_def word_less_nat_alt)
    next
      case 2
      with ensure_existing_grown [OF inv map 2 n a] e vw lt a show False
        by (auto simp: owfs_blockmap_ensure_def word_less_nat_alt)
    qed
  qed
  then have ge: "\<not> ino_block_count inode < 10" by (simp add: word_less_nat_alt)
  show "\<exists>x dev2 sb2. alloc_and_zero dev1 sb1 = (Inl x, dev2, sb2)"
  proof (cases "alloc_and_zero dev1 sb1")
    case (fields r dev2 sb2)
    show ?thesis
    proof (cases r)
      case (Inr ind)
      with ensure_fresh_grown [OF inv map n10 a fields [unfolded Inr]] e vw lt ge a show ?thesis
        by (auto simp: owfs_blockmap_ensure_def)
    qed (use fields in auto)
  qed
qed

lemma owfs_blockmap_ensure_full:
  assumes inv: "owfs_alloc_inv dev sb" and map: "owfs_map_ok dev sb inode"
    and vw: "owfs_volume_writable sb = OWFS_OK"
    and e: "owfs_blockmap_ensure dev sb inode (ino_block_count inode) = (Inl err, dev', sb', inode')"
  shows "err = OWFS_ERR_NO_FREE_BLOCKS \<and> inode' = inode \<and> owfs_unchanged dev sb dev' sb' \<and>
    (ino_block_count inode = 1034 \<or> unat (sb_free_blocks sb) \<le> 1)"
proof (cases "1034 \<le> ino_block_count inode")
  case True
  then have "ino_block_count inode = 1034" using map by (simp add: owfs_map_ok_def)
  with e True inv show ?thesis by (simp add: owfs_blockmap_ensure_def owfs_unchanged_def)
next
  case lt: False
  obtain r dev1 sb1 where a: "alloc_and_zero dev sb = (r, dev1, sb1)" by (cases "alloc_and_zero dev sb")
  show ?thesis
  proof (cases r)
    case (Inl x)
    from alloc_and_zero_none [OF inv a [unfolded Inl]] e vw lt a Inl inv show ?thesis
      by (simp add: owfs_blockmap_ensure_def owfs_unchanged_def)
  next
    case (Inr b)
    note a' = a [unfolded Inr]
    note z = alloc_and_zero_some [OF inv a']
    note n10 = ensure_full_at_10 [OF inv map vw lt e a']
    then obtain x dev2 sb2 where a2: "alloc_and_zero dev1 sb1 = (Inl x, dev2, sb2)" by blast
    note f = alloc_and_zero_none [OF z(1) a2]
    from n10(1) have ge: "\<not> ino_block_count inode < 10" "\<not> 10 < ino_block_count inode"
      by (simp_all add: word_less_nat_alt)
    then have i0: "ino_indirect_block inode = 0" using map by (simp add: owfs_map_ok_def)
    obtain fe dev3 sb3 where fr: "owfs_bitmap_free dev1 sb1 b = (fe, dev3, sb3)"
      by (cases "owfs_bitmap_free dev1 sb1 b")
    have "err = x" "dev' = dev3" "sb' = sb3" "inode' = inode"
      using e vw lt ge a' a2 i0 fr f by (auto simp: owfs_blockmap_ensure_def ensure_indirect_def)
    moreover have "sb_free_blocks sb - 1 = 0" using f(4) z(2) by simp
    then have "sb_free_blocks sb = 1" by simp
    ultimately show ?thesis using f(1) alloc_then_free [OF inv a' fr] by simp
  qed
qed

section \<open>Releasing blocks\<close>

lemma blockmap_release_loop_step:
  assumes inv: "owfs_alloc_inv dev sb" and b: "i < 1034" "owfs_block_at dev inode i \<in> owfs_region sb"
    and ind: "10 \<le> i \<Longrightarrow> ino_indirect_block inode \<in> owfs_region sb"
    and ibuf: "ibuf = None \<or> ibuf = Some (blk dev (ino_indirect_block inode))"
    and f: "owfs_bitmap_free dev sb (owfs_block_at dev inode i) = (OWFS_OK, dev1, sb1)"
  shows "blockmap_release_loop dev sb inode ibuf (i # is) = blockmap_release_loop dev1 sb1 inode
    (if i < 10 then ibuf else Some (blk dev (ino_indirect_block inode))) is"
proof -
  from inv have g: "htl_reliable dev" "owfs_geometry dev sb" by (simp_all add: owfs_alloc_inv_def)
  note nz = owfs_region_nonzero [OF g(2) b(2)]
  show ?thesis
  proof (cases "i < 10")
    case True
    with f nz show ?thesis by (simp add: owfs_block_at_def)
  next
    case False
    then have ib: "ino_indirect_block inode \<in> owfs_region sb" using ind by simp
    have off: "unat ((of_nat i - 10) * 4 :: u32) = (i - 10) * 4" using False b(1) by (intro entry_offset_nat) simp_all
    show ?thesis
      unfolding blockmap_release_loop.simps Let_def off
      using False f nz ibuf owfs_region_outside [OF g(2) ib] owfs_region_nonzero [OF g(2) ib] g(1)
      by (auto simp: owfs_block_at_def htl_read_reliable)
  qed
qed

lemma blockmap_release_loop_ok:
  assumes "owfs_alloc_inv dev sb" and "\<And>i. i \<in> set is \<Longrightarrow> i < 1034 \<and> owfs_block_at dev inode i \<in> owfs_region sb"
    and "\<And>i. i \<in> set is \<Longrightarrow> 10 \<le> i \<Longrightarrow> ino_indirect_block inode \<in> owfs_region sb"
    and "ibuf = None \<or> ibuf = Some (blk dev (ino_indirect_block inode)) \<and> ino_indirect_block inode \<in> owfs_region sb"
  shows "\<exists>dev' sb'. blockmap_release_loop dev sb inode ibuf is = (OWFS_OK, dev', sb') \<and>
    owfs_alloc_inv dev' sb' \<and> sb' = sb\<lparr>sb_free_blocks := sb_free_blocks sb'\<rparr> \<and>
    owfs_allocated dev' sb' = owfs_allocated dev sb - owfs_block_at dev inode ` set is \<and> owfs_frame sb {} dev dev'"
  using assms
proof (induction "is" arbitrary: dev sb ibuf)
  case (Cons i "is")
  from Cons.prems(1) have g: "owfs_geometry dev sb" by (simp add: owfs_alloc_inv_def)
  let ?b = "owfs_block_at dev inode i"
  have b: "i < 1034" "?b \<in> owfs_region sb" using Cons.prems(2) [of i] by simp_all
  obtain e dev1 sb1 where f: "owfs_bitmap_free dev sb ?b = (e, dev1, sb1)" by (cases "owfs_bitmap_free dev sb ?b")
  note o = owfs_bitmap_free_ok [OF Cons.prems(1) b(2) f]
  have fr: "owfs_frame sb {} dev dev1" using o(5,6) by (simp add: owfs_frame_def)
  have reg: "owfs_region sb1 = owfs_region sb" by (subst o(3)) simp
  have frs: "owfs_frame sb1 = owfs_frame sb" by (subst o(3)) simp
  have same: "owfs_block_at dev1 inode j = owfs_block_at dev inode j" if "j \<in> set is" for j
    using Cons.prems(3) [of j] that by (intro owfs_block_at_frame [OF g fr]) simp
  have ib: "blk dev1 x = blk dev x" if "x \<in> owfs_region sb" for x
    using owfs_frameD [OF fr g] that by simp
  let ?ib = "if i < 10 then ibuf else Some (blk dev (ino_indirect_block inode))"
  have "\<exists>dev' sb'. blockmap_release_loop dev1 sb1 inode ?ib is = (OWFS_OK, dev', sb') \<and>
    owfs_alloc_inv dev' sb' \<and> sb' = sb1\<lparr>sb_free_blocks := sb_free_blocks sb'\<rparr> \<and>
    owfs_allocated dev' sb' = owfs_allocated dev1 sb1 - owfs_block_at dev1 inode ` set is \<and> owfs_frame sb1 {} dev1 dev'"
    by (rule Cons.IH) (use Cons.prems Cons.prems(3) [of i] o(2) reg same ib in \<open>auto split: if_splits\<close>)
  then obtain dev' sb' where r: "blockmap_release_loop dev1 sb1 inode ?ib is = (OWFS_OK, dev', sb')"
    "owfs_alloc_inv dev' sb'" "sb' = sb1\<lparr>sb_free_blocks := sb_free_blocks sb'\<rparr>"
    "owfs_allocated dev' sb' = owfs_allocated dev1 sb1 - owfs_block_at dev1 inode ` set is" "owfs_frame sb1 {} dev1 dev'"
    by blast
  have "blockmap_release_loop dev sb inode ibuf (i # is) = (OWFS_OK, dev', sb')"
    unfolding r(1) [symmetric]
    by (rule blockmap_release_loop_step [OF Cons.prems(1) b]) (use Cons.prems(3) [of i] Cons.prems(4) f o(1) in auto)
  moreover have "sb' = sb\<lparr>sb_free_blocks := sb_free_blocks sb'\<rparr>"
    by (subst r(3), subst o(3)) simp
  moreover have "owfs_block_at dev1 inode ` set is = owfs_block_at dev inode ` set is"
    using same by (intro image_cong) auto
  then have "owfs_allocated dev' sb' = owfs_allocated dev sb - owfs_block_at dev inode ` set (i # is)"
    using r(4) o(4) by auto
  moreover have "owfs_frame sb {} dev dev'"
    using owfs_frame_trans [OF fr, of "{}" dev'] r(5) by (simp add: frs)
  ultimately show ?case using r(2) by blast
qed simp

lemma fold_clear: "fold (\<lambda>i ds. ds[i := 0]) [a..<n] ds = map (\<lambda>i. if a \<le> i \<and> i < n then 0 else ds ! i) [0..<length ds]"
proof (induction n)
  case (Suc n)
  show ?case
  proof (cases "a \<le> n")
    case True
    then show ?thesis using Suc by (auto intro!: nth_equalityI simp: nth_list_update less_Suc_eq)
  next
    case False
    then show ?thesis by (auto intro!: nth_equalityI)
  qed
qed (auto intro!: nth_equalityI)

definition owfs_released ::
  "'c htl_device \<Rightarrow> owfs_superblock \<Rightarrow> owfs_inode \<Rightarrow> nat \<Rightarrow> 'c htl_device \<Rightarrow> owfs_superblock \<Rightarrow> owfs_inode \<Rightarrow> bool"
  where
  "owfs_released dev sb inode n dev' sb' inode' \<longleftrightarrow>
     owfs_alloc_inv dev' sb' \<and> owfs_map_ok dev' sb' inode' \<and>
     owfs_blocks dev' inode' = take n (owfs_blocks dev inode) \<and>
     owfs_allocated dev' sb' = owfs_allocated dev sb - (owfs_owned dev inode - owfs_owned dev' inode') \<and>
     owfs_owned dev' inode' \<subseteq> owfs_owned dev inode \<and> owfs_frame sb {} dev dev' \<and> sb' = sb\<lparr>sb_free_blocks := sb_free_blocks sb'\<rparr> \<and>
     inode' = inode\<lparr>ino_direct_blocks := ino_direct_blocks inode', ino_indirect_block := ino_indirect_block inode',
                    ino_block_count := ino_block_count inode'\<rparr>"

lemma owfs_blocks_truncate:
  assumes inv: "owfs_alloc_inv dev sb" and map: "owfs_map_ok dev sb inode" and fr: "owfs_frame sb {} dev dev'"
    and n: "n < ino_block_count inode" and x: "10 < n \<Longrightarrow> ino_indirect_block inode' = ino_indirect_block inode"
    and ds: "\<And>i. i < unat n \<Longrightarrow> i < 10 \<Longrightarrow> ino_direct_blocks inode' ! i = ino_direct_blocks inode ! i"
    and c: "ino_block_count inode' = n"
  shows "owfs_blocks dev' inode' = take (unat n) (owfs_blocks dev inode)"
proof (rule nth_equalityI)
  have n': "unat n < unat (ino_block_count inode)" using n by (simp add: word_less_nat_alt)
  then show "length (owfs_blocks dev' inode') = length (take (unat n) (owfs_blocks dev inode))" by (simp add: c)
  fix i assume "i < length (owfs_blocks dev' inode')"
  then have i: "i < unat n" by (simp add: c)
  have "owfs_block_at dev' inode' i = owfs_block_at dev inode i"
  proof (cases "i < 10")
    case True
    then show ?thesis using ds [OF i] by (simp add: owfs_block_at_def)
  next
    case False
    then have "10 < n" using i by (simp add: word_less_nat_alt)
    moreover from owfs_indirect_owned(2) [OF inv map] False i n'
    have "ino_indirect_block inode \<in> owfs_region sb" by simp
    ultimately show ?thesis
      using x False owfs_frameD [OF fr owfs_map_okD(2) [OF inv map]] by (simp add: owfs_block_at_def)
  qed
  then show "owfs_blocks dev' inode' ! i = take (unat n) (owfs_blocks dev inode) ! i"
    using i n' by (simp add: owfs_blocks_def c)
qed

lemma owfs_releasedI:
  assumes inv: "owfs_alloc_inv dev sb" and map: "owfs_map_ok dev sb inode"
    and fr: "owfs_frame sb {} dev dev'" and inv': "owfs_alloc_inv dev' sb'"
    and n: "n < ino_block_count inode" and sb': "sb' = sb\<lparr>sb_free_blocks := sb_free_blocks sb'\<rparr>"
    and all: "owfs_allocated dev' sb' = owfs_allocated dev sb - (set (drop (unat n) (owfs_blocks dev inode)) \<union>
        (if 10 < ino_block_count inode \<and> \<not> 10 < n then {ino_indirect_block inode} else {}))"
    and ds: "length ds = 10" "\<And>i. i < unat n \<Longrightarrow> i < 10 \<Longrightarrow> ds ! i = ino_direct_blocks inode ! i"
  defines "inode' \<equiv> inode\<lparr>ino_direct_blocks := ds,
      ino_indirect_block := if 10 < n then ino_indirect_block inode else 0, ino_block_count := n\<rparr>"
  shows "owfs_released dev sb inode (unat n) dev' sb' inode'"
proof -
  note d = owfs_map_okD [OF inv map]
  have c: "ino_block_count inode' = n" by (simp add: inode'_def)
  have blocks: "owfs_blocks dev' inode' = take (unat n) (owfs_blocks dev inode)"
    by (rule owfs_blocks_truncate [OF inv map fr n]) (use ds in \<open>simp_all add: inode'_def\<close>)
  let ?t = "set (take (unat n) (owfs_blocks dev inode))" and ?d = "set (drop (unat n) (owfs_blocks dev inode))"
  have sp: "set (owfs_blocks dev inode) = ?t \<union> ?d" "?t \<inter> ?d = {}"
    using d(8) by (metis append_take_drop_id set_append, metis set_take_disj_set_drop_if_distinct order_refl)
  have ni: "10 < ino_block_count inode \<Longrightarrow> ino_indirect_block inode \<notin> set (owfs_blocks dev inode)"
    using map by (simp add: owfs_map_ok_def)
  have gt: "10 < n \<Longrightarrow> 10 < ino_block_count inode" using n by (metis order_less_trans)
  have o1: "owfs_owned dev inode = ?t \<union> ?d \<union> (if 10 < ino_block_count inode then {ino_indirect_block inode} else {})"
    using sp(1) by (simp add: owfs_owned_def)
  have o2: "owfs_owned dev' inode' = ?t \<union> (if 10 < n then {ino_indirect_block inode} else {})"
    using blocks by (simp add: owfs_owned_def c) (simp add: inode'_def)
  have "owfs_owned dev' inode' \<subseteq> owfs_allocated dev' sb'"
    using d(5) sp ni gt unfolding all o2 o1 by (auto split: if_splits)
  moreover have "owfs_allocated dev' sb' = owfs_allocated dev sb - (owfs_owned dev inode - owfs_owned dev' inode')"
    using sp ni gt unfolding all o1 o2 by (auto split: if_splits)
  moreover have "owfs_owned dev' inode' \<subseteq> owfs_owned dev inode" using gt unfolding o1 o2 by auto
  moreover have "owfs_map_ok dev' sb' inode'"
    using d(3,7) ds(1) n blocks d(8) ni gt calculation(1) map
    unfolding owfs_map_ok_def c by (auto simp: owfs_inode_wf_def inode'_def dest: in_set_takeD)
  ultimately show ?thesis
    using inv' fr sb' blocks by (simp add: owfs_released_def inode'_def)
qed

lemma owfs_blockmap_release_ok:
  assumes inv: "owfs_alloc_inv dev sb" and map: "owfs_map_ok dev sb inode"
    and vw: "owfs_volume_writable sb = OWFS_OK" and n: "from_idx < ino_block_count inode"
  shows "\<exists>dev' sb' inode'. owfs_blockmap_release dev sb inode from_idx = (OWFS_OK, dev', sb', inode') \<and>
    owfs_released dev sb inode (unat from_idx) dev' sb' inode' \<and> ino_block_count inode' = from_idx"
proof -
  note d = owfs_map_okD [OF inv map]
  let ?n = "unat from_idx" and ?N = "unat (ino_block_count inode)"
  have at: "owfs_block_at dev inode ` set [?n..<?N] = set (drop ?n (owfs_blocks dev inode))"
    by (simp add: owfs_blocks_def drop_map)
  have "\<And>i. i \<in> set [?n..<?N] \<Longrightarrow> i < 1034 \<and> owfs_block_at dev inode i \<in> owfs_region sb"
    using d(5,6,7,9) by fastforce
  moreover have "\<And>i. i \<in> set [?n..<?N] \<Longrightarrow> 10 \<le> i \<Longrightarrow> ino_indirect_block inode \<in> owfs_region sb"
    using owfs_indirect_owned(2) [OF inv map] by simp
  ultimately obtain dev1 sb1 where l: "blockmap_release_loop dev sb inode None [?n..<?N] = (OWFS_OK, dev1, sb1)"
    "owfs_alloc_inv dev1 sb1" "sb1 = sb\<lparr>sb_free_blocks := sb_free_blocks sb1\<rparr>"
    "owfs_allocated dev1 sb1 = owfs_allocated dev sb - set (drop ?n (owfs_blocks dev inode))" "owfs_frame sb {} dev dev1"
    using blockmap_release_loop_ok [of dev sb "[?n..<?N]" inode None, OF inv] unfolding at by blast
  define ds where "ds = fold (\<lambda>idx ds. ds[idx := 0]) [?n..<min ?N 10] (ino_direct_blocks inode)"
  have ds: "length ds = 10" "\<And>i. i < ?n \<Longrightarrow> i < 10 \<Longrightarrow> ds ! i = ino_direct_blocks inode ! i"
    using d(4) by (simp_all add: ds_def fold_clear)
  have nle: "\<not> ino_block_count inode \<le> from_idx" using n by simp
  have fields: "\<not> 10 < ino_block_count inode \<Longrightarrow> ino_indirect_block inode = 0"
    using map by (simp add: owfs_map_ok_def)
  show ?thesis
  proof (cases "10 < ino_block_count inode \<and> \<not> 10 < from_idx")
    case True
    then have N: "10 < ?N" by (simp add: word_less_nat_alt)
    note o = owfs_indirect_owned [OF inv map N]
    have r: "ino_indirect_block inode \<in> owfs_region sb1" using o(2) by (subst l(3)) simp
    obtain e dev2 sb2 where f: "owfs_bitmap_free dev1 sb1 (ino_indirect_block inode) = (e, dev2, sb2)"
      by (cases "owfs_bitmap_free dev1 sb1 (ino_indirect_block inode)")
    note g = owfs_bitmap_free_ok [OF l(2) r f]
    have fr1: "owfs_frame sb1 = owfs_frame sb" by (subst l(3)) simp
    have "owfs_frame sb1 {} dev1 dev2" using g(5,6) by (simp add: owfs_frame_def)
    then have fr: "owfs_frame sb {} dev dev2" using owfs_frame_trans [OF l(5), of "{}" dev2] by (simp add: fr1)
    have "owfs_released dev sb inode ?n dev2 sb2 (inode\<lparr>ino_direct_blocks := ds,
      ino_indirect_block := if 10 < from_idx then ino_indirect_block inode else 0, ino_block_count := from_idx\<rparr>)"
      by (rule owfs_releasedI [OF inv map fr g(2) n _ _ ds])
        (subst g(3), subst l(3), simp, use g(4) l(4) True in auto)
    then show ?thesis
      using True vw nle l(1) f g(1) o(3)
      by (auto simp: owfs_blockmap_release_def ds_def [symmetric] not_le)
  next
    case False
    have "owfs_released dev sb inode ?n dev1 sb1 (inode\<lparr>ino_direct_blocks := ds,
      ino_indirect_block := if 10 < from_idx then ino_indirect_block inode else 0, ino_block_count := from_idx\<rparr>)"
      by (rule owfs_releasedI [OF inv map l(5,2) n l(3) _ ds]) (use l(4) False in auto)
    moreover have "(if 10 < from_idx then ino_indirect_block inode else 0) = ino_indirect_block inode"
      using False fields by auto
    moreover have "inode\<lparr>ino_direct_blocks := ds, ino_indirect_block := ino_indirect_block inode,
        ino_block_count := from_idx\<rparr> = inode\<lparr>ino_direct_blocks := ds, ino_block_count := from_idx\<rparr>"
      by (cases inode) simp
    ultimately show ?thesis
      using False fields vw nle l(1)
      by (auto simp: owfs_blockmap_release_def ds_def [symmetric] not_le)
  qed
qed

end
