(* ===== verification/OWFS_Inode.thy ===== *)
theory OWFS_Inode
  imports OWFS_Blockmap OW_String
begin

text \<open>
  \<^verbatim>\<open>owfs/src/owfs_inode.c\<close>: the inode table. Inodes are records of 256 bytes, sixteen to a block, each
  carrying its own CRC-32C. A structure the C code fills in place is passed in and returned; the
  content of an uninitialised local is never read and is zero in the model. The lemmas show that
  writing and reading act on one slot of the table, that allocation takes the lowest free slot,
  and that freeing releases the blocks of the file.
\<close>

unbundle bit_operations_syntax

definition owfs_inode_is_hidden :: "owfs_inode \<Rightarrow> bool" where
  "owfs_inode_is_hidden inode \<longleftrightarrow> ino_security_flags inode AND OWFS_SEC_HIDDEN \<noteq> 0"

definition owfs_inode_access_check :: "ow_identity \<Rightarrow> owfs_inode \<Rightarrow> u8 \<Rightarrow> owfs_status" where
  "owfs_inode_access_check g inode want =
     (if \<not> ow_sec_access g (ino_permissions inode) (ino_owner_uid inode) (ino_owner_gid inode) want
      then OWFS_ERR_ACCESS_DENIED else OWFS_OK)"

definition owfs_inode_compute_checksum :: "owfs_inode \<Rightarrow> u32" where
  "owfs_inode_compute_checksum inode = ow_crc32c_struct (owfs_inode_bytes inode) 256 252"

definition owfs_inode_verify_checksum :: "owfs_inode \<Rightarrow> bool" where
  "owfs_inode_verify_checksum inode \<longleftrightarrow> ino_checksum inode = owfs_inode_compute_checksum inode"

definition inode_block_offset :: "owfs_superblock \<Rightarrow> u32 \<Rightarrow> u32" where
  "inode_block_offset sb inode_num = sb_inode_table_start sb + drop_bit 4 inode_num"

definition inode_entry_index :: "u32 \<Rightarrow> u32" where
  "inode_entry_index inode_num = inode_num AND 0x0F"

definition owfs_inode_read ::
  "'c htl_device \<Rightarrow> owfs_superblock \<Rightarrow> u32 \<Rightarrow> owfs_inode \<Rightarrow> owfs_status \<times> 'c htl_device \<times> owfs_inode" where
  "owfs_inode_read dev sb inode_num inode =
     (if inode_num \<ge> sb_total_inodes sb then (OWFS_ERR_NOT_FOUND, dev, inode)
      else case htl_read_block dev (inode_block_offset sb inode_num) of (hres, block_buf, dev) \<Rightarrow>
        if hres \<noteq> HTL_OK then (OWFS_ERR_IO, dev, inode)
        else
          let idx = inode_entry_index inode_num;
              inode = owfs_inode_of_bytes (window (unat idx * 256) 256 block_buf)
          in
          if ino_entry_type inode = 0 then (OWFS_OK, dev, inode)
          else if \<not> owfs_inode_verify_checksum inode then (OWFS_ERR_CHECKSUM_MISMATCH, dev, inode)
          else (OWFS_OK, dev, inode))"

definition owfs_inode_write ::
  "'c htl_device \<Rightarrow> owfs_superblock \<Rightarrow> u32 \<Rightarrow> owfs_inode \<Rightarrow> owfs_status \<times> 'c htl_device \<times> owfs_inode" where
  "owfs_inode_write dev sb inode_num inode =
     (if inode_num \<ge> sb_total_inodes sb then (OWFS_ERR_NOT_FOUND, dev, inode)
      else if owfs_volume_writable sb \<noteq> OWFS_OK then (owfs_volume_writable sb, dev, inode)
      else
        let block_num = inode_block_offset sb inode_num in
        case htl_read_block dev block_num of (hres, block_buf, dev) \<Rightarrow>
        if hres \<noteq> HTL_OK then (OWFS_ERR_IO, dev, inode)
        else
          let inode = inode\<lparr>ino_checksum := owfs_inode_compute_checksum inode\<rparr>;
              idx = inode_entry_index inode_num;
              block_buf = ow_memcpy block_buf (unat idx * 256) (owfs_inode_bytes inode) 0 256
          in case htl_write_block dev block_num block_buf of (hres, dev) \<Rightarrow>
            if hres \<noteq> HTL_OK then (owfs_write_error hres, dev, inode)
            else (OWFS_OK, dev, inode))"

text \<open>An inode whose bytes are all zero, as \<^verbatim>\<open>ow_memset\<close> leaves it.\<close>

definition owfs_inode_zero :: owfs_inode where
  "owfs_inode_zero =
     \<lparr>ino_inode_number = 0, ino_entry_type = 0, ino_name_length = 0, ino_permissions = 0, ino_flags = 0,
      ino_size_bytes = 0, ino_block_count = 0, ino_created_timestamp = 0, ino_modified_timestamp = 0,
      ino_parent_inode = 0, ino_direct_blocks = replicate 10 0, ino_indirect_block = 0,
      ino_name = replicate 128 0, ino_owner_uid = 0, ino_owner_gid = 0, ino_security_flags = 0,
      ino_reserved = replicate 45 0, ino_checksum = 0\<rparr>"

text \<open>The record \<^verbatim>\<open>owfs_inode_alloc\<close> builds for slot \<open>i\<close>.\<close>

definition owfs_inode_fresh ::
  "ow_identity \<Rightarrow> owfs_superblock \<Rightarrow> u8 \<Rightarrow> bytes option \<Rightarrow> nat \<Rightarrow> u32 \<Rightarrow> u32 \<Rightarrow> owfs_inode" where
  "owfs_inode_fresh g sb entry_type name name_len parent i =
     (let id = ow_sec_current g;
          temp = owfs_inode_zero
            \<lparr>ino_inode_number := i, ino_entry_type := entry_type,
             ino_permissions := (if entry_type = OWFS_ENTRY_CATALOG then OWFS_MODE_DEFAULT_DIR
                                 else OWFS_MODE_DEFAULT_FILE),
             ino_owner_uid := ucast (uid id), ino_owner_gid := ucast (gid id),
             ino_security_flags := (if sb_security_flags sb AND OWFS_SEC_ENCRYPTED \<noteq> 0
                                    then OWFS_SEC_ENCRYPTED else 0),
             ino_parent_inode := parent, ino_name_length := of_nat name_len\<rparr>;
          temp = (case name of
              Some nm \<Rightarrow> if 0 < name_len then temp\<lparr>ino_name := ow_memcpy (ino_name temp) 0 nm 0 name_len\<rparr> else temp
            | None \<Rightarrow> temp)
      in temp\<lparr>ino_checksum := owfs_inode_compute_checksum temp\<rparr>)"

fun owfs_inode_alloc_loop ::
  "ow_identity \<Rightarrow> 'c htl_device \<Rightarrow> owfs_superblock \<Rightarrow> u8 \<Rightarrow> bytes option \<Rightarrow> nat \<Rightarrow> u32 \<Rightarrow> owfs_inode \<Rightarrow> nat list \<Rightarrow>
   (owfs_status + u32) \<times> 'c htl_device \<times> owfs_superblock" where
  "owfs_inode_alloc_loop g dev sb entry_type name name_len parent temp [] = (Inl OWFS_ERR_NO_FREE_INODES, dev, sb)"
| "owfs_inode_alloc_loop g dev sb entry_type name name_len parent temp (i # is) =
     (case owfs_inode_read dev sb (of_nat i) temp of (res, dev, temp) \<Rightarrow>
      if res \<noteq> OWFS_OK \<and> res \<noteq> OWFS_ERR_CHECKSUM_MISMATCH then (Inl res, dev, sb)
      else if ino_entry_type temp = 0 \<or> ino_entry_type temp AND OWFS_ENTRY_DELETED \<noteq> 0 then
        case owfs_inode_write dev sb (of_nat i)
            (owfs_inode_fresh g sb entry_type name name_len parent (of_nat i)) of (res, dev, _) \<Rightarrow>
        if res \<noteq> OWFS_OK then (Inl res, dev, sb)
        else (Inr (of_nat i), dev, sb\<lparr>sb_free_inodes := sb_free_inodes sb - 1\<rparr>)
      else owfs_inode_alloc_loop g dev sb entry_type name name_len parent temp is)"

definition owfs_inode_alloc ::
  "ow_identity \<Rightarrow> 'c htl_device \<Rightarrow> owfs_superblock \<Rightarrow> u8 \<Rightarrow> bytes option \<Rightarrow> nat \<Rightarrow> u32 \<Rightarrow>
   (owfs_status + u32) \<times> 'c htl_device \<times> owfs_superblock" where
  "owfs_inode_alloc g dev sb entry_type name name_len parent =
     (if entry_type \<noteq> OWFS_ENTRY_FILE \<and> entry_type \<noteq> OWFS_ENTRY_CATALOG then (Inl OWFS_ERR_INVALID_PARAM, dev, sb)
      else if name_len \<ge> 128 then (Inl OWFS_ERR_NAME_TOO_LONG, dev, sb)
      else if name \<noteq> None \<and> name_len > 0 \<and> \<not> ow_sutf8_validate name name_len then
        (Inl OWFS_ERR_INVALID_PARAM, dev, sb)
      else if owfs_volume_writable sb \<noteq> OWFS_OK then (Inl (owfs_volume_writable sb), dev, sb)
      else if sb_free_inodes sb = 0 then (Inl OWFS_ERR_NO_FREE_INODES, dev, sb)
      else owfs_inode_alloc_loop g dev sb entry_type name name_len parent owfs_inode_zero
        [0..<unat (sb_total_inodes sb)])"

definition owfs_inode_free ::
  "ow_identity \<Rightarrow> 'c htl_device \<Rightarrow> owfs_superblock \<Rightarrow> u32 \<Rightarrow> owfs_status \<times> 'c htl_device \<times> owfs_superblock" where
  "owfs_inode_free g dev sb inode_num =
     (if owfs_volume_writable sb \<noteq> OWFS_OK then (owfs_volume_writable sb, dev, sb)
      else case owfs_inode_read dev sb inode_num owfs_inode_zero of (res, dev, temp) \<Rightarrow>
      if res \<noteq> OWFS_OK then (res, dev, sb)
      else if ino_entry_type temp = 0 then (OWFS_ERR_NOT_FOUND, dev, sb)
      else if ino_entry_type temp AND OWFS_ENTRY_DELETED \<noteq> 0 then (OWFS_OK, dev, sb)
      else if ino_security_flags temp AND OWFS_SEC_READONLY \<noteq> 0 then (OWFS_ERR_WRITE_PROTECTED, dev, sb)
      else if owfs_inode_access_check g temp OW_ACCESS_WRITE \<noteq> OWFS_OK then
        (owfs_inode_access_check g temp OW_ACCESS_WRITE, dev, sb)
      else case owfs_blockmap_release dev sb temp 0 of (res, dev, sb, temp) \<Rightarrow>
      if res \<noteq> OWFS_OK then (res, dev, sb)
      else
        let temp = temp\<lparr>ino_entry_type := ino_entry_type temp OR OWFS_ENTRY_DELETED,
                        ino_size_bytes := 0, ino_block_count := 0\<rparr>
        in case owfs_inode_write dev sb inode_num temp of (res, dev, _) \<Rightarrow>
          if res = OWFS_OK then (res, dev, sb\<lparr>sb_free_inodes := sb_free_inodes sb + 1\<rparr>) else (res, dev, sb))"

section \<open>The inode record\<close>

lemma length_owfs_inode_bytes [simp]: "owfs_inode_wf r \<Longrightarrow> length (owfs_inode_bytes r) = 256"
  by (simp add: owfs_inode_bytes_def owfs_inode_wf_def)

lemma owfs_inode_dec_enc: "owfs_inode_wf r \<Longrightarrow> owfs_inode_of_bytes (owfs_inode_bytes r) = r"
  by (simp add: owfs_inode_of_bytes_def owfs_inode_bytes_def owfs_inode_wf_def window_simps nth_append)

lemma owfs_inode_enc_dec:
  assumes "length bs = 256"
  shows "owfs_inode_bytes (owfs_inode_of_bytes bs) = bs"
  using assms window_single [of 4 bs] window_single [of 5 bs] window_single [of 206 bs]
  by (simp add: owfs_inode_of_bytes_def owfs_inode_bytes_def window_join window_join_more window_all
      flip: window_single)

lemma owfs_inode_wf_of_bytes [simp]: "length bs = 256 \<Longrightarrow> owfs_inode_wf (owfs_inode_of_bytes bs)"
  by (simp add: owfs_inode_of_bytes_def owfs_inode_wf_def)

interpretation inr: slot_record owfs_inode_bytes owfs_inode_of_bytes owfs_inode_wf
    256 252 ino_checksum "\<lambda>c. ino_checksum_update (\<lambda>_. c)"
proof
  show "owfs_inode_bytes (r\<lparr>ino_checksum := c\<rparr>) = overwrite 252 (le_store 4 c) (owfs_inode_bytes r)"
    if "owfs_inode_wf r" for r c
    using that by (simp add: owfs_inode_bytes_def owfs_inode_wf_def overwrite_def)
qed (simp_all add: owfs_inode_dec_enc owfs_inode_enc_dec,
    simp_all add: owfs_inode_wf_def owfs_inode_bytes_def window_simps)

abbreviation owfs_inode_sealed :: "owfs_inode \<Rightarrow> owfs_inode" where
  "owfs_inode_sealed inode \<equiv> inode\<lparr>ino_checksum := owfs_inode_compute_checksum inode\<rparr>"

lemma owfs_inode_wf_checksum [simp]: "owfs_inode_wf (inode\<lparr>ino_checksum := c\<rparr>) = owfs_inode_wf inode"
  by (simp add: owfs_inode_wf_def)

lemma owfs_inode_compute_checksum_set [simp]:
  "owfs_inode_wf inode \<Longrightarrow>
   owfs_inode_compute_checksum (inode\<lparr>ino_checksum := c\<rparr>) = owfs_inode_compute_checksum inode"
  using inr.crc_of_set [of inode c] by (simp add: inr.crc_of_def owfs_inode_compute_checksum_def)

lemma owfs_inode_sealed_verifies [simp]:
  "owfs_inode_wf inode \<Longrightarrow> owfs_inode_verify_checksum (owfs_inode_sealed inode)"
  by (simp add: owfs_inode_verify_checksum_def)

section \<open>Slots of the inode table\<close>

definition owfs_inode_at :: "'c htl_device \<Rightarrow> owfs_superblock \<Rightarrow> nat \<Rightarrow> owfs_inode" where
  "owfs_inode_at dev sb i =
     owfs_inode_of_bytes (window (i mod 16 * 256) 256 (blk dev (sb_inode_table_start sb + of_nat (i div 16))))"

definition owfs_inode_put :: "'c htl_device \<Rightarrow> owfs_superblock \<Rightarrow> nat \<Rightarrow> owfs_inode \<Rightarrow> 'c htl_device" where
  "owfs_inode_put dev sb i inode =
     (let b = sb_inode_table_start sb + of_nat (i div 16)
      in blk_write dev b (overwrite (i mod 16 * 256) (owfs_inode_bytes inode) (blk dev b)))"

definition owfs_table :: "owfs_superblock \<Rightarrow> u32 set" where
  "owfs_table sb = {b. sb_inode_table_start sb \<le> b \<and> b < sb_data_region_start sb}"

lemma inode_position:
  "inode_block_offset sb n = sb_inode_table_start sb + of_nat (unat n div 16)"
  "unat (inode_entry_index n) = unat n mod 16"
proof -
  have "unat (drop_bit 4 n) = unat n div 16"
    by (simp only: unsigned_drop_bit_eq) (simp add: drop_bit_eq_div take_bit_nat_eq_self unsigned_less [where 'b = 32, simplified])
  then have "drop_bit 4 n = of_nat (unat n div 16)" by (metis of_nat_unat ucast_id)
  then show "inode_block_offset sb n = sb_inode_table_start sb + of_nat (unat n div 16)"
    by (simp add: inode_block_offset_def)
  have "n AND 0x0F = take_bit 4 n" by (simp add: take_bit_eq_mask mask_eq_exp_minus_1)
  then show "unat (inode_entry_index n) = unat n mod 16"
    by (simp only: inode_entry_index_def unsigned_take_bit_eq) (simp add: take_bit_eq_mod)
qed

lemma owfs_slot_block:
  assumes "owfs_geometry dev sb" and "i < unat (sb_total_inodes sb)"
  shows "unat (sb_inode_table_start sb + of_nat (i div 16)) = unat (sb_inode_table_start sb) + i div 16"
    and "sb_inode_table_start sb + of_nat (i div 16) < total_blocks dev"
    and "sb_inode_table_start sb + of_nat (i div 16) \<in> owfs_table sb"
proof -
  have "i div 16 < unat (sb_inode_table_blocks sb)"
    using assms by (auto simp: owfs_geometry_def less_mult_imp_div_less)
  then have lt: "unat (sb_inode_table_start sb) + i div 16 < unat (sb_data_region_start sb)"
    "unat (sb_inode_table_start sb) + i div 16 < unat (total_blocks dev)"
    using assms(1) by (auto simp: owfs_geometry_def)
  moreover from this have "unat (sb_inode_table_start sb) + i div 16 < 2 ^ 32"
    using unsigned_less [of "total_blocks dev", where 'a = nat] by simp
  ultimately show "unat (sb_inode_table_start sb + of_nat (i div 16)) = unat (sb_inode_table_start sb) + i div 16"
    "sb_inode_table_start sb + of_nat (i div 16) < total_blocks dev"
    "sb_inode_table_start sb + of_nat (i div 16) \<in> owfs_table sb"
    by (simp_all add: owfs_table_def word_less_nat_alt word_le_nat_alt unat_word_ariths unat_of_nat_small)
qed

lemma owfs_inode_at_wf [simp]:
  assumes "htl_reliable dev" and "owfs_geometry dev sb" and "i < unat (sb_total_inodes sb)"
  shows "owfs_inode_wf (owfs_inode_at dev sb i)"
proof -
  have "i mod 16 * 256 + 256 \<le> 4096" using mod_less_divisor [of 16 i] by linarith
  then show ?thesis
    using length_blk [OF assms(1) owfs_slot_block(2) [OF assms(2,3)]] by (simp add: owfs_inode_at_def)
qed

lemma owfs_inode_put_props:
  assumes dev: "htl_reliable dev" and geo: "owfs_geometry dev sb" and i: "i < unat (sb_total_inodes sb)"
    and wf: "owfs_inode_wf inode"
  shows "htl_reliable (owfs_inode_put dev sb i inode)"
    and "total_blocks (owfs_inode_put dev sb i inode) = total_blocks dev"
    and "owfs_frame sb (owfs_table sb) dev (owfs_inode_put dev sb i inode)"
    and "b < total_blocks dev \<Longrightarrow> b < sb_inode_table_start sb \<Longrightarrow> blk (owfs_inode_put dev sb i inode) b = blk dev b"
    and "j < unat (sb_total_inodes sb) \<Longrightarrow>
      owfs_inode_at (owfs_inode_put dev sb i inode) sb j = (if j = i then inode else owfs_inode_at dev sb j)"
    and "length (overwrite (i mod 16 * 256) (owfs_inode_bytes inode)
      (blk dev (sb_inode_table_start sb + of_nat (i div 16)))) = 4096"
proof -
  note s = owfs_slot_block [OF geo i]
  let ?n = "unat (sb_inode_table_blocks sb)"
  have tab: "unat (sb_inode_table_start sb) + ?n \<le> unat (total_blocks dev)" and in16: "k < unat (sb_total_inodes sb) \<Longrightarrow> k < 16 * ?n" for k
    using geo by (auto simp: owfs_geometry_def)
  note t = inr.table_put_props [OF dev tab in16 [OF i] wf]
  have get: "owfs_inode_at dx sb k = inr.table_get dx (sb_inode_table_start sb) k" for dx :: "'a htl_device" and k
    by (simp add: owfs_inode_at_def inr.table_get_def inr.slot_get_def)
  have put: "owfs_inode_put dev sb i inode = inr.table_put dev (sb_inode_table_start sb) i inode"
    by (simp add: owfs_inode_put_def inr.table_put_def inr.slot_put_def)
  show len': "length (overwrite (i mod 16 * 256) (owfs_inode_bytes inode) (blk dev (sb_inode_table_start sb + of_nat (i div 16)))) = 4096"
    using t(1) by (simp add: inr.slot_put_def)
  show "htl_reliable (owfs_inode_put dev sb i inode)"
    "total_blocks (owfs_inode_put dev sb i inode) = total_blocks dev"
    using t(2) same_deviceD [OF t(3)] by (simp_all add: put)
  show "owfs_frame sb (owfs_table sb) dev (owfs_inode_put dev sb i inode)"
    unfolding owfs_inode_put_def Let_def
    by (rule owfs_frame_mono [OF owfs_frame_write [OF dev s(2) len']]) (use s(3) in simp)
  show "blk (owfs_inode_put dev sb i inode) b = blk dev b" if "b < total_blocks dev" "b < sb_inode_table_start sb"
    using t(4) that by (simp add: put word_less_nat_alt)
  show "owfs_inode_at (owfs_inode_put dev sb i inode) sb j = (if j = i then inode else owfs_inode_at dev sb j)"
    if "j < unat (sb_total_inodes sb)" using t(5) [OF in16 [OF that]] by (simp add: get put)
qed

lemma owfs_inode_read_reliable:
  assumes "htl_reliable dev" and "owfs_geometry dev sb" and "num < sb_total_inodes sb"
  shows "owfs_inode_read dev sb num inode0 =
    (let inode = owfs_inode_at dev sb (unat num) in
     (if ino_entry_type inode = 0 \<or> owfs_inode_verify_checksum inode then OWFS_OK else OWFS_ERR_CHECKSUM_MISMATCH,
      dev, inode))"
proof -
  from assms(3) have n: "unat num < unat (sb_total_inodes sb)" by (simp add: word_less_nat_alt)
  show ?thesis
    using assms owfs_slot_block(2) [OF assms(2) n]
    by (simp add: owfs_inode_read_def inode_position htl_read_reliable owfs_inode_at_def Let_def not_le)
qed

lemma owfs_inode_write_reliable:
  assumes "htl_reliable dev" and "owfs_geometry dev sb" and "num < sb_total_inodes sb"
    and "owfs_volume_writable sb = OWFS_OK" and wf: "owfs_inode_wf inode"
  shows "owfs_inode_write dev sb num inode =
    (OWFS_OK, owfs_inode_put dev sb (unat num) (owfs_inode_sealed inode), owfs_inode_sealed inode)"
proof -
  from assms(3) have n: "unat num < unat (sb_total_inodes sb)" by (simp add: word_less_nat_alt)
  note s = owfs_slot_block(2) [OF assms(2) n]
  have wf': "owfs_inode_wf (owfs_inode_sealed inode)" using wf by simp
  note len = owfs_inode_put_props(6) [OF assms(1,2) n wf']
  have "unat num mod 16 * 256 + 256 \<le> 4096" using mod_less_divisor [of 16 "unat num"] by linarith
  then have "ow_memcpy (blk dev (sb_inode_table_start sb + of_nat (unat num div 16))) (unat num mod 16 * 256)
      (owfs_inode_bytes (owfs_inode_sealed inode)) 0 256 =
      overwrite (unat num mod 16 * 256) (owfs_inode_bytes (owfs_inode_sealed inode))
        (blk dev (sb_inode_table_start sb + of_nat (unat num div 16)))"
    using length_blk [OF assms(1) s] wf by (simp add: ow_memcpy_eq window_all)
  then show ?thesis
    using assms s len by (simp add: owfs_inode_write_def inode_position owfs_inode_put_def Let_def dev_simps not_le)
qed

lemma owfs_alloc_inv_put:
  assumes inv: "owfs_alloc_inv dev sb" and i: "i < unat (sb_total_inodes sb)" and wf: "owfs_inode_wf inode"
  shows "owfs_alloc_inv (owfs_inode_put dev sb i inode) sb"
    and "owfs_allocated (owfs_inode_put dev sb i inode) sb = owfs_allocated dev sb"
proof -
  from inv have g: "htl_reliable dev" "owfs_geometry dev sb" by (simp_all add: owfs_alloc_inv_def)
  note s = owfs_slot_block [OF g(2) i]
  note p = owfs_inode_put_props(6) [OF g i wf]
  from owfs_alloc_inv_write [OF inv s(2) p] s(3)
  show "owfs_alloc_inv (owfs_inode_put dev sb i inode) sb"
    "owfs_allocated (owfs_inode_put dev sb i inode) sb = owfs_allocated dev sb"
    by (simp_all add: owfs_inode_put_def Let_def owfs_table_def)
qed

lemma owfs_table_region: "owfs_table sb \<inter> owfs_region sb = {}"
  by (auto simp: owfs_table_def owfs_region_def)

text \<open>A change that leaves the inode table alone leaves the inodes alone.\<close>

lemma owfs_inode_at_frame:
  assumes "owfs_geometry dev sb" and "owfs_frame sb S dev dev'" and "S \<inter> owfs_table sb = {}"
    and "i < unat (sb_total_inodes sb)"
  shows "owfs_inode_at dev' sb i = owfs_inode_at dev sb i"
  using assms(2,3) owfs_slot_block(2,3) [OF assms(1,4)]
  by (auto simp: owfs_inode_at_def owfs_frame_def owfs_table_def)

text \<open>The fields of the superblock the table and the allocator do not read.\<close>

lemma owfs_free_inodes_cong [simp]:
  "owfs_alloc_inv dev (sb\<lparr>sb_free_inodes := n\<rparr>) = owfs_alloc_inv dev sb"
  "owfs_allocated dev (sb\<lparr>sb_free_inodes := n\<rparr>) = owfs_allocated dev sb"
  "owfs_region (sb\<lparr>sb_free_inodes := n\<rparr>) = owfs_region sb"
  "owfs_map_ok dev (sb\<lparr>sb_free_inodes := n\<rparr>) inode = owfs_map_ok dev sb inode"
  "owfs_geometry dev (sb\<lparr>sb_free_inodes := n\<rparr>) = owfs_geometry dev sb"
  "owfs_inode_at dev (sb\<lparr>sb_free_inodes := n\<rparr>) = owfs_inode_at dev sb"
  "owfs_volume_writable (sb\<lparr>sb_free_inodes := n\<rparr>) = owfs_volume_writable sb"
  by (simp_all add: owfs_alloc_inv_def owfs_allocated_def owfs_region_def owfs_map_ok_def owfs_geometry_def
      owfs_inode_at_def owfs_volume_writable_def owfs_counted_def owfs_free_set_def owfs_used_def
      owfs_data_blocks_def fun_eq_iff)

lemma owfs_free_blocks_cong [simp]:
  "owfs_inode_at dev (sb\<lparr>sb_free_blocks := n\<rparr>) = owfs_inode_at dev sb"
  "owfs_volume_writable (sb\<lparr>sb_free_blocks := n\<rparr>) = owfs_volume_writable sb"
  "owfs_table (sb\<lparr>sb_free_blocks := n\<rparr>) = owfs_table sb"
  "owfs_inode_put dev (sb\<lparr>sb_free_blocks := n\<rparr>) = owfs_inode_put dev sb"
  by (simp_all add: owfs_inode_at_def owfs_volume_writable_def owfs_table_def owfs_inode_put_def fun_eq_iff)

section \<open>A consistent volume\<close>

definition owfs_slot_free :: "owfs_inode \<Rightarrow> bool" where
  "owfs_slot_free inode \<longleftrightarrow> ino_entry_type inode = 0 \<or> ino_entry_type inode AND OWFS_ENTRY_DELETED \<noteq> 0"

definition owfs_live :: "'c htl_device \<Rightarrow> owfs_superblock \<Rightarrow> nat set" where
  "owfs_live dev sb = {i. i < unat (sb_total_inodes sb) \<and> \<not> owfs_slot_free (owfs_inode_at dev sb i)}"

text \<open>The counter of free inodes is one too high: formatting sets it to the size of the table and
  then creates the root inode without deducting it, and every later operation keeps the surplus.\<close>

definition owfs_inodes_counted :: "'c htl_device \<Rightarrow> owfs_superblock \<Rightarrow> bool" where
  "owfs_inodes_counted dev sb \<longleftrightarrow>
     unat (sb_free_inodes sb) + card (owfs_live dev sb) = Suc (unat (sb_total_inodes sb)) \<and>
     unat (sb_total_inodes sb) < 2 ^ 32 - 1"

text \<open>The blocks owned by the live inodes other than \<open>i\<close>.\<close>

definition owfs_others :: "'c htl_device \<Rightarrow> owfs_superblock \<Rightarrow> nat \<Rightarrow> u32 set" where
  "owfs_others dev sb i = (\<Union>j \<in> owfs_live dev sb - {i}. owfs_owned dev (owfs_inode_at dev sb j))"

text \<open>The invariant of a mounted volume: the counters are right, every live inode is sealed and has a
  well-formed block map, and no block belongs to two inodes.\<close>

definition owfs_volume_ok :: "'c htl_device \<Rightarrow> owfs_superblock \<Rightarrow> bool" where
  "owfs_volume_ok dev sb \<longleftrightarrow>
     owfs_alloc_inv dev sb \<and> owfs_inodes_counted dev sb \<and>
     (\<forall>i < unat (sb_total_inodes sb).
        ino_entry_type (owfs_inode_at dev sb i) = 0 \<or> owfs_inode_verify_checksum (owfs_inode_at dev sb i)) \<and>
     (\<forall>i \<in> owfs_live dev sb. owfs_map_ok dev sb (owfs_inode_at dev sb i)) \<and>
     (\<forall>i \<in> owfs_live dev sb. \<forall>j \<in> owfs_live dev sb. i \<noteq> j \<longrightarrow>
        owfs_owned dev (owfs_inode_at dev sb i) \<inter> owfs_owned dev (owfs_inode_at dev sb j) = {})"

lemma owfs_volume_okD:
  assumes "owfs_volume_ok dev sb"
  shows "owfs_alloc_inv dev sb" and "owfs_inodes_counted dev sb" and "htl_reliable dev" and "owfs_geometry dev sb"
    and "i \<in> owfs_live dev sb \<Longrightarrow> owfs_inode_verify_checksum (owfs_inode_at dev sb i)"
    and "i \<in> owfs_live dev sb \<Longrightarrow> owfs_map_ok dev sb (owfs_inode_at dev sb i)"
    and "i \<in> owfs_live dev sb \<Longrightarrow> owfs_owned dev (owfs_inode_at dev sb i) \<inter> owfs_others dev sb i = {}"
    and "owfs_others dev sb i \<subseteq> owfs_allocated dev sb"
    and "i < unat (sb_total_inodes sb) \<Longrightarrow>
      ino_entry_type (owfs_inode_at dev sb i) = 0 \<or> owfs_inode_verify_checksum (owfs_inode_at dev sb i)"
proof -
  show "owfs_alloc_inv dev sb" "owfs_inodes_counted dev sb" "htl_reliable dev" "owfs_geometry dev sb"
    "i \<in> owfs_live dev sb \<Longrightarrow> owfs_inode_verify_checksum (owfs_inode_at dev sb i)"
    "i \<in> owfs_live dev sb \<Longrightarrow> owfs_map_ok dev sb (owfs_inode_at dev sb i)"
    "i < unat (sb_total_inodes sb) \<Longrightarrow>
      ino_entry_type (owfs_inode_at dev sb i) = 0 \<or> owfs_inode_verify_checksum (owfs_inode_at dev sb i)"
    using assms by (auto simp: owfs_volume_ok_def owfs_alloc_inv_def owfs_live_def owfs_slot_free_def)
  show "i \<in> owfs_live dev sb \<Longrightarrow> owfs_owned dev (owfs_inode_at dev sb i) \<inter> owfs_others dev sb i = {}"
    using assms unfolding owfs_volume_ok_def owfs_others_def by blast
  show "owfs_others dev sb i \<subseteq> owfs_allocated dev sb"
    using assms unfolding owfs_volume_ok_def owfs_others_def owfs_map_ok_def by blast
qed

lemma owfs_live_update:
  assumes "i < unat (sb_total_inodes sb)"
    and "\<And>j. j < unat (sb_total_inodes sb) \<Longrightarrow> j \<noteq> i \<Longrightarrow> owfs_inode_at dev' sb j = owfs_inode_at dev sb j"
  shows "owfs_live dev' sb =
    (if owfs_slot_free (owfs_inode_at dev' sb i) then owfs_live dev sb - {i} else insert i (owfs_live dev sb))"
proof -
  have "j \<in> owfs_live dev' sb \<longleftrightarrow> j \<in> owfs_live dev sb" if "j \<noteq> i" for j
    using assms(2) [of j] that by (auto simp: owfs_live_def)
  moreover have "i \<in> owfs_live dev' sb \<longleftrightarrow> \<not> owfs_slot_free (owfs_inode_at dev' sb i)"
    using assms(1) by (simp add: owfs_live_def)
  ultimately show ?thesis by (auto split: if_splits) metis+
qed

lemma owfs_map_ok_free_cong [simp]:
  "owfs_map_ok dev (sb\<lparr>sb_free_blocks := n\<rparr>) inode = owfs_map_ok dev sb inode"
  "owfs_live dev (sb\<lparr>sb_free_blocks := n\<rparr>) = owfs_live dev sb"
  "owfs_live dev (sb\<lparr>sb_free_inodes := n\<rparr>) = owfs_live dev sb"
  "owfs_others dev (sb\<lparr>sb_free_blocks := n\<rparr>) = owfs_others dev sb"
  "owfs_others dev (sb\<lparr>sb_free_inodes := n\<rparr>) = owfs_others dev sb"
  by (simp_all add: owfs_map_ok_def owfs_live_def owfs_others_def fun_eq_iff)

lemma owfs_map_ok_frame:
  assumes "owfs_alloc_inv dev sb" and "owfs_map_ok dev sb inode" and "owfs_frame sb S dev dev'"
    and "S \<inter> owfs_owned dev inode = {}" and "owfs_owned dev inode \<subseteq> owfs_allocated dev' sb"
  shows "owfs_map_ok dev' sb inode" and "owfs_owned dev' inode = owfs_owned dev inode"
proof -
  have "10 < unat (ino_block_count inode) \<Longrightarrow> ino_indirect_block inode \<notin> S"
    using assms(4) by (auto simp: owfs_owned_def word_less_nat_alt)
  note f = owfs_blocks_frame [OF assms(1-3) this]
  then show "owfs_owned dev' inode = owfs_owned dev inode" by simp
  then show "owfs_map_ok dev' sb inode" using assms(2,5) f(1) by (simp add: owfs_map_ok_def)
qed

text \<open>Replacing one inode: the other files keep their blocks, so only the new inode has to be
  checked.\<close>

lemma owfs_volume_ok_update:
  assumes ok: "owfs_volume_ok dev sb" and i: "i < unat (sb_total_inodes sb)"
    and sb': "sb' = sb\<lparr>sb_free_blocks := f, sb_free_inodes := n\<rparr>"
    and inv': "owfs_alloc_inv dev' sb'" and cnt: "owfs_inodes_counted dev' sb'"
    and at: "\<And>j. j < unat (sb_total_inodes sb) \<Longrightarrow> j \<noteq> i \<Longrightarrow> owfs_inode_at dev' sb j = owfs_inode_at dev sb j"
    and fr: "owfs_frame sb S dev dev'" "S \<inter> owfs_others dev sb i = {}"
    and al: "owfs_others dev sb i \<subseteq> owfs_allocated dev' sb"
    and new: "\<not> owfs_slot_free (owfs_inode_at dev' sb i) \<Longrightarrow>
      owfs_map_ok dev' sb (owfs_inode_at dev' sb i) \<and> owfs_owned dev' (owfs_inode_at dev' sb i) \<inter> owfs_others dev sb i = {}"
    and ver: "owfs_inode_verify_checksum (owfs_inode_at dev' sb i)"
  shows "owfs_volume_ok dev' sb'"
proof -
  note d = owfs_volume_okD [OF ok]
  have live: "j \<in> owfs_live dev' sb \<longleftrightarrow> j \<in> owfs_live dev sb" "owfs_inode_at dev' sb j = owfs_inode_at dev sb j"
    if "j \<noteq> i" "j \<in> owfs_live dev sb \<or> j \<in> owfs_live dev' sb" for j
    using at [of j] that by (auto simp: owfs_live_def)
  have o: "owfs_map_ok dev' sb (owfs_inode_at dev sb j)"
    "owfs_owned dev' (owfs_inode_at dev sb j) = owfs_owned dev (owfs_inode_at dev sb j)"
    if "j \<in> owfs_live dev sb" "j \<noteq> i" for j
  proof -
    have sub: "owfs_owned dev (owfs_inode_at dev sb j) \<subseteq> owfs_others dev sb i"
      using that by (auto simp: owfs_others_def)
    then show "owfs_map_ok dev' sb (owfs_inode_at dev sb j)"
      "owfs_owned dev' (owfs_inode_at dev sb j) = owfs_owned dev (owfs_inode_at dev sb j)"
      using owfs_map_ok_frame [OF d(1) d(6) [OF that(1)] fr(1)] fr(2) al by blast+
  qed
  let ?own = "\<lambda>j. owfs_owned dev' (owfs_inode_at dev' sb j)"
  have sealed: "ino_entry_type (owfs_inode_at dev' sb j) = 0 \<or> owfs_inode_verify_checksum (owfs_inode_at dev' sb j)"
    if "j < unat (sb_total_inodes sb)" for j using ver at [OF that] d(9) [OF that] by (cases "j = i") simp_all
  have each: "owfs_map_ok dev' sb (owfs_inode_at dev' sb j)"
    if "j \<in> owfs_live dev' sb" for j
  proof (cases "j = i")
    case True
    then show ?thesis using new that by (simp add: owfs_live_def)
  next
    case False
    then show ?thesis using live [OF False] o(1) that by simp
  qed
  have with_i: "?own i \<inter> ?own j = {}" if "i \<in> owfs_live dev' sb" "j \<in> owfs_live dev' sb" "j \<noteq> i" for j
  proof -
    have j: "j \<in> owfs_live dev sb" "owfs_inode_at dev' sb j = owfs_inode_at dev sb j" using live that by auto
    then have "?own j \<subseteq> owfs_others dev sb i" using o(2) that(3) by (auto simp: owfs_others_def)
    then show ?thesis using new that(1) unfolding owfs_live_def by blast
  qed
  have apart: "?own k \<inter> ?own j = {}" if "k \<in> owfs_live dev' sb" "j \<in> owfs_live dev' sb" "k \<noteq> j" for k j
  proof (cases "k = i \<or> j = i")
    case True
    then show ?thesis using with_i that by blast
  next
    case False
    then have "k \<in> owfs_live dev sb" "j \<in> owfs_live dev sb" "?own k = owfs_owned dev (owfs_inode_at dev sb k)"
      "?own j = owfs_owned dev (owfs_inode_at dev sb j)"
      using live o(2) that by auto
    then show ?thesis using ok that(3) by (simp add: owfs_volume_ok_def)
  qed
  show ?thesis
    unfolding owfs_volume_ok_def using inv' cnt sealed each apart by (simp add: sb')
qed

lemma owfs_block_at_cong [simp]:
  "owfs_block_at dev (inode\<lparr>ino_checksum := c\<rparr>) = owfs_block_at dev inode"
  "owfs_block_at dev (inode\<lparr>ino_size_bytes := s\<rparr>) = owfs_block_at dev inode"
  "owfs_block_at dev (inode\<lparr>ino_entry_type := t\<rparr>) = owfs_block_at dev inode"
  by (simp_all add: owfs_block_at_def fun_eq_iff)

lemma owfs_inode_wf_flags [simp]:
  "owfs_inode_wf (inode\<lparr>ino_entry_type := t\<rparr>) = owfs_inode_wf inode"
  "owfs_inode_wf (inode\<lparr>ino_size_bytes := n\<rparr>) = owfs_inode_wf inode"
  by (simp_all add: owfs_inode_wf_def)

lemma owfs_map_cong [simp]:
  "owfs_blocks dev (inode\<lparr>ino_checksum := c\<rparr>) = owfs_blocks dev inode"
  "owfs_blocks dev (inode\<lparr>ino_size_bytes := s\<rparr>) = owfs_blocks dev inode"
  "owfs_owned dev (inode\<lparr>ino_checksum := c\<rparr>) = owfs_owned dev inode"
  "owfs_owned dev (inode\<lparr>ino_size_bytes := s\<rparr>) = owfs_owned dev inode"
  "owfs_map_ok dev sb (inode\<lparr>ino_checksum := c\<rparr>) = owfs_map_ok dev sb inode"
  "owfs_map_ok dev sb (inode\<lparr>ino_size_bytes := s\<rparr>) = owfs_map_ok dev sb inode"
  by (simp_all add: owfs_blocks_def owfs_owned_def owfs_map_ok_def)

lemma owfs_inodes_counted_update:
  assumes c: "owfs_inodes_counted dev sb" and i: "i \<in> owfs_live dev sb"
    and live: "owfs_live dev' sb = (if free then owfs_live dev sb - {i} else owfs_live dev sb)"
    and n: "n = (if free then sb_free_inodes sb + 1 else sb_free_inodes sb)"
  shows "owfs_inodes_counted dev' (sb\<lparr>sb_free_blocks := f, sb_free_inodes := n\<rparr>)"
proof -
  have fin: "finite (owfs_live dev sb)" by (simp add: owfs_live_def)
  with i have pos: "0 < card (owfs_live dev sb)" by (auto simp: card_gt_0_iff)
  then have "unat (sb_free_inodes sb) < 2 ^ 32 - 1" using c by (simp add: owfs_inodes_counted_def)
  then have "unat (sb_free_inodes sb + 1) = Suc (unat (sb_free_inodes sb))" by (rule unat_plus1)
  then show ?thesis using c i live n fin pos by (simp add: owfs_inodes_counted_def)
qed

text \<open>Every operation on a file ends by writing back its inode: the volume stays consistent when the
  changes before that write touched only the file's own or free blocks.\<close>

lemma owfs_commit_inode:
  assumes ok: "owfs_volume_ok dev sb" and live: "i \<in> owfs_live dev sb"
    and inv: "owfs_alloc_inv dev1 sb1" and sb1: "sb1 = sb\<lparr>sb_free_blocks := sb_free_blocks sb1\<rparr>"
    and fr: "owfs_frame sb S dev dev1" "S \<inter> owfs_table sb = {}" "S \<inter> owfs_others dev sb i = {}"
    and al: "owfs_others dev sb i \<subseteq> owfs_allocated dev1 sb" and wf: "owfs_inode_wf inode"
    and new: "\<not> owfs_slot_free inode \<Longrightarrow>
      owfs_map_ok dev1 sb inode \<and> owfs_owned dev1 inode \<inter> owfs_others dev sb i = {}"
    and n: "n = (if owfs_slot_free inode then sb_free_inodes sb + 1 else sb_free_inodes sb)"
  defines "dev' \<equiv> owfs_inode_put dev1 sb1 i (owfs_inode_sealed inode)"
    and "sb' \<equiv> sb1\<lparr>sb_free_inodes := n\<rparr>"
  shows "owfs_volume_ok dev' sb'" and "owfs_inode_at dev' sb i = owfs_inode_sealed inode"
    and "\<And>j. j < unat (sb_total_inodes sb) \<Longrightarrow> j \<noteq> i \<Longrightarrow> owfs_inode_at dev' sb j = owfs_inode_at dev sb j"
    and "owfs_live dev' sb = (if owfs_slot_free inode then owfs_live dev sb - {i} else owfs_live dev sb)"
    and "owfs_allocated dev' sb = owfs_allocated dev1 sb" and "owfs_frame sb (owfs_table sb) dev1 dev'"
    and "owfs_alloc_inv dev' sb1"
proof -
  note d = owfs_volume_okD [OF ok]
  from live have i: "i < unat (sb_total_inodes sb)" by (simp add: owfs_live_def)
  have i1: "htl_reliable dev1" "owfs_geometry dev1 sb1" using inv by (simp_all add: owfs_alloc_inv_def)
  have cong: "sb_total_inodes sb1 = sb_total_inodes sb" "owfs_table sb1 = owfs_table sb" "owfs_frame sb1 = owfs_frame sb"
    "owfs_inode_at dx sb1 = owfs_inode_at dx sb" "owfs_allocated dx sb1 = owfs_allocated dx sb"
    "owfs_inode_put dx sb1 = owfs_inode_put dx sb" for dx :: "'a htl_device"
    by (subst sb1; simp)+
  have wf': "owfs_inode_wf (owfs_inode_sealed inode)" using wf by simp
  note p = owfs_inode_put_props [OF i1 _ wf', of i, folded dev'_def, unfolded cong, OF i]
  note q = owfs_alloc_inv_put [OF inv _ wf', of i, folded dev'_def, unfolded cong, OF i]
  show at_i: "owfs_inode_at dev' sb i = owfs_inode_sealed inode" using p(5) i by simp
  have at1: "owfs_inode_at dev1 sb j = owfs_inode_at dev sb j" if "j < unat (sb_total_inodes sb)" for j
    using owfs_inode_at_frame [OF d(4) fr(1,2) that] .
  show at_j: "owfs_inode_at dev' sb j = owfs_inode_at dev sb j"
    if "j < unat (sb_total_inodes sb)" "j \<noteq> i" for j using p(5) that at1 by simp
  have sf: "owfs_slot_free (owfs_inode_sealed inode) = owfs_slot_free inode" by (simp add: owfs_slot_free_def)
  show live': "owfs_live dev' sb = (if owfs_slot_free inode then owfs_live dev sb - {i} else owfs_live dev sb)"
    using owfs_live_update [OF i at_j] at_i sf live by auto
  show al': "owfs_allocated dev' sb = owfs_allocated dev1 sb" by (rule q(2))
  show fr1: "owfs_frame sb (owfs_table sb) dev1 dev'" by (rule p(3))
  show "owfs_alloc_inv dev' sb1" by (rule q(1))
  have s2: "sb' = sb\<lparr>sb_free_blocks := sb_free_blocks sb1, sb_free_inodes := n\<rparr>"
    unfolding sb'_def by (subst sb1) simp
  have cnt: "owfs_inodes_counted dev' sb'"
    unfolding s2 by (rule owfs_inodes_counted_update [OF d(2) live live']) (simp add: n)
  have "owfs_table sb \<inter> owfs_others dev sb i = {}"
    using d(8) owfs_table_region by (auto simp: owfs_allocated_def)
  then have fr': "owfs_frame sb (S \<union> owfs_table sb) dev dev'" "(S \<union> owfs_table sb) \<inter> owfs_others dev sb i = {}"
    using owfs_frame_trans [OF fr(1) fr1] fr(3) by auto
  show "owfs_volume_ok dev' sb'"
  proof (rule owfs_volume_ok_update [OF ok i s2 _ cnt at_j fr'])
    show "owfs_alloc_inv dev' sb'" using q(1) by (simp add: sb'_def)
    show "owfs_others dev sb i \<subseteq> owfs_allocated dev' sb" using al al' by simp
    show "owfs_inode_verify_checksum (owfs_inode_at dev' sb i)" unfolding at_i by (rule owfs_inode_sealed_verifies [OF wf])
    assume "\<not> owfs_slot_free (owfs_inode_at dev' sb i)"
    with new at_i sf have nw: "owfs_map_ok dev1 sb inode" "owfs_owned dev1 inode \<inter> owfs_others dev sb i = {}" by auto
    have inv1: "owfs_alloc_inv dev1 sb1" "owfs_map_ok dev1 sb1 inode" using inv nw(1) by (simp, subst sb1, simp)
    have "owfs_owned dev1 inode \<subseteq> owfs_allocated dev1 sb" using nw(1) by (simp add: owfs_map_ok_def)
    then have "owfs_table sb \<inter> owfs_owned dev1 inode = {}" "owfs_owned dev1 inode \<subseteq> owfs_allocated dev' sb"
      using owfs_table_region al' by (auto simp: owfs_allocated_def)
    with owfs_map_ok_frame [OF inv1, of "owfs_table sb" dev'] fr1
    have "owfs_map_ok dev' sb inode" "owfs_owned dev' inode = owfs_owned dev1 inode"
      by (simp_all add: cong) (subst (asm) sb1, simp)
    with nw(2) show "owfs_map_ok dev' sb (owfs_inode_at dev' sb i) \<and> owfs_owned dev' (owfs_inode_at dev' sb i) \<inter> owfs_others dev sb i = {}"
      unfolding at_i by simp
  qed
qed

section \<open>Allocation and release of inodes\<close>

lemma owfs_inode_fresh_wf:
  "name_arg_ok name name_len \<Longrightarrow> name_len < 128 \<Longrightarrow> owfs_inode_wf (owfs_inode_fresh g sb t name name_len p i)"
  by (auto simp: owfs_inode_fresh_def owfs_inode_wf_def owfs_inode_zero_def Let_def name_arg_ok_def ow_memcpy_eq
      split: option.splits)

lemma owfs_inode_sealed_idem [simp]:
  assumes "owfs_inode_wf (temp :: owfs_inode)"
  shows "owfs_inode_sealed (owfs_inode_sealed temp) = owfs_inode_sealed temp"
  using assms by simp

lemma owfs_inode_fresh_sealed:
  assumes "name_arg_ok name name_len" and "name_len < 128"
  shows "owfs_inode_sealed (owfs_inode_fresh g sb t name name_len p i) = owfs_inode_fresh g sb t name name_len p i"
proof -
  obtain temp where t: "owfs_inode_fresh g sb t name name_len p i = owfs_inode_sealed temp"
    by (simp add: owfs_inode_fresh_def Let_def)
  then have "owfs_inode_wf temp" using owfs_inode_fresh_wf [OF assms, of g sb t p i] by simp
  then show ?thesis unfolding t by simp
qed

lemma owfs_inode_fresh_simps:
  "ino_entry_type (owfs_inode_fresh g sb t name name_len p i) = t"
  "ino_block_count (owfs_inode_fresh g sb t name name_len p i) = 0"
  "ino_indirect_block (owfs_inode_fresh g sb t name name_len p i) = 0"
  "ino_size_bytes (owfs_inode_fresh g sb t name name_len p i) = 0"
  "ino_inode_number (owfs_inode_fresh g sb t name name_len p i) = i"
  "ino_parent_inode (owfs_inode_fresh g sb t name name_len p i) = p"
  "ino_owner_uid (owfs_inode_fresh g sb t name name_len p i) = ucast (uid g)"
  "ino_owner_gid (owfs_inode_fresh g sb t name name_len p i) = ucast (gid g)"
  "ino_name_length (owfs_inode_fresh g sb t name name_len p i) = of_nat name_len"
  by (simp_all add: owfs_inode_fresh_def owfs_inode_zero_def Let_def ow_sec_current_def split: option.split)

lemma owfs_empty_map: 
  assumes "ino_block_count inode = 0"
  shows "owfs_blocks dev inode = []" and "owfs_owned dev inode = {}"
    and "ino_indirect_block inode = 0 \<Longrightarrow> owfs_inode_wf inode \<Longrightarrow> owfs_map_ok dev sb inode"
  using assms by (simp_all add: owfs_blocks_def owfs_owned_def owfs_map_ok_def)

lemma owfs_inode_alloc_loop_find:
  assumes dev: "htl_reliable dev" and geo: "owfs_geometry dev sb" and vw: "owfs_volume_writable sb = OWFS_OK"
    and nm: "name_arg_ok name name_len" "name_len < 128" and n: "n \<le> unat (sb_total_inodes sb)"
  shows "owfs_inode_alloc_loop g dev sb t name name_len p temp [a..<n] =
    (case find (\<lambda>i. owfs_slot_free (owfs_inode_at dev sb i)) [a..<n] of
       None \<Rightarrow> (Inl OWFS_ERR_NO_FREE_INODES, dev, sb)
     | Some i \<Rightarrow> (Inr (of_nat i), owfs_inode_put dev sb i (owfs_inode_fresh g sb t name name_len p (of_nat i)),
                 sb\<lparr>sb_free_inodes := sb_free_inodes sb - 1\<rparr>))"
proof (induction "n - a" arbitrary: a temp)
  case (Suc d)
  then have a: "a < n" and l: "[a..<n] = a # [Suc a..<n]" by (simp_all add: upt_conv_Cons)
  have "a < 2 ^ 32" using a n unsigned_less [of "sb_total_inodes sb", where 'a = nat] by simp
  then have u: "unat (of_nat a :: u32) = a" by (intro unat_of_nat_small) simp
  then have lt: "of_nat a < sb_total_inodes sb" using a n by (simp add: word_less_nat_alt)
  note r = owfs_inode_read_reliable [OF dev geo lt, unfolded u]
  note w = owfs_inode_write_reliable [OF dev geo lt vw owfs_inode_fresh_wf [OF nm],
      unfolded u owfs_inode_fresh_sealed [OF nm]]
  show ?case
    using Suc(1) [of "Suc a"] Suc(2) unfolding l
    by (simp add: r w owfs_slot_free_def Let_def)
qed (simp add: )

lemma owfs_inode_alloc_find:
  assumes dev: "htl_reliable dev" and geo: "owfs_geometry dev sb" and vw: "owfs_volume_writable sb = OWFS_OK"
    and t: "t = OWFS_ENTRY_FILE \<or> t = OWFS_ENTRY_CATALOG"
    and nm: "name_arg_ok name name_len" "name_len < 128" "name = None \<or> name_len = 0 \<or> ow_sutf8_validate name name_len"
  shows "owfs_inode_alloc g dev sb t name name_len p =
    (if sb_free_inodes sb = 0 then (Inl OWFS_ERR_NO_FREE_INODES, dev, sb)
     else case find (\<lambda>i. owfs_slot_free (owfs_inode_at dev sb i)) [0..<unat (sb_total_inodes sb)] of
       None \<Rightarrow> (Inl OWFS_ERR_NO_FREE_INODES, dev, sb)
     | Some i \<Rightarrow> (Inr (of_nat i), owfs_inode_put dev sb i (owfs_inode_fresh g sb t name name_len p (of_nat i)),
                 sb\<lparr>sb_free_inodes := sb_free_inodes sb - 1\<rparr>))"
  using owfs_inode_alloc_loop_find [OF dev geo vw nm(1,2) order_refl, of g t p owfs_inode_zero 0] vw t nm
  by (auto simp: owfs_inode_alloc_def)

text \<open>Whatever the arguments, an allocation that returns an inode has passed all its checks.\<close>

lemma owfs_inode_alloc_checks:
  assumes "owfs_inode_alloc g dev sb t name name_len p = (Inr i, dev', sb')"
  shows "owfs_volume_writable sb = OWFS_OK" and "t = OWFS_ENTRY_FILE \<or> t = OWFS_ENTRY_CATALOG"
    and "name_len < 128" and "name = None \<or> name_len = 0 \<or> ow_sutf8_validate name name_len" and "sb_free_inodes sb \<noteq> 0"
  using assms by (auto simp: owfs_inode_alloc_def split: if_splits)

lemma owfs_inode_alloc_some:
  assumes ok: "owfs_volume_ok dev sb" and nm: "name_arg_ok name name_len"
    and a: "owfs_inode_alloc g dev sb t name name_len p = (Inr i, dev', sb')"
  shows "owfs_volume_ok dev' sb'" and "unat i \<notin> owfs_live dev sb" and "i < sb_total_inodes sb"
    and "owfs_inode_at dev' sb (unat i) = owfs_inode_fresh g sb t name name_len p i"
    and "owfs_live dev' sb = insert (unat i) (owfs_live dev sb)"
    and "\<And>j. j < unat i \<Longrightarrow> j \<in> owfs_live dev sb"
    and "sb' = sb\<lparr>sb_free_inodes := sb_free_inodes sb - 1\<rparr>" and "owfs_frame sb (owfs_table sb) dev dev'"
    and "\<And>j. j < unat (sb_total_inodes sb) \<Longrightarrow> j \<noteq> unat i \<Longrightarrow> owfs_inode_at dev' sb j = owfs_inode_at dev sb j"
proof -
  note c = owfs_inode_alloc_checks [OF a]
  note d = owfs_volume_okD [OF ok]
  let ?f = "\<lambda>i. owfs_inode_fresh g sb t name name_len p i"
  obtain k where k: "find (\<lambda>i. owfs_slot_free (owfs_inode_at dev sb i)) [0..<unat (sb_total_inodes sb)] = Some k"
    "i = of_nat k" "dev' = owfs_inode_put dev sb k (?f (of_nat k))" and sb': "sb' = sb\<lparr>sb_free_inodes := sb_free_inodes sb - 1\<rparr>"
    using a owfs_inode_alloc_find [OF d(3,4) c(1,2) nm c(3,4)] by (auto split: if_splits option.splits)
  from k(1) have kf: "k < unat (sb_total_inodes sb)" "owfs_slot_free (owfs_inode_at dev sb k)"
    "\<And>j. j < k \<Longrightarrow> \<not> owfs_slot_free (owfs_inode_at dev sb j)" by (auto simp: find_Some_iff)
  then have "k < 2 ^ 32" using unsigned_less [of "sb_total_inodes sb", where 'a = nat] by simp
  then have ui: "unat i = k" using k(2) by (simp add: unat_of_nat_small)
  note wf = owfs_inode_fresh_wf [OF nm c(3)]
  note p = owfs_inode_put_props [where inode = "?f (of_nat k)", OF d(3,4) kf(1) wf, folded k(2,3)]
  note q = owfs_alloc_inv_put [where inode = "?f (of_nat k)", OF d(1) kf(1) wf, folded k(2,3)]
  show at_i: "owfs_inode_at dev' sb (unat i) = ?f i" using p(5) kf(1) ui by simp
  show at_j: "owfs_inode_at dev' sb j = owfs_inode_at dev sb j"
    if "j < unat (sb_total_inodes sb)" "j \<noteq> unat i" for j using p(5) that ui by simp
  have nf: "\<not> owfs_slot_free (?f i)"
    using c(2) by (auto simp: owfs_slot_free_def owfs_inode_fresh_simps)
  show live: "owfs_live dev' sb = insert (unat i) (owfs_live dev sb)"
    using owfs_live_update [of "unat i" sb dev' dev] at_i at_j kf(1) ui nf by simp
  show nl: "unat i \<notin> owfs_live dev sb" using kf(2) ui by (simp add: owfs_live_def)
  show "i < sb_total_inodes sb" using kf(1) ui by (simp add: word_less_nat_alt)
  show "j \<in> owfs_live dev sb" if "j < unat i" for j using that kf(1,3) ui by (simp add: owfs_live_def)
  show "sb' = sb\<lparr>sb_free_inodes := sb_free_inodes sb - 1\<rparr>" by (rule sb')
  show fr: "owfs_frame sb (owfs_table sb) dev dev'" by (rule p(3))
  have "finite (owfs_live dev sb)" by (simp add: owfs_live_def)
  moreover have "unat (sb_free_inodes sb - 1) = unat (sb_free_inodes sb) - 1"
    using c(5) by (metis One_nat_def Suc_pred unat_minus_one)
  moreover have "0 < unat (sb_free_inodes sb)" using c(5) by (metis gr0I unat_eq_0)
  ultimately have cnt: "owfs_inodes_counted dev' sb'"
    using d(2) live nl by (simp add: owfs_inodes_counted_def sb')
  show "owfs_volume_ok dev' sb'"
  proof (rule owfs_volume_ok_update [OF ok _ _ _ cnt at_j fr])
    show "unat i < unat (sb_total_inodes sb)" using kf(1) ui by simp
    show "sb' = sb\<lparr>sb_free_blocks := sb_free_blocks sb, sb_free_inodes := sb_free_inodes sb - 1\<rparr>"
      by (cases sb) (simp add: sb')
    show "owfs_alloc_inv dev' sb'" using q(1) by (simp add: sb')
    show "owfs_table sb \<inter> owfs_others dev sb (unat i) = {}"
      using d(8) owfs_table_region by (auto simp: owfs_allocated_def)
    show "owfs_others dev sb (unat i) \<subseteq> owfs_allocated dev' sb" using d(8) q(2) by simp
    show "owfs_inode_verify_checksum (owfs_inode_at dev' sb (unat i))"
      unfolding at_i using owfs_inode_sealed_verifies [OF wf] owfs_inode_fresh_sealed [OF nm c(3)] by simp
    show "owfs_map_ok dev' sb (owfs_inode_at dev' sb (unat i)) \<and> owfs_owned dev' (owfs_inode_at dev' sb (unat i)) \<inter> owfs_others dev sb (unat i) = {}"
      unfolding at_i using owfs_empty_map [of "?f i" dev'] wf by (simp add: owfs_inode_fresh_simps)
  qed
qed

lemma owfs_inode_alloc_none:
  assumes ok: "owfs_volume_ok dev sb" and nm: "name_arg_ok name name_len"
    and a: "owfs_inode_alloc g dev sb t name name_len p = (Inl e, dev', sb')"
    and chk: "owfs_volume_writable sb = OWFS_OK" "t = OWFS_ENTRY_FILE \<or> t = OWFS_ENTRY_CATALOG" "name_len < 128"
      "name = None \<or> name_len = 0 \<or> ow_sutf8_validate name name_len"
  shows "e = OWFS_ERR_NO_FREE_INODES" and "dev' = dev" and "sb' = sb"
    and "owfs_live dev sb = {..<unat (sb_total_inodes sb)}"
proof -
  note d = owfs_volume_okD [OF ok]
  note f = owfs_inode_alloc_find [OF d(3,4) chk(1,2) nm chk(3,4), of g p]
  have sub: "owfs_live dev sb \<subseteq> {..<unat (sb_total_inodes sb)}" by (auto simp: owfs_live_def)
  from a f show e: "e = OWFS_ERR_NO_FREE_INODES" "dev' = dev" "sb' = sb"
    by (auto split: if_splits option.splits)
  show "owfs_live dev sb = {..<unat (sb_total_inodes sb)}"
  proof (cases "sb_free_inodes sb = 0")
    case True
    then have "card (owfs_live dev sb) = Suc (unat (sb_total_inodes sb))"
      using d(2) by (simp add: owfs_inodes_counted_def)
    then show ?thesis using card_mono [OF _ sub] by simp
  next
    case False
    then have "find (\<lambda>i. owfs_slot_free (owfs_inode_at dev sb i)) [0..<unat (sb_total_inodes sb)] = None"
      using a f by (auto split: option.splits)
    then show ?thesis by (auto simp: find_None_iff owfs_live_def)
  qed
qed

lemma owfs_inode_access_check_iff:
  "owfs_inode_access_check g inode want = OWFS_OK \<longleftrightarrow>
   ow_sec_access g (ino_permissions inode) (ino_owner_uid inode) (ino_owner_gid inode) want"
  by (simp add: owfs_inode_access_check_def)

lemma or_deleted: "(t :: u8) OR OWFS_ENTRY_DELETED \<noteq> 0" "((t :: u8) OR OWFS_ENTRY_DELETED) AND OWFS_ENTRY_DELETED \<noteq> 0"
proof -
  have "bit ((t OR 0x80) AND 0x80) 7" "bit (t OR 0x80) 7" by (simp_all add: bit_simps)
  then show "t OR 0x80 \<noteq> 0" "(t OR 0x80) AND 0x80 \<noteq> 0" by (metis bit_0_eq bot_apply bot_bool_def)+
qed

text \<open>Freeing a file that exists, is not read-only and may be written by the caller: its blocks return
  to the allocator and the slot becomes free.\<close>

lemma owfs_inode_free_ok:
  assumes ok: "owfs_volume_ok dev sb" and live: "unat n \<in> owfs_live dev sb"
    and vw: "owfs_volume_writable sb = OWFS_OK"
    and ro: "ino_security_flags (owfs_inode_at dev sb (unat n)) AND OWFS_SEC_READONLY = 0"
    and acc: "owfs_inode_access_check g (owfs_inode_at dev sb (unat n)) OW_ACCESS_WRITE = OWFS_OK"
  shows "\<exists>dev' sb'. owfs_inode_free g dev sb n = (OWFS_OK, dev', sb') \<and> owfs_volume_ok dev' sb' \<and>
    owfs_live dev' sb' = owfs_live dev sb - {unat n} \<and>
    owfs_allocated dev' sb' = owfs_allocated dev sb - owfs_owned dev (owfs_inode_at dev sb (unat n)) \<and>
    owfs_frame sb (owfs_table sb) dev dev' \<and>
    (\<forall>j \<in> owfs_live dev sb - {unat n}. owfs_inode_at dev' sb' j = owfs_inode_at dev sb j) \<and>
    sb' = sb\<lparr>sb_free_blocks := sb_free_blocks sb', sb_free_inodes := sb_free_inodes sb + 1\<rparr>"
proof -
  note d = owfs_volume_okD [OF ok]
  let ?t = "owfs_inode_at dev sb (unat n)"
  from live have n: "unat n < unat (sb_total_inodes sb)" "n < sb_total_inodes sb" and
    ty: "ino_entry_type ?t \<noteq> 0" "ino_entry_type ?t AND OWFS_ENTRY_DELETED = 0"
    by (auto simp: owfs_live_def owfs_slot_free_def word_less_nat_alt)
  note rd = owfs_inode_read_reliable [OF d(3,4) n(2), of owfs_inode_zero]
  obtain dev1 sb1 t1 where rel: "owfs_blockmap_release dev sb ?t 0 = (OWFS_OK, dev1, sb1, t1)"
    and l: "owfs_alloc_inv dev1 sb1" "owfs_frame sb {} dev dev1" "sb1 = sb\<lparr>sb_free_blocks := sb_free_blocks sb1\<rparr>"
      "owfs_allocated dev1 sb1 = owfs_allocated dev sb - owfs_owned dev ?t" "owfs_inode_wf t1"
  proof (cases "ino_block_count ?t = 0")
    case True
    with vw d(1) d(6) [OF live] show ?thesis
      by (intro that [of dev sb ?t]) (simp_all add: owfs_blockmap_release_def owfs_empty_map owfs_map_ok_def)
  next
    case False
    then have "0 < ino_block_count ?t" by (simp add: word_neq_0_conv)
    then obtain dev1 sb1 t1 where r: "owfs_blockmap_release dev sb ?t 0 = (OWFS_OK, dev1, sb1, t1)"
      "owfs_released dev sb ?t 0 dev1 sb1 t1" "ino_block_count t1 = 0"
      using owfs_blockmap_release_ok [OF d(1) d(6) [OF live] vw, of 0] by auto
    then show ?thesis
      by (intro that [of dev1 sb1 t1]) (auto simp: owfs_released_def owfs_map_ok_def owfs_empty_map)
  qed
  let ?del = "t1\<lparr>ino_entry_type := ino_entry_type t1 OR OWFS_ENTRY_DELETED, ino_size_bytes := 0, ino_block_count := 0\<rparr>"
  let ?dev' = "owfs_inode_put dev1 sb1 (unat n) (owfs_inode_sealed ?del)"
  let ?sb' = "sb1\<lparr>sb_free_inodes := sb_free_inodes sb1 + 1\<rparr>"
  have i1: "htl_reliable dev1" "owfs_geometry dev1 sb1" using l(1) by (simp_all add: owfs_alloc_inv_def)
  have s: "sb_total_inodes sb1 = sb_total_inodes sb" "owfs_volume_writable sb1 = OWFS_OK"
    "sb_free_inodes sb1 = sb_free_inodes sb" "owfs_allocated dx sb1 = owfs_allocated dx sb" for dx :: "'a htl_device"
    using vw by (subst l(3); simp)+
  have wf: "owfs_inode_wf ?del" using l(5) by simp
  have "owfs_inode_write dev1 sb1 n ?del = (OWFS_OK, ?dev', owfs_inode_sealed ?del)"
    using owfs_inode_write_reliable [OF i1 _ s(2) wf] n(2) s(1) by simp
  then have run: "owfs_inode_free g dev sb n = (OWFS_OK, ?dev', ?sb')"
    using vw rd d(5) [OF live] ty ro acc rel by (simp add: owfs_inode_free_def Let_def)
  have sf: "owfs_slot_free ?del" by (simp add: owfs_slot_free_def or_deleted)
  have oth: "owfs_others dev sb (unat n) \<subseteq> owfs_allocated dev1 sb"
    using d(8) d(7) [OF live] l(4) s(4) by auto
  note c = owfs_commit_inode [OF ok live l(1,3,2) _ _ oth wf, of "sb_free_inodes sb1 + 1", simplified sf s(3), simplified]
  have "owfs_live ?dev' ?sb' = owfs_live ?dev' sb" "owfs_allocated ?dev' ?sb' = owfs_allocated ?dev' sb"
    "owfs_inode_at ?dev' ?sb' = owfs_inode_at ?dev' sb"
    by (subst l(3), simp)+
  moreover have "?sb' = sb\<lparr>sb_free_blocks := sb_free_blocks ?sb', sb_free_inodes := sb_free_inodes sb + 1\<rparr>"
    using l(3) s(3) by (cases sb, cases sb1) simp
  moreover have "owfs_inode_at ?dev' sb j = owfs_inode_at dev sb j" if "j \<in> owfs_live dev sb - {unat n}" for j
    using c(3) [of j] that by (simp add: owfs_live_def)
  moreover have "owfs_frame sb (owfs_table sb) dev ?dev'" using owfs_frame_trans [OF l(2) c(6)] by simp
  ultimately show ?thesis
    using run c(1,4,5) l(4) s(3,4) by (intro exI [of _ ?dev'] exI [of _ ?sb'] conjI) (assumption | simp)+
qed

end
