(* ===== verification/OW_Mount.thy ===== *)
theory OW_Mount
  imports OW_Sec
begin

text \<open>
  The protocol both file systems follow when a volume is mounted: a clean volume is marked dirty, a
  volume found dirty or locked is refused and locked, one marked erroneous is refused as it is, and the
  consistency check either clears the three marks or sets the error mark. The locale states this over
  the state flags of the superblock on the device and derives what holds after a crash; each file
  system interprets it on its own operations. A second locale treats sequences of mounts, crashes, marks,
  synchronisations and unmounts as runs of a step relation.
\<close>

definition clean_flags :: "u32 \<Rightarrow> bool" where
  "clean_flags w \<longleftrightarrow> \<not> bit w 0 \<and> \<not> bit w 1 \<and> \<not> bit w 2"

locale mount_protocol =
  fixes mount :: "'d \<Rightarrow> 's \<Rightarrow> 'e \<times> 'd \<times> 's"
    and check :: "'d \<Rightarrow> 's \<Rightarrow> 'e \<times> u32 \<times> 'd \<times> 's"
    and ok :: 'e and refused :: 'e and faulty :: 'e
    and disk_sb :: "'d \<Rightarrow> 's"
    and flags :: "'s \<Rightarrow> u32"
    and sound :: "'d \<Rightarrow> bool"
    and faults :: "'d \<Rightarrow> nat"
    and kept :: "'d \<Rightarrow> 'd \<Rightarrow> bool"
  assumes mount_clean: "sound d \<Longrightarrow> clean_flags (flags (disk_sb d)) \<Longrightarrow>
      \<exists>d'. mount d s0 = (ok, d', disk_sb d') \<and> sound d' \<and> faults d' = faults d \<and> kept d d' \<and>
        bit (flags (disk_sb d')) 0 \<and> \<not> bit (flags (disk_sb d')) 1"
    and mount_unclean: "sound d \<Longrightarrow> \<not> clean_flags (flags (disk_sb d)) \<Longrightarrow>
      \<exists>d'. mount d s0 = (refused, d', disk_sb d') \<and> sound d' \<and> faults d' = faults d \<and> kept d d' \<and>
        \<not> clean_flags (flags (disk_sb d')) \<and> bit (flags (disk_sb d')) 1 = bit (flags (disk_sb d)) 1"
    and check_result: "sound d \<Longrightarrow> faults d < 2 ^ 32 \<Longrightarrow>
      \<exists>d'. check d (disk_sb d) = (if faults d = 0 then ok else faulty, of_nat (faults d), d', disk_sb d') \<and>
        sound d' \<and> faults d' = faults d \<and> kept d d' \<and>
        (if faults d = 0 then clean_flags (flags (disk_sb d')) else bit (flags (disk_sb d')) 1)"
    and kept_trans: "kept d d' \<Longrightarrow> kept d' d'' \<Longrightarrow> kept d d''"
begin

text \<open>Whatever the marks, a volume without faults can be mounted after a check.\<close>

lemma check_then_mount:
  assumes "sound d" and "faults d = 0"
  obtains d' d'' where "check d (disk_sb d) = (ok, 0, d', disk_sb d')" "mount d' s0 = (ok, d'', disk_sb d'')"
    "sound d''" "faults d'' = 0" "kept d d''"
proof -
  obtain d' where c: "check d (disk_sb d) = (ok, 0, d', disk_sb d')" "sound d'" "faults d' = 0" "kept d d'" "clean_flags (flags (disk_sb d'))"
    using check_result [OF assms(1)] assms(2) by auto
  obtain d'' where "mount d' s0 = (ok, d'', disk_sb d'')" "sound d''" "faults d'' = 0" "kept d' d''"
    using mount_clean [OF c(2,5), of s0] c(3) by auto
  then show thesis using that [OF c(1)] kept_trans [OF c(4)] by blast
qed

text \<open>The life of a volume that is mounted, lost in a crash, refused, checked and mounted again.\<close>

lemma crash_recovery:
  assumes "sound d" and "clean_flags (flags (disk_sb d))" and "faults d = 0"
  obtains d1 d2 d3 d4 where "mount d s0 = (ok, d1, disk_sb d1)" "mount d1 s0 = (refused, d2, disk_sb d2)"
    "check d2 (disk_sb d2) = (ok, 0, d3, disk_sb d3)" "mount d3 s0 = (ok, d4, disk_sb d4)" "kept d d4" "faults d4 = 0"
proof -
  obtain d1 where m: "mount d s0 = (ok, d1, disk_sb d1)" "sound d1" "faults d1 = 0" "kept d d1" "bit (flags (disk_sb d1)) 0"
    using mount_clean [OF assms(1,2), of s0] assms(3) by auto
  then have "\<not> clean_flags (flags (disk_sb d1))" by (simp add: clean_flags_def)
  then obtain d2 where r: "mount d1 s0 = (refused, d2, disk_sb d2)" "sound d2" "faults d2 = 0" "kept d1 d2"
    using mount_unclean [OF m(2), of s0] m(3) by auto
  obtain d3 d4 where c: "check d2 (disk_sb d2) = (ok, 0, d3, disk_sb d3)" "mount d3 s0 = (ok, d4, disk_sb d4)" "faults d4 = 0" "kept d2 d4"
    by (rule check_then_mount [OF r(2,3), of s0])
  show thesis by (rule that [OF m(1) r(1) c(1,2) kept_trans [OF m(4) kept_trans [OF r(4) c(4)]] c(3)])
qed

text \<open>A check that finds faults shuts the volume: no sequence of mounts opens it.\<close>

lemma erroneous_stays:
  "sound d \<Longrightarrow> bit (flags (disk_sb d)) 1 \<Longrightarrow> fst (mount (fold (\<lambda>s d. fst (snd (mount d s))) ss d) s0) = refused"
proof (induction ss arbitrary: d)
  case Nil
  then have "\<not> clean_flags (flags (disk_sb d))" by (simp add: clean_flags_def)
  then show ?case using mount_unclean [OF Nil(1), of s0] by auto
next
  case (Cons s ss)
  then have "\<not> clean_flags (flags (disk_sb d))" by (simp add: clean_flags_def)
  then obtain d' where "mount d s = (refused, d', disk_sb d')" "sound d'" "bit (flags (disk_sb d')) 1"
    using mount_unclean [OF Cons(2), of s] Cons(3) by auto
  then show ?case using Cons.IH [of d'] by simp
qed

lemma faults_shut:
  assumes "sound d" and "0 < faults d" and "faults d < 2 ^ 32"
  obtains d' where "check d (disk_sb d) = (faulty, of_nat (faults d), d', disk_sb d')" "\<forall>ss s. fst (mount (fold (\<lambda>s d. fst (snd (mount d s))) ss d') s) = refused"
proof -
  obtain d' where c: "check d (disk_sb d) = (faulty, of_nat (faults d), d', disk_sb d')" "sound d'" "bit (flags (disk_sb d')) 1"
    using check_result [OF assms(1,3)] assms(2) by auto
  show thesis using that [OF c(1)] erroneous_stays [OF c(2,3)] by blast
qed

end

section \<open>Sequences of operations with crashes\<close>

text \<open>What can happen to a volume between formats other than a consistency check. The state is the device with the
  structure the caller holds, none after a crash.\<close>

datatype volume_event = Mount | Crash | Mark_dirty | Mark_clean | Sync | Unmount

inductive volume_run :: "('s \<Rightarrow> volume_event \<Rightarrow> 's \<Rightarrow> bool) \<Rightarrow> 's \<Rightarrow> volume_event list \<Rightarrow> 's \<Rightarrow> bool"
  for step where
  run_nil: "volume_run step s [] s"
| run_cons: "step s e s' \<Longrightarrow> volume_run step s' es s'' \<Longrightarrow> volume_run step s (e # es) s''"

lemma volume_run_invariant:
  assumes "volume_run step s es s'" and "I s" and "\<And>s e s'. I s \<Longrightarrow> e \<in> set es \<Longrightarrow> step s e s' \<Longrightarrow> I s'"
  shows "I s'"
  using assms
proof (induction rule: volume_run.induct)
  case (run_cons s e s' es s'')
  then have "I s'" by (meson list.set_intros(1))
  then show ?case using run_cons.IH run_cons.prems(2) by (meson list.set_intros(2))
qed (simp add: run_nil)

text \<open>The contract of single steps, and what follows for sequences of them.\<close>

locale volume_life =
  fixes step :: "'d \<times> 's option \<Rightarrow> volume_event \<Rightarrow> 'd \<times> 's option \<Rightarrow> bool"
    and mount :: "'d \<Rightarrow> 's \<Rightarrow> 'e \<times> 'd \<times> 's"
    and ok :: 'e
    and disk :: "'d \<Rightarrow> bool"
    and erroneous :: "'d \<times> 's option \<Rightarrow> bool"
    and unclean :: "'d \<times> 's option \<Rightarrow> bool"
  assumes erroneous_step: "step s e s' \<Longrightarrow> erroneous s \<Longrightarrow> erroneous s'"
    and unclean_step: "step s e s' \<Longrightarrow> unclean s \<Longrightarrow> e \<in> {Mount, Crash, Mark_dirty} \<Longrightarrow> unclean s'"
    and erroneous_unclean: "erroneous s \<Longrightarrow> unclean s"
    and mounted_unclean: "disk d \<Longrightarrow> mount d s0 = (ok, d', sb) \<Longrightarrow> unclean (d', Some sb)"
    and unclean_mount: "unclean (d, m) \<Longrightarrow> fst (mount d s0) \<noteq> ok"
begin

lemma error_sticky:
  assumes "erroneous s" and r: "volume_run step s es (d, m)"
  shows "fst (mount d s0) \<noteq> ok"
proof -
  have "erroneous (d, m)" by (rule volume_run_invariant [where I = erroneous, OF r assms(1)]) (blast intro: erroneous_step)
  then show ?thesis by (rule unclean_mount [OF erroneous_unclean])
qed

lemma crash_detected:
  assumes "disk d" and "mount d s0 = (ok, d1, sb1)" and r: "volume_run step (d1, Some sb1) es (d2, m2)"
    and es: "set es \<subseteq> {Mount, Crash, Mark_dirty}"
  shows "fst (mount d2 s2) \<noteq> ok"
proof -
  have "unclean (d1, Some sb1)" by (rule mounted_unclean [OF assms(1,2)])
  then have "unclean (d2, m2)" by (rule volume_run_invariant [where I = unclean, OF r]) (use es unclean_step in blast)
  then show ?thesis by (rule unclean_mount)
qed

end

end
