(* ===== verification/OWFS_Sync.thy ===== *)
theory OWFS_Sync
  imports OWFS_Inode OW_Mount
begin

text \<open>
  \<^verbatim>\<open>owfs/src/owfs_sync.c\<close>: the state flags of a volume, synchronisation, the consistency check,
  mounting and unmounting. (The two predicates \<^verbatim>\<open>owfs_is_dirty\<close> and \<^verbatim>\<open>owfs_volume_writable\<close> stand with
  the superblock.) The lemmas follow the flags through every operation on a working device, show
  that the check accepts a consistent volume, and treat mounting, crashing and checking as a
  step relation whose reachable states keep an error until a check clears it.
\<close>

unbundle bit_operations_syntax

definition owfs_mark_dirty ::
  "'c htl_device \<Rightarrow> owfs_superblock \<Rightarrow> owfs_status \<times> 'c htl_device \<times> owfs_superblock" where
  "owfs_mark_dirty dev sb =
     owfs_superblock_write dev (sb\<lparr>sb_state_flags := sb_state_flags sb OR OWFS_STATE_DIRTY\<rparr>)"

definition owfs_mark_clean ::
  "'c htl_device \<Rightarrow> owfs_superblock \<Rightarrow> owfs_status \<times> 'c htl_device \<times> owfs_superblock" where
  "owfs_mark_clean dev sb =
     (if sb_state_flags sb AND OWFS_STATE_ERROR \<noteq> 0 then (OWFS_ERR_CHECKSUM_MISMATCH, dev, sb)
      else
        let sb = sb\<lparr>sb_state_flags := sb_state_flags sb AND NOT (OWFS_STATE_DIRTY OR OWFS_STATE_LOCKED)\<rparr> in
        case owfs_superblock_write dev sb of (res, dev, sb) \<Rightarrow>
        if res \<noteq> OWFS_OK then (res, dev, sb)
        else case htl_flush_cache dev of (hres, dev) \<Rightarrow>
          if hres \<noteq> HTL_OK then (OWFS_ERR_IO, dev, sb) else (OWFS_OK, dev, sb))"

definition owfs_sync_changes ::
  "'c htl_device \<Rightarrow> owfs_superblock \<Rightarrow> owfs_status \<times> 'c htl_device \<times> owfs_superblock" where
  "owfs_sync_changes dev sb =
     (case owfs_bitmap_compute_fletcher64 dev sb of (fl, dev) \<Rightarrow>
      let sb = sb\<lparr>sb_fletcher64_bitmap := fl\<rparr>;
          sb = sb\<lparr>sb_state_flags := sb_state_flags sb AND NOT (OWFS_STATE_DIRTY OR OWFS_STATE_LOCKED)\<rparr>
      in case owfs_superblock_write dev sb of (res, dev, sb) \<Rightarrow>
        if res \<noteq> OWFS_OK then (res, dev, sb)
        else case htl_flush_cache dev of (hres, dev) \<Rightarrow>
          if hres \<noteq> HTL_OK then (OWFS_ERR_IO, dev, sb) else (OWFS_OK, dev, sb))"

text \<open>The scan over the inode table: the status of the read that ends it early, if any, and the
  number of checksum mismatches so far.\<close>

fun consistency_scan ::
  "'c htl_device \<Rightarrow> owfs_superblock \<Rightarrow> owfs_inode \<Rightarrow> u32 \<Rightarrow> nat list \<Rightarrow> owfs_status option \<times> u32 \<times> 'c htl_device" where
  "consistency_scan dev sb inode count [] = (None, count, dev)"
| "consistency_scan dev sb inode count (i # is) =
     (case owfs_inode_read dev sb (of_nat i) inode of (res, dev, inode) \<Rightarrow>
      if res = OWFS_ERR_CHECKSUM_MISMATCH then consistency_scan dev sb inode (count + 1) is
      else if res \<noteq> OWFS_OK \<and> res \<noteq> OWFS_ERR_NOT_FOUND then (Some res, count, dev)
      else consistency_scan dev sb inode count is)"

text \<open>The end of \<^verbatim>\<open>owfs_consistency_check\<close>: the verdict is recorded and flushed, the statuses of a
  failing flush ignored as in the source.\<close>

definition consistency_verdict ::
  "'c htl_device \<Rightarrow> owfs_superblock \<Rightarrow> u32 \<Rightarrow> owfs_status \<times> u32 \<times> 'c htl_device \<times> owfs_superblock" where
  "consistency_verdict dev sb count =
     (if count = 0 then
        let sb = sb\<lparr>sb_state_flags := sb_state_flags sb AND
                  NOT (OWFS_STATE_DIRTY OR OWFS_STATE_LOCKED OR OWFS_STATE_ERROR)\<rparr> in
        case owfs_superblock_write dev sb of (wres, dev, sb) \<Rightarrow>
        if wres \<noteq> OWFS_OK then (wres, count, dev, sb)
        else case htl_flush_cache dev of (_, dev) \<Rightarrow> (OWFS_OK, count, dev, sb)
      else
        let sb = sb\<lparr>sb_state_flags := sb_state_flags sb OR OWFS_STATE_ERROR\<rparr> in
        case owfs_superblock_write dev sb of (_, dev, sb) \<Rightarrow>
        case htl_flush_cache dev of (_, dev) \<Rightarrow> (OWFS_ERR_CHECKSUM_MISMATCH, count, dev, sb))"

definition owfs_consistency_check ::
  "'c htl_device \<Rightarrow> owfs_superblock \<Rightarrow> owfs_status \<times> u32 \<times> 'c htl_device \<times> owfs_superblock" where
  "owfs_consistency_check dev sb =
     (if \<not> owfs_superblock_validate sb then
        let sb = sb\<lparr>sb_state_flags := sb_state_flags sb OR (OWFS_STATE_ERROR OR OWFS_STATE_LOCKED)\<rparr> in
        case owfs_superblock_write dev sb of (_, dev, sb) \<Rightarrow>
        case htl_flush_cache dev of (_, dev) \<Rightarrow> (OWFS_ERR_CORRUPT_SUPERBLOCK, 1, dev, sb)
      else
        case owfs_superblock_write dev (sb\<lparr>sb_state_flags := sb_state_flags sb OR OWFS_STATE_LOCKED\<rparr>)
        of (wres, dev, sb) \<Rightarrow>
        if wres \<noteq> OWFS_OK then (wres, 0, dev, sb)
        else case consistency_scan dev sb owfs_inode_zero 0 [0..<unat (sb_total_inodes sb)] of
            (Some res, count, dev) \<Rightarrow> (res, count, dev, sb)
          | (None, count, dev) \<Rightarrow>
              case owfs_bitmap_compute_fletcher64 dev sb of (current_fletcher, dev) \<Rightarrow>
              let count = (if sb_fletcher64_bitmap sb \<noteq> 0 \<and> current_fletcher \<noteq> sb_fletcher64_bitmap sb
                           then count + 1 else count) in
              case owfs_bitmap_count_free dev sb of (counted_free, dev) \<Rightarrow>
              let count = (if counted_free \<noteq> sb_free_blocks sb then count + 1 else count)
              in consistency_verdict dev sb count)"

definition owfs_mount ::
  "'c htl_device \<Rightarrow> owfs_superblock \<Rightarrow> owfs_status \<times> 'c htl_device \<times> owfs_superblock" where
  "owfs_mount dev sb =
     (case owfs_superblock_read dev sb of (res, dev, sb) \<Rightarrow>
      if res \<noteq> OWFS_OK then (res, dev, sb)
      else if sb_state_flags sb AND OWFS_STATE_ERROR \<noteq> 0 then (OWFS_ERR_VOLUME_DIRTY, dev, sb)
      else if sb_state_flags sb AND (OWFS_STATE_DIRTY OR OWFS_STATE_LOCKED) \<noteq> 0 then
        case owfs_superblock_write dev (sb\<lparr>sb_state_flags := sb_state_flags sb OR OWFS_STATE_LOCKED\<rparr>)
        of (res, dev, sb) \<Rightarrow>
        if res \<noteq> OWFS_OK then (res, dev, sb) else (OWFS_ERR_VOLUME_DIRTY, dev, sb)
      else
        owfs_superblock_write dev
          (sb\<lparr>sb_mount_count := sb_mount_count sb + 1, sb_state_flags := sb_state_flags sb OR OWFS_STATE_DIRTY\<rparr>))"

definition owfs_unmount ::
  "'c htl_device \<Rightarrow> owfs_superblock \<Rightarrow> owfs_status \<times> 'c htl_device \<times> owfs_superblock" where
  "owfs_unmount dev sb =
     (if sb_state_flags sb AND OWFS_STATE_ERROR \<noteq> 0 then (OWFS_ERR_CHECKSUM_MISMATCH, dev, sb)
      else
        let sb = sb\<lparr>sb_state_flags := sb_state_flags sb AND NOT (OWFS_STATE_DIRTY OR OWFS_STATE_LOCKED)\<rparr> in
        case owfs_superblock_write dev sb of (res, dev, sb) \<Rightarrow>
        if res \<noteq> OWFS_OK then (res, dev, sb)
        else case htl_flush_cache dev of (hres, dev) \<Rightarrow>
          if hres \<noteq> HTL_OK then (OWFS_ERR_IO, dev, sb) else (OWFS_OK, dev, sb))"

section \<open>The part of the superblock the layout lives in\<close>

definition owfs_layout :: "owfs_superblock \<Rightarrow> u32 list" where
  "owfs_layout sb =
     [sb_total_blocks sb, sb_free_blocks sb, sb_total_inodes sb, sb_free_inodes sb, sb_bitmap_start_block sb,
      sb_bitmap_block_count sb, sb_inode_table_start sb, sb_inode_table_blocks sb, sb_data_region_start sb]"

lemma owfs_layout_cong:
  assumes "owfs_layout sb' = owfs_layout sb"
  shows "owfs_geometry dev sb' = owfs_geometry dev sb" and "owfs_used dev sb' = owfs_used dev sb"
    and "owfs_region sb' = owfs_region sb" and "owfs_free_set dev sb' = owfs_free_set dev sb"
    and "owfs_allocated dev sb' = owfs_allocated dev sb" and "owfs_alloc_inv dev sb' = owfs_alloc_inv dev sb"
    and "owfs_inode_at dev sb' = owfs_inode_at dev sb" and "owfs_live dev sb' = owfs_live dev sb"
    and "owfs_map_ok dev sb' = owfs_map_ok dev sb" and "owfs_volume_ok dev sb' = owfs_volume_ok dev sb"
    and "owfs_bitmap_bytes dev sb' = owfs_bitmap_bytes dev sb"
proof -
  from assms have f: "sb_total_blocks sb' = sb_total_blocks sb" "sb_free_blocks sb' = sb_free_blocks sb"
    "sb_total_inodes sb' = sb_total_inodes sb" "sb_free_inodes sb' = sb_free_inodes sb"
    "sb_bitmap_start_block sb' = sb_bitmap_start_block sb" "sb_bitmap_block_count sb' = sb_bitmap_block_count sb"
    "sb_inode_table_start sb' = sb_inode_table_start sb" "sb_inode_table_blocks sb' = sb_inode_table_blocks sb"
    "sb_data_region_start sb' = sb_data_region_start sb"
    by (simp_all add: owfs_layout_def)
  have d: "owfs_data_blocks sb' = owfs_data_blocks sb" by (simp add: owfs_data_blocks_def f)
  show g: "owfs_geometry dev sb' = owfs_geometry dev sb" by (simp add: owfs_geometry_def f d)
  show u: "owfs_used dev sb' = owfs_used dev sb" by (simp add: owfs_used_def fun_eq_iff f)
  show r: "owfs_region sb' = owfs_region sb" by (simp add: owfs_region_def f)
  show fs: "owfs_free_set dev sb' = owfs_free_set dev sb" by (simp add: owfs_free_set_def d u)
  show a: "owfs_allocated dev sb' = owfs_allocated dev sb" by (simp add: owfs_allocated_def r u f)
  show i: "owfs_alloc_inv dev sb' = owfs_alloc_inv dev sb" by (simp add: owfs_alloc_inv_def owfs_counted_def g fs f)
  show n: "owfs_inode_at dev sb' = owfs_inode_at dev sb" by (simp add: owfs_inode_at_def fun_eq_iff f)
  show l: "owfs_live dev sb' = owfs_live dev sb" by (simp add: owfs_live_def n f)
  show m: "owfs_map_ok dev sb' = owfs_map_ok dev sb" by (simp add: owfs_map_ok_def fun_eq_iff a)
  show "owfs_volume_ok dev sb' = owfs_volume_ok dev sb"
    by (simp add: owfs_volume_ok_def owfs_inodes_counted_def i l m n f)
  show "owfs_bitmap_bytes dev sb' = owfs_bitmap_bytes dev sb" by (simp add: owfs_bitmap_bytes_def f)
qed

section \<open>Writing the superblock\<close>

definition owfs_disk_sb :: "'c htl_device \<Rightarrow> owfs_superblock" where
  "owfs_disk_sb dev = owfs_superblock_of_bytes (blk dev 16)"

definition owfs_disk :: "'c htl_device \<Rightarrow> bool" where
  "owfs_disk dev \<longleftrightarrow> htl_reliable dev \<and> 16 < total_blocks dev"

lemma owfs_disk_sb_wf [simp]: "owfs_disk dev \<Longrightarrow> owfs_superblock_wf (owfs_disk_sb dev)"
  by (simp add: owfs_disk_def owfs_disk_sb_def sbr.wf_dec length_blk)

definition owfs_put_sb :: "'c htl_device \<Rightarrow> owfs_superblock \<Rightarrow> 'c htl_device" where
  "owfs_put_sb dev sb = blk_write dev 16 (owfs_superblock_bytes (owfs_sealed sb))"

lemma owfs_put_sb_props:
  assumes dev: "owfs_disk dev" and wf: "owfs_superblock_wf sb"
  shows "owfs_superblock_write dev sb = (OWFS_OK, owfs_put_sb dev sb, owfs_sealed sb)"
    and "owfs_disk (owfs_put_sb dev sb)" and "owfs_disk_sb (owfs_put_sb dev sb) = owfs_sealed sb"
    and "total_blocks (owfs_put_sb dev sb) = total_blocks dev"
    and "x < total_blocks dev \<Longrightarrow> x \<noteq> 16 \<Longrightarrow> blk (owfs_put_sb dev sb) x = blk dev x"
proof -
  have len: "length (owfs_superblock_bytes (owfs_sealed sb)) = 4096" using wf by simp
  show "owfs_superblock_write dev sb = (OWFS_OK, owfs_put_sb dev sb, owfs_sealed sb)"
    using dev wf by (simp add: owfs_disk_def owfs_put_sb_def owfs_superblock_write_reliable)
  show "owfs_disk (owfs_put_sb dev sb)" "total_blocks (owfs_put_sb dev sb) = total_blocks dev"
    "x < total_blocks dev \<Longrightarrow> x \<noteq> 16 \<Longrightarrow> blk (owfs_put_sb dev sb) x = blk dev x"
    using dev len by (simp_all add: owfs_disk_def owfs_put_sb_def dev_simps)
  show "owfs_disk_sb (owfs_put_sb dev sb) = owfs_sealed sb"
    using dev len wf owfs_superblock_dec_enc [of "owfs_sealed sb"]
    by (simp add: owfs_disk_def owfs_disk_sb_def owfs_put_sb_def dev_simps)
qed

lemma owfs_flushed_props:
  assumes "owfs_disk dev"
  shows "htl_flush_cache dev = (HTL_OK, htl_flushed dev)" and "owfs_disk (htl_flushed dev)"
    and "owfs_disk_sb (htl_flushed dev) = owfs_disk_sb dev"
    and "x < total_blocks dev \<Longrightarrow> blk (htl_flushed dev) x = blk dev x"
  using assms by (simp_all add: owfs_disk_def owfs_disk_sb_def dev_simps)

lemma owfs_geometry_disk: "htl_reliable dev \<Longrightarrow> owfs_geometry dev sb \<Longrightarrow> owfs_disk dev"
  by (auto simp: owfs_disk_def owfs_geometry_def word_less_nat_alt)

text \<open>Rewriting the superblock and flushing keep a volume consistent.\<close>

lemma owfs_volume_ok_same_blocks:
  fixes dev dev' :: "'c htl_device"
  assumes ok: "owfs_volume_ok dev sb" and rel: "htl_reliable dev'" and tb: "total_blocks dev' = total_blocks dev"
    and same: "\<And>x. x < total_blocks dev \<Longrightarrow> x \<noteq> 16 \<Longrightarrow> blk dev' x = blk dev x"
  shows "owfs_volume_ok dev' sb"
    and "\<And>i. i < unat (sb_total_inodes sb) \<Longrightarrow> owfs_inode_at dev' sb i = owfs_inode_at dev sb i"
    and "owfs_live dev' sb = owfs_live dev sb" and "owfs_allocated dev' sb = owfs_allocated dev sb"
proof -
  note d = owfs_volume_okD [OF ok]
  have g16: "16 < unat (sb_bitmap_start_block sb)" "unat (sb_bitmap_start_block sb) \<le> unat (sb_inode_table_start sb)"
    using d(4) by (simp_all add: owfs_geometry_def)
  have fr: "owfs_frame sb {16} dev dev'" using same tb by (simp add: owfs_frame_def)
  have used: "owfs_used dev' sb rel = owfs_used dev sb rel" if "rel < owfs_data_blocks sb" for rel
  proof -
    note g = owfs_geometryD [OF d(4) owfs_rel_bitmap [OF d(4) that]]
    have "sb_bitmap_start_block sb + of_nat (rel div 32768) \<noteq> 16" using g(1) g16 by auto
    then show ?thesis using same g(2) by (simp add: owfs_used_def)
  qed
  then have fs: "owfs_free_set dev' sb = owfs_free_set dev sb" by (auto simp: owfs_free_set_def)
  show al: "owfs_allocated dev' sb = owfs_allocated dev sb"
    using used owfs_region_rel(1) by (auto simp: owfs_allocated_def)
  have inv: "owfs_alloc_inv dev' sb"
    using d(1) rel tb owfs_geometry_dev [OF tb] by (simp add: owfs_alloc_inv_def owfs_counted_def fs)
  have tab: "{16} \<inter> owfs_table sb = {}" using g16 by (auto simp: owfs_table_def word_le_nat_alt)
  show at: "owfs_inode_at dev' sb i = owfs_inode_at dev sb i" if "i < unat (sb_total_inodes sb)" for i
    using owfs_inode_at_frame [OF d(4) fr tab that] .
  show live: "owfs_live dev' sb = owfs_live dev sb" using at by (auto simp: owfs_live_def)
  have reg: "16 \<notin> owfs_region sb" using owfs_region_outside(2) [OF d(4), of 16] g16 by (auto simp: word_le_nat_alt)
  have own: "owfs_map_ok dev' sb (owfs_inode_at dev sb i)"
    "owfs_owned dev' (owfs_inode_at dev sb i) = owfs_owned dev (owfs_inode_at dev sb i)" if "i \<in> owfs_live dev sb" for i
    using owfs_map_ok_frame [OF d(1) d(6) [OF that] fr] reg al owfs_map_okD(5,6) [OF d(1) d(6) [OF that]] by auto
  have "i < unat (sb_total_inodes sb)" if "i \<in> owfs_live dev sb" for i using that by (simp add: owfs_live_def)
  then show "owfs_volume_ok dev' sb"
    using ok inv own at unfolding owfs_volume_ok_def live owfs_inodes_counted_def by simp
qed

section \<open>The state flags\<close>

lemma owfs_sb_wf_simps [simp]:
  "owfs_superblock_wf (sb\<lparr>sb_state_flags := f\<rparr>) = owfs_superblock_wf sb"
  "owfs_superblock_wf (sb\<lparr>sb_mount_count := m\<rparr>) = owfs_superblock_wf sb"
  "owfs_superblock_wf (sb\<lparr>sb_fletcher64_bitmap := h\<rparr>) = owfs_superblock_wf sb"
  by (simp_all add: owfs_superblock_wf_def)

text \<open>The operations on a working disk, as functions of the flags.\<close>

lemma owfs_mount_disk:
  assumes "owfs_disk dev"
  defines "sb \<equiv> owfs_disk_sb dev"
  shows "owfs_mount dev sb0 =
    (if \<not> owfs_superblock_validate sb then (OWFS_ERR_CORRUPT_SUPERBLOCK, dev, sb)
     else if bit (sb_state_flags sb) 1 then (OWFS_ERR_VOLUME_DIRTY, dev, sb)
     else if bit (sb_state_flags sb) 0 \<or> bit (sb_state_flags sb) 2 then
       let sb' = sb\<lparr>sb_state_flags := sb_state_flags sb OR OWFS_STATE_LOCKED\<rparr>
       in (OWFS_ERR_VOLUME_DIRTY, owfs_put_sb dev sb', owfs_sealed sb')
     else
       let sb' = sb\<lparr>sb_mount_count := sb_mount_count sb + 1, sb_state_flags := sb_state_flags sb OR OWFS_STATE_DIRTY\<rparr>
       in (OWFS_OK, owfs_put_sb dev sb', owfs_sealed sb'))"
proof -
  have "owfs_superblock_read dev sb0 = (if owfs_superblock_validate sb then OWFS_OK else OWFS_ERR_CORRUPT_SUPERBLOCK, dev, sb)"
    using assms owfs_superblock_read_reliable [of dev sb0] by (simp add: owfs_disk_def owfs_disk_sb_def)
  moreover have "owfs_superblock_wf sb" using assms by simp
  ultimately show ?thesis
    unfolding owfs_mount_def state_mask_bits(3) using assms(1) by (simp add: owfs_put_sb_props Let_def)
qed

lemma owfs_mark_dirty_disk:
  "owfs_disk dev \<Longrightarrow> owfs_superblock_wf sb \<Longrightarrow> owfs_mark_dirty dev sb =
     (let sb' = sb\<lparr>sb_state_flags := sb_state_flags sb OR OWFS_STATE_DIRTY\<rparr>
      in (OWFS_OK, owfs_put_sb dev sb', owfs_sealed sb'))"
  by (simp add: owfs_mark_dirty_def owfs_put_sb_props Let_def)

abbreviation owfs_cleaned :: "owfs_superblock \<Rightarrow> owfs_superblock" where
  "owfs_cleaned sb \<equiv> sb\<lparr>sb_state_flags := sb_state_flags sb AND NOT (OWFS_STATE_DIRTY OR OWFS_STATE_LOCKED)\<rparr>"

lemma owfs_unmount_disk:
  assumes "owfs_disk dev" and "owfs_superblock_wf sb"
  shows "owfs_unmount dev sb =
    (if bit (sb_state_flags sb) 1 then (OWFS_ERR_CHECKSUM_MISMATCH, dev, sb)
     else (OWFS_OK, htl_flushed (owfs_put_sb dev (owfs_cleaned sb)), owfs_sealed (owfs_cleaned sb)))"
    and "owfs_mark_clean dev sb = owfs_unmount dev sb"
  using assms by (simp_all add: owfs_unmount_def owfs_mark_clean_def Let_def owfs_put_sb_props owfs_flushed_props)

lemma owfs_sync_disk:
  assumes "htl_reliable dev" and "owfs_geometry dev sb" and "owfs_superblock_wf sb"
  shows "owfs_sync_changes dev sb =
    (let sb' = owfs_cleaned (sb\<lparr>sb_fletcher64_bitmap :=
         ow_fletcher64 (owfs_bitmap_bytes dev sb) (4096 * unat (sb_bitmap_block_count sb))\<rparr>)
     in (OWFS_OK, htl_flushed (owfs_put_sb dev sb'), owfs_sealed sb'))"
  using assms owfs_geometry_disk [OF assms(1,2)]
  by (simp add: owfs_sync_changes_def owfs_bitmap_fletcher64_eq Let_def owfs_put_sb_props owfs_flushed_props)

section \<open>The consistency check\<close>

definition owfs_bad_inodes :: "'c htl_device \<Rightarrow> owfs_superblock \<Rightarrow> nat set" where
  "owfs_bad_inodes dev sb = {i. i < unat (sb_total_inodes sb) \<and>
     ino_entry_type (owfs_inode_at dev sb i) \<noteq> 0 \<and> \<not> owfs_inode_verify_checksum (owfs_inode_at dev sb i)}"

lemma consistency_scan_count:
  assumes dev: "htl_reliable dev" and geo: "owfs_geometry dev sb"
  shows "\<forall>i \<in> set is. i < unat (sb_total_inodes sb) \<Longrightarrow> consistency_scan dev sb inode count is =
    (None, count + of_nat (length (filter (\<lambda>i. i \<in> owfs_bad_inodes dev sb) is)), dev)"
proof (induction "is" arbitrary: count inode)
  case (Cons i "is")
  then have i: "i < unat (sb_total_inodes sb)" by simp
  then have "i < 2 ^ 32" using unsigned_less [of "sb_total_inodes sb", where 'a = nat] by simp
  then have u: "unat (of_nat i :: u32) = i" by (intro unat_of_nat_small) simp
  then have "of_nat i < sb_total_inodes sb" using i by (simp add: word_less_nat_alt)
  note r = owfs_inode_read_reliable [OF dev geo this, unfolded u]
  show ?case using Cons i by (auto simp: r Let_def owfs_bad_inodes_def)
qed simp

definition owfs_check_count :: "'c htl_device \<Rightarrow> owfs_superblock \<Rightarrow> nat" where
  "owfs_check_count dev sb =
     card (owfs_bad_inodes dev sb) +
     (if sb_fletcher64_bitmap sb \<noteq> 0 \<and>
         ow_fletcher64 (owfs_bitmap_bytes dev sb) (4096 * unat (sb_bitmap_block_count sb)) \<noteq> sb_fletcher64_bitmap sb
      then 1 else 0) +
     (if unat (sb_free_blocks sb) \<noteq> card (owfs_free_set dev sb) then 1 else 0)"

lemma owfs_same_but_16:
  assumes "owfs_geometry dev sb" and "total_blocks dev' = total_blocks dev"
    and "\<And>x. x < total_blocks dev \<Longrightarrow> x \<noteq> 16 \<Longrightarrow> blk dev' x = blk dev x"
  shows "owfs_bitmap_bytes dev' sb = owfs_bitmap_bytes dev sb" and "owfs_bad_inodes dev' sb = owfs_bad_inodes dev sb"
    and "owfs_free_set dev' sb = owfs_free_set dev sb"
    and "i < unat (sb_total_inodes sb) \<Longrightarrow> owfs_inode_at dev' sb i = owfs_inode_at dev sb i"
proof -
  have g16: "16 < unat (sb_bitmap_start_block sb)" "unat (sb_bitmap_start_block sb) \<le> unat (sb_inode_table_start sb)"
    using assms(1) by (simp_all add: owfs_geometry_def)
  have b: "blk dev' (sb_bitmap_start_block sb + of_nat k) = blk dev (sb_bitmap_start_block sb + of_nat k)"
    if "k < unat (sb_bitmap_block_count sb)" for k
    using that owfs_geometryD [OF assms(1), of "32768 * k"] g16 by (intro assms(3)) auto
  then show "owfs_bitmap_bytes dev' sb = owfs_bitmap_bytes dev sb"
    unfolding owfs_bitmap_bytes_def by (intro arg_cong [where f = concat] map_cong) auto
  have "owfs_used dev' sb rel = owfs_used dev sb rel" if "rel < owfs_data_blocks sb" for rel
    using b owfs_rel_bitmap [OF assms(1) that] unfolding owfs_used_def
    by (simp add: less_mult_imp_div_less mult.commute)
  then show "owfs_free_set dev' sb = owfs_free_set dev sb" by (auto simp: owfs_free_set_def)
  have at: "owfs_inode_at dev' sb i = owfs_inode_at dev sb i" if "i < unat (sb_total_inodes sb)" for i
    using owfs_slot_block(1,2) [OF assms(1) that] g16 unfolding owfs_inode_at_def
    by (subst assms(3)) auto
  show "owfs_bad_inodes dev' sb = owfs_bad_inodes dev sb" unfolding owfs_bad_inodes_def using at by auto
  show "owfs_inode_at dev' sb i = owfs_inode_at dev sb i" if "i < unat (sb_total_inodes sb)" using at that .
qed

lemma owfs_consistency_check_count:
  assumes dev: "htl_reliable dev" and geo: "owfs_geometry dev sb" and wf: "owfs_superblock_wf sb"
    and val: "owfs_superblock_validate sb"
  defines "s \<equiv> sb\<lparr>sb_state_flags := sb_state_flags sb OR OWFS_STATE_LOCKED\<rparr>"
  shows "owfs_consistency_check dev sb =
    consistency_verdict (owfs_put_sb dev s) (owfs_sealed s) (of_nat (owfs_check_count dev sb))"
proof -
  have disk: "owfs_disk dev" by (rule owfs_geometry_disk [OF dev geo])
  define sb1 where "sb1 = owfs_sealed s"
  let ?d = "owfs_put_sb dev s"
  have wf1: "owfs_superblock_wf s" using wf by (simp add: s_def)
  note w = owfs_put_sb_props [OF disk wf1]
  have lay: "owfs_layout sb1 = owfs_layout sb" by (simp add: owfs_layout_def sb1_def s_def)
  then have f: "sb_bitmap_block_count sb1 = sb_bitmap_block_count sb" "sb_free_blocks sb1 = sb_free_blocks sb"
    "sb_total_inodes sb1 = sb_total_inodes sb" by (simp_all add: owfs_layout_def)
  have fl: "sb_fletcher64_bitmap sb1 = sb_fletcher64_bitmap sb" by (simp add: sb1_def s_def)
  note c = owfs_layout_cong [OF lay]
  have geo1: "owfs_geometry ?d sb1" using geo c(1) [of ?d] owfs_geometry_dev [OF w(4)] by simp
  have d1: "htl_reliable ?d" using w(2) by (simp add: owfs_disk_def)
  note same = owfs_same_but_16 [OF geo w(4,5)]
  have bad: "owfs_bad_inodes ?d sb1 = owfs_bad_inodes dev sb"
    using same(2) c(7) [of ?d] by (simp add: owfs_bad_inodes_def f)
  have "set (filter (\<lambda>i. i \<in> owfs_bad_inodes dev sb) [0..<unat (sb_total_inodes sb)]) = owfs_bad_inodes dev sb"
    by (auto simp: owfs_bad_inodes_def)
  then have len: "length (filter (\<lambda>i. i \<in> owfs_bad_inodes dev sb) [0..<unat (sb_total_inodes sb)]) = card (owfs_bad_inodes dev sb)"
    using distinct_card [of "filter (\<lambda>i. i \<in> owfs_bad_inodes dev sb) [0..<unat (sb_total_inodes sb)]"] by simp
  have "card (owfs_free_set dev sb) < 2 ^ 32"
    using card_owfs_free_set [of dev sb] unsigned_less [of "sb_total_blocks sb", where 'a = nat]
    by (simp add: owfs_data_blocks_def)
  then have cf: "(of_nat (card (owfs_free_set dev sb)) \<noteq> sb_free_blocks sb) = (unat (sb_free_blocks sb) \<noteq> card (owfs_free_set dev sb))"
    using unat_of_nat_small [of "card (owfs_free_set dev sb)", where 'a = 32] 
    by (auto simp: word_unat_eq_iff)
  have cnt: "owfs_bitmap_count_free ?d sb1 = (of_nat (card (owfs_free_set dev sb)), ?d)"
    using owfs_bitmap_count_free_card [OF d1 geo1] same(3) c(4) [of ?d] by simp
  have fle: "owfs_bitmap_compute_fletcher64 ?d sb1 =
      (ow_fletcher64 (owfs_bitmap_bytes dev sb) (4096 * unat (sb_bitmap_block_count sb)), ?d)"
    using owfs_bitmap_fletcher64_eq [OF d1 geo1] same(1) c(11) [of ?d] by (simp add: f)
  have scan: "consistency_scan ?d sb1 owfs_inode_zero 0 [0..<unat (sb_total_inodes sb1)] =
      (None, of_nat (card (owfs_bad_inodes dev sb)), ?d)"
    using consistency_scan_count [OF d1 geo1, of "[0..<unat (sb_total_inodes sb1)]" owfs_inode_zero 0] bad len by (simp add: f)
  show ?thesis
    using val w(1) scan cnt fle cf fl f(2)
    by (simp add: owfs_consistency_check_def s_def [symmetric] sb1_def [symmetric] owfs_check_count_def Let_def)
qed

lemma consistency_verdict_disk:
  assumes "owfs_disk dev" and "owfs_superblock_wf sb"
  shows "consistency_verdict dev sb count =
    (let sb' = sb\<lparr>sb_state_flags := if count = 0
           then sb_state_flags sb AND NOT (OWFS_STATE_DIRTY OR OWFS_STATE_LOCKED OR OWFS_STATE_ERROR)
           else sb_state_flags sb OR OWFS_STATE_ERROR\<rparr>
     in (if count = 0 then OWFS_OK else OWFS_ERR_CHECKSUM_MISMATCH, count,
         htl_flushed (owfs_put_sb dev sb'), owfs_sealed sb'))"
  using assms by (simp add: consistency_verdict_def owfs_put_sb_props owfs_flushed_props Let_def)

text \<open>The whole check, run on a superblock the caller holds: it is locked, the faults are counted, and the
  verdict is written and flushed.\<close>

lemma owfs_consistency_check_run:
  fixes dev :: "'c htl_device"
  assumes dev: "htl_reliable dev" and geo: "owfs_geometry dev sb" and wf: "owfs_superblock_wf sb" and val: "owfs_superblock_validate sb"
    and small: "owfs_check_count dev sb < 2 ^ 32"
  defines "c \<equiv> owfs_check_count dev sb" and "s \<equiv> owfs_sealed (sb\<lparr>sb_state_flags := sb_state_flags sb OR OWFS_STATE_LOCKED\<rparr>)"
  defines "t \<equiv> s\<lparr>sb_state_flags := if c = 0 then sb_state_flags s AND NOT (OWFS_STATE_DIRTY OR OWFS_STATE_LOCKED OR OWFS_STATE_ERROR)
      else sb_state_flags s OR OWFS_STATE_ERROR\<rparr>"
  shows "owfs_consistency_check dev sb = (if c = 0 then OWFS_OK else OWFS_ERR_CHECKSUM_MISMATCH, of_nat c,
      htl_flushed (owfs_put_sb (owfs_put_sb dev (sb\<lparr>sb_state_flags := sb_state_flags sb OR OWFS_STATE_LOCKED\<rparr>)) t), owfs_sealed t)"
    and "if c = 0 then clean_flags (sb_state_flags (owfs_sealed t)) else bit (sb_state_flags (owfs_sealed t)) 1 \<and> bit (sb_state_flags (owfs_sealed t)) 2"
    and "owfs_superblock_wf t"
proof -
  let ?s = "sb\<lparr>sb_state_flags := sb_state_flags sb OR OWFS_STATE_LOCKED\<rparr>"
  have wfs: "owfs_superblock_wf ?s" "owfs_superblock_wf s" using wf by (simp_all add: s_def)
  note w = owfs_put_sb_props [OF owfs_geometry_disk [OF dev geo] wfs(1)]
  have "unat (of_nat c :: u32) = c" using small by (intro unat_of_nat_small) (simp add: c_def)
  then have z: "(of_nat c :: u32) = 0 \<longleftrightarrow> c = 0" by (metis unat_eq_0)
  show "owfs_consistency_check dev sb = (if c = 0 then OWFS_OK else OWFS_ERR_CHECKSUM_MISMATCH, of_nat c,
      htl_flushed (owfs_put_sb (owfs_put_sb dev ?s) t), owfs_sealed t)"
    unfolding owfs_consistency_check_count [OF dev geo wf val, folded s_def c_def] consistency_verdict_disk [OF w(2) wfs(2)] z Let_def t_def by simp
  show "if c = 0 then clean_flags (sb_state_flags (owfs_sealed t)) else bit (sb_state_flags (owfs_sealed t)) 1 \<and> bit (sb_state_flags (owfs_sealed t)) 2"
    by (simp add: t_def s_def clean_flags_def)
  show "owfs_superblock_wf t" using wfs(2) by (simp add: t_def)
qed

section \<open>The mount protocol\<close>

text \<open>A device with a valid superblock whose layout fits it, the faults its check would count, and two devices
  that differ in the superblock only.\<close>

definition owfs_sound :: "'c htl_device \<Rightarrow> bool" where
  "owfs_sound dev \<longleftrightarrow> owfs_disk dev \<and> owfs_superblock_validate (owfs_disk_sb dev) \<and> owfs_geometry dev (owfs_disk_sb dev)"

definition owfs_faults :: "'c htl_device \<Rightarrow> nat" where
  "owfs_faults dev = owfs_check_count dev (owfs_disk_sb dev)"

definition owfs_only_sb :: "'c htl_device \<Rightarrow> 'c htl_device \<Rightarrow> bool" where
  "owfs_only_sb dev dev' \<longleftrightarrow> total_blocks dev' = total_blocks dev \<and> (\<forall>x. x < total_blocks dev \<longrightarrow> x \<noteq> 16 \<longrightarrow> blk dev' x = blk dev x)"

text \<open>Writing the superblock with other state flags or another mount count.\<close>

lemma owfs_sound_put:
  fixes dev :: "'c htl_device"
  assumes snd: "owfs_sound dev" and s: "s = (owfs_disk_sb dev)\<lparr>sb_mount_count := m, sb_state_flags := f, sb_checksum := c\<rparr>"
    and d': "d' = owfs_put_sb dev s \<or> d' = htl_flushed (owfs_put_sb dev s)"
  shows "owfs_sound d'" and "owfs_faults d' = owfs_faults dev" and "owfs_only_sb dev d'" and "owfs_disk_sb d' = owfs_sealed s"
proof -
  let ?sb = "owfs_disk_sb dev"
  from snd have disk: "owfs_disk dev" and val: "owfs_superblock_validate ?sb" and geo: "owfs_geometry dev ?sb" by (simp_all add: owfs_sound_def)
  have wf: "owfs_superblock_wf s" using owfs_disk_sb_wf [OF disk] by (simp add: s owfs_superblock_wf_def)
  note p = owfs_put_sb_props [OF disk wf] and fl = owfs_flushed_props [OF owfs_put_sb_props(2) [OF disk wf]]
  have disk': "owfs_disk d'" and tb: "total_blocks d' = total_blocks dev" using d' p(2,4) fl(2) by auto
  show sb': "owfs_disk_sb d' = owfs_sealed s" using d' p(3) fl(3) by auto
  have same: "blk d' x = blk dev x" if "x < total_blocks dev" "x \<noteq> 16" for x using d' p(4,5) fl(4) that by auto
  then show "owfs_only_sb dev d'" by (simp add: owfs_only_sb_def tb)
  have lay: "owfs_layout (owfs_sealed s) = owfs_layout ?sb" by (simp add: s owfs_layout_def)
  have "sb_magic ?sb = OWFS_MAGIC" "sb_block_size ?sb = 0x1000" using val by (simp_all add: owfs_superblock_validate_def split: if_splits)
  then have "owfs_superblock_validate (owfs_sealed s)" using owfs_sealed_validate [OF wf] by (simp add: s)
  moreover have "owfs_geometry d' (owfs_sealed s)" using geo owfs_layout_cong(1) [OF lay, of d'] owfs_geometry_dev [OF tb] by simp
  ultimately show "owfs_sound d'" using disk' by (simp add: owfs_sound_def sb')
  note k = owfs_same_but_16 [OF geo tb same] and l = owfs_layout_cong(4,7,11) [OF lay, where dev = d']
  have "sb_total_inodes (owfs_sealed s) = sb_total_inodes ?sb" by (simp add: s)
  then have "owfs_bad_inodes d' (owfs_sealed s) = owfs_bad_inodes d' ?sb" by (simp only: owfs_bad_inodes_def l)
  then show "owfs_faults d' = owfs_faults dev"
    unfolding owfs_faults_def owfs_check_count_def sb' l(1,3) using k by (simp add: s)
qed

text \<open>The check on a sound device: the verdict is the number of faults, and the marks on the device follow it.\<close>

lemma owfs_check_sound:
  fixes dev :: "'c htl_device"
  assumes snd: "owfs_sound dev" and small: "owfs_faults dev < 2 ^ 32"
  shows "\<exists>d'. owfs_consistency_check dev (owfs_disk_sb dev) =
        (if owfs_faults dev = 0 then OWFS_OK else OWFS_ERR_CHECKSUM_MISMATCH, of_nat (owfs_faults dev), d', owfs_disk_sb d') \<and>
      owfs_sound d' \<and> owfs_faults d' = owfs_faults dev \<and> owfs_only_sb dev d' \<and>
      (if owfs_faults dev = 0 then clean_flags (sb_state_flags (owfs_disk_sb d')) else bit (sb_state_flags (owfs_disk_sb d')) 1)"
proof -
  let ?sb = "owfs_disk_sb dev" and ?c = "owfs_faults dev"
  from snd have disk: "owfs_disk dev" and val: "owfs_superblock_validate ?sb" and geo: "owfs_geometry dev ?sb" by (simp_all add: owfs_sound_def)
  have rel: "htl_reliable dev" using disk by (simp add: owfs_disk_def)
  define s where "s = ?sb\<lparr>sb_state_flags := sb_state_flags ?sb OR OWFS_STATE_LOCKED\<rparr>"
  have s: "s = ?sb\<lparr>sb_mount_count := sb_mount_count ?sb, sb_state_flags := sb_state_flags ?sb OR OWFS_STATE_LOCKED, sb_checksum := sb_checksum ?sb\<rparr>"
    by (simp add: s_def)
  note p = owfs_sound_put [OF snd s disjI1 [OF refl]]
  define t where "t = owfs_sealed s\<lparr>sb_state_flags := if ?c = 0
       then sb_state_flags (owfs_sealed s) AND NOT (OWFS_STATE_DIRTY OR OWFS_STATE_LOCKED OR OWFS_STATE_ERROR)
       else sb_state_flags (owfs_sealed s) OR OWFS_STATE_ERROR\<rparr>"
  note run = owfs_consistency_check_run [OF rel geo owfs_disk_sb_wf [OF disk] val small [unfolded owfs_faults_def], folded s_def owfs_faults_def, folded t_def]
  let ?d1 = "owfs_put_sb dev s" and ?d2 = "htl_flushed (owfs_put_sb (owfs_put_sb dev s) t)"
  have t: "t = (owfs_disk_sb ?d1)\<lparr>sb_mount_count := sb_mount_count t, sb_state_flags := sb_state_flags t, sb_checksum := sb_checksum t\<rparr>"
    by (simp add: p(4) t_def)
  note q = owfs_sound_put [OF p(1) t disjI2 [OF refl]]
  have "owfs_only_sb dev ?d2" using p(3) q(3) by (simp add: owfs_only_sb_def)
  moreover have "owfs_faults ?d2 = ?c" using q(2) p(2) by simp
  moreover have "if ?c = 0 then clean_flags (sb_state_flags (owfs_sealed t)) else bit (sb_state_flags (owfs_sealed t)) 1"
    using run(2) by (auto split: if_splits)
  ultimately show ?thesis using q(1) run(1) by (intro exI [of _ ?d2], unfold q(4)) blast
qed

interpretation owfs_mp: mount_protocol owfs_mount owfs_consistency_check OWFS_OK OWFS_ERR_VOLUME_DIRTY OWFS_ERR_CHECKSUM_MISMATCH
  owfs_disk_sb sb_state_flags owfs_sound owfs_faults owfs_only_sb
proof
  fix dev :: "'c htl_device" and s0
  let ?sb = "owfs_disk_sb dev"
  assume s: "owfs_sound dev"
  then have disk: "owfs_disk dev" and val: "owfs_superblock_validate ?sb" and geo: "owfs_geometry dev ?sb" by (simp_all add: owfs_sound_def)
  note m = owfs_mount_disk [OF disk, of s0]
  show "\<exists>d'. owfs_mount dev s0 = (OWFS_OK, d', owfs_disk_sb d') \<and> owfs_sound d' \<and> owfs_faults d' = owfs_faults dev \<and> owfs_only_sb dev d' \<and>
      bit (sb_state_flags (owfs_disk_sb d')) 0 \<and> \<not> bit (sb_state_flags (owfs_disk_sb d')) 1"
    if "clean_flags (sb_state_flags ?sb)"
  proof -
    define t where "t = ?sb\<lparr>sb_mount_count := sb_mount_count ?sb + 1, sb_state_flags := sb_state_flags ?sb OR OWFS_STATE_DIRTY\<rparr>"
    have t: "t = ?sb\<lparr>sb_mount_count := sb_mount_count ?sb + 1, sb_state_flags := sb_state_flags ?sb OR OWFS_STATE_DIRTY, sb_checksum := sb_checksum ?sb\<rparr>"
      by (simp add: t_def)
    note p = owfs_sound_put [OF s t disjI1 [OF refl]]
    have "owfs_mount dev s0 = (OWFS_OK, owfs_put_sb dev t, owfs_sealed t)" using m val that by (simp add: clean_flags_def t_def Let_def)
    moreover have "bit (sb_state_flags (owfs_sealed t)) 0" "\<not> bit (sb_state_flags (owfs_sealed t)) 1" using that by (simp_all add: t_def clean_flags_def)
    ultimately show ?thesis using p by (intro exI [of _ "owfs_put_sb dev t"]) simp
  qed
  show "\<exists>d'. owfs_mount dev s0 = (OWFS_ERR_VOLUME_DIRTY, d', owfs_disk_sb d') \<and> owfs_sound d' \<and> owfs_faults d' = owfs_faults dev \<and> owfs_only_sb dev d' \<and>
      \<not> clean_flags (sb_state_flags (owfs_disk_sb d')) \<and> bit (sb_state_flags (owfs_disk_sb d')) 1 = bit (sb_state_flags ?sb) 1"
    if "\<not> clean_flags (sb_state_flags ?sb)"
  proof (cases "bit (sb_state_flags ?sb) 1")
    case True
    then have "owfs_mount dev s0 = (OWFS_ERR_VOLUME_DIRTY, dev, ?sb)" using m val by simp
    then show ?thesis using s that by (intro exI [of _ dev]) (simp add: owfs_only_sb_def)
  next
    case False
    define t where "t = ?sb\<lparr>sb_state_flags := sb_state_flags ?sb OR OWFS_STATE_LOCKED\<rparr>"
    have t: "t = ?sb\<lparr>sb_mount_count := sb_mount_count ?sb, sb_state_flags := sb_state_flags ?sb OR OWFS_STATE_LOCKED, sb_checksum := sb_checksum ?sb\<rparr>"
      by (simp add: t_def)
    note p = owfs_sound_put [OF s t disjI1 [OF refl]]
    have "owfs_mount dev s0 = (OWFS_ERR_VOLUME_DIRTY, owfs_put_sb dev t, owfs_sealed t)" using m val that False by (auto simp: clean_flags_def t_def Let_def)
    moreover have "\<not> clean_flags (sb_state_flags (owfs_sealed t))" "\<not> bit (sb_state_flags (owfs_sealed t)) 1" using False by (simp_all add: t_def clean_flags_def)
    ultimately show ?thesis using p False by (intro exI [of _ "owfs_put_sb dev t"]) simp
  qed
  show "\<exists>d'. owfs_consistency_check dev ?sb =
        (if owfs_faults dev = 0 then OWFS_OK else OWFS_ERR_CHECKSUM_MISMATCH, of_nat (owfs_faults dev), d', owfs_disk_sb d') \<and>
      owfs_sound d' \<and> owfs_faults d' = owfs_faults dev \<and> owfs_only_sb dev d' \<and>
      (if owfs_faults dev = 0 then clean_flags (sb_state_flags (owfs_disk_sb d')) else bit (sb_state_flags (owfs_disk_sb d')) 1)"
    if small: "owfs_faults dev < 2 ^ 32"
    using owfs_check_sound [OF s small] by blast
qed (auto simp: owfs_only_sb_def)

section \<open>Synchronising and mounting again\<close>

text \<open>Mounting a clean volume: nothing but the superblock changes.\<close>

lemma owfs_mount_ok:
  fixes dev :: "'c htl_device"
  assumes ok: "owfs_volume_ok dev sb" and wf: "owfs_superblock_wf sb" and val: "owfs_superblock_validate sb"
    and sb: "owfs_disk_sb dev = sb" and clean: "clean_flags (sb_state_flags sb)"
  obtains dev' sb' where "owfs_mount dev sb0 = (OWFS_OK, dev', sb')" "owfs_volume_ok dev' sb'" "owfs_is_dirty sb'"
    "owfs_layout sb' = owfs_layout sb" "sb_security_flags sb' = sb_security_flags sb"
    "sb_key_slot_1 sb' = sb_key_slot_1 sb" "sb_crypto_nonce sb' = sb_crypto_nonce sb" "owfs_only_sb dev dev'"
    "owfs_superblock_wf sb'" "sb_magic sb' = sb_magic sb" "sb_block_size sb' = sb_block_size sb" "owfs_volume_writable sb' = owfs_volume_writable sb"
proof -
  note d = owfs_volume_okD [OF ok]
  have disk: "owfs_disk dev" by (rule owfs_geometry_disk [OF d(3,4)])
  define s where "s = sb\<lparr>sb_mount_count := sb_mount_count sb + 1, sb_state_flags := sb_state_flags sb OR OWFS_STATE_DIRTY\<rparr>"
  have wfs: "owfs_superblock_wf s" using wf by (simp add: s_def)
  note p = owfs_put_sb_props [OF disk wfs]
  have run: "owfs_mount dev sb0 = (OWFS_OK, owfs_put_sb dev s, owfs_sealed s)"
    using owfs_mount_disk [OF disk, of sb0] val clean by (simp add: sb s_def Let_def clean_flags_def)
  have rel: "htl_reliable (owfs_put_sb dev s)" using p(2) by (simp add: owfs_disk_def)
  have lay: "owfs_layout (owfs_sealed s) = owfs_layout sb" by (simp add: owfs_layout_def s_def)
  have vok: "owfs_volume_ok (owfs_put_sb dev s) (owfs_sealed s)"
    using owfs_volume_ok_same_blocks(1) [OF ok rel p(4,5)] by (simp add: owfs_layout_cong(10) [OF lay])
  have dirty: "owfs_is_dirty (owfs_sealed s)" unfolding owfs_is_dirty_def state_mask_bits(2) by (simp add: s_def)
  have vw: "owfs_volume_writable (owfs_sealed s) = owfs_volume_writable sb"
    unfolding owfs_volume_writable_def state_mask_bits mask_bits by (simp add: s_def)
  show thesis by (rule that [OF run vok dirty lay])
    (use p(4,5) wfs vw in \<open>simp_all add: owfs_only_sb_def\<close>, simp_all add: s_def)
qed

text \<open>Synchronising a consistent volume leaves a device on which the check finds nothing.\<close>

lemma owfs_sync_faultless:
  fixes dev :: "'c htl_device"
  assumes ok: "owfs_volume_ok dev sb" and wf: "owfs_superblock_wf sb" and id: "sb_magic sb = OWFS_MAGIC" "sb_block_size sb = 0x1000"
    and ne: "\<not> bit (sb_state_flags sb) 1"
  obtains dev1 where "owfs_sync_changes dev sb = (OWFS_OK, dev1, owfs_disk_sb dev1)" "owfs_sound dev1" "owfs_faults dev1 = 0"
    "clean_flags (sb_state_flags (owfs_disk_sb dev1))" "owfs_only_sb dev dev1"
    "owfs_volume_ok dev1 (owfs_disk_sb dev1)" "owfs_layout (owfs_disk_sb dev1) = owfs_layout sb"
    "sb_security_flags (owfs_disk_sb dev1) = sb_security_flags sb" "sb_key_slot_1 (owfs_disk_sb dev1) = sb_key_slot_1 sb"
    "sb_crypto_nonce (owfs_disk_sb dev1) = sb_crypto_nonce sb"
proof -
  note d = owfs_volume_okD [OF ok]
  have disk: "owfs_disk dev" by (rule owfs_geometry_disk [OF d(3,4)])
  let ?f = "ow_fletcher64 (owfs_bitmap_bytes dev sb) (4096 * unat (sb_bitmap_block_count sb))"
  define s where "s = owfs_cleaned (sb\<lparr>sb_fletcher64_bitmap := ?f\<rparr>)"
  let ?d = "htl_flushed (owfs_put_sb dev s)"
  have wfs: "owfs_superblock_wf s" using wf by (simp add: s_def)
  note p = owfs_put_sb_props [OF disk wfs] and fl = owfs_flushed_props [OF owfs_put_sb_props(2) [OF disk wfs]]
  have tb: "total_blocks ?d = total_blocks dev" using p(4) by simp
  have same: "blk ?d x = blk dev x" if "x < total_blocks dev" "x \<noteq> 16" for x using fl(4) p(4,5) that by simp
  have sb': "owfs_disk_sb ?d = owfs_sealed s" using fl(3) p(3) by simp
  have lay: "owfs_layout (owfs_sealed s) = owfs_layout sb" by (simp add: owfs_layout_def s_def)
  note k = owfs_same_but_16 [OF d(4) tb same] and l = owfs_layout_cong(1,4,7,11) [OF lay, where dev = ?d]
  have ti: "sb_total_inodes (owfs_sealed s) = sb_total_inodes sb" by (simp add: s_def)
  have "owfs_bad_inodes ?d sb = {}" using k(2) d(9) by (auto simp: owfs_bad_inodes_def)
  moreover have "owfs_bad_inodes ?d (owfs_sealed s) = owfs_bad_inodes ?d sb" by (simp only: owfs_bad_inodes_def l ti)
  ultimately have bad: "owfs_bad_inodes ?d (owfs_sealed s) = {}" by simp
  have cnt: "unat (sb_free_blocks sb) = card (owfs_free_set dev sb)" using d(1) by (simp add: owfs_alloc_inv_def owfs_counted_def)
  have fa: "owfs_faults ?d = 0"
    unfolding owfs_faults_def owfs_check_count_def sb' l(2,4) bad using cnt k(1,3) by (simp add: s_def)
  have m: "sb_magic s = OWFS_MAGIC" "sb_block_size s = 0x1000" using id by (simp_all add: s_def)
  then have so: "owfs_sound ?d" using fl(2) owfs_sealed_validate [OF wfs] l(1) owfs_geometry_dev [OF tb] d(4) by (simp add: owfs_sound_def sb')
  have cl: "clean_flags (sb_state_flags (owfs_disk_sb ?d))" using ne unfolding sb' by (simp add: s_def clean_flags_def)
  have run: "owfs_sync_changes dev sb = (OWFS_OK, ?d, owfs_disk_sb ?d)" unfolding sb' unfolding owfs_sync_disk [OF d(3,4) wf] Let_def s_def by (rule refl)
  have rel: "htl_reliable ?d" using fl(2) by (simp add: owfs_disk_def)
  have vok: "owfs_volume_ok ?d (owfs_disk_sb ?d)"
    using owfs_volume_ok_same_blocks(1) [OF ok rel tb same] by (simp add: sb' owfs_layout_cong(10) [OF lay])
  have os: "owfs_only_sb dev ?d" using same tb by (simp add: owfs_only_sb_def)
  show thesis by (rule that [OF run so fa cl os vok]) (simp_all add: sb' lay, simp_all add: s_def)
qed

section \<open>Mounting, crashing and the error state\<close>

text \<open>One operation of \<^verbatim>\<open>owfs_sync.c\<close> other than the consistency check, or a crash.\<close>

inductive owfs_step ::
  "'c htl_device \<times> owfs_superblock option \<Rightarrow> volume_event \<Rightarrow> 'c htl_device \<times> owfs_superblock option \<Rightarrow> bool" where
  mount: "owfs_mount dev sb0 = (st, dev', sb') \<Longrightarrow> owfs_step (dev, m) Mount (dev', Some sb')"
| crash: "owfs_step (dev, m) Crash (dev, None)"
| mark_dirty: "owfs_mark_dirty dev sb = (st, dev', sb') \<Longrightarrow> owfs_step (dev, Some sb) Mark_dirty (dev', Some sb')"
| mark_clean: "owfs_mark_clean dev sb = (st, dev', sb') \<Longrightarrow> owfs_step (dev, Some sb) Mark_clean (dev', Some sb')"
| sync: "owfs_sync_changes dev sb = (st, dev', sb') \<Longrightarrow> owfs_step (dev, Some sb) Sync (dev', Some sb')"
| unmount: "owfs_unmount dev sb = (st, dev', sb') \<Longrightarrow> owfs_step (dev, Some sb) Unmount (dev', Some sb')"

lemma bitmap_fletcher_loop_same: "htl_reliable dev \<Longrightarrow> snd (bitmap_fletcher_loop dev sb bs s) = dev"
proof (induction bs arbitrary: s)
  case (Cons b bs)
  show ?case
    using htl_read_same [OF Cons.prems, of "sb_bitmap_start_block sb + of_nat b"]
    by (auto simp: Cons.IH [OF Cons.prems])
qed simp

text \<open>The disk and the structure in memory are marked with an error; the disk has any of the three marks.\<close>

definition owfs_erroneous :: "'c htl_device \<times> owfs_superblock option \<Rightarrow> bool" where
  "owfs_erroneous s \<longleftrightarrow> owfs_disk (fst s) \<and> bit (sb_state_flags (owfs_disk_sb (fst s))) 1 \<and>
     (case snd s of None \<Rightarrow> True | Some sb \<Rightarrow> owfs_superblock_wf sb \<and> bit (sb_state_flags sb) 1)"

definition owfs_unclean :: "'c htl_device \<times> owfs_superblock option \<Rightarrow> bool" where
  "owfs_unclean s \<longleftrightarrow> owfs_disk (fst s) \<and> \<not> clean_flags (sb_state_flags (owfs_disk_sb (fst s))) \<and>
     (case snd s of None \<Rightarrow> True | Some sb \<Rightarrow> owfs_superblock_wf sb)"

lemma owfs_erroneous_step:
  assumes "owfs_step s e s'" and "owfs_erroneous s"
  shows "owfs_erroneous s'"
  using assms
proof (cases rule: owfs_step.cases)
  case (mount dev sb0 st dev' sb' m)
  then show ?thesis
    using assms(2) owfs_mount_disk [of dev sb0] by (auto simp: owfs_erroneous_def split: if_splits)
next
  case (sync dev sb st dev' sb')
  then have dev: "owfs_disk dev" "owfs_superblock_wf sb" "bit (sb_state_flags sb) 1"
    using assms(2) by (simp_all add: owfs_erroneous_def)
  obtain fl where "owfs_bitmap_compute_fletcher64 dev sb = (fl, dev)"
    using bitmap_fletcher_loop_same [of dev sb] dev(1)
    by (metis owfs_bitmap_compute_fletcher64_def owfs_disk_def prod.collapse)
  then show ?thesis
    using sync dev by (auto simp: owfs_sync_changes_def owfs_erroneous_def owfs_put_sb_props owfs_flushed_props Let_def)
qed (auto simp: owfs_erroneous_def owfs_mark_dirty_disk owfs_unmount_disk owfs_put_sb_props Let_def)

lemma owfs_unclean_step:
  assumes "owfs_step s e s'" and "owfs_unclean s" and "e \<in> {Mount, Crash, Mark_dirty}"
  shows "owfs_unclean s'"
  using assms(1)
proof (cases rule: owfs_step.cases)
  case (mount dev sb0 st dev' sb' m)
  then show ?thesis
    using assms(2) owfs_mount_disk [of dev sb0]
    by (auto simp: owfs_unclean_def clean_flags_def Let_def owfs_put_sb_props split: if_splits)
next
  case (mark_dirty dev sb st dev' sb')
  then show ?thesis
    using assms(2) by (auto simp: owfs_unclean_def clean_flags_def Let_def owfs_mark_dirty_disk owfs_put_sb_props)
qed (use assms in \<open>auto simp: owfs_unclean_def\<close>)

lemma owfs_erroneous_unclean: "owfs_erroneous s \<Longrightarrow> owfs_unclean s"
  by (auto simp: owfs_erroneous_def owfs_unclean_def clean_flags_def split: option.splits)

interpretation owfs_life: volume_life owfs_step owfs_mount OWFS_OK owfs_disk owfs_erroneous owfs_unclean
proof
  fix d d' :: "'c htl_device" and s0 sb assume d: "owfs_disk d" and m: "owfs_mount d s0 = (OWFS_OK, d', sb)"
  show "owfs_unclean (d', Some sb)" using m owfs_mount_disk [OF d, of s0] d
    by (auto simp: owfs_unclean_def clean_flags_def Let_def owfs_put_sb_props split: if_splits)
next
  fix d :: "'c htl_device" and m s0 assume "owfs_unclean (d, m)"
  then show "fst (owfs_mount d s0) \<noteq> OWFS_OK"
    using owfs_mount_disk [of d s0] by (auto simp: owfs_unclean_def clean_flags_def Let_def split: if_splits)
qed (rule owfs_erroneous_step owfs_unclean_step owfs_erroneous_unclean; assumption)+

end
