(* ===== verification/OW_Chunk.thy ===== *)
theory OW_Chunk
  imports OW_Prelude
begin

text \<open>
  The arithmetic of a transfer that is cut at block boundaries, as the read and write loops of both
  file systems do it: a position splits into a block index and an offset, and the next piece ends
  at the block boundary or with the transfer.
\<close>

unbundle bit_operations_syntax

definition chunk_len :: "u32 \<Rightarrow> u32 \<Rightarrow> u32" where
  "chunk_len off chunk = (if chunk > 0x1000 - off then 0x1000 - off else chunk)"

lemma unat_and_FFF: "unat (x AND 0xFFF :: u32) = unat x mod 4096"
proof -
  have "x AND 0xFFF = take_bit 12 x" by (simp add: take_bit_eq_mask mask_eq_exp_minus_1)
  then show ?thesis by (simp only: unsigned_take_bit_eq) (simp add: take_bit_eq_mod)
qed

lemma unat_drop_12: "unat (drop_bit 12 x :: u32) = unat x div 4096"
  by (simp only: unsigned_drop_bit_eq) (simp add: drop_bit_eq_div take_bit_nat_eq_self unsigned_less [where 'b = 32, simplified])

lemma chunk_bounds:
  fixes x len don :: u32
  assumes "don < len"
  defines "c \<equiv> chunk_len (x AND 0xFFF) (len - don)"
  shows "unat c = min (unat len - unat don) (4096 - unat x mod 4096)" and "0 < unat c"
    and "unat (don + c) = unat don + unat c" and "unat don + unat c \<le> unat len"
proof -
  have l: "unat (len - don) = unat len - unat don" "unat don < unat len"
    using assms(1) by (simp_all add: unat_sub word_less_nat_alt word_le_nat_alt less_imp_le)
  have "x AND 0xFFF \<le> 0x1000" using unat_and_FFF [of x] by (simp add: word_le_nat_alt)
  then have o: "unat (0x1000 - (x AND 0xFFF)) = 4096 - unat x mod 4096"
    using unat_and_FFF [of x] by (simp add: unat_sub)
  show *: "unat c = min (unat len - unat don) (4096 - unat x mod 4096)"
    unfolding c_def chunk_len_def using l o by (auto simp: word_less_nat_alt min_def)
  have "unat x mod 4096 < 4096" by simp
  then show "0 < unat c" "unat don + unat c \<le> unat len" using * l by auto
  then show "unat (don + c) = unat don + unat c"
    using unsigned_less [of len, where 'a = nat] by (simp add: unat_word_ariths)
qed

lemma chunk_progress:
  fixes x len don :: u32
  assumes "don < len"
  shows "unat len - unat (don + chunk_len (x AND 0xFFF) (len - don)) < unat len - unat don"
  using chunk_bounds(2-4) [OF assms, of x] by linarith

section \<open>Concatenated blocks\<close>

lemma length_concat_4096:
  "(\<And>b. b \<in> set bs \<Longrightarrow> length (f b) = 4096) \<Longrightarrow> length (concat (map f bs)) = 4096 * length bs"
  by (induction bs) simp_all

lemma concat_4096_nth:
  assumes "\<And>b. b \<in> set bs \<Longrightarrow> length (f b) = 4096" and "p < 4096 * length bs"
  shows "concat (map f bs) ! p = f (bs ! (p div 4096)) ! (p mod 4096)"
  using assms
proof (induction bs arbitrary: p)
  case (Cons b bs)
  show ?case
  proof (cases "p < 4096")
    case False
    then have "p div 4096 = Suc ((p - 4096) div 4096)" "p mod 4096 = (p - 4096) mod 4096"
      by (simp_all add: le_div_geq le_mod_geq)
    then show ?thesis using Cons False by (simp add: nth_append)
  qed (use Cons.prems in \<open>simp add: nth_append\<close>)
qed simp

lemma window_concat_4096:
  assumes len: "\<And>b. b \<in> set bs \<Longrightarrow> length (f b) = 4096" and d: "d < length bs" and m: "m + n \<le> 4096"
    and p: "p = 4096 * d + m"
  shows "window p n (concat (map f bs)) = window m n (f (bs ! d))"
proof (rule nth_equalityI)
  have l: "length (concat (map f bs)) = 4096 * length bs" "length (f (bs ! d)) = 4096"
    using len d by (auto intro!: length_concat_4096)
  have "4096 * d + 4096 \<le> 4096 * length bs" using d by simp
  then have le: "p + n \<le> 4096 * length bs" using m p by linarith
  then show "length (window p n (concat (map f bs))) = length (window m n (f (bs ! d)))"
    using m l by simp
  fix i assume "i < length (window p n (concat (map f bs)))"
  then have i: "i < n" by simp
  have pi: "p + i < 4096 * length bs" "m + i < 4096" using le i m by linarith+
  have e: "p + i = (m + i) + d * 4096" using p by simp
  have "(p + i) div 4096 = d" "(p + i) mod 4096 = m + i"
    using pi(2) unfolding e by (simp_all only: div_mult_self1 mod_mult_self1) simp_all
  then have "concat (map f bs) ! (p + i) = f (bs ! d) ! (m + i)"
    using concat_4096_nth [where p = "p + i", OF len pi(1)] by simp
  then show "window p n (concat (map f bs)) ! i = window m n (f (bs ! d)) ! i"
    using i pi l by simp
qed

lemma overwrite_adjacent:
  "off + length ys + length zs \<le> length xs \<Longrightarrow> off' = off + length ys \<Longrightarrow>
   overwrite off' zs (overwrite off ys xs) = overwrite off (ys @ zs) xs"
  by (rule nth_equalityI) (auto simp: nth_overwrite nth_append)

lemma overwrite_nested:
  assumes "off + length ys \<le> n" and "a + n \<le> length xs"
  shows "overwrite a (overwrite off ys (window a n xs)) xs = overwrite (a + off) ys xs"
  using assms by (intro nth_equalityI) (auto simp: nth_overwrite)

lemma overwrite_Nil [simp]: "overwrite off [] xs = xs"
  by (simp add: overwrite_def)

text \<open>Replacing one of several distinct blocks.\<close>

lemma concat_4096_update:
  assumes len: "\<And>b. b \<in> set bs \<Longrightarrow> length (f b) = 4096" and bs: "distinct bs" "i < length bs"
    and g: "\<And>b. b \<in> set bs \<Longrightarrow> b \<noteq> bs ! i \<Longrightarrow> g b = f b" "g (bs ! i) = new" "length new = 4096"
  shows "concat (map g bs) = overwrite (4096 * i) new (concat (map f bs))"
proof (rule nth_equalityI)
  have lg: "length (g b) = 4096" if "b \<in> set bs" for b using g len that by metis
  have l: "length (concat (map f bs)) = 4096 * length bs" "length (concat (map g bs)) = 4096 * length bs"
    using len lg by (auto intro!: length_concat_4096)
  have le: "4096 * i + 4096 \<le> 4096 * length bs" using bs(2) by simp
  then show "length (concat (map g bs)) = length (overwrite (4096 * i) new (concat (map f bs)))"
    using l g(3) by simp
  fix p assume "p < length (concat (map g bs))"
  then have p: "p < 4096 * length bs" using l by simp
  then have d: "p div 4096 < length bs" by (simp add: less_mult_imp_div_less mult.commute)
  have "4096 * i \<le> p \<and> p < 4096 * i + 4096 \<longleftrightarrow> p div 4096 = i"
    using div_nat_eqI [of 4096 i p] times_div_less_eq_dividend [of 4096 p] dividend_less_times_div [of 4096 p]
    by (auto simp: mult.commute)
  moreover have "bs ! (p div 4096) = bs ! i \<longleftrightarrow> p div 4096 = i" using bs d by (simp add: nth_eq_iff_index_eq)
  moreover have "p div 4096 = i \<Longrightarrow> p mod 4096 = p - 4096 * i" using minus_mult_div_eq_mod [of p 4096] by simp
  ultimately show "concat (map g bs) ! p = overwrite (4096 * i) new (concat (map f bs)) ! p"
    using p d l le g concat_4096_nth [OF len p] concat_4096_nth [OF lg p] by (simp add: nth_overwrite)
qed

end
