(* ===== verification/OWFS_File.thy ===== *)
theory OWFS_File
  imports OWFS_Sync OW_Crypto OW_Chunk
begin

text \<open>
  \<^verbatim>\<open>owfs/src/owfs_file.c\<close>: reading, writing and truncating files, with optional ChaCha20 encryption
  of the data blocks. The caller's buffer is passed in and returned; \<^verbatim>\<open>out_read\<close> and \<^verbatim>\<open>out_written\<close>
  are results. The lemmas give a file its content, the concatenation of its decrypted blocks, and
  show that reading returns a window of it, that writing replaces one, and that truncating cuts
  it, while every other file keeps its content and the volume stays consistent.
\<close>

unbundle bit_operations_syntax

definition is_encrypted :: "owfs_superblock \<Rightarrow> owfs_inode \<Rightarrow> bool" where
  "is_encrypted sb inode \<longleftrightarrow>
     sb_security_flags sb AND OWFS_SEC_ENCRYPTED \<noteq> 0 \<and> ino_security_flags inode AND OWFS_SEC_ENCRYPTED \<noteq> 0"

definition crypto_xform :: "owfs_superblock \<Rightarrow> owfs_inode \<Rightarrow> bytes \<Rightarrow> u32 \<Rightarrow> bytes" where
  "crypto_xform sb inode buf block_num =
     (if is_encrypted sb inode
      then ow_chacha20_xor block_num (sb_key_slot_1 sb) (sb_crypto_nonce sb) buf 4096 else buf)"

text \<open>A successful \<^verbatim>\<open>owfs_blockmap_ensure\<close> adds one block to a file of fewer than 1034, so the loop of
  \<^verbatim>\<open>ensure_blocks\<close> ends on every device.\<close>

lemma owfs_blockmap_ensure_count:
  assumes "owfs_blockmap_ensure dev sb inode (ino_block_count inode) = (Inr b, dev', sb', inode')"
  shows "ino_block_count inode' = ino_block_count inode + 1" and "ino_block_count inode < 1034"
proof -
  have "ino_block_count inode2 = ino_block_count inode"
    if "ensure_indirect dev1 sb1 inode idx d = (res, dev2, sb2, inode2)" for dev1 :: "'a htl_device" and sb1 idx d res dev2 sb2 inode2
    using that by (auto simp: ensure_indirect_def Let_def split: if_splits prod.splits sum.splits)
  then show "ino_block_count inode' = ino_block_count inode + 1"
    using assms by (auto simp: owfs_blockmap_ensure_def split: if_splits prod.splits sum.splits)
  show "ino_block_count inode < 1034"
    using assms by (auto simp: owfs_blockmap_ensure_def split: if_splits)
qed

lemma owfs_blockmap_ensure_progress:
  "owfs_blockmap_ensure dev sb inode (ino_block_count inode) = (Inr b, dev', sb', inode') \<Longrightarrow>
   1034 - unat (ino_block_count inode') < 1034 - unat (ino_block_count inode)"
  using owfs_blockmap_ensure_count [of dev sb inode b dev' sb' inode']
  by (simp add: word_less_nat_alt unat_plus1)

function ensure_blocks ::
  "'c htl_device \<Rightarrow> owfs_superblock \<Rightarrow> owfs_inode \<Rightarrow> u32 \<Rightarrow>
   owfs_status \<times> 'c htl_device \<times> owfs_superblock \<times> owfs_inode" where
  "ensure_blocks dev sb inode last_block =
     (if ino_block_count inode \<le> last_block then
        case owfs_blockmap_ensure dev sb inode (ino_block_count inode) of
          (Inl res, dev, sb, inode) \<Rightarrow> (res, dev, sb, inode)
        | (Inr b, dev, sb, inode) \<Rightarrow> ensure_blocks dev sb inode last_block
      else (OWFS_OK, dev, sb, inode))"
  by pat_completeness auto
termination
  by (relation "measure (\<lambda>(dev, sb, inode, last). 1034 - unat (ino_block_count inode))")
    (auto dest!: sym [of "(Inr _, _)"] owfs_blockmap_ensure_progress)

function owfs_file_read_loop ::
  "'c htl_device \<Rightarrow> owfs_superblock \<Rightarrow> owfs_inode \<Rightarrow> bytes \<Rightarrow> u32 \<Rightarrow> u32 \<Rightarrow> u32 \<Rightarrow>
   owfs_status \<times> u32 \<times> bytes \<times> 'c htl_device" where
  "owfs_file_read_loop dev sb inode buf offset len don =
     (if don < len then
        let pos = offset + don;
            idx = drop_bit 12 pos;
            off = pos AND 0xFFF;
            chunk = chunk_len off (len - don)
        in case owfs_blockmap_get dev inode idx of
            (Inl res, dev) \<Rightarrow> (res, 0, buf, dev)
          | (Inr bnum, dev) \<Rightarrow>
              case htl_read_block dev bnum of (hres, block_buf, dev) \<Rightarrow>
              if hres \<noteq> HTL_OK then (OWFS_ERR_IO, 0, buf, dev)
              else
                let block_buf = crypto_xform sb inode block_buf bnum;
                    buf = ow_memcpy buf (unat don) block_buf (unat off) (unat chunk)
                in owfs_file_read_loop dev sb inode buf offset len (don + chunk)
      else (OWFS_OK, don, buf, dev))"
  by pat_completeness auto
termination
  by (relation "measure (\<lambda>(dev, sb, inode, buf, offset, len, don). unat len - unat don)")
    (auto simp: chunk_progress)

definition owfs_file_read ::
  "ow_identity \<Rightarrow> 'c htl_device \<Rightarrow> owfs_superblock \<Rightarrow> owfs_inode \<Rightarrow> bytes \<Rightarrow> u32 \<Rightarrow> u32 \<Rightarrow>
   owfs_status \<times> u32 \<times> bytes \<times> 'c htl_device" where
  "owfs_file_read g dev sb inode buf offset len =
     (if ino_entry_type inode AND OWFS_ENTRY_FILE = 0 then (OWFS_ERR_NOT_FILE, 0, buf, dev)
      else if owfs_inode_access_check g inode OW_ACCESS_READ \<noteq> OWFS_OK then
        (owfs_inode_access_check g inode OW_ACCESS_READ, 0, buf, dev)
      else if offset \<ge> ino_size_bytes inode \<or> len = 0 then (OWFS_OK, 0, buf, dev)
      else
        let len = (if len > ino_size_bytes inode - offset then ino_size_bytes inode - offset else len)
        in owfs_file_read_loop dev sb inode buf offset len 0)"

function owfs_file_write_loop ::
  "'c htl_device \<Rightarrow> owfs_superblock \<Rightarrow> owfs_inode \<Rightarrow> bytes \<Rightarrow> u32 \<Rightarrow> u32 \<Rightarrow> u32 \<Rightarrow>
   owfs_status \<times> u32 \<times> 'c htl_device" where
  "owfs_file_write_loop dev sb inode buf offset len written =
     (if written < len then
        let pos = offset + written;
            idx = drop_bit 12 pos;
            off = pos AND 0xFFF;
            chunk = chunk_len off (len - written)
        in case owfs_blockmap_get dev inode idx of
            (Inl res, dev) \<Rightarrow> (res, written, dev)
          | (Inr bnum, dev) \<Rightarrow>
              let (ready, block_buf, dev) =
                (if off = 0 \<and> chunk = 0x1000 then
                   (True, crypto_xform sb inode (window (unat written) 4096 buf) bnum, dev)
                 else case htl_read_block dev bnum of (hres, block_buf, dev) \<Rightarrow>
                   if hres \<noteq> HTL_OK then (False, block_buf, dev)
                   else
                     let block_buf = crypto_xform sb inode block_buf bnum;
                         block_buf = ow_memcpy block_buf (unat off) buf (unat written) (unat chunk)
                     in (True, crypto_xform sb inode block_buf bnum, dev))
              in
              if \<not> ready then (OWFS_ERR_IO, written, dev)
              else case htl_write_block dev bnum block_buf of (hres, dev) \<Rightarrow>
                if hres \<noteq> HTL_OK then (owfs_write_error hres, written, dev)
                else owfs_file_write_loop dev sb inode buf offset len (written + chunk)
      else (OWFS_OK, written, dev))"
  by pat_completeness auto
termination
  by (relation "measure (\<lambda>(dev, sb, inode, buf, offset, len, written). unat len - unat written)")
    (auto simp: chunk_progress)

definition owfs_file_write ::
  "ow_identity \<Rightarrow> 'c htl_device \<Rightarrow> owfs_superblock \<Rightarrow> owfs_inode \<Rightarrow> u32 \<Rightarrow> bytes \<Rightarrow> u32 \<Rightarrow> u32 \<Rightarrow>
   owfs_status \<times> u32 \<times> 'c htl_device \<times> owfs_superblock \<times> owfs_inode" where
  "owfs_file_write g dev sb inode inode_num buf offset len =
     (if ino_entry_type inode AND OWFS_ENTRY_FILE = 0 then (OWFS_ERR_NOT_FILE, 0, dev, sb, inode)
      else if len = 0 then (OWFS_OK, 0, dev, sb, inode)
      else if owfs_volume_writable sb \<noteq> OWFS_OK then (owfs_volume_writable sb, 0, dev, sb, inode)
      else if ino_security_flags inode AND OWFS_SEC_READONLY \<noteq> 0 then (OWFS_ERR_WRITE_PROTECTED, 0, dev, sb, inode)
      else if owfs_inode_access_check g inode OW_ACCESS_WRITE \<noteq> OWFS_OK then
        (owfs_inode_access_check g inode OW_ACCESS_WRITE, 0, dev, sb, inode)
      else if (ucast offset + ucast len :: u64) > 1034 * 0x1000 then (OWFS_ERR_BUFFER_TOO_SMALL, 0, dev, sb, inode)
      else if inode_num \<ge> sb_total_inodes sb then (OWFS_ERR_NOT_FOUND, 0, dev, sb, inode)
      else
        let end_pos = offset + len;
            last_block = drop_bit 12 (end_pos - 1)
        in case ensure_blocks dev sb inode last_block of (res, dev, sb, inode) \<Rightarrow>
        if res \<noteq> OWFS_OK then (res, 0, dev, sb, inode)
        else case owfs_file_write_loop dev sb inode buf offset len 0 of (failure, written, dev) \<Rightarrow>
          let new_size = offset + written;
              inode = (if new_size > ino_size_bytes inode then inode\<lparr>ino_size_bytes := new_size\<rparr> else inode)
          in case owfs_inode_write dev sb inode_num inode of (res, dev, inode) \<Rightarrow>
          if res \<noteq> OWFS_OK then (res, 0, dev, sb, inode)
          else if failure \<noteq> OWFS_OK \<and> written = 0 then (failure, written, dev, sb, inode)
          else (OWFS_OK, written, dev, sb, inode))"

definition owfs_file_truncate ::
  "ow_identity \<Rightarrow> 'c htl_device \<Rightarrow> owfs_superblock \<Rightarrow> owfs_inode \<Rightarrow> u32 \<Rightarrow> u32 \<Rightarrow>
   owfs_status \<times> 'c htl_device \<times> owfs_superblock \<times> owfs_inode" where
  "owfs_file_truncate g dev sb inode inode_num new_size =
     (if ino_entry_type inode AND OWFS_ENTRY_FILE = 0 then (OWFS_ERR_NOT_FILE, dev, sb, inode)
      else if owfs_volume_writable sb \<noteq> OWFS_OK then (owfs_volume_writable sb, dev, sb, inode)
      else if ino_security_flags inode AND OWFS_SEC_READONLY \<noteq> 0 then (OWFS_ERR_WRITE_PROTECTED, dev, sb, inode)
      else if owfs_inode_access_check g inode OW_ACCESS_WRITE \<noteq> OWFS_OK then
        (owfs_inode_access_check g inode OW_ACCESS_WRITE, dev, sb, inode)
      else if new_size \<ge> ino_size_bytes inode then (OWFS_OK, dev, sb, inode)
      else if inode_num \<ge> sb_total_inodes sb then (OWFS_ERR_NOT_FOUND, dev, sb, inode)
      else
        let new_blocks = drop_bit 12 new_size;
            new_blocks = (if new_size AND 0xFFF \<noteq> 0 then new_blocks + 1 else new_blocks)
        in case (if new_blocks < ino_block_count inode then owfs_blockmap_release dev sb inode new_blocks
                 else (OWFS_OK, dev, sb, inode)) of (res, dev, sb, inode) \<Rightarrow>
        if res \<noteq> OWFS_OK then (res, dev, sb, inode)
        else case owfs_inode_write dev sb inode_num (inode\<lparr>ino_size_bytes := new_size\<rparr>) of
          (res, dev, inode) \<Rightarrow> (res, dev, sb, inode))"

declare ensure_blocks.simps [simp del] owfs_file_read_loop.simps [simp del] owfs_file_write_loop.simps [simp del]

section \<open>The content of a file\<close>

definition owfs_plain :: "'c htl_device \<Rightarrow> owfs_superblock \<Rightarrow> owfs_inode \<Rightarrow> u32 \<Rightarrow> bytes" where
  "owfs_plain dev sb inode b = crypto_xform sb inode (blk dev b) b"

definition owfs_content :: "'c htl_device \<Rightarrow> owfs_superblock \<Rightarrow> owfs_inode \<Rightarrow> bytes" where
  "owfs_content dev sb inode = concat (map (owfs_plain dev sb inode) (owfs_blocks dev inode))"

lemma length_crypto_xform [simp]: "length buf = 4096 \<Longrightarrow> length (crypto_xform sb inode buf b) = 4096"
  by (simp add: crypto_xform_def)

lemma crypto_xform_involution [simp]:
  "length buf = 4096 \<Longrightarrow> crypto_xform sb inode (crypto_xform sb inode buf b) b = buf"
  by (simp add: crypto_xform_def ow_chacha20_xor_involution)

lemma owfs_file_block:
  assumes "owfs_alloc_inv dev sb" and "owfs_map_ok dev sb inode" and "b \<in> set (owfs_blocks dev inode)"
  shows "b \<in> owfs_region sb" and "b < total_blocks dev" and "length (blk dev b) = 4096"
    and "length (owfs_plain dev sb inode b) = 4096"
proof -
  note d = owfs_map_okD [OF assms(1,2)]
  show r: "b \<in> owfs_region sb" using assms(3) d(5,6) by (auto simp: owfs_owned_def)
  from owfs_region_outside [OF d(2) r] show t: "b < total_blocks dev" by simp
  then show "length (blk dev b) = 4096" by (rule length_blk [OF d(1)])
  then show "length (owfs_plain dev sb inode b) = 4096" by (simp add: owfs_plain_def)
qed

lemma length_owfs_content:
  "owfs_alloc_inv dev sb \<Longrightarrow> owfs_map_ok dev sb inode \<Longrightarrow>
   length (owfs_content dev sb inode) = 4096 * unat (ino_block_count inode)"
  unfolding owfs_content_def by (subst length_concat_4096) (simp_all add: owfs_file_block)

lemma owfs_content_window:
  assumes "owfs_alloc_inv dev sb" and "owfs_map_ok dev sb inode" and "i < unat (ino_block_count inode)"
    and "m + n \<le> 4096" and "p = 4096 * i + m"
  shows "window p n (owfs_content dev sb inode) = window m n (owfs_plain dev sb inode (owfs_blocks dev inode ! i))"
  unfolding owfs_content_def
  by (rule window_concat_4096) (use assms in \<open>simp_all add: owfs_file_block\<close>)

section \<open>Reading\<close>

lemma owfs_file_read_loop_ok:
  assumes inv: "owfs_alloc_inv dev sb" and map: "owfs_map_ok dev sb inode"
    and fit: "unat offset + unat len \<le> 4096 * unat (ino_block_count inode)"
  shows "don \<le> len \<Longrightarrow> unat len \<le> length buf \<Longrightarrow> owfs_file_read_loop dev sb inode buf offset len don =
    (OWFS_OK, len, overwrite (unat don) (window (unat offset + unat don) (unat len - unat don) (owfs_content dev sb inode)) buf, dev)"
proof (induction "unat len - unat don" arbitrary: don buf rule: less_induct)
  case less
  note d = owfs_map_okD [OF inv map]
  show ?case
  proof (cases "don < len")
    case False
    then have "don = len" using less.prems by simp
    then show ?thesis by (simp add: owfs_file_read_loop.simps)
  next
    case True
    let ?pos = "offset + don"
    define c where "c = chunk_len (?pos AND 0xFFF) (len - don)"
    note cb = chunk_bounds [OF True, of ?pos, folded c_def]
    have "unat offset + unat don < 2 ^ 32"
    proof -
      have "unat don < unat len" using True by (simp add: word_less_nat_alt)
      then have "unat offset + unat don < 4096 * 1034" using fit d(7) by linarith
      then show ?thesis by simp
    qed
    then have pos: "unat ?pos = unat offset + unat don" by (simp add: unat_word_ariths)
    let ?i = "unat ?pos div 4096" and ?m = "unat ?pos mod 4096"
    have i: "?i < unat (ino_block_count inode)"
      using fit cb(2,4) pos by (intro less_mult_imp_div_less) linarith
    then have get: "owfs_blockmap_get dev inode (drop_bit 12 ?pos) = (Inr (owfs_blocks dev inode ! ?i), dev)"
      using owfs_blockmap_get_ok [OF inv map, of "drop_bit 12 ?pos"] by (simp only: word_less_nat_alt unat_drop_12)
    let ?b = "owfs_blocks dev inode ! ?i"
    have b: "?b \<in> set (owfs_blocks dev inode)" using i by simp
    note fb = owfs_file_block [OF inv map b]
    have mc: "?m + unat c \<le> 4096" using cb(1) mod_less_divisor [of 4096 "unat ?pos"] by linarith
    let ?w = "window ?m (unat c) (owfs_plain dev sb inode ?b)"
    have w: "?w = window (unat ?pos) (unat c) (owfs_content dev sb inode)"
      by (rule owfs_content_window [OF inv map i mc, symmetric]) simp
    have buf: "ow_memcpy buf (unat don) (owfs_plain dev sb inode ?b) ?m (unat c) = overwrite (unat don) ?w buf"
      using mc fb(4) cb(4) less.prems(2) by (intro ow_memcpy_eq) linarith+
    have lw: "length ?w = unat c" using mc fb(4) by simp
    have le: "don + c \<le> len" "unat len \<le> length (overwrite (unat don) ?w buf)"
      using cb(3,4) less.prems(2) lw by (simp_all add: word_le_nat_alt)
    have step: "owfs_file_read_loop dev sb inode buf offset len don =
        owfs_file_read_loop dev sb inode (overwrite (unat don) ?w buf) offset len (don + c)"
      using True fb(2) d(1) buf
      by (subst owfs_file_read_loop.simps)
        (simp add: Let_def get htl_read_reliable c_def [symmetric] unat_and_FFF owfs_plain_def)
    have IH: "owfs_file_read_loop dev sb inode (overwrite (unat don) ?w buf) offset len (don + c) =
      (OWFS_OK, len, overwrite (unat (don + c)) (window (unat offset + unat (don + c)) (unat len - unat (don + c))
         (owfs_content dev sb inode)) (overwrite (unat don) ?w buf), dev)"
      using cb(2-4) le by (intro less.hyps) simp_all
    have "?w @ window (unat offset + unat (don + c)) (unat len - unat (don + c)) (owfs_content dev sb inode) =
        window (unat offset + unat don) (unat len - unat don) (owfs_content dev sb inode)"
      unfolding w by (subst window_join) (use cb(3,4) pos in simp_all)
    then show ?thesis
      unfolding step IH using lw cb(3,4) fit less.prems(2) length_owfs_content [OF inv map]
      by (subst overwrite_adjacent) auto
  qed
qed

text \<open>Reading returns the window of the content that lies below the file size.\<close>

lemma owfs_file_read_ok:
  fixes offset len :: u32
  assumes inv: "owfs_alloc_inv dev sb" and map: "owfs_map_ok dev sb inode"
    and size: "unat (ino_size_bytes inode) \<le> 4096 * unat (ino_block_count inode)"
    and ty: "ino_entry_type inode AND OWFS_ENTRY_FILE \<noteq> 0"
    and acc: "owfs_inode_access_check g inode OW_ACCESS_READ = OWFS_OK" and buf: "unat len \<le> length buf"
  defines "n \<equiv> min (unat len) (unat (ino_size_bytes inode) - unat offset)"
  shows "owfs_file_read g dev sb inode buf offset len =
    (OWFS_OK, of_nat n, overwrite 0 (window (unat offset) n (owfs_content dev sb inode)) buf, dev)"
proof (cases "ino_size_bytes inode \<le> offset \<or> len = 0")
  case True
  then have "n = 0" by (auto simp: n_def word_le_nat_alt)
  then show ?thesis using True ty acc by (simp add: owfs_file_read_def)
next
  case False
  define l where "l = (if len > ino_size_bytes inode - offset then ino_size_bytes inode - offset else len)"
  from False have s: "unat (ino_size_bytes inode - offset) = unat (ino_size_bytes inode) - unat offset"
    "unat offset < unat (ino_size_bytes inode)"
    by (auto simp: unat_sub word_le_nat_alt)
  then have u: "unat l = n" by (auto simp: l_def n_def word_less_nat_alt)
  then have of: "of_nat n = l" by (metis of_nat_unat ucast_id)
  have fit: "unat offset + unat l \<le> 4096 * unat (ino_block_count inode)" "unat l \<le> length buf"
    using s(2) size buf u n_def by auto
  have "owfs_file_read g dev sb inode buf offset len = owfs_file_read_loop dev sb inode buf offset l 0"
    using False ty acc by (simp add: owfs_file_read_def Let_def l_def)
  then show ?thesis
    using owfs_file_read_loop_ok [OF inv map fit(1), of 0 buf] fit(2) by (simp add: of u)
qed

section \<open>Writing\<close>

lemma owfs_write_data_block:
  assumes inv: "owfs_alloc_inv dev sb" and map: "owfs_map_ok dev sb inode"
    and i: "i < unat (ino_block_count inode)" and len: "length new = 4096"
  defines "b \<equiv> owfs_blocks dev inode ! i"
  defines "dev' \<equiv> blk_write dev b (crypto_xform sb inode new b)"
  shows "htl_write_block dev b (crypto_xform sb inode new b) = (HTL_OK, dev')"
    and "owfs_alloc_inv dev' sb" and "owfs_map_ok dev' sb inode" and "owfs_blocks dev' inode = owfs_blocks dev inode"
    and "owfs_allocated dev' sb = owfs_allocated dev sb" and "owfs_frame sb (set (owfs_blocks dev inode)) dev dev'"
    and "owfs_content dev' sb inode = overwrite (4096 * i) new (owfs_content dev sb inode)"
proof -
  note d = owfs_map_okD [OF inv map]
  have b: "b \<in> set (owfs_blocks dev inode)" using i by (simp add: b_def)
  note fb = owfs_file_block [OF inv map b]
  have len': "length (crypto_xform sb inode new b) = 4096" using len by simp
  note w = owfs_alloc_inv_region_write [OF inv fb(1) len', folded dev'_def]
  show "htl_write_block dev b (crypto_xform sb inode new b) = (HTL_OK, dev')" "owfs_alloc_inv dev' sb"
    "owfs_allocated dev' sb = owfs_allocated dev sb" by (rule w(1) w(2) w(3))+
  show "owfs_frame sb (set (owfs_blocks dev inode)) dev dev'" by (rule owfs_frame_mono [OF w(4)]) (use b in simp)
  have ind: "10 < unat (ino_block_count inode) \<Longrightarrow> ino_indirect_block inode \<notin> {b}"
    using owfs_indirect_owned(5) [OF inv map] b by auto
  note bl = owfs_blocks_frame [OF inv map w(4) ind]
  show "owfs_blocks dev' inode = owfs_blocks dev inode" by (rule bl(1))
  show "owfs_map_ok dev' sb inode" using map bl w(3) by (simp add: owfs_map_ok_def)
  have same: "blk dev' x = blk dev x" if "x \<in> set (owfs_blocks dev inode)" "x \<noteq> b" for x
    using owfs_frameD [OF w(4) d(2)] owfs_file_block(1) [OF inv map that(1)] that(2) by simp
  have c: "owfs_content dev' sb inode = concat (map (owfs_plain dev' sb inode) (owfs_blocks dev inode))"
    by (simp add: owfs_content_def bl(1))
  show "owfs_content dev' sb inode = overwrite (4096 * i) new (owfs_content dev sb inode)"
    unfolding c unfolding owfs_content_def
  proof (rule concat_4096_update)
    show "owfs_plain dev' sb inode (owfs_blocks dev inode ! i) = new"
      using w(5) len by (simp add: owfs_plain_def b_def [symmetric])
    show "owfs_plain dev' sb inode x = owfs_plain dev sb inode x"
      if "x \<in> set (owfs_blocks dev inode)" "x \<noteq> owfs_blocks dev inode ! i" for x
      using same that by (simp add: owfs_plain_def b_def)
  qed (use d(8) i len owfs_file_block(4) [OF inv map] in simp_all)
qed

text \<open>One turn of the write loop replaces a piece of the content.\<close>

lemma owfs_file_write_loop_step:
  assumes inv: "owfs_alloc_inv dev sb" and map: "owfs_map_ok dev sb inode"
    and fit: "unat offset + unat len \<le> 4096 * unat (ino_block_count inode)" and lt: "written < len"
    and buf: "unat len \<le> length buf"
  defines "c \<equiv> chunk_len ((offset + written) AND 0xFFF) (len - written)"
  shows "\<exists>dev'. owfs_file_write_loop dev sb inode buf offset len written =
      owfs_file_write_loop dev' sb inode buf offset len (written + c) \<and>
    owfs_alloc_inv dev' sb \<and> owfs_map_ok dev' sb inode \<and> owfs_blocks dev' inode = owfs_blocks dev inode \<and>
    owfs_allocated dev' sb = owfs_allocated dev sb \<and> owfs_frame sb (set (owfs_blocks dev inode)) dev dev' \<and>
    owfs_content dev' sb inode = overwrite (unat offset + unat written) (window (unat written) (unat c) buf) (owfs_content dev sb inode)"
proof -
  note d = owfs_map_okD [OF inv map]
  let ?pos = "offset + written"
  note cb = chunk_bounds [OF lt, of ?pos, folded c_def]
  have "unat written < unat len" using lt by (simp add: word_less_nat_alt)
  then have "unat offset + unat written < 4096 * 1034" using fit d(7) by linarith
  then have pos: "unat ?pos = unat offset + unat written" by (simp add: unat_word_ariths)
  define i m where "i = unat ?pos div 4096" and "m = unat ?pos mod 4096"
  have im: "unat ?pos = 4096 * i + m" by (simp add: i_def m_def)
  have i: "i < unat (ino_block_count inode)"
    unfolding i_def using fit cb(2,4) pos by (intro less_mult_imp_div_less) linarith
  have get: "owfs_blockmap_get dev inode (drop_bit 12 ?pos) = (Inr (owfs_blocks dev inode ! i), dev)"
    using owfs_blockmap_get_ok [OF inv map, of "drop_bit 12 ?pos"] i unfolding i_def
    by (simp only: word_less_nat_alt unat_drop_12)
  let ?b = "owfs_blocks dev inode ! i"
  have "?b \<in> set (owfs_blocks dev inode)" using i by simp
  note fb = owfs_file_block [OF inv map this]
  have mc: "m + unat c \<le> 4096" unfolding m_def using cb(1) mod_less_divisor [of 4096 "unat ?pos"] by linarith
  have u: "unat (?pos AND 0xFFF) = m" by (simp add: unat_and_FFF m_def)
  let ?new = "overwrite m (window (unat written) (unat c) buf) (owfs_plain dev sb inode ?b)"
  have lw: "length (window (unat written) (unat c) buf) = unat c" using cb(4) buf by simp
  then have ln: "length ?new = 4096" using mc fb(4) by simp
  note w = owfs_write_data_block [OF inv map i ln]
  let ?dev' = "blk_write dev ?b (crypto_xform sb inode ?new ?b)"
  have cp: "ow_memcpy (owfs_plain dev sb inode ?b) m buf (unat written) (unat c) = ?new"
    using mc fb(4) cb(4) buf by (intro ow_memcpy_eq) linarith+
  have full: "?new = window (unat written) 4096 buf" if "?pos AND 0xFFF = 0" "c = 0x1000"
    using that u fb(4) lw by (simp add: overwrite_def)
  have c0: "?pos AND 0xFFF = 0 \<Longrightarrow> chunk_len 0 (len - written) = c" by (simp add: c_def)
  have step: "owfs_file_write_loop dev sb inode buf offset len written =
      owfs_file_write_loop ?dev' sb inode buf offset len (written + c)"
    using lt w(1) fb(2) d(1) cp full c0
    by (subst owfs_file_write_loop.simps)
      (auto simp: Let_def get htl_read_reliable c_def [symmetric] u owfs_plain_def [symmetric])
  have "4096 * i + 4096 \<le> length (owfs_content dev sb inode)"
    using length_owfs_content [OF inv map] i by simp
  then have "overwrite (4096 * i) ?new (owfs_content dev sb inode) =
      overwrite (unat offset + unat written) (window (unat written) (unat c) buf) (owfs_content dev sb inode)"
    using overwrite_nested [of m "window (unat written) (unat c) buf" 4096 "4096 * i" "owfs_content dev sb inode"]
      owfs_content_window [OF inv map i, of 0 4096] mc lw fb(4) im pos
    by (simp add: window_all)
  with w step show ?thesis by metis
qed

lemma owfs_file_write_loop_ok:
  assumes "owfs_alloc_inv dev sb" and "owfs_map_ok dev sb inode"
    and fit: "unat offset + unat len \<le> 4096 * unat (ino_block_count inode)" and buf: "unat len \<le> length buf"
    and "written \<le> len"
  shows "\<exists>dev'. owfs_file_write_loop dev sb inode buf offset len written = (OWFS_OK, len, dev') \<and>
    owfs_alloc_inv dev' sb \<and> owfs_map_ok dev' sb inode \<and> owfs_blocks dev' inode = owfs_blocks dev inode \<and>
    owfs_allocated dev' sb = owfs_allocated dev sb \<and> owfs_frame sb (set (owfs_blocks dev inode)) dev dev' \<and>
    owfs_content dev' sb inode = overwrite (unat offset + unat written)
      (window (unat written) (unat len - unat written) buf) (owfs_content dev sb inode)"
  using assms(1,2,5)
proof (induction "unat len - unat written" arbitrary: dev written rule: less_induct)
  case less
  show ?case
  proof (cases "written < len")
    case False
    then have "written = len" using less.prems by simp
    then show ?thesis using less.prems by (simp add: owfs_file_write_loop.simps)
  next
    case True
    let ?c = "chunk_len ((offset + written) AND 0xFFF) (len - written)"
    note cb = chunk_bounds [OF True, of "offset + written"]
    obtain dev1 where s: "owfs_file_write_loop dev sb inode buf offset len written =
        owfs_file_write_loop dev1 sb inode buf offset len (written + ?c)"
      "owfs_alloc_inv dev1 sb" "owfs_map_ok dev1 sb inode" "owfs_blocks dev1 inode = owfs_blocks dev inode"
      "owfs_allocated dev1 sb = owfs_allocated dev sb" "owfs_frame sb (set (owfs_blocks dev inode)) dev dev1"
      "owfs_content dev1 sb inode = overwrite (unat offset + unat written) (window (unat written) (unat ?c) buf) (owfs_content dev sb inode)"
      using owfs_file_write_loop_step [OF less.prems(1,2) fit True buf] by blast
    have le: "written + ?c \<le> len" using cb(3,4) by (simp add: word_le_nat_alt)
    obtain dev' where r: "owfs_file_write_loop dev1 sb inode buf offset len (written + ?c) = (OWFS_OK, len, dev')"
      "owfs_alloc_inv dev' sb" "owfs_map_ok dev' sb inode" "owfs_blocks dev' inode = owfs_blocks dev1 inode"
      "owfs_allocated dev' sb = owfs_allocated dev1 sb" "owfs_frame sb (set (owfs_blocks dev1 inode)) dev1 dev'"
      "owfs_content dev' sb inode = overwrite (unat offset + unat (written + ?c))
        (window (unat (written + ?c)) (unat len - unat (written + ?c)) buf) (owfs_content dev1 sb inode)"
      using less.hyps [OF chunk_progress [OF True] s(2,3) le] by blast
    have "window (unat written) (unat ?c) buf @ window (unat (written + ?c)) (unat len - unat (written + ?c)) buf =
        window (unat written) (unat len - unat written) buf"
      by (subst window_join) (use cb(3,4) in simp_all)
    moreover have "length (window (unat written) (unat ?c) buf) = unat ?c" using cb(4) buf by simp
    ultimately have "owfs_content dev' sb inode = overwrite (unat offset + unat written)
        (window (unat written) (unat len - unat written) buf) (owfs_content dev sb inode)"
      using r(7) s(7) cb(3,4) fit length_owfs_content [OF less.prems(1,2)] buf by (simp add: overwrite_adjacent)
    moreover have "owfs_frame sb (set (owfs_blocks dev inode)) dev dev'"
      using owfs_frame_trans [OF s(6) r(6)] s(4) by simp
    ultimately show ?thesis using r s by auto
  qed
qed

text \<open>A file extended by the blocks \<open>new\<close>, all of them fresh and zeroed.\<close>

definition owfs_extended ::
  "'c htl_device \<Rightarrow> owfs_superblock \<Rightarrow> owfs_inode \<Rightarrow> u32 list \<Rightarrow> 'c htl_device \<Rightarrow> owfs_superblock \<Rightarrow> owfs_inode \<Rightarrow> bool"
  where
  "owfs_extended dev sb inode new dev' sb' inode' \<longleftrightarrow>
     owfs_alloc_inv dev' sb' \<and> owfs_map_ok dev' sb' inode' \<and>
     owfs_blocks dev' inode' = owfs_blocks dev inode @ new \<and>
     set new \<subseteq> owfs_region sb - owfs_allocated dev sb \<and> (\<forall>b\<in>set new. blk dev' b = replicate 4096 0) \<and>
     owfs_allocated dev' sb' = owfs_allocated dev sb \<union> owfs_owned dev' inode' \<and>
     owfs_frame sb (owfs_grow_set dev sb inode) dev dev' \<and>
     owfs_owned dev' inode' \<subseteq> owfs_owned dev inode \<union> (owfs_region sb - owfs_allocated dev sb) \<and>
     (10 < ino_block_count inode \<longrightarrow> ino_indirect_block inode' = ino_indirect_block inode) \<and>
     sb' = sb\<lparr>sb_free_blocks := sb_free_blocks sb'\<rparr> \<and>
     inode' = inode\<lparr>ino_direct_blocks := ino_direct_blocks inode', ino_indirect_block := ino_indirect_block inode',
                    ino_block_count := ino_block_count inode'\<rparr>"

lemma owfs_extended_refl:
  assumes "owfs_alloc_inv dev sb" and "owfs_map_ok dev sb inode"
  shows "owfs_extended dev sb inode [] dev sb inode"
  using assms owfs_map_okD(5) [OF assms] by (auto simp: owfs_extended_def)

lemma owfs_extended_step:
  assumes inv: "owfs_alloc_inv dev sb" and map: "owfs_map_ok dev sb inode"
    and g: "owfs_grown dev sb inode b dev1 sb1 inode1"
    and e: "owfs_extended dev1 sb1 inode1 new dev' sb' inode'"
  shows "owfs_extended dev sb inode (b # new) dev' sb' inode'"
proof -
  from g have g1: "owfs_alloc_inv dev1 sb1" "owfs_map_ok dev1 sb1 inode1"
    "owfs_blocks dev1 inode1 = owfs_blocks dev inode @ [b]" "b \<in> owfs_region sb - owfs_allocated dev sb"
    "blk dev1 b = replicate 4096 0" "owfs_allocated dev1 sb1 = owfs_allocated dev sb \<union> owfs_owned dev1 inode1"
    "owfs_frame sb (owfs_grow_set dev sb inode) dev dev1"
    "owfs_owned dev1 inode1 \<subseteq> owfs_owned dev inode \<union> (owfs_region sb - owfs_allocated dev sb)"
    "10 < ino_block_count inode \<longrightarrow> ino_indirect_block inode1 = ino_indirect_block inode"
    and sb1: "sb1 = sb\<lparr>sb_free_blocks := sb_free_blocks sb1\<rparr>"
    and inode1: "inode1 = inode\<lparr>ino_direct_blocks := ino_direct_blocks inode1, ino_indirect_block := ino_indirect_block inode1,
                    ino_block_count := ino_block_count inode + 1\<rparr>"
    by (simp_all add: owfs_grown_def)
  from e have e1: "owfs_blocks dev' inode' = owfs_blocks dev1 inode1 @ new"
    "set new \<subseteq> owfs_region sb1 - owfs_allocated dev1 sb1" "\<forall>b\<in>set new. blk dev' b = replicate 4096 0"
    "owfs_allocated dev' sb' = owfs_allocated dev1 sb1 \<union> owfs_owned dev' inode'"
    "owfs_frame sb1 (owfs_grow_set dev1 sb1 inode1) dev1 dev'"
    "owfs_owned dev' inode' \<subseteq> owfs_owned dev1 inode1 \<union> (owfs_region sb1 - owfs_allocated dev1 sb1)"
    "10 < ino_block_count inode1 \<longrightarrow> ino_indirect_block inode' = ino_indirect_block inode1"
    and sb': "sb' = sb1\<lparr>sb_free_blocks := sb_free_blocks sb'\<rparr>"
    and inode': "inode' = inode1\<lparr>ino_direct_blocks := ino_direct_blocks inode', ino_indirect_block := ino_indirect_block inode',
                    ino_block_count := ino_block_count inode'\<rparr>"
    by (simp_all add: owfs_extended_def)
  note d = owfs_map_okD [OF inv map] and d1 = owfs_map_okD [OF g1(1,2)]
  have cong: "owfs_region sb1 = owfs_region sb" "owfs_frame sb1 = owfs_frame sb" by (subst sb1, simp)+
  have n1: "unat (ino_block_count inode1) = Suc (unat (ino_block_count inode))"
    using arg_cong [OF g1(3), of length] by simp
  then have gt: "10 < ino_block_count inode \<Longrightarrow> 10 < ino_block_count inode1" by (simp add: word_less_nat_alt)
  have ind1: "ino_indirect_block inode1 \<in> owfs_grow_set dev sb inode" if "10 < ino_block_count inode1"
  proof (cases "10 < ino_block_count inode")
    case True
    then show ?thesis using g1(9) by (simp add: owfs_grow_set_def)
  next
    case False
    then have "owfs_owned dev inode = set (owfs_blocks dev inode)" by (simp add: owfs_owned_def)
    moreover have "ino_indirect_block inode1 \<in> owfs_owned dev1 inode1" using that by (simp add: owfs_owned_def)
    moreover have "ino_indirect_block inode1 \<notin> set (owfs_blocks dev1 inode1)"
      using g1(2) that by (simp add: owfs_map_ok_def)
    ultimately show ?thesis using g1(3,8) by (auto simp: owfs_grow_set_def)
  qed
  have sub: "owfs_grow_set dev1 sb1 inode1 \<subseteq> owfs_grow_set dev sb inode"
    using ind1 g1(6) by (auto simp: owfs_grow_set_def cong split: if_splits)
  have fr: "owfs_frame sb (owfs_grow_set dev sb inode) dev dev'"
    by (rule owfs_frame_mono [OF owfs_frame_trans [OF g1(7) e1(5) [unfolded cong]]]) (use sub in auto)
  have "b \<in> set (owfs_blocks dev1 inode1)" using g1(3) by simp
  then have b1: "b \<in> owfs_region sb1 - owfs_grow_set dev1 sb1 inode1"
    using d1(5,6) g1(2) by (auto simp: owfs_grow_set_def owfs_owned_def owfs_map_ok_def)
  have zb: "blk dev' b = replicate 4096 0"
    using owfs_frameD [OF e1(5) d1(2) b1] g1(5) by simp
  have "owfs_owned dev1 inode1 \<subseteq> owfs_owned dev' inode'"
  proof -
    have "set (owfs_blocks dev1 inode1) \<subseteq> owfs_owned dev' inode'" using e1(1) by (auto simp: owfs_owned_def)
    moreover have "10 < ino_block_count inode1 \<Longrightarrow> 10 < ino_block_count inode'"
      using arg_cong [OF e1(1), of length] by (simp add: word_less_nat_alt)
    ultimately show ?thesis using e1(7) by (auto simp: owfs_owned_def)
  qed
  then have "owfs_allocated dev' sb' = owfs_allocated dev sb \<union> owfs_owned dev' inode'"
    using e1(4) g1(6) by blast
  moreover have "owfs_alloc_inv dev' sb'" "owfs_map_ok dev' sb' inode'" using e by (simp_all add: owfs_extended_def)
  moreover have "owfs_blocks dev' inode' = owfs_blocks dev inode @ b # new" using e1(1) g1(3) by simp
  moreover have "set (b # new) \<subseteq> owfs_region sb - owfs_allocated dev sb" using g1(4,6) e1(2) unfolding cong by auto
  moreover have "\<forall>b\<in>set (b # new). blk dev' b = replicate 4096 0" using zb e1(3) by simp
  moreover have "owfs_owned dev' inode' \<subseteq> owfs_owned dev inode \<union> (owfs_region sb - owfs_allocated dev sb)"
    using e1(6) g1(6,8) unfolding cong by blast
  moreover have "sb' = sb\<lparr>sb_free_blocks := sb_free_blocks sb'\<rparr>" by (subst sb', subst sb1) simp
  moreover have "inode' = inode\<lparr>ino_direct_blocks := ino_direct_blocks inode', ino_indirect_block := ino_indirect_block inode',
                    ino_block_count := ino_block_count inode'\<rparr>"
    by (subst inode', subst inode1) simp
  moreover have "10 < ino_block_count inode \<longrightarrow> ino_indirect_block inode' = ino_indirect_block inode"
    using gt g1(9) e1(7) by auto
  ultimately show ?thesis
    unfolding owfs_extended_def using fr by (intro conjI) assumption+
qed

lemma ensure_blocks_ok:
  "owfs_alloc_inv dev sb \<Longrightarrow> owfs_map_ok dev sb inode \<Longrightarrow>
   ensure_blocks dev sb inode last_block = (OWFS_OK, dev', sb', inode') \<Longrightarrow>
   \<exists>new. owfs_extended dev sb inode new dev' sb' inode' \<and> last_block < ino_block_count inode'"
proof (induction dev sb inode last_block rule: ensure_blocks.induct)
  case (1 dev sb inode last_block)
  show ?case
  proof (cases "ino_block_count inode \<le> last_block")
    case False
    with 1 show ?thesis
      using owfs_extended_refl by (auto simp: ensure_blocks.simps [of dev] not_le)
  next
    case True
    obtain r dev1 sb1 inode1 where e: "owfs_blockmap_ensure dev sb inode (ino_block_count inode) = (r, dev1, sb1, inode1)"
      by (cases "owfs_blockmap_ensure dev sb inode (ino_block_count inode)")
    show ?thesis
    proof (cases r)
      case (Inl x)
      with e 1(4) True have "x = OWFS_OK" by (simp add: ensure_blocks.simps [of dev])
      moreover have "owfs_volume_writable sb \<noteq> OWFS_OK \<or> x = OWFS_ERR_NO_FREE_BLOCKS"
        using owfs_blockmap_ensure_full [OF 1(2,3)] e Inl by blast
      moreover have "owfs_volume_writable sb \<noteq> OWFS_OK \<Longrightarrow> x \<noteq> OWFS_OK"
        using e Inl by (auto simp: owfs_blockmap_ensure_def split: if_splits)
      ultimately show ?thesis by auto
    next
      case (Inr b)
      note g = owfs_blockmap_ensure_grown [OF 1(2,3) e [unfolded Inr]]
      then have "owfs_alloc_inv dev1 sb1" "owfs_map_ok dev1 sb1 inode1" by (simp_all add: owfs_grown_def)
      moreover have "ensure_blocks dev1 sb1 inode1 last_block = (OWFS_OK, dev', sb', inode')"
        using 1(4) True e Inr by (simp add: ensure_blocks.simps [of dev])
      ultimately obtain new where "owfs_extended dev1 sb1 inode1 new dev' sb' inode'" "last_block < ino_block_count inode'"
        using 1(1) [OF True e [symmetric] Inr refl refl] by blast
      with owfs_extended_step [OF 1(2,3) g] show ?thesis by blast
    qed
  qed
qed

lemma ensure_blocks_full:
  "owfs_alloc_inv dev sb \<Longrightarrow> owfs_map_ok dev sb inode \<Longrightarrow> owfs_volume_writable sb = OWFS_OK \<Longrightarrow>
   ensure_blocks dev sb inode last_block = (e, dev', sb', inode') \<Longrightarrow> e = OWFS_OK \<or> e = OWFS_ERR_NO_FREE_BLOCKS"
proof (induction dev sb inode last_block rule: ensure_blocks.induct)
  case (1 dev sb inode last_block)
  show ?case
  proof (cases "ino_block_count inode \<le> last_block")
    case False
    with 1 show ?thesis by (simp add: ensure_blocks.simps [of dev])
  next
    case True
    obtain r dev1 sb1 inode1 where e: "owfs_blockmap_ensure dev sb inode (ino_block_count inode) = (r, dev1, sb1, inode1)"
      by (cases "owfs_blockmap_ensure dev sb inode (ino_block_count inode)")
    show ?thesis
    proof (cases r)
      case (Inl x)
      from owfs_blockmap_ensure_full [OF 1(2-4) e [unfolded Inl]] e True 1(5) Inl show ?thesis
        by (simp add: ensure_blocks.simps [of dev])
    next
      case (Inr b)
      note g = owfs_blockmap_ensure_grown [OF 1(2,3) e [unfolded Inr]]
      then have i: "owfs_alloc_inv dev1 sb1" "owfs_map_ok dev1 sb1 inode1" "sb1 = sb\<lparr>sb_free_blocks := sb_free_blocks sb1\<rparr>"
        by (simp_all add: owfs_grown_def)
      have "owfs_volume_writable sb1 = OWFS_OK" using 1(4) by (subst i(3)) simp
      moreover have "ensure_blocks dev1 sb1 inode1 last_block = (e, dev', sb', inode')"
        using 1(5) True e Inr by (simp add: ensure_blocks.simps [of dev])
      ultimately show ?thesis using 1(1) [OF True e [symmetric] Inr refl refl] i by blast
    qed
  qed
qed

section \<open>Writing a file of a consistent volume\<close>

lemma owfs_crypto_cong [simp]:
  "crypto_xform (sb\<lparr>sb_free_blocks := f\<rparr>) inode = crypto_xform sb inode"
  "crypto_xform (sb\<lparr>sb_free_inodes := n\<rparr>) inode = crypto_xform sb inode"
  "crypto_xform sb (inode\<lparr>ino_size_bytes := s\<rparr>) = crypto_xform sb inode"
  "crypto_xform sb (inode\<lparr>ino_checksum := c\<rparr>) = crypto_xform sb inode"
  "crypto_xform sb (inode\<lparr>ino_direct_blocks := ds\<rparr>) = crypto_xform sb inode"
  "crypto_xform sb (inode\<lparr>ino_indirect_block := x\<rparr>) = crypto_xform sb inode"
  "crypto_xform sb (inode\<lparr>ino_block_count := k\<rparr>) = crypto_xform sb inode"
  by (simp_all add: crypto_xform_def is_encrypted_def fun_eq_iff)

lemma owfs_content_cong [simp]:
  "owfs_content dev (sb\<lparr>sb_free_blocks := f\<rparr>) inode = owfs_content dev sb inode"
  "owfs_content dev (sb\<lparr>sb_free_inodes := n\<rparr>) inode = owfs_content dev sb inode"
  "owfs_content dev sb (inode\<lparr>ino_size_bytes := s\<rparr>) = owfs_content dev sb inode"
  "owfs_content dev sb (inode\<lparr>ino_checksum := c\<rparr>) = owfs_content dev sb inode"
  by (simp_all add: owfs_content_def owfs_plain_def [abs_def])

lemma owfs_content_frame:
  assumes "owfs_alloc_inv dev sb" and "owfs_map_ok dev sb inode" and "owfs_frame sb S dev dev'"
    and "S \<inter> owfs_owned dev inode = {}"
  shows "owfs_content dev' sb inode = owfs_content dev sb inode"
proof -
  have "10 < unat (ino_block_count inode) \<Longrightarrow> ino_indirect_block inode \<notin> S"
    using assms(4) by (auto simp: owfs_owned_def word_less_nat_alt)
  note f = owfs_blocks_frame(1) [OF assms(1-3) this]
  have "owfs_plain dev' sb inode b = owfs_plain dev sb inode b" if "b \<in> set (owfs_blocks dev inode)" for b
  proof -
    have "b \<in> owfs_region sb - S" using owfs_file_block(1) [OF assms(1,2) that] assms(4) that by (auto simp: owfs_owned_def)
    then show ?thesis
      using owfs_frameD [OF assms(3) owfs_map_okD(2) [OF assms(1,2)]] by (simp add: owfs_plain_def)
  qed
  then show ?thesis by (simp add: owfs_content_def f cong: map_cong)
qed

text \<open>The content of fresh blocks: zeros as they read through the encryption.\<close>

definition owfs_fresh :: "owfs_superblock \<Rightarrow> owfs_inode \<Rightarrow> u32 list \<Rightarrow> bytes" where
  "owfs_fresh sb inode new = concat (map (crypto_xform sb inode (replicate 4096 0)) new)"

lemma owfs_content_extended:
  assumes inv: "owfs_alloc_inv dev sb" and map: "owfs_map_ok dev sb inode"
    and e: "owfs_extended dev sb inode new dev' sb' inode'"
  shows "owfs_content dev' sb inode' = owfs_content dev sb inode @ owfs_fresh sb inode new"
proof -
  note d = owfs_map_okD [OF inv map]
  from e have e1: "owfs_blocks dev' inode' = owfs_blocks dev inode @ new" "\<forall>b\<in>set new. blk dev' b = replicate 4096 0"
    "owfs_frame sb (owfs_grow_set dev sb inode) dev dev'"
    and inode': "inode' = inode\<lparr>ino_direct_blocks := ino_direct_blocks inode', ino_indirect_block := ino_indirect_block inode',
                    ino_block_count := ino_block_count inode'\<rparr>"
    by (simp_all add: owfs_extended_def)
  have x: "crypto_xform sb inode' = crypto_xform sb inode" by (subst inode') simp
  have "blk dev' b = blk dev b" if "b \<in> set (owfs_blocks dev inode)" for b
  proof -
    have "b \<in> owfs_region sb - owfs_grow_set dev sb inode"
      using owfs_file_block(1) [OF inv map that] d(5) map that
      by (auto simp: owfs_grow_set_def owfs_owned_def owfs_map_ok_def)
    then show ?thesis using owfs_frameD [OF e1(3) d(2)] by simp
  qed
  then show ?thesis
    using e1(1,2) by (simp add: owfs_content_def owfs_plain_def x owfs_fresh_def cong: map_cong)
qed

text \<open>What a write or truncation of inode \<open>i\<close> leaves of the other files.\<close>

definition owfs_others_kept ::
  "'c htl_device \<Rightarrow> owfs_superblock \<Rightarrow> nat \<Rightarrow> 'c htl_device \<Rightarrow> bool" where
  "owfs_others_kept dev sb i dev' \<longleftrightarrow>
     owfs_live dev' sb = owfs_live dev sb \<and>
     (\<forall>j \<in> owfs_live dev sb - {i}. owfs_inode_at dev' sb j = owfs_inode_at dev sb j \<and>
        owfs_content dev' sb (owfs_inode_at dev sb j) = owfs_content dev sb (owfs_inode_at dev sb j))"

lemma owfs_file_commit:
  fixes dev dev1 :: "'c htl_device"
  assumes ok: "owfs_volume_ok dev sb" and live: "i \<in> owfs_live dev sb"
    and inv1: "owfs_alloc_inv dev1 sb1" and sb1: "sb1 = sb\<lparr>sb_free_blocks := sb_free_blocks sb1\<rparr>"
    and map1: "owfs_map_ok dev1 sb1 inode1" and nf: "\<not> owfs_slot_free inode1"
    and fr: "owfs_frame sb S dev dev1" "S \<subseteq> owfs_owned dev (owfs_inode_at dev sb i) \<union> (owfs_region sb - owfs_allocated dev sb)"
    and own: "owfs_owned dev1 inode1 \<subseteq> owfs_owned dev (owfs_inode_at dev sb i) \<union> (owfs_region sb - owfs_allocated dev sb)"
    and al: "owfs_allocated dev sb - owfs_owned dev (owfs_inode_at dev sb i) \<subseteq> owfs_allocated dev1 sb1"
  defines "dev2 \<equiv> owfs_inode_put dev1 sb1 i (owfs_inode_sealed inode1)"
  shows "owfs_volume_ok dev2 sb1" and "owfs_inode_at dev2 sb1 i = owfs_inode_sealed inode1"
    and "owfs_content dev2 sb inode1 = owfs_content dev1 sb inode1" and "owfs_others_kept dev sb i dev2"
    and "owfs_owned dev2 inode1 = owfs_owned dev1 inode1" and "owfs_allocated dev2 sb1 = owfs_allocated dev1 sb1"
proof -
  note d = owfs_volume_okD [OF ok]
  let ?own = "owfs_owned dev (owfs_inode_at dev sb i)" and ?oth = "owfs_others dev sb i"
  note m = owfs_map_okD [OF d(1) d(6) [OF live]]
  have oth: "?oth \<subseteq> owfs_allocated dev sb" "?oth \<inter> ?own = {}" using d(8) d(7) [OF live] by auto
  have reg: "?own \<union> (owfs_region sb - owfs_allocated dev sb) \<subseteq> owfs_region sb" using m(5,6) by auto
  have cong: "owfs_allocated dx sb1 = owfs_allocated dx sb" "owfs_map_ok dx sb1 = owfs_map_ok dx sb" "owfs_frame sb1 = owfs_frame sb"
    "owfs_inode_at dx sb1 = owfs_inode_at dx sb" "owfs_region sb1 = owfs_region sb" for dx :: "'c htl_device"
    by (subst sb1; simp add: fun_eq_iff)+
  have S: "S \<inter> owfs_table sb = {}" "S \<inter> ?oth = {}" using fr(2) reg oth owfs_table_region [of sb] by blast+
  have al1: "?oth \<subseteq> owfs_allocated dev1 sb" using al oth by (auto simp: cong)
  have new: "owfs_map_ok dev1 sb inode1 \<and> owfs_owned dev1 inode1 \<inter> ?oth = {}" using map1 own oth by (auto simp: cong)
  have wf1: "owfs_inode_wf inode1" using map1 by (simp add: owfs_map_ok_def)
  have nfi: "sb_free_inodes sb = (if owfs_slot_free inode1 then sb_free_inodes sb + 1 else sb_free_inodes sb)" using nf by simp
  have sb1': "sb1\<lparr>sb_free_inodes := sb_free_inodes sb\<rparr> = sb1" by (subst (2) sb1, subst sb1) simp
  note c = owfs_commit_inode [OF ok live inv1 sb1 fr(1) S al1 wf1 new nfi, folded dev2_def, unfolded sb1']
  show "owfs_volume_ok dev2 sb1" by (rule c(1))
  show "owfs_inode_at dev2 sb1 i = owfs_inode_sealed inode1" using c(2) by (simp add: cong)
  have disj: "owfs_table sb \<inter> owfs_owned dev1 inode1 = {}" using own reg owfs_table_region [of sb] by blast
  show "owfs_content dev2 sb inode1 = owfs_content dev1 sb inode1"
    using owfs_content_frame [OF inv1 map1, of "owfs_table sb" dev2] c(6) disj
    by (simp add: cong) (subst (asm) (1 2) sb1, simp)
  have "10 < unat (ino_block_count inode1) \<Longrightarrow> ino_indirect_block inode1 \<notin> owfs_table sb"
    using disj by (auto simp: owfs_owned_def word_less_nat_alt)
  then show "owfs_owned dev2 inode1 = owfs_owned dev1 inode1"
    using owfs_blocks_frame(2) [OF inv1 map1, of "owfs_table sb" dev2] c(6) by (simp add: cong)
  show "owfs_allocated dev2 sb1 = owfs_allocated dev1 sb1" using c(5) by (simp add: cong)
  have fr2: "owfs_frame sb (S \<union> owfs_table sb) dev dev2" by (rule owfs_frame_trans [OF fr(1) c(6)])
  show "owfs_others_kept dev sb i dev2"
    unfolding owfs_others_kept_def
  proof (intro conjI ballI)
    show "owfs_live dev2 sb = owfs_live dev sb" using c(4) nf by simp
    fix j assume j: "j \<in> owfs_live dev sb - {i}"
    then have "j < unat (sb_total_inodes sb)" "j \<noteq> i" by (auto simp: owfs_live_def)
    then show "owfs_inode_at dev2 sb j = owfs_inode_at dev sb j" by (rule c(3))
    have sub: "owfs_owned dev (owfs_inode_at dev sb j) \<subseteq> ?oth" using j by (auto simp: owfs_others_def)
    have "(S \<union> owfs_table sb) \<inter> owfs_owned dev (owfs_inode_at dev sb j) = {}"
      using S(2) sub oth(1) owfs_table_region [of sb] by (auto simp: owfs_allocated_def)
    then show "owfs_content dev2 sb (owfs_inode_at dev sb j) = owfs_content dev sb (owfs_inode_at dev sb j)"
      using j by (intro owfs_content_frame [OF d(1) d(6) fr2]) auto
  qed
qed

text \<open>The checks before a write or truncation: a file that the caller may write on a writable volume.\<close>

definition owfs_may_write :: "ow_identity \<Rightarrow> owfs_superblock \<Rightarrow> owfs_inode \<Rightarrow> bool" where
  "owfs_may_write g sb inode \<longleftrightarrow>
     ino_entry_type inode AND OWFS_ENTRY_FILE \<noteq> 0 \<and> owfs_volume_writable sb = OWFS_OK \<and>
     ino_security_flags inode AND OWFS_SEC_READONLY = 0 \<and>
     owfs_inode_access_check g inode OW_ACCESS_WRITE = OWFS_OK"

lemma write_bound:
  assumes "unat offset + unat len \<le> 1034 * 4096"
  shows "\<not> (ucast (offset :: u32) + ucast (len :: u32) :: u64) > 1034 * 0x1000"
    and "unat (offset + len) = unat offset + unat len"
    and "len \<noteq> 0 \<Longrightarrow> unat (drop_bit 12 (offset + len - 1)) = (unat offset + unat len - 1) div 4096"
proof -
  have "unat (ucast offset + ucast len :: u64) = unat offset + unat len"
    using assms by (simp add: unat_word_ariths unat_ucast_up)
  then show "\<not> (ucast offset + ucast len :: u64) > 1034 * 0x1000" using assms by (simp add: word_less_nat_alt)
  show u: "unat (offset + len) = unat offset + unat len" using assms by (simp add: unat_word_ariths)
  assume "len \<noteq> 0"
  then have "0 < unat len" by (metis gr0I unat_eq_0)
  then have "unat (offset + len - 1) = unat offset + unat len - 1"
    using u by (simp add: unat_sub word_le_nat_alt)
  then show "unat (drop_bit 12 (offset + len - 1)) = (unat offset + unat len - 1) div 4096"
    by (simp only: unat_drop_12)
qed

text \<open>The effect of a complete write: the bytes replace a window of the content, which was extended by
  fresh blocks where the file was too short; the size grows when the window ends beyond it.\<close>

definition owfs_same_attrs :: "owfs_inode \<Rightarrow> owfs_inode \<Rightarrow> bool" where
  "owfs_same_attrs inode inode' \<longleftrightarrow>
     ino_inode_number inode' = ino_inode_number inode \<and> ino_entry_type inode' = ino_entry_type inode \<and>
     ino_name inode' = ino_name inode \<and> ino_name_length inode' = ino_name_length inode \<and>
     ino_parent_inode inode' = ino_parent_inode inode \<and> ino_permissions inode' = ino_permissions inode \<and>
     ino_owner_uid inode' = ino_owner_uid inode \<and> ino_owner_gid inode' = ino_owner_gid inode \<and>
     ino_security_flags inode' = ino_security_flags inode"

definition owfs_written ::
  "'c htl_device \<Rightarrow> owfs_superblock \<Rightarrow> owfs_inode \<Rightarrow> nat \<Rightarrow> bytes \<Rightarrow> u32 \<Rightarrow> u32 \<Rightarrow> u32 list \<Rightarrow>
   'c htl_device \<Rightarrow> owfs_superblock \<Rightarrow> owfs_inode \<Rightarrow> bool" where
  "owfs_written dev sb inode i buf offset len new dev' sb' inode' \<longleftrightarrow>
     owfs_volume_ok dev' sb' \<and> owfs_inode_at dev' sb' i = inode' \<and> owfs_others_kept dev sb i dev' \<and>
     sb' = sb\<lparr>sb_free_blocks := sb_free_blocks sb'\<rparr> \<and> owfs_same_attrs inode inode' \<and>
     unat (ino_size_bytes inode') = max (unat (ino_size_bytes inode)) (unat offset + unat len) \<and>
     owfs_content dev' sb' inode' =
       overwrite (unat offset) (window 0 (unat len) buf) (owfs_content dev sb inode @ owfs_fresh sb inode new) \<and>
     unat offset + unat len \<le> 4096 * unat (ino_block_count inode') \<and>
     unat (ino_block_count inode') = unat (ino_block_count inode) + length new"

lemma owfs_file_write_ensured:
  fixes dev :: "'c htl_device"
  assumes ok: "owfs_volume_ok dev sb" and live: "unat num \<in> owfs_live dev sb"
    and inode: "inode = owfs_inode_at dev sb (unat num)" and may: "owfs_may_write g sb inode"
    and len: "len \<noteq> 0" "unat len \<le> length buf" and fit: "unat offset + unat len \<le> 1034 * 4096"
    and e: "ensure_blocks dev sb inode (drop_bit 12 (offset + len - 1)) = (OWFS_OK, dev1, sb1, inode1)"
  shows "\<exists>dev' sb' inode' new. owfs_file_write g dev sb inode num buf offset len = (OWFS_OK, len, dev', sb', inode') \<and>
    owfs_written dev sb inode (unat num) buf offset len new dev' sb' inode'"
proof -
  note d = owfs_volume_okD [OF ok]
  have n: "num < sb_total_inodes sb" and nf: "\<not> owfs_slot_free inode"
    using live inode by (simp_all add: owfs_live_def word_less_nat_alt)
  have map: "owfs_map_ok dev sb inode" using d(6) [OF live] inode by simp
  note m = owfs_map_okD [OF d(1) map]
  note wb = write_bound [OF fit]
  from may have chk: "ino_entry_type inode AND OWFS_ENTRY_FILE \<noteq> 0" "owfs_volume_writable sb = OWFS_OK"
    "ino_security_flags inode AND OWFS_SEC_READONLY = 0" "owfs_inode_access_check g inode OW_ACCESS_WRITE = OWFS_OK"
    by (simp_all add: owfs_may_write_def)
  obtain new where x: "owfs_extended dev sb inode new dev1 sb1 inode1" and lt: "drop_bit 12 (offset + len - 1) < ino_block_count inode1"
    using ensure_blocks_ok [OF d(1) map e] by blast
  from x have x1: "owfs_alloc_inv dev1 sb1" "owfs_map_ok dev1 sb1 inode1"
    "owfs_blocks dev1 inode1 = owfs_blocks dev inode @ new"
    "owfs_allocated dev1 sb1 = owfs_allocated dev sb \<union> owfs_owned dev1 inode1"
    "owfs_frame sb (owfs_grow_set dev sb inode) dev dev1"
    "owfs_owned dev1 inode1 \<subseteq> owfs_owned dev inode \<union> (owfs_region sb - owfs_allocated dev sb)"
    and sb1: "sb1 = sb\<lparr>sb_free_blocks := sb_free_blocks sb1\<rparr>"
    and inode1: "inode1 = inode\<lparr>ino_direct_blocks := ino_direct_blocks inode1,
      ino_indirect_block := ino_indirect_block inode1, ino_block_count := ino_block_count inode1\<rparr>"
    by (simp_all add: owfs_extended_def)
  have f1: "ino_size_bytes inode1 = ino_size_bytes inode" "ino_entry_type inode1 = ino_entry_type inode"
    by (subst inode1, simp)+
  have c1: "unat (ino_block_count inode1) = unat (ino_block_count inode) + length new"
    using arg_cong [OF x1(3), of length] by simp
  have "(unat offset + unat len - 1) div 4096 < unat (ino_block_count inode1)"
    using lt wb(3) [OF len(1)] by (simp add: word_less_nat_alt)
  then have "unat offset + unat len - 1 < unat (ino_block_count inode1) * 4096"
    by (simp only: div_less_iff_less_mult zero_less_numeral)
  then have fit1: "unat offset + unat len \<le> 4096 * unat (ino_block_count inode1)" by linarith
  obtain dev2 where w: "owfs_file_write_loop dev1 sb1 inode1 buf offset len 0 = (OWFS_OK, len, dev2)"
    "owfs_alloc_inv dev2 sb1" "owfs_map_ok dev2 sb1 inode1" "owfs_blocks dev2 inode1 = owfs_blocks dev1 inode1"
    "owfs_allocated dev2 sb1 = owfs_allocated dev1 sb1" "owfs_frame sb1 (set (owfs_blocks dev1 inode1)) dev1 dev2"
    "owfs_content dev2 sb1 inode1 = overwrite (unat offset) (window 0 (unat len) buf) (owfs_content dev1 sb1 inode1)"
    using owfs_file_write_loop_ok [OF x1(1,2) fit1 len(2), of 0] by auto
  define inode2 where "inode2 = (if offset + len > ino_size_bytes inode1 then inode1\<lparr>ino_size_bytes := offset + len\<rparr> else inode1)"
  have i2: "owfs_map_ok dx sx inode2 = owfs_map_ok dx sx inode1" "owfs_owned dx inode2 = owfs_owned dx inode1"
    "owfs_content dx sx inode2 = owfs_content dx sx inode1" "owfs_slot_free inode2 = owfs_slot_free inode"
    "owfs_inode_wf inode2" for dx :: "'c htl_device" and sx
    using x1(2) f1(2) by (simp_all add: inode2_def owfs_slot_free_def owfs_map_ok_def)
  have own2: "owfs_owned dev2 inode1 = owfs_owned dev1 inode1" using w(4) by (simp add: owfs_owned_def)
  have cong: "owfs_frame sb1 = owfs_frame sb" "owfs_volume_writable sb1 = OWFS_OK" "sb_total_inodes sb1 = sb_total_inodes sb"
    "owfs_content dx sb1 = owfs_content dx sb" "owfs_inode_put dx sb1 = owfs_inode_put dx sb" for dx :: "'c htl_device"
    using chk(2) by (subst sb1; simp add: fun_eq_iff)+
  let ?S = "owfs_grow_set dev sb inode \<union> set (owfs_blocks dev1 inode1)"
  have fr: "owfs_frame sb ?S dev dev2" using owfs_frame_trans [OF x1(5) w(6) [unfolded cong(1)]] .
  have gs: "owfs_grow_set dev sb inode \<subseteq> owfs_owned dev inode \<union> (owfs_region sb - owfs_allocated dev sb)"
    by (auto simp: owfs_grow_set_def owfs_owned_def)
  have S: "?S \<subseteq> owfs_owned dev inode \<union> (owfs_region sb - owfs_allocated dev sb)"
    using gs x1(6) by (auto simp: owfs_owned_def)
  have al: "owfs_allocated dev sb - owfs_owned dev inode \<subseteq> owfs_allocated dev2 sb1" using w(5) x1(4) by auto
  note c = owfs_file_commit [OF ok live w(2) sb1, of inode2, folded inode, unfolded i2 own2,
      OF w(3) nf fr S x1(6) al]
  let ?dev' = "owfs_inode_put dev2 sb1 (unat num) (owfs_inode_sealed inode2)"
  have g2: "htl_reliable dev2" "owfs_geometry dev2 sb1" using w(2) by (simp_all add: owfs_alloc_inv_def)
  have "owfs_inode_write dev2 sb1 num inode2 = (OWFS_OK, ?dev', owfs_inode_sealed inode2)"
    using owfs_inode_write_reliable [OF g2 _ cong(2) i2(5), of num] n cong(3) by simp
  then have run: "owfs_file_write g dev sb inode num buf offset len = (OWFS_OK, len, ?dev', sb1, owfs_inode_sealed inode2)"
    using chk len(1) wb(1) n e w(1) by (simp add: owfs_file_write_def Let_def not_le inode2_def)
  have size: "unat (ino_size_bytes inode2) = max (unat (ino_size_bytes inode)) (unat offset + unat len)"
    using wb(2) f1(1) by (simp add: inode2_def word_less_nat_alt max_def)
  have bc: "ino_block_count inode2 = ino_block_count inode1" by (simp add: inode2_def)
  have "owfs_same_attrs inode inode1" by (subst inode1) (simp add: owfs_same_attrs_def)
  then have attrs: "owfs_same_attrs inode (owfs_inode_sealed inode2)" by (simp add: inode2_def owfs_same_attrs_def)
  have "owfs_content ?dev' sb1 (owfs_inode_sealed inode2) = overwrite (unat offset) (window 0 (unat len) buf)
      (owfs_content dev sb inode @ owfs_fresh sb inode new)"
    using c(3) w(7) owfs_content_extended [OF d(1) map x] by (simp add: i2 cong)
  then have "owfs_written dev sb inode (unat num) buf offset len new ?dev' sb1 (owfs_inode_sealed inode2)"
    unfolding owfs_written_def using c(1,2,4) sb1 attrs size fit1 c1 bc by simp
  with run show ?thesis by blast
qed

lemma owfs_file_write_cases:
  assumes ok: "owfs_volume_ok dev sb" and live: "unat num \<in> owfs_live dev sb"
    and inode: "inode = owfs_inode_at dev sb (unat num)" and may: "owfs_may_write g sb inode"
    and len: "len \<noteq> 0" "unat len \<le> length buf" and fit: "unat offset + unat len \<le> 1034 * 4096"
  obtains (full) dev' sb' inode' where
      "owfs_file_write g dev sb inode num buf offset len = (OWFS_ERR_NO_FREE_BLOCKS, 0, dev', sb', inode')"
  | (written) dev' sb' inode' new where
      "owfs_file_write g dev sb inode num buf offset len = (OWFS_OK, len, dev', sb', inode')"
      "owfs_written dev sb inode (unat num) buf offset len new dev' sb' inode'"
proof -
  note d = owfs_volume_okD [OF ok]
  have n: "num < sb_total_inodes sb" using live by (simp add: owfs_live_def word_less_nat_alt)
  have map: "owfs_map_ok dev sb inode" using d(6) [OF live] inode by simp
  obtain res dev1 sb1 inode1 where e: "ensure_blocks dev sb inode (drop_bit 12 (offset + len - 1)) = (res, dev1, sb1, inode1)"
    by (cases "ensure_blocks dev sb inode (drop_bit 12 (offset + len - 1))")
  consider "res = OWFS_OK" | "res = OWFS_ERR_NO_FREE_BLOCKS"
    using ensure_blocks_full [OF d(1) map _ e] may by (auto simp: owfs_may_write_def)
  then show thesis
  proof cases
    case 1
    with owfs_file_write_ensured [OF ok live inode may len fit] e written show thesis by blast
  next
    case 2
    have "owfs_file_write g dev sb inode num buf offset len = (OWFS_ERR_NO_FREE_BLOCKS, 0, dev1, sb1, inode1)"
      using may len(1) write_bound(1) [OF fit] n e 2 by (simp add: owfs_may_write_def owfs_file_write_def Let_def not_le)
    then show thesis by (rule full)
  qed
qed

section \<open>Truncating\<close>

lemma owfs_released_content:
  assumes inv: "owfs_alloc_inv dev sb" and map: "owfs_map_ok dev sb inode"
    and r: "owfs_released dev sb inode n dev' sb' inode'" and n: "n \<le> unat (ino_block_count inode)"
  shows "owfs_content dev' sb inode' = take (4096 * n) (owfs_content dev sb inode)"
proof -
  note d = owfs_map_okD [OF inv map]
  from r have b: "owfs_blocks dev' inode' = take n (owfs_blocks dev inode)" and fr: "owfs_frame sb {} dev dev'"
    and inode': "inode' = inode\<lparr>ino_direct_blocks := ino_direct_blocks inode', ino_indirect_block := ino_indirect_block inode',
                    ino_block_count := ino_block_count inode'\<rparr>"
    by (simp_all add: owfs_released_def)
  have x: "crypto_xform sb inode' = crypto_xform sb inode" by (subst inode') simp
  have "owfs_plain dev' sb inode' b = owfs_plain dev sb inode b" if "b \<in> set (owfs_blocks dev inode)" for b
    using owfs_frameD [OF fr d(2)] owfs_file_block(1) [OF inv map that] by (simp add: owfs_plain_def x)
  then have "owfs_content dev' sb inode' = concat (map (owfs_plain dev sb inode) (take n (owfs_blocks dev inode)))"
    unfolding owfs_content_def b by (intro arg_cong [where f = concat] map_cong) (auto dest: in_set_takeD)
  moreover have "owfs_content dev sb inode = concat (map (owfs_plain dev sb inode) (take n (owfs_blocks dev inode)))
      @ concat (map (owfs_plain dev sb inode) (drop n (owfs_blocks dev inode)))"
    unfolding owfs_content_def by (metis append_take_drop_id concat_append map_append)
  moreover have "length (concat (map (owfs_plain dev sb inode) (take n (owfs_blocks dev inode)))) = 4096 * n"
    using n by (subst length_concat_4096) (auto dest!: in_set_takeD simp: owfs_file_block [OF inv map])
  ultimately show ?thesis by simp
qed

lemma blocks_for_size:
  fixes s :: u32
  defines "nb \<equiv> (if s AND 0xFFF \<noteq> 0 then drop_bit 12 s + 1 else drop_bit 12 s)"
  shows "unat nb = (unat s + 4095) div 4096"
proof -
  have z: "s AND 0xFFF = 0 \<longleftrightarrow> unat s mod 4096 = 0" using unat_and_FFF [of s] by (metis unat_eq_0)
  have "unat s div 4096 < 2 ^ 20" using unsigned_less [of s, where 'a = nat] by (simp add: div_less_iff_less_mult)
  then have p: "unat (drop_bit 12 s + 1) = Suc (unat s div 4096)"
    using unat_plus1 [of "drop_bit 12 s"] by (simp add: unat_drop_12 del: unsigned_drop_bit_eq)
  show ?thesis
  proof (cases "unat s mod 4096 = 0")
    case True
    then obtain k where "unat s = 4096 * k" by (auto simp: mod_eq_0_iff_dvd elim: dvdE)
    then show ?thesis using True z unat_drop_12 [of s] by (simp add: nb_def)
  next
    case False
    define q r where "q = unat s div 4096" and "r = unat s mod 4096"
    have "unat s = 4096 * q + r" "0 < r" "r < 4096" using False by (simp_all add: q_def r_def)
    then have "4096 * Suc q \<le> unat s + 4095" "unat s + 4095 < 4096 * Suc (Suc q)" by simp_all
    then have "(unat s + 4095) div 4096 = Suc q" by (rule div_nat_eqI)
    then have "(unat s + 4095) div 4096 = Suc (unat s div 4096)" by (simp add: q_def)
    then show ?thesis using False z p by (simp add: nb_def)
  qed
qed

lemma owfs_truncate_release:
  assumes inv: "owfs_alloc_inv dev sb" and map: "owfs_map_ok dev sb inode" and vw: "owfs_volume_writable sb = OWFS_OK"
  defines "r n \<equiv> (if n < ino_block_count inode then owfs_blockmap_release dev sb inode n else (OWFS_OK, dev, sb, inode))"
  shows "\<exists>dev' sb' inode'. r n = (OWFS_OK, dev', sb', inode') \<and>
    owfs_released dev sb inode (min (unat n) (unat (ino_block_count inode))) dev' sb' inode'"
proof (cases "n < ino_block_count inode")
  case True
  with owfs_blockmap_release_ok [OF inv map vw True] show ?thesis
    by (auto simp: r_def word_less_nat_alt min_def)
next
  case False
  then have "owfs_released dev sb inode (min (unat n) (unat (ino_block_count inode))) dev sb inode"
    using inv map by (simp add: owfs_released_def word_less_nat_alt min_def)
  with False show ?thesis by (simp add: r_def)
qed

lemma owfs_file_truncate_ok:
  fixes dev :: "'c htl_device"
  assumes ok: "owfs_volume_ok dev sb" and live: "unat num \<in> owfs_live dev sb"
    and inode: "inode = owfs_inode_at dev sb (unat num)" and may: "owfs_may_write g sb inode"
    and size: "new_size < ino_size_bytes inode"
  shows "\<exists>dev' sb' inode'. owfs_file_truncate g dev sb inode num new_size = (OWFS_OK, dev', sb', inode') \<and>
    owfs_volume_ok dev' sb' \<and> owfs_inode_at dev' sb' (unat num) = inode' \<and> owfs_others_kept dev sb (unat num) dev' \<and>
    sb' = sb\<lparr>sb_free_blocks := sb_free_blocks sb'\<rparr> \<and> ino_size_bytes inode' = new_size \<and>
    owfs_content dev' sb' inode' = take (4096 * ((unat new_size + 4095) div 4096)) (owfs_content dev sb inode) \<and>
    owfs_allocated dev' sb' = owfs_allocated dev sb - (owfs_owned dev inode - owfs_owned dev' inode')"
proof -
  note d = owfs_volume_okD [OF ok]
  have n: "num < sb_total_inodes sb" and nf: "\<not> owfs_slot_free inode"
    using live inode by (simp_all add: owfs_live_def word_less_nat_alt)
  have map: "owfs_map_ok dev sb inode" using d(6) [OF live] inode by simp
  note m = owfs_map_okD [OF d(1) map]
  from may have chk: "ino_entry_type inode AND OWFS_ENTRY_FILE \<noteq> 0" "owfs_volume_writable sb = OWFS_OK"
    "ino_security_flags inode AND OWFS_SEC_READONLY = 0" "owfs_inode_access_check g inode OW_ACCESS_WRITE = OWFS_OK"
    by (simp_all add: owfs_may_write_def)
  define nb where "nb = (if new_size AND 0xFFF \<noteq> 0 then drop_bit 12 new_size + 1 else drop_bit 12 new_size)"
  let ?k = "min (unat nb) (unat (ino_block_count inode))"
  have nb: "unat nb = (unat new_size + 4095) div 4096" unfolding nb_def by (rule blocks_for_size)
  obtain dev1 sb1 inode1 where r: "(if nb < ino_block_count inode then owfs_blockmap_release dev sb inode nb
      else (OWFS_OK, dev, sb, inode)) = (OWFS_OK, dev1, sb1, inode1)" and rel: "owfs_released dev sb inode ?k dev1 sb1 inode1"
    using owfs_truncate_release [OF d(1) map chk(2), of nb] by blast
  from rel have x: "owfs_alloc_inv dev1 sb1" "owfs_map_ok dev1 sb1 inode1" "owfs_frame sb {} dev dev1"
    "owfs_blocks dev1 inode1 = take ?k (owfs_blocks dev inode)"
    "owfs_allocated dev1 sb1 = owfs_allocated dev sb - (owfs_owned dev inode - owfs_owned dev1 inode1)"
    "owfs_owned dev1 inode1 \<subseteq> owfs_owned dev inode"
    and sb1: "sb1 = sb\<lparr>sb_free_blocks := sb_free_blocks sb1\<rparr>"
    and inode1: "inode1 = inode\<lparr>ino_direct_blocks := ino_direct_blocks inode1,
      ino_indirect_block := ino_indirect_block inode1, ino_block_count := ino_block_count inode1\<rparr>"
    by (simp_all add: owfs_released_def)
  let ?i2 = "inode1\<lparr>ino_size_bytes := new_size\<rparr>"
  have own: "owfs_owned dev1 inode1 \<subseteq> owfs_owned dev inode \<union> (owfs_region sb - owfs_allocated dev sb)"
    using x(6) by auto
  have cong: "owfs_volume_writable sb1 = OWFS_OK" "sb_total_inodes sb1 = sb_total_inodes sb"
    "owfs_content dx sb1 = owfs_content dx sb" "owfs_allocated dx sb1 = owfs_allocated dx sb" for dx :: "'c htl_device"
    using chk(2) by (subst sb1; simp add: fun_eq_iff)+
  have "ino_entry_type inode1 = ino_entry_type inode" by (subst inode1) simp
  then have nf2: "\<not> owfs_slot_free ?i2" using nf by (simp add: owfs_slot_free_def)
  have al: "owfs_allocated dev sb - owfs_owned dev inode \<subseteq> owfs_allocated dev1 sb1" using x(5) by auto
  have map2: "owfs_map_ok dev1 sb1 ?i2" "owfs_inode_wf ?i2" using x(2) by (simp_all add: owfs_map_ok_def)
  note c = owfs_file_commit [OF ok live x(1) sb1 map2(1) nf2 x(3), folded inode, simplified, OF own al]
  let ?dev' = "owfs_inode_put dev1 sb1 (unat num) (owfs_inode_sealed ?i2)"
  have g1: "htl_reliable dev1" "owfs_geometry dev1 sb1" using x(1) by (simp_all add: owfs_alloc_inv_def)
  have "owfs_inode_write dev1 sb1 num ?i2 = (OWFS_OK, ?dev', owfs_inode_sealed ?i2)"
    using owfs_inode_write_reliable [OF g1 _ cong(1) map2(2), of num] n cong(2) by simp
  then have run: "owfs_file_truncate g dev sb inode num new_size = (OWFS_OK, ?dev', sb1, owfs_inode_sealed ?i2)"
    using chk n size r
    unfolding owfs_file_truncate_def Let_def nb_def [symmetric] r by (simp add: not_le)
  have "owfs_content dev1 sb inode1 = take (4096 * ?k) (owfs_content dev sb inode)"
    by (rule owfs_released_content [OF d(1) map rel]) simp
  also have "\<dots> = take (4096 * unat nb) (owfs_content dev sb inode)"
    using length_owfs_content [OF d(1) map] by (simp add: min_def)
  finally have "owfs_content ?dev' sb1 (owfs_inode_sealed ?i2) = take (4096 * unat nb) (owfs_content dev sb inode)"
    using c(3) by (simp add: cong)
  moreover have "owfs_allocated ?dev' sb1 = owfs_allocated dev sb - (owfs_owned dev inode - owfs_owned ?dev' (owfs_inode_sealed ?i2))"
    using c(5,6) x(5) by simp
  ultimately show ?thesis using run c(1,2,4) sb1 unfolding nb
    by (intro exI [of _ ?dev'] exI [of _ sb1] exI [of _ "owfs_inode_sealed ?i2"]) simp
qed

section \<open>Enough room\<close>

text \<open>The blocks that a file of \<open>n\<close> blocks takes, its indirect block included.\<close>

definition owfs_footprint :: "nat \<Rightarrow> nat" where
  "owfs_footprint n = n + (if 10 < n then 1 else 0)"

lemma card_owfs_owned:
  assumes "owfs_map_ok dev sb inode"
  shows "card (owfs_owned dev inode) = owfs_footprint (unat (ino_block_count inode))"
  using assms distinct_card [of "owfs_blocks dev inode"]
  by (auto simp: owfs_map_ok_def owfs_owned_def owfs_footprint_def word_less_nat_alt)

lemma card_owfs_unallocated:
  assumes "owfs_alloc_inv dev sb"
  shows "card (owfs_region sb - owfs_allocated dev sb) = unat (sb_free_blocks sb)"
proof -
  have geo: "owfs_geometry dev sb" and free: "unat (sb_free_blocks sb) = card (owfs_free_set dev sb)"
    using assms by (simp_all add: owfs_alloc_inv_def owfs_counted_def)
  have "bij_betw (\<lambda>b. unat b - unat (sb_data_region_start sb)) (owfs_region sb - owfs_allocated dev sb) (owfs_free_set dev sb)"
  proof (rule bij_betw_byWitness [where f' = "\<lambda>r. sb_data_region_start sb + of_nat r"])
    show "\<forall>b \<in> owfs_region sb - owfs_allocated dev sb. sb_data_region_start sb + of_nat (unat b - unat (sb_data_region_start sb)) = b"
      using owfs_block_of_rel(1) [OF geo] owfs_region_rel by (auto simp: word_unat_eq_iff)
    show "\<forall>r \<in> owfs_free_set dev sb. unat (sb_data_region_start sb + of_nat r) - unat (sb_data_region_start sb) = r"
      using owfs_block_of_rel(1) [OF geo] by (auto simp: owfs_free_set_def)
    show "(\<lambda>b. unat b - unat (sb_data_region_start sb)) ` (owfs_region sb - owfs_allocated dev sb) \<subseteq> owfs_free_set dev sb"
      using owfs_region_rel(1) by (auto simp: owfs_allocated_def owfs_free_set_def)
    show "(\<lambda>r. sb_data_region_start sb + of_nat r) ` owfs_free_set dev sb \<subseteq> owfs_region sb - owfs_allocated dev sb"
      using owfs_block_of_rel [OF geo] by (auto simp: owfs_allocated_def owfs_free_set_def)
  qed
  then show ?thesis using bij_betw_same_card free by metis
qed

lemma owfs_grown_free:
  assumes inv: "owfs_alloc_inv dev sb" and map: "owfs_map_ok dev sb inode" and g: "owfs_grown dev sb inode b dev1 sb1 inode1"
  shows "unat (sb_free_blocks sb) + owfs_footprint (unat (ino_block_count inode)) \<le>
      unat (sb_free_blocks sb1) + owfs_footprint (unat (ino_block_count inode1))"
    and "unat (ino_block_count inode1) = Suc (unat (ino_block_count inode))"
proof -
  from g have g1: "owfs_alloc_inv dev1 sb1" "owfs_map_ok dev1 sb1 inode1" "owfs_blocks dev1 inode1 = owfs_blocks dev inode @ [b]"
    "owfs_allocated dev1 sb1 = owfs_allocated dev sb \<union> owfs_owned dev1 inode1" "sb1 = sb\<lparr>sb_free_blocks := sb_free_blocks sb1\<rparr>"
    "10 < ino_block_count inode \<longrightarrow> ino_indirect_block inode1 = ino_indirect_block inode"
    unfolding owfs_grown_def by blast+
  show n: "unat (ino_block_count inode1) = Suc (unat (ino_block_count inode))"
    using g1(3) length_owfs_blocks [of dev1 inode1] by simp
  have reg: "owfs_region sb1 = owfs_region sb" by (subst g1(5)) simp
  let ?o = "owfs_owned dev inode" and ?o1 = "owfs_owned dev1 inode1"
  have sub: "?o \<subseteq> ?o1" using g1(3,6) n by (auto simp: owfs_owned_def word_less_nat_alt)
  have fin: "finite (owfs_region sb)" "finite ?o1" by (simp_all add: owfs_region_def owfs_owned_def)
  have oal: "?o \<subseteq> owfs_allocated dev sb" using owfs_map_okD(5) [OF inv map] .
  have "owfs_region sb - owfs_allocated dev sb \<subseteq> (owfs_region sb - owfs_allocated dev1 sb1) \<union> (?o1 - ?o)"
    using g1(4) oal by auto
  then have "card (owfs_region sb - owfs_allocated dev sb) \<le> card ((owfs_region sb - owfs_allocated dev1 sb1) \<union> (?o1 - ?o))"
    by (rule card_mono [rotated]) (use fin in simp)
  also have "\<dots> \<le> card (owfs_region sb - owfs_allocated dev1 sb1) + card (?o1 - ?o)" by (rule card_Un_le)
  finally have "card (owfs_region sb - owfs_allocated dev sb) \<le> card (owfs_region sb - owfs_allocated dev1 sb1) + card (?o1 - ?o)" .
  moreover have "card (?o1 - ?o) = card ?o1 - card ?o" "card ?o \<le> card ?o1"
    using sub fin card_Diff_subset [OF finite_subset [OF sub fin(2)] sub] card_mono [OF fin(2) sub] by auto
  ultimately show "unat (sb_free_blocks sb) + owfs_footprint (unat (ino_block_count inode)) \<le>
      unat (sb_free_blocks sb1) + owfs_footprint (unat (ino_block_count inode1))"
    using card_owfs_unallocated [OF inv] card_owfs_unallocated [OF g1(1)] card_owfs_owned [OF map] card_owfs_owned [OF g1(2)] reg
    by simp
qed

lemma ensure_blocks_room:
  "owfs_alloc_inv dev sb \<Longrightarrow> owfs_map_ok dev sb inode \<Longrightarrow> owfs_volume_writable sb = OWFS_OK \<Longrightarrow> unat last_block < 1034 \<Longrightarrow>
   owfs_footprint (Suc (unat last_block)) < unat (sb_free_blocks sb) + owfs_footprint (unat (ino_block_count inode)) \<Longrightarrow>
   \<exists>dev' sb' inode'. ensure_blocks dev sb inode last_block = (OWFS_OK, dev', sb', inode')"
proof (induction dev sb inode last_block rule: ensure_blocks.induct)
  case (1 dev sb inode last_block)
  show ?case
  proof (cases "ino_block_count inode \<le> last_block")
    case False
    then show ?thesis by (simp add: ensure_blocks.simps [of dev])
  next
    case True
    then have le: "unat (ino_block_count inode) \<le> unat last_block" by (simp add: word_le_nat_alt)
    obtain r dev1 sb1 inode1 where e: "owfs_blockmap_ensure dev sb inode (ino_block_count inode) = (r, dev1, sb1, inode1)"
      by (cases "owfs_blockmap_ensure dev sb inode (ino_block_count inode)")
    show ?thesis
    proof (cases r)
      case (Inl x)
      have "Suc (owfs_footprint (unat (ino_block_count inode))) \<le> owfs_footprint (Suc (unat last_block))"
        using le by (simp add: owfs_footprint_def)
      then have "1 < unat (sb_free_blocks sb)" using 1(6) by linarith
      moreover have "ino_block_count inode \<noteq> 1034" using le 1(5) by auto
      ultimately show ?thesis using owfs_blockmap_ensure_full [OF 1(2-4) e [unfolded Inl]] by simp
    next
      case (Inr b)
      note g = owfs_blockmap_ensure_grown [OF 1(2,3) e [unfolded Inr]]
      then have i: "owfs_alloc_inv dev1 sb1" "owfs_map_ok dev1 sb1 inode1" "sb1 = sb\<lparr>sb_free_blocks := sb_free_blocks sb1\<rparr>"
        unfolding owfs_grown_def by blast+
      note f = owfs_grown_free [OF 1(2,3) g]
      have "owfs_volume_writable sb1 = OWFS_OK" using 1(4) by (subst i(3)) simp
      then show ?thesis
        using 1(1) [OF True e [symmetric] Inr refl refl i(1,2) _ 1(5)] f(1) 1(6) True e Inr by (simp add: ensure_blocks.simps [of dev])
    qed
  qed
qed

lemma owfs_file_write_room:
  assumes ok: "owfs_volume_ok dev sb" and live: "unat num \<in> owfs_live dev sb"
    and inode: "inode = owfs_inode_at dev sb (unat num)" and may: "owfs_may_write g sb inode"
    and len: "len \<noteq> 0" "unat len \<le> length buf" and fit: "unat offset + unat len \<le> 1034 * 4096"
    and room: "owfs_footprint ((unat offset + unat len + 4095) div 4096) <
      unat (sb_free_blocks sb) + owfs_footprint (unat (ino_block_count inode))"
  shows "\<exists>dev' sb' inode' new. owfs_file_write g dev sb inode num buf offset len = (OWFS_OK, len, dev', sb', inode') \<and>
    owfs_written dev sb inode (unat num) buf offset len new dev' sb' inode'"
proof -
  note d = owfs_volume_okD [OF ok]
  have map: "owfs_map_ok dev sb inode" using d(6) [OF live] inode by simp
  have vw: "owfs_volume_writable sb = OWFS_OK" using may by (simp add: owfs_may_write_def)
  have "0 < unat len" using len(1) by (metis gr0I unat_eq_0)
  define k where "k = unat offset + unat len - 1"
  have k: "unat offset + unat len + 4095 = k + 4096" "k < 1034 * 4096" using \<open>0 < unat len\<close> fit by (simp_all add: k_def)
  have last: "unat (drop_bit 12 (offset + len - 1)) = k div 4096" using write_bound(3) [OF fit len(1)] by (simp add: k_def)
  have "(unat offset + unat len + 4095) div 4096 = Suc (k div 4096)" unfolding k(1) by simp
  moreover have "k div 4096 < 1034" using k(2) by (simp add: div_less_iff_less_mult)
  ultimately obtain dev1 sb1 inode1 where
    "ensure_blocks dev sb inode (drop_bit 12 (offset + len - 1)) = (OWFS_OK, dev1, sb1, inode1)"
    using ensure_blocks_room [OF d(1) map vw, of "drop_bit 12 (offset + len - 1)"] room last by auto
  from owfs_file_write_ensured [OF ok live inode may len fit this] show ?thesis .
qed

text \<open>Reading back a window that has just been written.\<close>

lemma owfs_read_after_write:
  assumes w: "owfs_written dev sb inode i buf offset len new dev' sb' inode'"
    and ok: "i \<in> owfs_live dev sb" and inode: "inode = owfs_inode_at dev sb i"
    and size: "unat (ino_size_bytes inode) \<le> 4096 * unat (ino_block_count inode)"
    and ty: "ino_entry_type inode AND OWFS_ENTRY_FILE \<noteq> 0"
    and acc: "owfs_inode_access_check g inode OW_ACCESS_READ = OWFS_OK"
    and inv: "owfs_volume_ok dev sb" and len: "unat len \<le> length buf" "unat len \<le> length rbuf"
  shows "owfs_file_read g dev' sb' inode' rbuf offset len = (OWFS_OK, len, overwrite 0 (window 0 (unat len) buf) rbuf, dev')"
proof -
  from w have w1: "owfs_volume_ok dev' sb'" "owfs_inode_at dev' sb' i = inode'" "owfs_same_attrs inode inode'"
    "unat (ino_size_bytes inode') = max (unat (ino_size_bytes inode)) (unat offset + unat len)"
    "owfs_content dev' sb' inode' =
       overwrite (unat offset) (window 0 (unat len) buf) (owfs_content dev sb inode @ owfs_fresh sb inode new)"
    "unat offset + unat len \<le> 4096 * unat (ino_block_count inode')"
    "unat (ino_block_count inode') = unat (ino_block_count inode) + length new"
    and live: "owfs_live dev' sb = owfs_live dev sb" and sb': "sb' = sb\<lparr>sb_free_blocks := sb_free_blocks sb'\<rparr>"
    unfolding owfs_written_def owfs_others_kept_def by blast+
  have lv: "i \<in> owfs_live dev' sb'" using ok live by (subst sb') simp
  note d = owfs_volume_okD [OF w1(1)] and d0 = owfs_volume_okD [OF inv]
  have map: "owfs_map_ok dev' sb' inode'" using d(6) [OF lv] w1(2) by simp
  have sz: "unat (ino_size_bytes inode') \<le> 4096 * unat (ino_block_count inode')" using w1(4,6,7) size by simp
  have ty': "ino_entry_type inode' AND OWFS_ENTRY_FILE \<noteq> 0" "owfs_inode_access_check g inode' OW_ACCESS_READ = OWFS_OK"
    using ty acc w1(3) by (simp_all add: owfs_same_attrs_def owfs_inode_access_check_def)
  have map0: "owfs_map_ok dev sb inode" using d0(6) [OF ok] inode by simp
  have n: "min (unat len) (unat (ino_size_bytes inode') - unat offset) = unat len" using w1(4) by simp
  have c: "length (owfs_content dev' sb' inode') = 4096 * unat (ino_block_count inode')"
    by (rule length_owfs_content [OF d(1) map])
  have c0: "length (owfs_content dev sb inode) = 4096 * unat (ino_block_count inode)"
    by (rule length_owfs_content [OF d0(1) map0])
  have "length (owfs_fresh sb inode new) = 4096 * length new" by (simp add: owfs_fresh_def length_concat comp_def sum_list_triv)
  then have "window (unat offset) (unat len) (owfs_content dev' sb' inode') = window 0 (unat len) buf"
    unfolding w1(5) using c0 w1(6,7) len(1) by (intro window_overwrite_same) simp_all
  then show ?thesis
    using owfs_file_read_ok [OF d(1) map sz ty' len(2), of offset] n by simp
qed

end
