(* ===== verification/OWFS_Catalog.thy ===== *)
theory OWFS_Catalog
  imports OWFS_File OWFS_Sync
begin

text \<open>
  \<^verbatim>\<open>owfs/src/owfs_catalog.c\<close>: directories. The blocks of a catalog hold entries of 256 bytes, sixteen to a
  block, each naming an inode. The loops over blocks and over the entries of a block are recursions
  over the list of indices; a pointer into the block buffer is the entry read from it, and storing
  through it writes the entry's bytes back. A name is read up to the end of its array of 128 bytes.
  The lemmas show that the operations implement a finite map from names to inode numbers.
\<close>

unbundle bit_operations_syntax

record owfs_catalog_entry =
  ce_inode_number :: u32
  ce_entry_type :: u8
  ce_name_length :: u8
  ce_name :: bytes
  ce_reserved :: bytes
  ce_checksum :: u32

definition owfs_catalog_entry_bytes :: "owfs_catalog_entry \<Rightarrow> bytes" where
  "owfs_catalog_entry_bytes r =
     le_store 4 (ce_inode_number r) @ [ce_entry_type r] @ [ce_name_length r] @ ce_name r @
     ce_reserved r @ le_store 4 (ce_checksum r)"

definition owfs_catalog_entry_of_bytes :: "bytes \<Rightarrow> owfs_catalog_entry" where
  "owfs_catalog_entry_of_bytes bs =
     \<lparr>ce_inode_number = le_load (window 0 4 bs), ce_entry_type = bs ! 4,
      ce_name_length = bs ! 5, ce_name = window 6 128 bs, ce_reserved = window 134 118 bs,
      ce_checksum = le_load (window 252 4 bs)\<rparr>"

text \<open>The array fields have their declared lengths.\<close>

definition owfs_catalog_entry_wf :: "owfs_catalog_entry \<Rightarrow> bool" where
  "owfs_catalog_entry_wf r \<longleftrightarrow>
     length (ce_name r) = 128 \<and> length (ce_reserved r) = 118"

text \<open>A hidden inode is invisible to all but its owner and the superuser.\<close>

definition inode_hidden_from ::
  "ow_identity \<Rightarrow> 'c htl_device \<Rightarrow> owfs_superblock \<Rightarrow> u32 \<Rightarrow> bool \<times> 'c htl_device" where
  "inode_hidden_from g dev sb inode_num =
     (case owfs_inode_read dev sb inode_num owfs_inode_zero of (res, dev, ino) \<Rightarrow>
        if res \<noteq> OWFS_OK then (False, dev)
        else (owfs_inode_is_hidden ino \<and> \<not> ow_sec_is_superuser g \<and>
              uid (ow_sec_current g) \<noteq> ucast (ino_owner_uid ino), dev))"

definition owfs_catalog_entry_compute_checksum :: "owfs_catalog_entry \<Rightarrow> u32" where
  "owfs_catalog_entry_compute_checksum entry = ow_crc32c_struct (owfs_catalog_entry_bytes entry) 256 252"

definition owfs_catalog_entry_verify_checksum :: "owfs_catalog_entry \<Rightarrow> bool" where
  "owfs_catalog_entry_verify_checksum entry \<longleftrightarrow> ce_checksum entry = owfs_catalog_entry_compute_checksum entry"

definition catalog_read ::
  "'c htl_device \<Rightarrow> owfs_superblock \<Rightarrow> u32 \<Rightarrow> owfs_inode \<Rightarrow> owfs_status \<times> 'c htl_device \<times> owfs_inode" where
  "catalog_read dev sb catalog_inode cinode =
     (case owfs_inode_read dev sb catalog_inode cinode of (res, dev, cinode) \<Rightarrow>
        if res \<noteq> OWFS_OK then (res, dev, cinode)
        else if ino_entry_type cinode AND OWFS_ENTRY_CATALOG = 0 then (OWFS_ERR_NOT_CATALOG, dev, cinode)
        else (OWFS_OK, dev, cinode))"

text \<open>The entry a pointer into the block buffer points to.\<close>

definition catalog_slot :: "bytes \<Rightarrow> nat \<Rightarrow> owfs_catalog_entry" where
  "catalog_slot block_buf e = owfs_catalog_entry_of_bytes (window (e * 256) 256 block_buf)"

abbreviation entry_live :: "owfs_catalog_entry \<Rightarrow> bool" where
  "entry_live centry \<equiv> ce_entry_type centry \<noteq> 0 \<and> ce_entry_type centry AND OWFS_ENTRY_DELETED = 0"

fun lookup_entries ::
  "ow_identity \<Rightarrow> 'c htl_device \<Rightarrow> owfs_superblock \<Rightarrow> bytes \<Rightarrow> bytes \<Rightarrow> nat \<Rightarrow> nat list \<Rightarrow> u32 option \<times> 'c htl_device" where
  "lookup_entries g dev sb block_buf name name_len [] = (None, dev)"
| "lookup_entries g dev sb block_buf name name_len (e # es) =
     (let centry = catalog_slot block_buf e in
      if entry_live centry \<and> owfs_catalog_entry_verify_checksum centry \<and>
         ow_sutf8_name_cmp (ce_name centry) (unat (ce_name_length centry)) name name_len = 0 then
        case inode_hidden_from g dev sb (ce_inode_number centry) of (hidden, dev) \<Rightarrow>
          if hidden then lookup_entries g dev sb block_buf name name_len es
          else (Some (ce_inode_number centry), dev)
      else lookup_entries g dev sb block_buf name name_len es)"

fun lookup_blocks ::
  "ow_identity \<Rightarrow> 'c htl_device \<Rightarrow> owfs_superblock \<Rightarrow> owfs_inode \<Rightarrow> bytes \<Rightarrow> nat \<Rightarrow> nat list \<Rightarrow>
   (owfs_status + u32) \<times> 'c htl_device" where
  "lookup_blocks g dev sb cinode name name_len [] = (Inl OWFS_ERR_NOT_FOUND, dev)"
| "lookup_blocks g dev sb cinode name name_len (idx # idxs) =
     (case owfs_blockmap_get dev cinode (of_nat idx) of
        (Inl res, dev) \<Rightarrow> (Inl res, dev)
      | (Inr bnum, dev) \<Rightarrow>
          case htl_read_block dev bnum of (hres, block_buf, dev) \<Rightarrow>
          if hres \<noteq> HTL_OK then (Inl OWFS_ERR_IO, dev)
          else case lookup_entries g dev sb block_buf name name_len [0..<16] of
            (Some found, dev) \<Rightarrow> (Inr found, dev)
          | (None, dev) \<Rightarrow> lookup_blocks g dev sb cinode name name_len idxs)"

definition owfs_catalog_lookup ::
  "ow_identity \<Rightarrow> 'c htl_device \<Rightarrow> owfs_superblock \<Rightarrow> u32 \<Rightarrow> bytes option \<Rightarrow> nat \<Rightarrow> (owfs_status + u32) \<times> 'c htl_device" where
  "owfs_catalog_lookup g dev sb catalog_inode name name_len =
     (case name of
        None \<Rightarrow> (Inl OWFS_ERR_INVALID_PARAM, dev)
      | Some name \<Rightarrow>
          if name_len = 0 then (Inl OWFS_ERR_INVALID_PARAM, dev)
          else if name_len \<ge> 128 then (Inl OWFS_ERR_NAME_TOO_LONG, dev)
          else case catalog_read dev sb catalog_inode owfs_inode_zero of (res, dev, cinode) \<Rightarrow>
          if res \<noteq> OWFS_OK then (Inl res, dev)
          else if owfs_inode_access_check g cinode OW_ACCESS_READ \<noteq> OWFS_OK then
            (Inl (owfs_inode_access_check g cinode OW_ACCESS_READ), dev)
          else lookup_blocks g dev sb cinode name name_len [0..<unat (ino_block_count cinode)])"

definition owfs_catalog_entry_zero :: owfs_catalog_entry where
  "owfs_catalog_entry_zero =
     \<lparr>ce_inode_number = 0, ce_entry_type = 0, ce_name_length = 0, ce_name = replicate 128 0,
      ce_reserved = replicate 118 0, ce_checksum = 0\<rparr>"

text \<open>The entry that an insertion stores, in a free slot or at the start of a new block.\<close>

definition owfs_catalog_entry_fresh :: "u32 \<Rightarrow> u8 \<Rightarrow> bytes \<Rightarrow> nat \<Rightarrow> owfs_catalog_entry" where
  "owfs_catalog_entry_fresh target_inode entry_type name name_len =
     (let centry = owfs_catalog_entry_zero
        \<lparr>ce_inode_number := target_inode, ce_entry_type := entry_type, ce_name_length := of_nat name_len,
         ce_name := ow_memcpy (ce_name owfs_catalog_entry_zero) 0 name 0 name_len\<rparr>
      in centry\<lparr>ce_checksum := owfs_catalog_entry_compute_checksum centry\<rparr>)"

fun insert_entries ::
  "'c htl_device \<Rightarrow> u32 \<Rightarrow> bytes \<Rightarrow> owfs_catalog_entry \<Rightarrow> nat list \<Rightarrow> owfs_status option \<times> 'c htl_device" where
  "insert_entries dev bnum block_buf new [] = (None, dev)"
| "insert_entries dev bnum block_buf new (e # es) =
     (let centry = catalog_slot block_buf e in
      if ce_entry_type centry = 0 \<or> ce_entry_type centry AND OWFS_ENTRY_DELETED \<noteq> 0 then
        let block_buf = ow_memcpy block_buf (e * 256) (owfs_catalog_entry_bytes new) 0 256
        in case htl_write_block dev bnum block_buf of (hres, dev) \<Rightarrow>
          (Some (if hres \<noteq> HTL_OK then owfs_write_error hres else OWFS_OK), dev)
      else insert_entries dev bnum block_buf new es)"

fun insert_blocks ::
  "'c htl_device \<Rightarrow> owfs_inode \<Rightarrow> owfs_catalog_entry \<Rightarrow> nat list \<Rightarrow> owfs_status option \<times> 'c htl_device" where
  "insert_blocks dev cinode new [] = (None, dev)"
| "insert_blocks dev cinode new (idx # idxs) =
     (case owfs_blockmap_get dev cinode (of_nat idx) of
        (Inl res, dev) \<Rightarrow> (Some res, dev)
      | (Inr bnum, dev) \<Rightarrow>
          case htl_read_block dev bnum of (hres, block_buf, dev) \<Rightarrow>
          if hres \<noteq> HTL_OK then (Some OWFS_ERR_IO, dev)
          else case insert_entries dev bnum block_buf new [0..<16] of
            (Some res, dev) \<Rightarrow> (Some res, dev)
          | (None, dev) \<Rightarrow> insert_blocks dev cinode new idxs)"

text \<open>The last part of \<^verbatim>\<open>owfs_catalog_insert\<close>: no free slot in the existing blocks, so the catalog grows by one block.\<close>

definition catalog_grow ::
  "'c htl_device \<Rightarrow> owfs_superblock \<Rightarrow> u32 \<Rightarrow> owfs_inode \<Rightarrow> owfs_catalog_entry \<Rightarrow>
   owfs_status \<times> 'c htl_device \<times> owfs_superblock" where
  "catalog_grow dev sb catalog_inode cinode new =
     (case owfs_blockmap_ensure dev sb cinode (ino_block_count cinode) of
        (Inl res, dev, sb, cinode) \<Rightarrow>
          (if res = OWFS_ERR_NO_FREE_BLOCKS then OWFS_ERR_CATALOG_FULL else res, dev, sb)
      | (Inr bnum, dev, sb, cinode) \<Rightarrow>
          let block_buf = ow_memcpy (replicate 4096 0) 0 (owfs_catalog_entry_bytes new) 0 256
          in case htl_write_block dev bnum block_buf of (hres, dev) \<Rightarrow>
            if hres \<noteq> HTL_OK then (owfs_write_error hres, dev, sb)
            else case owfs_inode_write dev sb catalog_inode cinode of (res, dev, _) \<Rightarrow> (res, dev, sb))"

definition owfs_catalog_insert ::
  "ow_identity \<Rightarrow> 'c htl_device \<Rightarrow> owfs_superblock \<Rightarrow> u32 \<Rightarrow> bytes option \<Rightarrow> nat \<Rightarrow> u32 \<Rightarrow> u8 \<Rightarrow>
   owfs_status \<times> 'c htl_device \<times> owfs_superblock" where
  "owfs_catalog_insert g dev sb catalog_inode name name_len target_inode entry_type =
     (case name of
        None \<Rightarrow> (OWFS_ERR_INVALID_PARAM, dev, sb)
      | Some nm \<Rightarrow>
          if name_len = 0 then (OWFS_ERR_INVALID_PARAM, dev, sb)
          else if name_len \<ge> 128 then (OWFS_ERR_NAME_TOO_LONG, dev, sb)
          else if entry_type \<noteq> OWFS_ENTRY_FILE \<and> entry_type \<noteq> OWFS_ENTRY_CATALOG then (OWFS_ERR_INVALID_PARAM, dev, sb)
          else if \<not> ow_sutf8_validate name name_len then (OWFS_ERR_INVALID_PARAM, dev, sb)
          else if owfs_volume_writable sb \<noteq> OWFS_OK then (owfs_volume_writable sb, dev, sb)
          else case owfs_catalog_lookup g dev sb catalog_inode name name_len of
            (Inr existing, dev) \<Rightarrow> (OWFS_ERR_ALREADY_EXISTS, dev, sb)
          | (Inl _, dev) \<Rightarrow>
              case catalog_read dev sb catalog_inode owfs_inode_zero of (res, dev, cinode) \<Rightarrow>
              if res \<noteq> OWFS_OK then (res, dev, sb)
              else if owfs_inode_access_check g cinode OW_ACCESS_WRITE \<noteq> OWFS_OK then
                (owfs_inode_access_check g cinode OW_ACCESS_WRITE, dev, sb)
              else
                let new = owfs_catalog_entry_fresh target_inode entry_type nm name_len
                in case insert_blocks dev cinode new [0..<unat (ino_block_count cinode)] of
                  (Some res, dev) \<Rightarrow> (res, dev, sb)
                | (None, dev) \<Rightarrow> catalog_grow dev sb catalog_inode cinode new)"

fun remove_entries ::
  "ow_identity \<Rightarrow> 'c htl_device \<Rightarrow> owfs_superblock \<Rightarrow> u32 \<Rightarrow> bytes \<Rightarrow> bytes \<Rightarrow> nat \<Rightarrow> nat list \<Rightarrow>
   owfs_status option \<times> 'c htl_device" where
  "remove_entries g dev sb bnum block_buf name name_len [] = (None, dev)"
| "remove_entries g dev sb bnum block_buf name name_len (e # es) =
     (let centry = catalog_slot block_buf e in
      if entry_live centry \<and> ow_sutf8_name_cmp (ce_name centry) (unat (ce_name_length centry)) name name_len = 0 then
        case inode_hidden_from g dev sb (ce_inode_number centry) of (hidden, dev) \<Rightarrow>
          if hidden then (Some OWFS_ERR_NOT_FOUND, dev)
          else
            let centry = centry\<lparr>ce_entry_type := ce_entry_type centry OR OWFS_ENTRY_DELETED\<rparr>;
                centry = centry\<lparr>ce_checksum := owfs_catalog_entry_compute_checksum centry\<rparr>;
                block_buf = ow_memcpy block_buf (e * 256) (owfs_catalog_entry_bytes centry) 0 256
            in case htl_write_block dev bnum block_buf of (hres, dev) \<Rightarrow>
              (Some (if hres \<noteq> HTL_OK then owfs_write_error hres else OWFS_OK), dev)
      else remove_entries g dev sb bnum block_buf name name_len es)"

fun remove_blocks ::
  "ow_identity \<Rightarrow> 'c htl_device \<Rightarrow> owfs_superblock \<Rightarrow> owfs_inode \<Rightarrow> bytes \<Rightarrow> nat \<Rightarrow> nat list \<Rightarrow>
   owfs_status \<times> 'c htl_device" where
  "remove_blocks g dev sb cinode name name_len [] = (OWFS_ERR_NOT_FOUND, dev)"
| "remove_blocks g dev sb cinode name name_len (idx # idxs) =
     (case owfs_blockmap_get dev cinode (of_nat idx) of
        (Inl res, dev) \<Rightarrow> (res, dev)
      | (Inr bnum, dev) \<Rightarrow>
          case htl_read_block dev bnum of (hres, block_buf, dev) \<Rightarrow>
          if hres \<noteq> HTL_OK then (OWFS_ERR_IO, dev)
          else case remove_entries g dev sb bnum block_buf name name_len [0..<16] of
            (Some res, dev) \<Rightarrow> (res, dev)
          | (None, dev) \<Rightarrow> remove_blocks g dev sb cinode name name_len idxs)"

definition owfs_catalog_remove ::
  "ow_identity \<Rightarrow> 'c htl_device \<Rightarrow> owfs_superblock \<Rightarrow> u32 \<Rightarrow> bytes option \<Rightarrow> nat \<Rightarrow> owfs_status \<times> 'c htl_device" where
  "owfs_catalog_remove g dev sb catalog_inode name name_len =
     (case name of
        None \<Rightarrow> (OWFS_ERR_INVALID_PARAM, dev)
      | Some name \<Rightarrow>
          if name_len = 0 then (OWFS_ERR_INVALID_PARAM, dev)
          else if name_len \<ge> 128 then (OWFS_ERR_NAME_TOO_LONG, dev)
          else if owfs_volume_writable sb \<noteq> OWFS_OK then (owfs_volume_writable sb, dev)
          else case catalog_read dev sb catalog_inode owfs_inode_zero of (res, dev, cinode) \<Rightarrow>
          if res \<noteq> OWFS_OK then (res, dev)
          else if owfs_inode_access_check g cinode OW_ACCESS_WRITE \<noteq> OWFS_OK then
            (owfs_inode_access_check g cinode OW_ACCESS_WRITE, dev)
          else remove_blocks g dev sb cinode name name_len [0..<unat (ino_block_count cinode)])"

text \<open>Listing: the result is the status and the entries stored in the caller's array, whose number is
  \<^verbatim>\<open>*out_count\<close>.\<close>

fun list_entries ::
  "ow_identity \<Rightarrow> 'c htl_device \<Rightarrow> owfs_superblock \<Rightarrow> bytes \<Rightarrow> u32 \<Rightarrow> owfs_catalog_entry list \<Rightarrow> nat list \<Rightarrow>
   owfs_catalog_entry list \<times> 'c htl_device" where
  "list_entries g dev sb block_buf max_entries out [] = (out, dev)"
| "list_entries g dev sb block_buf max_entries out (e # es) =
     (let centry = catalog_slot block_buf e in
      if entry_live centry \<and> owfs_catalog_entry_verify_checksum centry then
        case inode_hidden_from g dev sb (ce_inode_number centry) of (hidden, dev) \<Rightarrow>
          if hidden then list_entries g dev sb block_buf max_entries out es
          else list_entries g dev sb block_buf max_entries
            (if length out < unat max_entries then out @ [centry] else out) es
      else list_entries g dev sb block_buf max_entries out es)"

fun list_blocks ::
  "ow_identity \<Rightarrow> 'c htl_device \<Rightarrow> owfs_superblock \<Rightarrow> owfs_inode \<Rightarrow> u32 \<Rightarrow> owfs_catalog_entry list \<Rightarrow> nat list \<Rightarrow>
   owfs_status \<times> owfs_catalog_entry list \<times> 'c htl_device" where
  "list_blocks g dev sb cinode max_entries out [] = (OWFS_OK, out, dev)"
| "list_blocks g dev sb cinode max_entries out (idx # idxs) =
     (case owfs_blockmap_get dev cinode (of_nat idx) of
        (Inl res, dev) \<Rightarrow> (res, out, dev)
      | (Inr bnum, dev) \<Rightarrow>
          case htl_read_block dev bnum of (hres, block_buf, dev) \<Rightarrow>
          if hres \<noteq> HTL_OK then (OWFS_ERR_IO, out, dev)
          else case list_entries g dev sb block_buf max_entries out [0..<16] of
            (out, dev) \<Rightarrow> list_blocks g dev sb cinode max_entries out idxs)"

definition owfs_catalog_list ::
  "ow_identity \<Rightarrow> 'c htl_device \<Rightarrow> owfs_superblock \<Rightarrow> u32 \<Rightarrow> u32 \<Rightarrow> owfs_status \<times> owfs_catalog_entry list \<times> 'c htl_device" where
  "owfs_catalog_list g dev sb catalog_inode max_entries =
     (if max_entries = 0 then (OWFS_ERR_INVALID_PARAM, [], dev)
      else case catalog_read dev sb catalog_inode owfs_inode_zero of (res, dev, cinode) \<Rightarrow>
      if res \<noteq> OWFS_OK then (res, [], dev)
      else if owfs_inode_access_check g cinode OW_ACCESS_READ \<noteq> OWFS_OK then
        (owfs_inode_access_check g cinode OW_ACCESS_READ, [], dev)
      else list_blocks g dev sb cinode max_entries [] [0..<unat (ino_block_count cinode)])"

definition owfs_catalog_create ::
  "ow_identity \<Rightarrow> 'c htl_device \<Rightarrow> owfs_superblock \<Rightarrow> u32 \<Rightarrow> bytes option \<Rightarrow> nat \<Rightarrow>
   (owfs_status + u32) \<times> 'c htl_device \<times> owfs_superblock" where
  "owfs_catalog_create g dev sb parent_inode name name_len =
     (case owfs_inode_alloc g dev sb OWFS_ENTRY_FILE name name_len parent_inode of
        (Inl res, dev, sb) \<Rightarrow> (Inl res, dev, sb)
      | (Inr ino, dev, sb) \<Rightarrow>
          case owfs_catalog_insert g dev sb parent_inode name name_len ino OWFS_ENTRY_FILE of (res, dev, sb) \<Rightarrow>
          if res \<noteq> OWFS_OK then (case owfs_inode_free g dev sb ino of (_, dev, sb) \<Rightarrow> (Inl res, dev, sb))
          else (Inr ino, dev, sb))"

definition owfs_catalog_mkdir ::
  "ow_identity \<Rightarrow> 'c htl_device \<Rightarrow> owfs_superblock \<Rightarrow> u32 \<Rightarrow> bytes option \<Rightarrow> nat \<Rightarrow>
   (owfs_status + u32) \<times> 'c htl_device \<times> owfs_superblock" where
  "owfs_catalog_mkdir g dev sb parent_inode name name_len =
     (case owfs_inode_alloc g dev sb OWFS_ENTRY_CATALOG name name_len parent_inode of
        (Inl res, dev, sb) \<Rightarrow> (Inl res, dev, sb)
      | (Inr ino, dev, sb) \<Rightarrow>
          case owfs_catalog_insert g dev sb parent_inode name name_len ino OWFS_ENTRY_CATALOG of (res, dev, sb) \<Rightarrow>
          if res \<noteq> OWFS_OK then (case owfs_inode_free g dev sb ino of (_, dev, sb) \<Rightarrow> (Inl res, dev, sb))
          else (Inr ino, dev, sb))"

section \<open>The entry record\<close>

lemma length_owfs_catalog_entry_bytes [simp]: "owfs_catalog_entry_wf r \<Longrightarrow> length (owfs_catalog_entry_bytes r) = 256"
  by (simp add: owfs_catalog_entry_bytes_def owfs_catalog_entry_wf_def)

lemma owfs_catalog_entry_dec_enc:
  "owfs_catalog_entry_wf r \<Longrightarrow> owfs_catalog_entry_of_bytes (owfs_catalog_entry_bytes r) = r"
  by (simp add: owfs_catalog_entry_of_bytes_def owfs_catalog_entry_bytes_def owfs_catalog_entry_wf_def window_simps nth_append)

lemma owfs_catalog_entry_enc_dec:
  assumes "length bs = 256"
  shows "owfs_catalog_entry_bytes (owfs_catalog_entry_of_bytes bs) = bs"
  using assms window_single [of 4 bs] window_single [of 5 bs]
  by (simp add: owfs_catalog_entry_of_bytes_def owfs_catalog_entry_bytes_def window_join window_join_more window_all
      flip: window_single)

lemma owfs_catalog_entry_wf_of_bytes [simp]: "length bs = 256 \<Longrightarrow> owfs_catalog_entry_wf (owfs_catalog_entry_of_bytes bs)"
  by (simp add: owfs_catalog_entry_of_bytes_def owfs_catalog_entry_wf_def)

interpretation cer: slot_record owfs_catalog_entry_bytes owfs_catalog_entry_of_bytes owfs_catalog_entry_wf
    256 252 ce_checksum "\<lambda>c. ce_checksum_update (\<lambda>_. c)"
proof
  show "owfs_catalog_entry_bytes (r\<lparr>ce_checksum := c\<rparr>) = overwrite 252 (le_store 4 c) (owfs_catalog_entry_bytes r)"
    if "owfs_catalog_entry_wf r" for r c
    using that by (simp add: owfs_catalog_entry_bytes_def owfs_catalog_entry_wf_def overwrite_def)
qed (simp_all add: owfs_catalog_entry_dec_enc owfs_catalog_entry_enc_dec,
    simp_all add: owfs_catalog_entry_wf_def owfs_catalog_entry_bytes_def window_simps)

lemma catalog_slot_eq: "catalog_slot = cer.slot_get"
  by (simp add: fun_eq_iff catalog_slot_def cer.slot_get_def)

lemma owfs_catalog_entry_wf_checksum [simp]:
  "owfs_catalog_entry_wf (r\<lparr>ce_checksum := c\<rparr>) = owfs_catalog_entry_wf r"
  "owfs_catalog_entry_wf (r\<lparr>ce_entry_type := t\<rparr>) = owfs_catalog_entry_wf r"
  by (simp_all add: owfs_catalog_entry_wf_def)

lemma owfs_catalog_entry_sealed_verifies:
  "owfs_catalog_entry_wf r \<Longrightarrow>
   owfs_catalog_entry_verify_checksum (r\<lparr>ce_checksum := owfs_catalog_entry_compute_checksum r\<rparr>)"
  using cer.crc_of_set [of r] by (simp add: cer.crc_of_def owfs_catalog_entry_verify_checksum_def owfs_catalog_entry_compute_checksum_def)

abbreviation entry_name :: "owfs_catalog_entry \<Rightarrow> bytes" where
  "entry_name centry \<equiv> take (unat (ce_name_length centry)) (ce_name centry)"

lemma owfs_catalog_entry_fresh_props:
  assumes "k < 128" and "k \<le> length nm"
  shows "owfs_catalog_entry_wf (owfs_catalog_entry_fresh n t nm k)"
    and "owfs_catalog_entry_verify_checksum (owfs_catalog_entry_fresh n t nm k)"
    and "entry_name (owfs_catalog_entry_fresh n t nm k) = take k nm"
    and "ce_inode_number (owfs_catalog_entry_fresh n t nm k) = n"
    and "ce_entry_type (owfs_catalog_entry_fresh n t nm k) = t"
proof -
  define r where "r = owfs_catalog_entry_zero
        \<lparr>ce_inode_number := n, ce_entry_type := t, ce_name_length := of_nat k,
         ce_name := ow_memcpy (ce_name owfs_catalog_entry_zero) 0 nm 0 k\<rparr>"
  have f: "owfs_catalog_entry_fresh n t nm k = r\<lparr>ce_checksum := owfs_catalog_entry_compute_checksum r\<rparr>"
    by (simp add: owfs_catalog_entry_fresh_def r_def Let_def)
  have u: "unat (of_nat k :: u8) = k" using assms(1) by (intro unat_of_nat_small) simp
  have wf: "owfs_catalog_entry_wf r"
    using assms by (simp add: owfs_catalog_entry_wf_def r_def owfs_catalog_entry_zero_def ow_memcpy_eq)
  then show "owfs_catalog_entry_wf (owfs_catalog_entry_fresh n t nm k)" by (simp add: f)
  show "owfs_catalog_entry_verify_checksum (owfs_catalog_entry_fresh n t nm k)"
    unfolding f by (rule owfs_catalog_entry_sealed_verifies [OF wf])
  show "entry_name (owfs_catalog_entry_fresh n t nm k) = take k nm"
    using assms u by (simp add: f r_def owfs_catalog_entry_zero_def ow_memcpy_eq overwrite_def window_def)
  show "ce_inode_number (owfs_catalog_entry_fresh n t nm k) = n" "ce_entry_type (owfs_catalog_entry_fresh n t nm k) = t"
    by (simp_all add: f r_def)
qed

section \<open>The loops over the entries\<close>

definition owfs_slots :: "owfs_inode \<Rightarrow> (nat \<times> nat) list" where
  "owfs_slots inode = List.product [0..<unat (ino_block_count inode)] [0..<16]"

definition owfs_entry_at :: "'c htl_device \<Rightarrow> owfs_inode \<Rightarrow> nat \<times> nat \<Rightarrow> owfs_catalog_entry" where
  "owfs_entry_at dev inode p = catalog_slot (blk dev (owfs_blocks dev inode ! fst p)) (snd p)"

definition owfs_hidden :: "ow_identity \<Rightarrow> 'c htl_device \<Rightarrow> owfs_superblock \<Rightarrow> u32 \<Rightarrow> bool" where
  "owfs_hidden g dev sb n = fst (inode_hidden_from g dev sb n)"

lemma inode_hidden_from_eq:
  assumes "htl_reliable dev" and "owfs_geometry dev sb"
  shows "inode_hidden_from g dev sb n = (owfs_hidden g dev sb n, dev)"
proof -
  have "snd (inode_hidden_from g dev sb n) = dev"
    using owfs_inode_read_reliable [OF assms, of n owfs_inode_zero]
    by (cases "n < sb_total_inodes sb") (simp_all add: inode_hidden_from_def owfs_inode_read_def Let_def not_less)
  then show ?thesis by (simp add: owfs_hidden_def prod_eq_iff)
qed

lemma owfs_hidden_superuser: "uid g = 0 \<Longrightarrow> \<not> owfs_hidden g dev sb n"
  by (simp add: owfs_hidden_def inode_hidden_from_def ow_sec_is_superuser_def split: prod.split)

lemma name_cmp_0:
  "ow_sutf8_name_cmp (ce_name c) (unat (ce_name_length c)) nm k = 0 \<longleftrightarrow>
   entry_name c = take k nm \<and> sutf8_validate_loop (take k nm)"
  by (auto simp: ow_sutf8_name_cmp_def sutf8_cmp_0)

lemma find_map: "find P (map f xs) = map_option f (find (P \<circ> f) xs)"
  by (induction xs) simp_all

lemma find_product_Cons:
  "find P (List.product (i # is) es) =
   (case find (\<lambda>e. P (i, e)) es of None \<Rightarrow> find P (List.product is es) | Some e \<Rightarrow> Some (i, e))"
  by (simp add: find_append find_map comp_def split: option.split)

definition lookup_match ::
  "ow_identity \<Rightarrow> 'c htl_device \<Rightarrow> owfs_superblock \<Rightarrow> bytes \<Rightarrow> owfs_catalog_entry \<Rightarrow> bool" where
  "lookup_match g dev sb name c \<longleftrightarrow>
     entry_live c \<and> owfs_catalog_entry_verify_checksum c \<and> entry_name c = name \<and> sutf8_validate_loop name \<and>
     \<not> owfs_hidden g dev sb (ce_inode_number c)"

lemma lookup_entries_find:
  assumes "htl_reliable dev" and "owfs_geometry dev sb"
  shows "lookup_entries g dev sb buf nm k es =
    (map_option (\<lambda>e. ce_inode_number (catalog_slot buf e))
       (find (\<lambda>e. lookup_match g dev sb (take k nm) (catalog_slot buf e)) es), dev)"
  using inode_hidden_from_eq [OF assms]
  by (induction es) (simp_all add: Let_def name_cmp_0 lookup_match_def)

text \<open>The block a map returns, as a block of the device.\<close>

lemma catalog_block:
  assumes inv: "owfs_alloc_inv dev sb" and map: "owfs_map_ok dev sb inode" and i: "i < unat (ino_block_count inode)"
  shows "owfs_blockmap_get dev inode (of_nat i) = (Inr (owfs_blocks dev inode ! i), dev)"
    and "owfs_blocks dev inode ! i \<in> owfs_region sb" and "owfs_blocks dev inode ! i < total_blocks dev"
    and "htl_read_block dev (owfs_blocks dev inode ! i) = (HTL_OK, blk dev (owfs_blocks dev inode ! i), dev)"
    and "length (blk dev (owfs_blocks dev inode ! i)) = 4096" and "owfs_blocks dev inode ! i \<in> set (owfs_blocks dev inode)"
proof -
  note d = owfs_map_okD [OF inv map]
  have "i < 2 ^ 32" using i d(7) by simp
  then have u: "unat (of_nat i :: u32) = i" by (intro unat_of_nat_small) simp
  then have "of_nat i < ino_block_count inode" using i by (simp add: word_less_nat_alt)
  from owfs_blockmap_get_ok [OF inv map this] u
  show "owfs_blockmap_get dev inode (of_nat i) = (Inr (owfs_blocks dev inode ! i), dev)" by simp
  show mem: "owfs_blocks dev inode ! i \<in> set (owfs_blocks dev inode)" using i by simp
  show reg: "owfs_blocks dev inode ! i \<in> owfs_region sb" by (rule owfs_file_block(1) [OF inv map mem])
  show lt: "owfs_blocks dev inode ! i < total_blocks dev" by (rule owfs_region_outside(1) [OF d(2) reg])
  show "htl_read_block dev (owfs_blocks dev inode ! i) = (HTL_OK, blk dev (owfs_blocks dev inode ! i), dev)"
    "length (blk dev (owfs_blocks dev inode ! i)) = 4096"
    using d(1) lt by (simp_all add: htl_read_reliable length_blk)
qed

lemma lookup_blocks_find:
  assumes inv: "owfs_alloc_inv dev sb" and map: "owfs_map_ok dev sb inode"
    and "\<forall>i\<in>set idxs. i < unat (ino_block_count inode)"
  shows "lookup_blocks g dev sb inode nm k idxs =
    (case find (\<lambda>p. lookup_match g dev sb (take k nm) (owfs_entry_at dev inode p)) (List.product idxs [0..<16]) of
       None \<Rightarrow> Inl OWFS_ERR_NOT_FOUND | Some p \<Rightarrow> Inr (ce_inode_number (owfs_entry_at dev inode p)), dev)"
  using assms(3)
proof (induction idxs)
  case (Cons i idxs)
  then have i: "i < unat (ino_block_count inode)" by simp
  note b = catalog_block [OF inv map i] and d = owfs_map_okD [OF inv map]
  show ?case
    using Cons unfolding find_product_Cons lookup_blocks.simps b(1) prod.case sum.case b(4) lookup_entries_find [OF d(1,2)]
    by (simp add: owfs_entry_at_def split: option.split)
qed simp

lemma insert_entries_find:
  assumes "htl_reliable dev" and "b < total_blocks dev" and "length buf = 4096" and "owfs_catalog_entry_wf new"
    and "\<forall>e\<in>set es. e < 16"
  shows "insert_entries dev b buf new es =
    (case find (\<lambda>e. \<not> entry_live (catalog_slot buf e)) es of
       None \<Rightarrow> (None, dev) | Some e \<Rightarrow> (Some OWFS_OK, blk_write dev b (cer.slot_put buf e new)))"
  using assms(5)
proof (induction es)
  case (Cons e es)
  have "e * 256 + 256 \<le> 4096" using Cons.prems by simp
  then have c: "ow_memcpy buf (e * 256) (owfs_catalog_entry_bytes new) 0 256 = cer.slot_put buf e new"
    using assms(3,4) by (simp add: ow_memcpy_eq cer.slot_put_def window_all)
  have "length (cer.slot_put buf e new) = 4096" by (rule cer.length_slot_put) (use assms Cons.prems in simp_all)
  then show ?case using Cons assms(1,2) by (simp add: Let_def c dev_simps)
qed simp

lemma insert_blocks_find:
  assumes inv: "owfs_alloc_inv dev sb" and map: "owfs_map_ok dev sb inode" and new: "owfs_catalog_entry_wf new"
    and "\<forall>i\<in>set idxs. i < unat (ino_block_count inode)"
  shows "insert_blocks dev inode new idxs =
    (case find (\<lambda>p. \<not> entry_live (owfs_entry_at dev inode p)) (List.product idxs [0..<16]) of
       None \<Rightarrow> (None, dev)
     | Some p \<Rightarrow> let b = owfs_blocks dev inode ! fst p in (Some OWFS_OK, blk_write dev b (cer.slot_put (blk dev b) (snd p) new)))"
  using assms(4)
proof (induction idxs)
  case (Cons i idxs)
  then have i: "i < unat (ino_block_count inode)" by simp
  note b = catalog_block [OF inv map i] and d = owfs_map_okD [OF inv map]
  have e: "insert_entries dev (owfs_blocks dev inode ! i) (blk dev (owfs_blocks dev inode ! i)) new [0..<16] =
    (case find (\<lambda>e. \<not> entry_live (catalog_slot (blk dev (owfs_blocks dev inode ! i)) e)) [0..<16] of
       None \<Rightarrow> (None, dev)
     | Some e \<Rightarrow> (Some OWFS_OK, blk_write dev (owfs_blocks dev inode ! i) (cer.slot_put (blk dev (owfs_blocks dev inode ! i)) e new)))"
    by (rule insert_entries_find [OF d(1) b(3,5) new]) simp
  show ?case
    using Cons unfolding find_product_Cons insert_blocks.simps b(1) prod.case sum.case b(4) e
    by (simp add: owfs_entry_at_def Let_def split: option.split)
qed simp

definition entry_deleted :: "owfs_catalog_entry \<Rightarrow> owfs_catalog_entry" where
  "entry_deleted c =
     (let c = c\<lparr>ce_entry_type := ce_entry_type c OR OWFS_ENTRY_DELETED\<rparr>
      in c\<lparr>ce_checksum := owfs_catalog_entry_compute_checksum c\<rparr>)"

lemma entry_deleted_props:
  "owfs_catalog_entry_wf (entry_deleted c) = owfs_catalog_entry_wf c" "\<not> entry_live (entry_deleted c)"
  by (simp_all add: entry_deleted_def Let_def or_deleted)

definition remove_match :: "bytes \<Rightarrow> owfs_catalog_entry \<Rightarrow> bool" where
  "remove_match name c \<longleftrightarrow> entry_live c \<and> entry_name c = name \<and> sutf8_validate_loop name"

lemma remove_entries_find:
  assumes "htl_reliable dev" and "owfs_geometry dev sb" and "b < total_blocks dev" and "length buf = 4096"
    and "\<forall>e\<in>set es. e < 16"
  shows "remove_entries g dev sb b buf nm k es =
    (case find (\<lambda>e. remove_match (take k nm) (catalog_slot buf e)) es of
       None \<Rightarrow> (None, dev)
     | Some e \<Rightarrow> if owfs_hidden g dev sb (ce_inode_number (catalog_slot buf e)) then (Some OWFS_ERR_NOT_FOUND, dev)
                 else (Some OWFS_OK, blk_write dev b (cer.slot_put buf e (entry_deleted (catalog_slot buf e)))))"
  using assms(5)
proof (induction es)
  case (Cons e es)
  have fit: "e * 256 + 256 \<le> 4096" using Cons.prems by simp
  let ?d = "entry_deleted (catalog_slot buf e)"
  have wf: "owfs_catalog_entry_wf ?d"
    using cer.wf_slot [of buf e] assms(4) Cons.prems by (simp add: entry_deleted_props catalog_slot_eq)
  then have c: "ow_memcpy buf (e * 256) (owfs_catalog_entry_bytes ?d) 0 256 = cer.slot_put buf e ?d"
    using assms(4) fit by (simp add: ow_memcpy_eq cer.slot_put_def window_all)
  have "length (cer.slot_put buf e ?d) = 4096" by (rule cer.length_slot_put) (use assms Cons.prems wf in simp_all)
  then show ?case
    using Cons assms(1,3) c inode_hidden_from_eq [OF assms(1,2)]
    by (simp add: Let_def name_cmp_0 remove_match_def entry_deleted_def dev_simps)
qed simp

lemma remove_blocks_find:
  assumes inv: "owfs_alloc_inv dev sb" and map: "owfs_map_ok dev sb inode"
    and "\<forall>i\<in>set idxs. i < unat (ino_block_count inode)"
  shows "remove_blocks g dev sb inode nm k idxs =
    (case find (\<lambda>p. remove_match (take k nm) (owfs_entry_at dev inode p)) (List.product idxs [0..<16]) of
       None \<Rightarrow> (OWFS_ERR_NOT_FOUND, dev)
     | Some p \<Rightarrow>
         if owfs_hidden g dev sb (ce_inode_number (owfs_entry_at dev inode p)) then (OWFS_ERR_NOT_FOUND, dev)
         else let b = owfs_blocks dev inode ! fst p
              in (OWFS_OK, blk_write dev b (cer.slot_put (blk dev b) (snd p) (entry_deleted (owfs_entry_at dev inode p)))))"
  using assms(3)
proof (induction idxs)
  case (Cons i idxs)
  then have i: "i < unat (ino_block_count inode)" by simp
  note b = catalog_block [OF inv map i] and d = owfs_map_okD [OF inv map]
  let ?b = "owfs_blocks dev inode ! i"
  have e: "remove_entries g dev sb ?b (blk dev ?b) nm k [0..<16] =
    (case find (\<lambda>e. remove_match (take k nm) (catalog_slot (blk dev ?b) e)) [0..<16] of
       None \<Rightarrow> (None, dev)
     | Some e \<Rightarrow> if owfs_hidden g dev sb (ce_inode_number (catalog_slot (blk dev ?b) e)) then (Some OWFS_ERR_NOT_FOUND, dev)
                 else (Some OWFS_OK, blk_write dev ?b (cer.slot_put (blk dev ?b) e (entry_deleted (catalog_slot (blk dev ?b) e)))))"
    by (rule remove_entries_find [OF d(1,2) b(3,5)]) simp
  show ?case
    using Cons unfolding find_product_Cons remove_blocks.simps b(1) prod.case sum.case b(4) e
    by (cases "find (\<lambda>e. remove_match (take k nm) (catalog_slot (blk dev ?b) e)) [0..<16]")
      (simp_all add: owfs_entry_at_def Let_def)
qed simp

definition list_match :: "ow_identity \<Rightarrow> 'c htl_device \<Rightarrow> owfs_superblock \<Rightarrow> owfs_catalog_entry \<Rightarrow> bool" where
  "list_match g dev sb c \<longleftrightarrow>
     entry_live c \<and> owfs_catalog_entry_verify_checksum c \<and> \<not> owfs_hidden g dev sb (ce_inode_number c)"

lemma list_entries_filter:
  assumes "htl_reliable dev" and "owfs_geometry dev sb"
  shows "length out \<le> unat m \<Longrightarrow> list_entries g dev sb buf m out es =
    (take (unat m) (out @ filter (list_match g dev sb) (map (catalog_slot buf) es)), dev)"
proof (induction es arbitrary: out)
  case (Cons e es)
  show ?case
  proof (cases "list_match g dev sb (catalog_slot buf e)")
    case True
    then show ?thesis
      using Cons.IH [of "out @ [catalog_slot buf e]"] Cons.IH [of out] Cons.prems inode_hidden_from_eq [OF assms]
      by (auto simp: Let_def list_match_def)
  next
    case False
    then show ?thesis
      using Cons.IH [of out] Cons.prems inode_hidden_from_eq [OF assms] by (auto simp: Let_def list_match_def)
  qed
qed simp

lemma list_blocks_filter:
  assumes inv: "owfs_alloc_inv dev sb" and map: "owfs_map_ok dev sb inode"
    and "\<forall>i\<in>set idxs. i < unat (ino_block_count inode)" and "length out \<le> unat m"
  shows "list_blocks g dev sb inode m out idxs =
    (OWFS_OK, take (unat m) (out @ filter (list_match g dev sb) (map (owfs_entry_at dev inode) (List.product idxs [0..<16]))), dev)"
  using assms(3,4)
proof (induction idxs arbitrary: out)
  case (Cons i idxs)
  then have i: "i < unat (ino_block_count inode)" by simp
  note b = catalog_block [OF inv map i] and d = owfs_map_okD [OF inv map]
  let ?f = "filter (list_match g dev sb) (map (catalog_slot (blk dev (owfs_blocks dev inode ! i))) [0..<16])"
  have l: "map (owfs_entry_at dev inode \<circ> Pair i) [0..<16] = map (catalog_slot (blk dev (owfs_blocks dev inode ! i))) [0..<16]"
    by (simp add: owfs_entry_at_def)
  have "take (unat m) (take (unat m) (out @ ?f) @ xs) = take (unat m) (out @ ?f @ xs)" for xs
    using Cons.prems(2) by (cases "length (out @ ?f) \<le> unat m") (simp_all add: min_absorb1)
  then show ?case
    using Cons.IH [of "take (unat m) (out @ ?f)"] Cons.prems
    unfolding list_blocks.simps b(1) prod.case sum.case b(4) list_entries_filter [OF d(1,2) Cons.prems(2)]
    by (simp only: product.simps map_append map_map l filter_append) simp
qed simp

section \<open>A catalog as a finite map\<close>

definition owfs_entries :: "'c htl_device \<Rightarrow> owfs_inode \<Rightarrow> ((nat \<times> nat) \<times> owfs_catalog_entry) set" where
  "owfs_entries dev inode = {(p, owfs_entry_at dev inode p) | p. p \<in> set (owfs_slots inode) \<and> entry_live (owfs_entry_at dev inode p)}"

lemma owfs_entries_iff:
  "(p, c) \<in> owfs_entries dev inode \<longleftrightarrow>
   p \<in> set (owfs_slots inode) \<and> entry_live (owfs_entry_at dev inode p) \<and> c = owfs_entry_at dev inode p"
  unfolding owfs_entries_def by blast

lemma map_Some_eqI: "(\<And>x y. f x = Some y \<longleftrightarrow> g x = Some y) \<Longrightarrow> f = g"
  by (rule ext) (metis not_None_eq)

text \<open>A sound catalog: the live entries are sealed, their names are valid text, and no two have the same name.\<close>

definition owfs_catalog_ok :: "'c htl_device \<Rightarrow> owfs_inode \<Rightarrow> bool" where
  "owfs_catalog_ok dev inode \<longleftrightarrow>
     (\<forall>x \<in> owfs_entries dev inode. owfs_catalog_entry_verify_checksum (snd x) \<and> sutf8_validate_loop (entry_name (snd x))) \<and>
     inj_on (\<lambda>x. entry_name (snd x)) (owfs_entries dev inode)"

text \<open>The map a catalog stands for.\<close>

definition owfs_dir :: "'c htl_device \<Rightarrow> owfs_inode \<Rightarrow> bytes \<rightharpoonup> u32" where
  "owfs_dir dev inode name =
     map_option (\<lambda>p. ce_inode_number (owfs_entry_at dev inode p))
       (find (\<lambda>p. entry_live (owfs_entry_at dev inode p) \<and> entry_name (owfs_entry_at dev inode p) = name) (owfs_slots inode))"

lemma find_Some_mem: "find P xs = Some x \<Longrightarrow> x \<in> set xs \<and> P x"
  by (induction xs) (auto split: if_splits)

lemma owfs_dir_None:
  "owfs_dir dev inode name = None \<longleftrightarrow> (\<forall>x \<in> owfs_entries dev inode. entry_name (snd x) \<noteq> name)"
  unfolding owfs_dir_def option.map_disc_iff find_None_iff owfs_entries_def by fastforce

lemma owfs_dir_Some:
  assumes "owfs_catalog_ok dev inode"
  shows "owfs_dir dev inode name = Some n \<longleftrightarrow>
    (\<exists>x \<in> owfs_entries dev inode. entry_name (snd x) = name \<and> ce_inode_number (snd x) = n)"
proof
  assume "owfs_dir dev inode name = Some n"
  then obtain p where "find (\<lambda>p. entry_live (owfs_entry_at dev inode p) \<and> entry_name (owfs_entry_at dev inode p) = name)
      (owfs_slots inode) = Some p" and n: "ce_inode_number (owfs_entry_at dev inode p) = n"
    by (auto simp: owfs_dir_def)
  from find_Some_mem [OF this(1)] n
  show "\<exists>x \<in> owfs_entries dev inode. entry_name (snd x) = name \<and> ce_inode_number (snd x) = n"
    by (intro bexI [of _ "(p, owfs_entry_at dev inode p)"]) (simp_all add: owfs_entries_iff)
next
  assume "\<exists>x \<in> owfs_entries dev inode. entry_name (snd x) = name \<and> ce_inode_number (snd x) = n"
  then obtain x where x: "x \<in> owfs_entries dev inode" "entry_name (snd x) = name" "ce_inode_number (snd x) = n" by blast
  then have "owfs_dir dev inode name \<noteq> None" using owfs_dir_None by blast
  then obtain p where "find (\<lambda>p. entry_live (owfs_entry_at dev inode p) \<and> entry_name (owfs_entry_at dev inode p) = name)
      (owfs_slots inode) = Some p" and d: "owfs_dir dev inode name = Some (ce_inode_number (owfs_entry_at dev inode p))"
    by (auto simp: owfs_dir_def)
  from find_Some_mem [OF this(1)]
  have p: "(p, owfs_entry_at dev inode p) \<in> owfs_entries dev inode" "entry_name (owfs_entry_at dev inode p) = name"
    by (simp_all add: owfs_entries_iff)
  have "x = (p, owfs_entry_at dev inode p)"
    using assms x(1,2) p unfolding owfs_catalog_ok_def by (intro inj_onD [where f = "\<lambda>x. entry_name (snd x)"]) auto
  with x(3) d show "owfs_dir dev inode name = Some n" by simp
qed

lemma owfs_catalog_ok_insert:
  assumes ok: "owfs_catalog_ok dev inode" and e: "owfs_entries dev' inode' = insert (p, new) (owfs_entries dev inode)"
    and new: "owfs_catalog_entry_verify_checksum new" "sutf8_validate_loop (entry_name new)"
    and fresh: "owfs_dir dev inode (entry_name new) = None"
  shows "owfs_catalog_ok dev' inode'" and "owfs_dir dev' inode' = (owfs_dir dev inode)(entry_name new \<mapsto> ce_inode_number new)"
proof -
  from fresh have f: "\<forall>x \<in> owfs_entries dev inode. entry_name (snd x) \<noteq> entry_name new" by (simp add: owfs_dir_None)
  show ok': "owfs_catalog_ok dev' inode'"
    using ok new f unfolding owfs_catalog_ok_def e by (auto simp: inj_on_insert)
  have "owfs_dir dev' inode' name = Some n \<longleftrightarrow>
      ((owfs_dir dev inode)(entry_name new \<mapsto> ce_inode_number new)) name = Some n" for name n
    using owfs_dir_Some [OF ok'] owfs_dir_Some [OF ok] f unfolding e by (auto split: if_splits)
  then show "owfs_dir dev' inode' = (owfs_dir dev inode)(entry_name new \<mapsto> ce_inode_number new)"
    by (rule map_Some_eqI)
qed

lemma owfs_catalog_ok_remove:
  assumes ok: "owfs_catalog_ok dev inode" and p: "(p, c) \<in> owfs_entries dev inode"
    and e: "owfs_entries dev' inode' = owfs_entries dev inode - {(p, c)}"
  shows "owfs_catalog_ok dev' inode'" and "owfs_dir dev' inode' = (owfs_dir dev inode)(entry_name c := None)"
proof -
  show ok': "owfs_catalog_ok dev' inode'" using ok unfolding owfs_catalog_ok_def e by (auto intro: inj_on_subset)
  have u: "x = (p, c)" if "x \<in> owfs_entries dev inode" "entry_name (snd x) = entry_name c" for x
    using ok p that unfolding owfs_catalog_ok_def by (intro inj_onD [where f = "\<lambda>x. entry_name (snd x)"]) auto
  have "owfs_dir dev' inode' name = Some n \<longleftrightarrow> ((owfs_dir dev inode)(entry_name c := None)) name = Some n" for name n
  proof (cases "name = entry_name c")
    case True
    then show ?thesis using owfs_dir_Some [OF ok', of name n] u unfolding e by auto
  next
    case False
    then have "(\<exists>x \<in> owfs_entries dev inode - {(p, c)}. entry_name (snd x) = name \<and> ce_inode_number (snd x) = n) \<longleftrightarrow>
      (\<exists>x \<in> owfs_entries dev inode. entry_name (snd x) = name \<and> ce_inode_number (snd x) = n)" by force
    then show ?thesis using False owfs_dir_Some [OF ok', of name n] owfs_dir_Some [OF ok, of name n] unfolding e by simp
  qed
  then show "owfs_dir dev' inode' = (owfs_dir dev inode)(entry_name c := None)"
    by (rule map_Some_eqI)
qed

section \<open>Looking up and listing\<close>

lemma owfs_slots_iff: "(i, e) \<in> set (owfs_slots inode) \<longleftrightarrow> i < unat (ino_block_count inode) \<and> e < 16"
  by (auto simp: owfs_slots_def)

lemma owfs_slots_cong [simp]:
  "owfs_slots (inode\<lparr>ino_checksum := c\<rparr>) = owfs_slots inode"
  "owfs_entry_at dev (inode\<lparr>ino_checksum := c\<rparr>) = owfs_entry_at dev inode"
  "owfs_entries dev (inode\<lparr>ino_checksum := c\<rparr>) = owfs_entries dev inode"
  by (simp_all add: owfs_slots_def owfs_entries_def owfs_entry_at_def fun_eq_iff)

definition owfs_is_catalog :: "'c htl_device \<Rightarrow> owfs_superblock \<Rightarrow> u32 \<Rightarrow> bool" where
  "owfs_is_catalog dev sb n \<longleftrightarrow>
     unat n \<in> owfs_live dev sb \<and> ino_entry_type (owfs_inode_at dev sb (unat n)) AND OWFS_ENTRY_CATALOG \<noteq> 0"

lemma catalog_read_ok:
  assumes ok: "owfs_volume_ok dev sb" and cat: "owfs_is_catalog dev sb n"
  shows "catalog_read dev sb n temp = (OWFS_OK, dev, owfs_inode_at dev sb (unat n))"
proof -
  note d = owfs_volume_okD [OF ok]
  have live: "unat n \<in> owfs_live dev sb" using cat by (simp add: owfs_is_catalog_def)
  then have "n < sb_total_inodes sb" by (simp add: owfs_live_def word_less_nat_alt)
  from owfs_inode_read_reliable [OF d(3,4) this, of temp] d(5) [OF live] cat
  show ?thesis by (simp add: catalog_read_def owfs_is_catalog_def Let_def)
qed

lemma owfs_catalog_lookup_dir:
  fixes dev :: "'c htl_device"
  assumes ok: "owfs_volume_ok dev sb" and cat: "owfs_is_catalog dev sb n"
    and inode: "inode = owfs_inode_at dev sb (unat n)" and cok: "owfs_catalog_ok dev inode"
    and acc: "owfs_inode_access_check g inode OW_ACCESS_READ = OWFS_OK" and k: "0 < k" "k < 128"
  shows "owfs_catalog_lookup g dev sb n (Some nm) k =
    (case owfs_dir dev inode (take k nm) of
       None \<Rightarrow> Inl OWFS_ERR_NOT_FOUND
     | Some i \<Rightarrow> if owfs_hidden g dev sb i then Inl OWFS_ERR_NOT_FOUND else Inr i, dev)"
proof -
  note d = owfs_volume_okD [OF ok]
  have map: "owfs_map_ok dev sb inode" using d(6) cat inode by (simp add: owfs_is_catalog_def)
  let ?P = "\<lambda>p. lookup_match g dev sb (take k nm) (owfs_entry_at dev inode p)"
  have l: "owfs_catalog_lookup g dev sb n (Some nm) k =
    (case find ?P (owfs_slots inode) of None \<Rightarrow> Inl OWFS_ERR_NOT_FOUND | Some p \<Rightarrow> Inr (ce_inode_number (owfs_entry_at dev inode p)), dev)"
    using catalog_read_ok [OF ok cat] acc k lookup_blocks_find [OF d(1) map, of "[0..<unat (ino_block_count inode)]" g nm k]
    by (simp add: owfs_catalog_lookup_def owfs_slots_def flip: inode)
  have m: "?P p \<longleftrightarrow> (p, owfs_entry_at dev inode p) \<in> owfs_entries dev inode \<and> entry_name (owfs_entry_at dev inode p) = take k nm \<and>
      \<not> owfs_hidden g dev sb (ce_inode_number (owfs_entry_at dev inode p))" if "p \<in> set (owfs_slots inode)" for p
  proof -
    have "owfs_catalog_entry_verify_checksum (owfs_entry_at dev inode p) \<and> sutf8_validate_loop (entry_name (owfs_entry_at dev inode p))"
      if "(p, owfs_entry_at dev inode p) \<in> owfs_entries dev inode"
      using cok that unfolding owfs_catalog_ok_def by fastforce
    then show ?thesis using that unfolding lookup_match_def owfs_entries_iff by auto
  qed
  show ?thesis
  proof (cases "find ?P (owfs_slots inode)")
    case None
    then have no: "\<not> ?P p" if "p \<in> set (owfs_slots inode)" for p using that unfolding find_None_iff by blast
    have "owfs_hidden g dev sb i" if "owfs_dir dev inode (take k nm) = Some i" for i
    proof -
      from that obtain p c where x: "(p, c) \<in> owfs_entries dev inode" "entry_name c = take k nm" "ce_inode_number c = i"
        unfolding owfs_dir_Some [OF cok] by auto
      then have "p \<in> set (owfs_slots inode)" "c = owfs_entry_at dev inode p" by (simp_all add: owfs_entries_iff)
      then show ?thesis using no [of p] m [of p] x by blast
    qed
    then show ?thesis using l None by (auto split: option.split)
  next
    case (Some p)
    from find_Some_mem [OF this] m [of p]
    have p: "(p, owfs_entry_at dev inode p) \<in> owfs_entries dev inode" "entry_name (owfs_entry_at dev inode p) = take k nm"
      "\<not> owfs_hidden g dev sb (ce_inode_number (owfs_entry_at dev inode p))" by blast+
    then have "owfs_dir dev inode (take k nm) = Some (ce_inode_number (owfs_entry_at dev inode p))"
      unfolding owfs_dir_Some [OF cok] by (intro bexI [OF _ p(1)]) simp
    then show ?thesis using l Some p(3) by simp
  qed
qed

lemma owfs_catalog_lookup_absent:
  fixes dev :: "'c htl_device"
  assumes ok: "owfs_volume_ok dev sb" and cat: "owfs_is_catalog dev sb n"
    and inode: "inode = owfs_inode_at dev sb (unat n)" and cok: "owfs_catalog_ok dev inode"
    and none: "owfs_dir dev inode (take k nm) = None"
  shows "\<exists>e. owfs_catalog_lookup g dev sb n (Some nm) k = (Inl e, dev)"
proof (cases "owfs_inode_access_check g inode OW_ACCESS_READ = OWFS_OK \<and> 0 < k \<and> k < 128")
  case True
  with owfs_catalog_lookup_dir [OF ok cat inode cok, of g k nm] none show ?thesis by simp
next
  case False
  then show ?thesis using catalog_read_ok [OF ok cat] by (auto simp: owfs_catalog_lookup_def simp flip: inode)
qed

lemma owfs_catalog_list_entries:
  fixes dev :: "'c htl_device"
  assumes ok: "owfs_volume_ok dev sb" and cat: "owfs_is_catalog dev sb n"
    and inode: "inode = owfs_inode_at dev sb (unat n)"
    and acc: "owfs_inode_access_check g inode OW_ACCESS_READ = OWFS_OK" and m: "m \<noteq> 0"
  shows "owfs_catalog_list g dev sb n m =
    (OWFS_OK, take (unat m) (filter (list_match g dev sb) (map (owfs_entry_at dev inode) (owfs_slots inode))), dev)"
proof -
  note d = owfs_volume_okD [OF ok]
  have map: "owfs_map_ok dev sb inode" using d(6) cat inode by (simp add: owfs_is_catalog_def)
  show ?thesis
    using catalog_read_ok [OF ok cat] acc m list_blocks_filter [OF d(1) map, of "[0..<unat (ino_block_count inode)]" "[]" m g]
    by (simp add: owfs_catalog_list_def owfs_slots_def flip: inode)
qed

section \<open>Changing an entry in place\<close>

lemma owfs_volume_ok_data_write:
  fixes dev :: "'c htl_device"
  assumes ok: "owfs_volume_ok dev sb" and live: "i \<in> owfs_live dev sb"
    and b: "b \<in> set (owfs_blocks dev (owfs_inode_at dev sb i))" and len: "length new = 4096"
  defines "dev' \<equiv> blk_write dev b new"
  shows "owfs_volume_ok dev' sb" and "\<And>j. j < unat (sb_total_inodes sb) \<Longrightarrow> owfs_inode_at dev' sb j = owfs_inode_at dev sb j"
    and "owfs_blocks dev' (owfs_inode_at dev sb i) = owfs_blocks dev (owfs_inode_at dev sb i)"
    and "owfs_others_kept dev sb i dev'" and "owfs_frame sb {b} dev dev'" and "blk dev' b = new"
proof -
  note d = owfs_volume_okD [OF ok]
  let ?inode = "owfs_inode_at dev sb i"
  note map = d(6) [OF live]
  note fb = owfs_file_block [OF d(1) map b]
  note w = owfs_alloc_inv_region_write [OF d(1) fb(1) len, folded dev'_def]
  show fr: "owfs_frame sb {b} dev dev'" and "blk dev' b = new" by (rule w(4) w(5))+
  have tab: "{b} \<inter> owfs_table sb = {}" using fb(1) owfs_table_region [of sb] by auto
  show at: "owfs_inode_at dev' sb j = owfs_inode_at dev sb j" if "j < unat (sb_total_inodes sb)" for j
    by (rule owfs_inode_at_frame [OF d(4) fr tab that])
  have i: "i < unat (sb_total_inodes sb)" using live by (simp add: owfs_live_def)
  have lv: "owfs_live dev' sb = owfs_live dev sb" using at by (auto simp: owfs_live_def)
  have own: "b \<in> owfs_owned dev ?inode" using b by (simp add: owfs_owned_def)
  have S: "{b} \<inter> owfs_others dev sb i = {}" using own d(7) [OF live] by auto
  have ind: "10 < unat (ino_block_count ?inode) \<Longrightarrow> ino_indirect_block ?inode \<notin> {b}"
    using owfs_indirect_owned(5) [OF d(1) map] b by auto
  note bl = owfs_blocks_frame [OF d(1) map fr ind]
  show "owfs_blocks dev' ?inode = owfs_blocks dev ?inode" by (rule bl(1))
  have map': "owfs_map_ok dev' sb ?inode" using map bl w(3) by (simp add: owfs_map_ok_def)
  have cnt: "owfs_inodes_counted dev' sb" using d(2) lv by (simp add: owfs_inodes_counted_def)
  show "owfs_volume_ok dev' sb"
  proof (rule owfs_volume_ok_update [OF ok i _ w(2) cnt at fr S])
    show "sb = sb\<lparr>sb_free_blocks := sb_free_blocks sb, sb_free_inodes := sb_free_inodes sb\<rparr>" by simp
    show "owfs_others dev sb i \<subseteq> owfs_allocated dev' sb" using d(8) w(3) by simp
  qed (use at [OF i] d(5) [OF live] map' bl(2) d(7) [OF live] in simp_all)
  show "owfs_others_kept dev sb i dev'"
    unfolding owfs_others_kept_def
  proof (intro conjI ballI)
    show "owfs_live dev' sb = owfs_live dev sb" by (rule lv)
    fix j assume j: "j \<in> owfs_live dev sb - {i}"
    then show "owfs_inode_at dev' sb j = owfs_inode_at dev sb j" by (intro at) (simp add: owfs_live_def)
    have "{b} \<inter> owfs_owned dev (owfs_inode_at dev sb j) = {}" using S j by (auto simp: owfs_others_def)
    then show "owfs_content dev' sb (owfs_inode_at dev sb j) = owfs_content dev sb (owfs_inode_at dev sb j)"
      using j by (intro owfs_content_frame [OF d(1) d(6) fr]) auto
  qed
qed

lemma owfs_entry_put:
  fixes dev :: "'c htl_device"
  assumes ok: "owfs_volume_ok dev sb" and live: "i \<in> owfs_live dev sb" and inode: "inode = owfs_inode_at dev sb i"
    and p: "p \<in> set (owfs_slots inode)" and wf: "owfs_catalog_entry_wf new"
  defines "dev' \<equiv> blk_write dev (owfs_blocks dev inode ! fst p) (cer.slot_put (blk dev (owfs_blocks dev inode ! fst p)) (snd p) new)"
  shows "owfs_volume_ok dev' sb" and "\<And>j. j < unat (sb_total_inodes sb) \<Longrightarrow> owfs_inode_at dev' sb j = owfs_inode_at dev sb j"
    and "owfs_others_kept dev sb i dev'"
    and "\<And>q. q \<in> set (owfs_slots inode) \<Longrightarrow> owfs_entry_at dev' inode q = (if q = p then new else owfs_entry_at dev inode q)"
proof -
  note d = owfs_volume_okD [OF ok]
  have map: "owfs_map_ok dev sb inode" using d(6) [OF live] inode by simp
  obtain i0 e0 where pe: "p = (i0, e0)" by (cases p)
  with p have ie: "i0 < unat (ino_block_count inode)" "e0 < 16" by (simp_all add: owfs_slots_iff)
  note b = catalog_block [OF d(1) map ie(1)]
  have len: "length (cer.slot_put (blk dev (owfs_blocks dev inode ! i0)) e0 new) = 4096"
    by (rule cer.length_slot_put [OF b(5) ie(2) wf])
  have dev': "dev' = blk_write dev (owfs_blocks dev inode ! i0) (cer.slot_put (blk dev (owfs_blocks dev inode ! i0)) e0 new)"
    by (simp add: dev'_def pe)
  note w = owfs_volume_ok_data_write [OF ok live b(6) [unfolded inode] len, folded inode, folded dev']
  show "owfs_volume_ok dev' sb" "owfs_others_kept dev sb i dev'" using w(1,4) by simp_all
  show "owfs_inode_at dev' sb j = owfs_inode_at dev sb j" if "j < unat (sb_total_inodes sb)" for j by (rule w(2) [OF that])
  show "owfs_entry_at dev' inode q = (if q = p then new else owfs_entry_at dev inode q)" if q: "q \<in> set (owfs_slots inode)" for q
  proof -
    obtain j e where qe: "q = (j, e)" by (cases q)
    with q have je: "j < unat (ino_block_count inode)" "e < 16" by (simp_all add: owfs_slots_iff)
    show ?thesis
    proof (cases "j = i0")
      case True
      then show ?thesis
        using w(3,6) cer.slot_get_put_same [OF b(5) ie(2) wf] cer.slot_get_put_other [OF b(5) ie(2) wf, of e]
        by (auto simp: owfs_entry_at_def qe pe catalog_slot_eq cer.slot_get_def)
    next
      case False
      then have "owfs_blocks dev inode ! j \<noteq> owfs_blocks dev inode ! i0"
        using owfs_map_okD(8) [OF d(1) map] je(1) ie(1) by (simp add: nth_eq_iff_index_eq)
      then have "blk dev' (owfs_blocks dev inode ! j) = blk dev (owfs_blocks dev inode ! j)"
        using owfs_frameD [OF w(5) d(4)] catalog_block(2) [OF d(1) map je(1)] by simp
      then show ?thesis using False w(3) by (simp add: owfs_entry_at_def qe pe)
    qed
  qed
qed

text \<open>Visibility depends on the inode table alone.\<close>

lemma owfs_hidden_cong:
  assumes "htl_reliable dev" and "owfs_geometry dev sb" and "htl_reliable dev'" and "owfs_geometry dev' sb"
    and "n < sb_total_inodes sb \<Longrightarrow> owfs_inode_at dev' sb (unat n) = owfs_inode_at dev sb (unat n)"
  shows "owfs_hidden g dev' sb n = owfs_hidden g dev sb n"
proof (cases "n < sb_total_inodes sb")
  case True
  then show ?thesis
    using owfs_inode_read_reliable [OF assms(1,2) True, of owfs_inode_zero]
      owfs_inode_read_reliable [OF assms(3,4) True, of owfs_inode_zero] assms(5)
    by (simp add: owfs_hidden_def inode_hidden_from_def Let_def)
next
  case False
  then show ?thesis by (simp add: owfs_hidden_def inode_hidden_from_def owfs_inode_read_def not_less)
qed

lemma owfs_entries_put:
  assumes p: "p \<in> set (owfs_slots inode)"
    and at: "\<And>q. q \<in> set (owfs_slots inode) \<Longrightarrow> owfs_entry_at dev' inode q = (if q = p then new else owfs_entry_at dev inode q)"
  shows "owfs_entries dev' inode =
    (owfs_entries dev inode - {(p, owfs_entry_at dev inode p)}) \<union> (if entry_live new then {(p, new)} else {})"
proof (rule set_eqI)
  fix x :: "(nat \<times> nat) \<times> owfs_catalog_entry"
  obtain q c where x: "x = (q, c)" by (cases x)
  show "x \<in> owfs_entries dev' inode \<longleftrightarrow>
    x \<in> (owfs_entries dev inode - {(p, owfs_entry_at dev inode p)}) \<union> (if entry_live new then {(p, new)} else {})"
    unfolding x using p at [of q] by (cases "q = p") (auto simp: owfs_entries_iff)
qed

section \<open>Inserting, removing and creating\<close>

text \<open>The effect of a successful insertion in catalog \<open>n\<close>.\<close>

definition owfs_inserted ::
  "'c htl_device \<Rightarrow> owfs_superblock \<Rightarrow> u32 \<Rightarrow> bytes \<Rightarrow> u32 \<Rightarrow> 'c htl_device \<Rightarrow> owfs_superblock \<Rightarrow> bool" where
  "owfs_inserted dev sb n name target dev' sb' \<longleftrightarrow>
     (let inode = owfs_inode_at dev sb (unat n); inode' = owfs_inode_at dev' sb (unat n) in
      owfs_volume_ok dev' sb' \<and> owfs_is_catalog dev' sb' n \<and> owfs_others_kept dev sb (unat n) dev' \<and>
      sb' = sb\<lparr>sb_free_blocks := sb_free_blocks sb'\<rparr> \<and> unat (sb_free_blocks sb) \<le> unat (sb_free_blocks sb') + 2 \<and>
      owfs_catalog_ok dev' inode' \<and> owfs_dir dev' inode' = (owfs_dir dev inode)(name \<mapsto> target) \<and>
      ino_permissions inode' = ino_permissions inode \<and> ino_owner_uid inode' = ino_owner_uid inode \<and>
      ino_owner_gid inode' = ino_owner_gid inode)"

lemma owfs_insert_in_place:
  fixes dev :: "'c htl_device"
  assumes ok: "owfs_volume_ok dev sb" and cat: "owfs_is_catalog dev sb n"
    and inode: "inode = owfs_inode_at dev sb (unat n)" and cok: "owfs_catalog_ok dev inode"
    and p: "p \<in> set (owfs_slots inode)" "\<not> entry_live (owfs_entry_at dev inode p)"
    and new: "owfs_catalog_entry_wf new" "owfs_catalog_entry_verify_checksum new" "sutf8_validate_loop (entry_name new)"
      "entry_live new" and none: "owfs_dir dev inode (entry_name new) = None"
  shows "owfs_inserted dev sb n (entry_name new) (ce_inode_number new)
    (blk_write dev (owfs_blocks dev inode ! fst p) (cer.slot_put (blk dev (owfs_blocks dev inode ! fst p)) (snd p) new)) sb"
proof -
  have live: "unat n \<in> owfs_live dev sb" using cat by (simp add: owfs_is_catalog_def)
  then have n: "unat n < unat (sb_total_inodes sb)" by (simp add: owfs_live_def)
  let ?dev = "blk_write dev (owfs_blocks dev inode ! fst p) (cer.slot_put (blk dev (owfs_blocks dev inode ! fst p)) (snd p) new)"
  note w = owfs_entry_put [OF ok live inode p(1) new(1)]
  have "(p, owfs_entry_at dev inode p) \<notin> owfs_entries dev inode" using p(2) by (simp add: owfs_entries_iff)
  then have "owfs_entries ?dev inode = insert (p, new) (owfs_entries dev inode)"
    using owfs_entries_put [OF p(1) w(4)] new(4) by simp
  note c = owfs_catalog_ok_insert [OF cok this new(2,3) none]
  have "owfs_live ?dev sb = owfs_live dev sb" using w(2) by (auto simp: owfs_live_def)
  then have "owfs_is_catalog ?dev sb n" using cat w(2) [OF n] by (simp add: owfs_is_catalog_def)
  then show ?thesis unfolding owfs_inserted_def Let_def w(2) [OF n] inode [symmetric] using w(1,3) c by simp
qed

text \<open>The entries of a catalog that grew by a block.\<close>

lemma owfs_entries_grown:
  fixes dev :: "'c htl_device"
  assumes bl: "owfs_blocks dev' inode' = owfs_blocks dev inode @ [b]"
    and cnt: "unat (ino_block_count inode') = Suc (unat (ino_block_count inode))"
    and same: "\<And>x. x \<in> set (owfs_blocks dev inode) \<Longrightarrow> blk dev' x = blk dev x"
    and b: "blk dev' b = cer.slot_put (replicate 4096 0) 0 new" and new: "owfs_catalog_entry_wf new" "entry_live new"
  shows "owfs_entries dev' inode' = insert ((unat (ino_block_count inode), 0), new) (owfs_entries dev inode)"
proof -
  let ?n = "unat (ino_block_count inode)"
  have old: "owfs_entry_at dev' inode' (i, e) = owfs_entry_at dev inode (i, e)" if "i < ?n" for i e
    using that bl same by (simp add: owfs_entry_at_def nth_append)
  have first: "owfs_entry_at dev' inode' (?n, 0) = new"
    using bl b cer.slot_get_put_same [of "replicate 4096 0" 0 new] new(1) by (simp add: owfs_entry_at_def nth_append catalog_slot_eq)
  have rest: "ce_entry_type (owfs_entry_at dev' inode' (?n, e)) = 0" if "0 < e" "e < 16" for e
  proof -
    have "window (e * 256) 256 (cer.slot_put (replicate 4096 0) 0 new) = window (e * 256) 256 (replicate 4096 0)"
      by (rule cer.slot_get_put_other) (use that new(1) in simp_all)
    then show ?thesis
      using bl b that by (simp add: owfs_entry_at_def nth_append catalog_slot_def owfs_catalog_entry_of_bytes_def)
  qed
  show ?thesis
  proof (rule set_eqI)
    fix x :: "(nat \<times> nat) \<times> owfs_catalog_entry"
    obtain i e c where x: "x = ((i, e), c)" by (cases x) auto
    consider "i < ?n" | "i = ?n" "e = 0" | "i = ?n" "0 < e" | "?n < i" by linarith
    then show "x \<in> owfs_entries dev' inode' \<longleftrightarrow> x \<in> insert ((?n, 0), new) (owfs_entries dev inode)"
      by cases (use x cnt old [of i e] first rest [of e] new(2) in \<open>auto simp: owfs_entries_iff owfs_slots_iff\<close>)
  qed
qed

lemma owfs_volume_ok_unchanged:
  fixes dev :: "'c htl_device"
  assumes ok: "owfs_volume_ok dev sb" and live: "i \<in> owfs_live dev sb" and u: "owfs_unchanged dev sb dev' sb'"
  shows "owfs_volume_ok dev' sb'" and "sb' = sb"
    and "\<And>j. j < unat (sb_total_inodes sb) \<Longrightarrow> owfs_inode_at dev' sb j = owfs_inode_at dev sb j"
    and "\<And>j. j \<in> owfs_live dev sb \<Longrightarrow> owfs_content dev' sb (owfs_inode_at dev sb j) = owfs_content dev sb (owfs_inode_at dev sb j)"
    and "owfs_live dev' sb = owfs_live dev sb"
proof -
  note d = owfs_volume_okD [OF ok]
  from u have sb': "sb' = sb" and inv: "owfs_alloc_inv dev' sb" and al: "owfs_allocated dev' sb = owfs_allocated dev sb"
    and fr: "owfs_frame sb (owfs_region sb - owfs_allocated dev sb) dev dev'"
    by (auto simp: owfs_unchanged_def)
  show "sb' = sb" by (rule sb')
  have tab: "(owfs_region sb - owfs_allocated dev sb) \<inter> owfs_table sb = {}" using owfs_table_region [of sb] by auto
  show at: "owfs_inode_at dev' sb j = owfs_inode_at dev sb j" if "j < unat (sb_total_inodes sb)" for j
    by (rule owfs_inode_at_frame [OF d(4) fr tab that])
  show lv: "owfs_live dev' sb = owfs_live dev sb" using at by (auto simp: owfs_live_def)
  have disj: "(owfs_region sb - owfs_allocated dev sb) \<inter> owfs_owned dev (owfs_inode_at dev sb j) = {}"
    if "j \<in> owfs_live dev sb" for j using owfs_map_okD(5) [OF d(1) d(6) [OF that]] by auto
  show "owfs_content dev' sb (owfs_inode_at dev sb j) = owfs_content dev sb (owfs_inode_at dev sb j)" if "j \<in> owfs_live dev sb" for j
    by (rule owfs_content_frame [OF d(1) d(6) [OF that] fr disj [OF that]])
  have i: "i < unat (sb_total_inodes sb)" using live by (simp add: owfs_live_def)
  have own: "owfs_owned dev (owfs_inode_at dev sb i) \<subseteq> owfs_allocated dev' sb"
    using owfs_map_okD(5) [OF d(1) d(6) [OF live]] al by simp
  note mp = owfs_map_ok_frame [OF d(1) d(6) [OF live] fr disj [OF live] own]
  have cnt: "owfs_inodes_counted dev' sb" using d(2) lv by (simp add: owfs_inodes_counted_def)
  show "owfs_volume_ok dev' sb'"
    unfolding sb'
  proof (rule owfs_volume_ok_update [OF ok i _ inv cnt at fr])
    show "sb = sb\<lparr>sb_free_blocks := sb_free_blocks sb, sb_free_inodes := sb_free_inodes sb\<rparr>" by simp
    show "(owfs_region sb - owfs_allocated dev sb) \<inter> owfs_others dev sb i = {}" "owfs_others dev sb i \<subseteq> owfs_allocated dev' sb"
      using d(8) al by auto
  qed (use at [OF i] d(5) [OF live] mp d(7) [OF live] in simp_all)
qed

lemma owfs_grown_facts:
  fixes dev :: "'c htl_device"
  assumes inv: "owfs_alloc_inv dev sb" and map: "owfs_map_ok dev sb inode" and g: "owfs_grown dev sb inode b dev1 sb1 inode1"
    and x: "x \<in> set (owfs_blocks dev inode)"
  shows "blk dev1 x = blk dev x" and "x \<noteq> b" and "x \<in> owfs_region sb"
proof -
  note d = owfs_map_okD [OF inv map]
  have g1: "b \<in> owfs_region sb - owfs_allocated dev sb" "owfs_frame sb (owfs_grow_set dev sb inode) dev dev1"
    using g unfolding owfs_grown_def by blast+
  have own: "x \<in> owfs_owned dev inode" using x by (simp add: owfs_owned_def)
  then show "x \<noteq> b" using g1(1) d(5) by auto
  show r: "x \<in> owfs_region sb" using own d(5,6) by blast
  have "x \<notin> owfs_grow_set dev sb inode"
    using own d(5) map x by (auto simp: owfs_grow_set_def owfs_map_ok_def)
  then show "blk dev1 x = blk dev x"
    using owfs_frameD [OF g1(2) d(2)] r by simp
qed

lemma catalog_grow_inserted:
  fixes dev :: "'c htl_device"
  assumes ok: "owfs_volume_ok dev sb" and cat: "owfs_is_catalog dev sb n"
    and inode: "inode = owfs_inode_at dev sb (unat n)" and cok: "owfs_catalog_ok dev inode"
    and vw: "owfs_volume_writable sb = OWFS_OK"
    and new: "owfs_catalog_entry_wf new" "owfs_catalog_entry_verify_checksum new" "sutf8_validate_loop (entry_name new)"
      "entry_live new" and none: "owfs_dir dev inode (entry_name new) = None"
    and e: "owfs_blockmap_ensure dev sb inode (ino_block_count inode) = (Inr b, dev1, sb1, inode1)"
  shows "\<exists>dev'. catalog_grow dev sb n inode new = (OWFS_OK, dev', sb1) \<and>
    owfs_inserted dev sb n (entry_name new) (ce_inode_number new) dev' sb1"
proof -
  note d = owfs_volume_okD [OF ok]
  have live: "unat n \<in> owfs_live dev sb" using cat by (simp add: owfs_is_catalog_def)
  then have n: "unat n < unat (sb_total_inodes sb)" "n < sb_total_inodes sb" by (simp_all add: owfs_live_def word_less_nat_alt)
  have map: "owfs_map_ok dev sb inode" using d(6) [OF live] inode by simp
  have g: "owfs_grown dev sb inode b dev1 sb1 inode1" by (rule owfs_blockmap_ensure_grown [OF d(1) map e])
  from g have g1: "owfs_alloc_inv dev1 sb1" "owfs_map_ok dev1 sb1 inode1" "owfs_blocks dev1 inode1 = owfs_blocks dev inode @ [b]"
    "b \<in> owfs_region sb - owfs_allocated dev sb" "owfs_allocated dev1 sb1 = owfs_allocated dev sb \<union> owfs_owned dev1 inode1"
    "owfs_frame sb (owfs_grow_set dev sb inode) dev dev1" and sb1: "sb1 = sb\<lparr>sb_free_blocks := sb_free_blocks sb1\<rparr>"
    and own1: "owfs_owned dev1 inode1 \<subseteq> owfs_owned dev inode \<union> (owfs_region sb - owfs_allocated dev sb)"
    and in1: "inode1 = inode\<lparr>ino_direct_blocks := ino_direct_blocks inode1, ino_indirect_block := ino_indirect_block inode1,
                    ino_block_count := ino_block_count inode + 1\<rparr>"
    by (simp_all add: owfs_grown_def)
  have cong: "owfs_region sb1 = owfs_region sb" "owfs_frame sb1 X dx dy = owfs_frame sb X dx dy" "sb_total_inodes sb1 = sb_total_inodes sb"
    "owfs_volume_writable sb1 = OWFS_OK" "owfs_table sb1 = owfs_table sb" "owfs_inode_at dx sb1 = owfs_inode_at dx sb"
    "owfs_live dx sb1 = owfs_live dx sb" for X and dx dy :: "'c htl_device"
    using vw by (subst sb1; simp add: fun_eq_iff)+
  let ?blk = "cer.slot_put (replicate 4096 0) 0 new"
  have len: "length ?blk = 4096" by (rule cer.length_slot_put) (use new(1) in simp_all)
  have cp: "ow_memcpy (replicate 4096 0) 0 (owfs_catalog_entry_bytes new) 0 256 = ?blk"
    using new(1) by (simp add: ow_memcpy_eq cer.slot_put_def window_all)
  have bm: "b \<in> set (owfs_blocks dev1 inode1)" using g1(3) by simp
  note fb = owfs_file_block [OF g1(1,2) bm]
  note w = owfs_alloc_inv_region_write [OF g1(1) fb(1) len]
  let ?dev2 = "blk_write dev1 b ?blk"
  have ind: "10 < unat (ino_block_count inode1) \<Longrightarrow> ino_indirect_block inode1 \<notin> {b}"
    using owfs_indirect_owned(5) [OF g1(1,2)] bm by auto
  note bl = owfs_blocks_frame [OF g1(1,2) w(4) ind]
  have map2: "owfs_map_ok ?dev2 sb1 inode1" using g1(2) bl w(3) by (simp add: owfs_map_ok_def)
  have fr2: "owfs_frame sb (owfs_grow_set dev sb inode \<union> {b}) dev ?dev2"
    by (rule owfs_frame_trans [OF g1(6)]) (use w(4) cong(2) in simp)
  have S: "owfs_grow_set dev sb inode \<union> {b} \<subseteq> owfs_owned dev inode \<union> (owfs_region sb - owfs_allocated dev sb)"
    using g1(4) by (auto simp: owfs_grow_set_def owfs_owned_def)
  have f1: "ino_permissions inode1 = ino_permissions inode" "ino_owner_uid inode1 = ino_owner_uid inode"
    "ino_owner_gid inode1 = ino_owner_gid inode" "ino_entry_type inode1 = ino_entry_type inode"
    by (subst in1, simp)+
  have nf: "\<not> owfs_slot_free inode1" using live f1(4) inode by (simp add: owfs_live_def owfs_slot_free_def)
  let ?dev3 = "owfs_inode_put ?dev2 sb1 (unat n) (owfs_inode_sealed inode1)"
  have al: "owfs_allocated dev sb - owfs_owned dev inode \<subseteq> owfs_allocated ?dev2 sb1" using w(3) g1(5) by auto
  have own2: "owfs_owned ?dev2 inode1 \<subseteq> owfs_owned dev inode \<union> (owfs_region sb - owfs_allocated dev sb)" using own1 bl(2) by simp
  note c = owfs_file_commit [OF ok live w(2) sb1 map2 nf fr2 [unfolded inode] S [unfolded inode] own2 [unfolded inode] al [unfolded inode]]
  have i2: "htl_reliable ?dev2" "owfs_geometry ?dev2 sb1" using w(2) by (simp_all add: owfs_alloc_inv_def)
  have wf: "owfs_inode_wf inode1" using g1(2) by (simp add: owfs_map_ok_def)
  have run: "catalog_grow dev sb n inode new = (OWFS_OK, ?dev3, sb1)"
    using e cp w(1) owfs_inode_write_reliable [OF i2 _ cong(4) wf, of n] n(2) cong(3) by (simp add: catalog_grow_def Let_def)
  have fr3: "owfs_frame sb (owfs_table sb) ?dev2 ?dev3"
    using owfs_inode_put_props(3) [OF i2, of "unat n" "owfs_inode_sealed inode1"] n(1) wf by (simp add: cong)
  have geo: "owfs_geometry dev sb" "owfs_geometry ?dev2 sb" using d(4) i2(2) by (simp, subst (asm) sb1, simp)
  have keep: "blk ?dev3 x = blk ?dev2 x" if "x \<in> owfs_region sb" for x
    using owfs_frameD [OF fr3 geo(2)] that owfs_table_region [of sb] by auto
  have ind3: "10 < unat (ino_block_count inode1) \<Longrightarrow> ino_indirect_block inode1 \<notin> owfs_table sb1"
    using owfs_indirect_owned(2) [OF g1(1,2)] owfs_table_region [of sb1] by auto
  have bl3: "owfs_blocks ?dev3 inode1 = owfs_blocks dev inode @ [b]"
    using owfs_blocks_frame(1) [OF w(2) map2 _ ind3, of ?dev3] fr3 bl(1) g1(3) by (simp add: cong)
  have reg: "b \<in> owfs_region sb" using g1(4) by simp
  have b3: "blk ?dev3 b = ?blk" using keep [OF reg] w(5) by simp
  have old3: "blk ?dev3 x = blk dev x" if "x \<in> set (owfs_blocks dev inode)" for x
    using owfs_grown_facts [OF d(1) map g that] keep owfs_frameD [OF w(4)] g1(1) by (simp add: cong owfs_alloc_inv_def)
  have cnt: "unat (ino_block_count inode1) = Suc (unat (ino_block_count inode))"
    using g1(3) length_owfs_blocks [of dev1 inode1] by simp
  have "owfs_entries ?dev3 (owfs_inode_sealed inode1) =
      insert ((unat (ino_block_count inode), 0), new) (owfs_entries dev inode)"
    using owfs_entries_grown [OF bl3 cnt old3 b3 new(1,4)] by simp
  note ci = owfs_catalog_ok_insert [OF cok this new(2,3) none]
  have at: "owfs_inode_at ?dev3 sb (unat n) = owfs_inode_sealed inode1" using c(2) by (simp add: cong)
  have "owfs_is_catalog ?dev3 sb1 n"
    using cat c(4) f1(4) inode by (simp add: owfs_is_catalog_def cong at owfs_others_kept_def)
  moreover have "unat (sb_free_blocks sb) \<le> unat (sb_free_blocks sb1) + 2"
    using owfs_grown_free [OF d(1) map g] by (simp add: owfs_footprint_def split: if_splits)
  ultimately have "owfs_inserted dev sb n (entry_name new) (ce_inode_number new) ?dev3 sb1"
    unfolding owfs_inserted_def Let_def at inode [symmetric] using c(1,4) ci sb1 f1 by simp
  with run show ?thesis by blast
qed

lemma catalog_grow_full:
  fixes dev :: "'c htl_device"
  assumes ok: "owfs_volume_ok dev sb" and live: "unat n \<in> owfs_live dev sb" and inode: "inode = owfs_inode_at dev sb (unat n)"
    and vw: "owfs_volume_writable sb = OWFS_OK"
    and e: "owfs_blockmap_ensure dev sb inode (ino_block_count inode) = (Inl err, dev1, sb1, inode1)"
  shows "catalog_grow dev sb n inode new = (OWFS_ERR_CATALOG_FULL, dev1, sb) \<and> owfs_unchanged dev sb dev1 sb \<and>
    (ino_block_count inode = 1034 \<or> unat (sb_free_blocks sb) \<le> 1)"
proof -
  note d = owfs_volume_okD [OF ok]
  have map: "owfs_map_ok dev sb inode" using d(6) [OF live] inode by simp
  from owfs_blockmap_ensure_full [OF d(1) map vw e] e show ?thesis
    by (auto simp: catalog_grow_def owfs_unchanged_def)
qed

lemma owfs_catalog_insert_cases:
  fixes dev :: "'c htl_device"
  assumes ok: "owfs_volume_ok dev sb" and cat: "owfs_is_catalog dev sb n"
    and inode: "inode = owfs_inode_at dev sb (unat n)" and cok: "owfs_catalog_ok dev inode"
    and acc: "owfs_inode_access_check g inode OW_ACCESS_WRITE = OWFS_OK" and vw: "owfs_volume_writable sb = OWFS_OK"
    and t: "t = OWFS_ENTRY_FILE \<or> t = OWFS_ENTRY_CATALOG" and k: "0 < k" "k < 128" "k \<le> length nm"
    and v: "ow_sutf8_validate (Some nm) k" and none: "owfs_dir dev inode (take k nm) = None"
  obtains (inserted) dev' sb' where "owfs_catalog_insert g dev sb n (Some nm) k target t = (OWFS_OK, dev', sb')"
      "owfs_inserted dev sb n (take k nm) target dev' sb'"
  | (full) dev' where "owfs_catalog_insert g dev sb n (Some nm) k target t = (OWFS_ERR_CATALOG_FULL, dev', sb)"
      "owfs_unchanged dev sb dev' sb" "\<forall>p \<in> set (owfs_slots inode). entry_live (owfs_entry_at dev inode p)"
      "ino_block_count inode = 1034 \<or> unat (sb_free_blocks sb) \<le> 1"
proof -
  note d = owfs_volume_okD [OF ok]
  have live: "unat n \<in> owfs_live dev sb" using cat by (simp add: owfs_is_catalog_def)
  have map: "owfs_map_ok dev sb inode" using d(6) [OF live] inode by simp
  define new where "new = owfs_catalog_entry_fresh target t nm k"
  note f = owfs_catalog_entry_fresh_props [OF k(2,3), of target t, folded new_def]
  have new: "entry_live new" "sutf8_validate_loop (entry_name new)" "owfs_dir dev inode (entry_name new) = None"
    using t f(3,5) v none by (auto simp: ow_sutf8_validate_def)
  obtain e where lk: "owfs_catalog_lookup g dev sb n (Some nm) k = (Inl e, dev)"
    using owfs_catalog_lookup_absent [OF ok cat inode cok none] by blast
  have run: "owfs_catalog_insert g dev sb n (Some nm) k target t =
      (case insert_blocks dev inode new [0..<unat (ino_block_count inode)] of
         (Some res, dev) \<Rightarrow> (res, dev, sb) | (None, dev) \<Rightarrow> catalog_grow dev sb n inode new)"
    using k v vw t acc lk catalog_read_ok [OF ok cat, folded inode] unfolding owfs_catalog_insert_def new_def Let_def by auto
  have ib: "insert_blocks dev inode new [0..<unat (ino_block_count inode)] =
      (case find (\<lambda>p. \<not> entry_live (owfs_entry_at dev inode p)) (owfs_slots inode) of
         None \<Rightarrow> (None, dev)
       | Some p \<Rightarrow> let b = owfs_blocks dev inode ! fst p in (Some OWFS_OK, blk_write dev b (cer.slot_put (blk dev b) (snd p) new)))"
    unfolding owfs_slots_def by (rule insert_blocks_find [OF d(1) map f(1)]) simp
  show thesis
  proof (cases "find (\<lambda>p. \<not> entry_live (owfs_entry_at dev inode p)) (owfs_slots inode)")
    case (Some p)
    note p = find_Some_mem [OF Some]
    have "owfs_inserted dev sb n (take k nm) target
      (blk_write dev (owfs_blocks dev inode ! fst p) (cer.slot_put (blk dev (owfs_blocks dev inode ! fst p)) (snd p) new)) sb"
      using owfs_insert_in_place [OF ok cat inode cok conjunct1 [OF p] conjunct2 [OF p] f(1,2) new(2,1,3)] unfolding f(3,4) .
    then show thesis using inserted run unfolding ib Some Let_def by simp
  next
    case None
    then have all: "\<forall>p \<in> set (owfs_slots inode). entry_live (owfs_entry_at dev inode p)" unfolding find_None_iff by blast
    have run': "owfs_catalog_insert g dev sb n (Some nm) k target t = catalog_grow dev sb n inode new"
      unfolding run ib None by simp
    obtain r dev1 sb1 inode1 where e: "owfs_blockmap_ensure dev sb inode (ino_block_count inode) = (r, dev1, sb1, inode1)"
      by (cases "owfs_blockmap_ensure dev sb inode (ino_block_count inode)")
    show thesis
    proof (cases r)
      case (Inl err)
      from catalog_grow_full [OF ok live inode vw e [unfolded Inl], of new] all run' full show thesis by simp
    next
      case (Inr b)
      from catalog_grow_inserted [OF ok cat inode cok vw f(1,2) new(2,1,3) e [unfolded Inr]] run' inserted f(3,4)
      show thesis by auto
    qed
  qed
qed

lemma owfs_catalog_remove_dir:
  fixes dev :: "'c htl_device"
  assumes ok: "owfs_volume_ok dev sb" and cat: "owfs_is_catalog dev sb n"
    and inode: "inode = owfs_inode_at dev sb (unat n)" and cok: "owfs_catalog_ok dev inode"
    and acc: "owfs_inode_access_check g inode OW_ACCESS_WRITE = OWFS_OK" and vw: "owfs_volume_writable sb = OWFS_OK"
    and k: "0 < k" "k < 128"
  shows "case owfs_dir dev inode (take k nm) of
      None \<Rightarrow> owfs_catalog_remove g dev sb n (Some nm) k = (OWFS_ERR_NOT_FOUND, dev)
    | Some i \<Rightarrow>
        if owfs_hidden g dev sb i then owfs_catalog_remove g dev sb n (Some nm) k = (OWFS_ERR_NOT_FOUND, dev)
        else \<exists>dev'. owfs_catalog_remove g dev sb n (Some nm) k = (OWFS_OK, dev') \<and> owfs_volume_ok dev' sb \<and>
          owfs_others_kept dev sb (unat n) dev' \<and> owfs_inode_at dev' sb (unat n) = inode \<and>
          owfs_catalog_ok dev' inode \<and> owfs_dir dev' inode = (owfs_dir dev inode)(take k nm := None)"
proof -
  note d = owfs_volume_okD [OF ok]
  have live: "unat n \<in> owfs_live dev sb" using cat by (simp add: owfs_is_catalog_def)
  then have n: "unat n < unat (sb_total_inodes sb)" by (simp add: owfs_live_def)
  have map: "owfs_map_ok dev sb inode" using d(6) [OF live] inode by simp
  let ?P = "\<lambda>p. remove_match (take k nm) (owfs_entry_at dev inode p)"
  have run: "owfs_catalog_remove g dev sb n (Some nm) k =
    (case find ?P (owfs_slots inode) of
       None \<Rightarrow> (OWFS_ERR_NOT_FOUND, dev)
     | Some p \<Rightarrow>
         if owfs_hidden g dev sb (ce_inode_number (owfs_entry_at dev inode p)) then (OWFS_ERR_NOT_FOUND, dev)
         else let b = owfs_blocks dev inode ! fst p
              in (OWFS_OK, blk_write dev b (cer.slot_put (blk dev b) (snd p) (entry_deleted (owfs_entry_at dev inode p)))))"
    unfolding owfs_slots_def using catalog_read_ok [OF ok cat, folded inode] acc vw k
      remove_blocks_find [OF d(1) map, of "[0..<unat (ino_block_count inode)]" g nm k]
    by (simp add: owfs_catalog_remove_def)
  have m: "?P p \<longleftrightarrow> (p, owfs_entry_at dev inode p) \<in> owfs_entries dev inode \<and> entry_name (owfs_entry_at dev inode p) = take k nm"
    if "p \<in> set (owfs_slots inode)" for p
  proof -
    have "sutf8_validate_loop (entry_name (owfs_entry_at dev inode p))"
      if "(p, owfs_entry_at dev inode p) \<in> owfs_entries dev inode"
      using cok that unfolding owfs_catalog_ok_def by fastforce
    then show ?thesis using that unfolding remove_match_def owfs_entries_iff by auto
  qed
  show ?thesis
  proof (cases "find ?P (owfs_slots inode)")
    case None
    then have "owfs_dir dev inode (take k nm) = None"
      unfolding owfs_dir_None
    proof (intro ballI)
      fix x assume x: "x \<in> owfs_entries dev inode"
      obtain p c where pc: "x = (p, c)" by (cases x)
      with x have "p \<in> set (owfs_slots inode)" "c = owfs_entry_at dev inode p" by (simp_all add: owfs_entries_iff)
      moreover from this have "\<not> ?P p" using None unfolding find_None_iff by blast
      ultimately show "entry_name (snd x) \<noteq> take k nm" using m [of p] x pc by auto
    qed
    then show ?thesis using run None by simp
  next
    case (Some p)
    note fp = find_Some_mem [OF Some]
    then have p: "p \<in> set (owfs_slots inode)" "(p, owfs_entry_at dev inode p) \<in> owfs_entries dev inode"
      "entry_name (owfs_entry_at dev inode p) = take k nm" using m [of p] by blast+
    let ?c = "owfs_entry_at dev inode p"
    have dir: "owfs_dir dev inode (take k nm) = Some (ce_inode_number ?c)"
      unfolding owfs_dir_Some [OF cok] using p by (intro bexI [OF _ p(2)]) simp
    have "owfs_catalog_entry_wf ?c"
    proof -
      obtain i e where "p = (i, e)" "i < unat (ino_block_count inode)" "e < 16" by (metis p(1) owfs_slots_iff surj_pair)
      then show ?thesis using catalog_block(5) [OF d(1) map] by (simp add: owfs_entry_at_def catalog_slot_eq cer.wf_slot)
    qed
    then have wf: "owfs_catalog_entry_wf (entry_deleted ?c)" by (simp add: entry_deleted_props)
    note w = owfs_entry_put [OF ok live inode p(1) wf]
    have "owfs_entries (blk_write dev (owfs_blocks dev inode ! fst p)
        (cer.slot_put (blk dev (owfs_blocks dev inode ! fst p)) (snd p) (entry_deleted ?c))) inode = owfs_entries dev inode - {(p, ?c)}"
      using owfs_entries_put [OF p(1) w(4)] entry_deleted_props(2) [of ?c] by auto
    note c = owfs_catalog_ok_remove [OF cok p(2) this, unfolded p(3)]
    show ?thesis unfolding dir option.case run Some Let_def using w(1,3) w(2) [OF n] c inode by auto
  qed
qed

text \<open>A change of the device that leaves the blocks of a catalog alone leaves its entries alone.\<close>

lemma owfs_entries_agree:
  assumes at: "\<And>p. p \<in> set (owfs_slots inode) \<Longrightarrow> owfs_entry_at dev' inode p = owfs_entry_at dev inode p"
  shows "owfs_entries dev' inode = owfs_entries dev inode" and "owfs_dir dev' inode = owfs_dir dev inode"
    and "owfs_catalog_ok dev' inode = owfs_catalog_ok dev inode"
proof -
  show "owfs_entries dev' inode = owfs_entries dev inode" using at by (auto simp: owfs_entries_def)
  then show "owfs_catalog_ok dev' inode = owfs_catalog_ok dev inode" by (simp add: owfs_catalog_ok_def)
  have "find (\<lambda>p. entry_live (owfs_entry_at dev' inode p) \<and> entry_name (owfs_entry_at dev' inode p) = name) xs =
      find (\<lambda>p. entry_live (owfs_entry_at dev inode p) \<and> entry_name (owfs_entry_at dev inode p) = name) xs"
    if "set xs \<subseteq> set (owfs_slots inode)" for name xs
    using that by (induction xs) (simp_all add: at)
  note f = this [OF order_refl]
  show "owfs_dir dev' inode = owfs_dir dev inode"
  proof
    fix name
    show "owfs_dir dev' inode name = owfs_dir dev inode name"
      unfolding owfs_dir_def f using at find_Some_mem
      by (cases "find (\<lambda>p. entry_live (owfs_entry_at dev inode p) \<and> entry_name (owfs_entry_at dev inode p) = name) (owfs_slots inode)")
        (auto dest!: find_Some_mem)
  qed
qed

lemma owfs_entries_frame:
  fixes dev :: "'c htl_device"
  assumes inv: "owfs_alloc_inv dev sb" and map: "owfs_map_ok dev sb inode" and fr: "owfs_frame sb S dev dev'"
    and S: "S \<inter> owfs_owned dev inode = {}"
  shows "owfs_entries dev' inode = owfs_entries dev inode" and "owfs_dir dev' inode = owfs_dir dev inode"
    and "owfs_catalog_ok dev' inode = owfs_catalog_ok dev inode"
    and "p \<in> set (owfs_slots inode) \<Longrightarrow> owfs_entry_at dev' inode p = owfs_entry_at dev inode p"
proof -
  have "10 < unat (ino_block_count inode) \<Longrightarrow> ino_indirect_block inode \<notin> S"
    using S by (auto simp: owfs_owned_def word_less_nat_alt)
  note bl = owfs_blocks_frame(1) [OF inv map fr this]
  have at: "owfs_entry_at dev' inode p = owfs_entry_at dev inode p" if "p \<in> set (owfs_slots inode)" for p
  proof -
    obtain i e where pe: "p = (i, e)" by (cases p)
    with that have i: "i < unat (ino_block_count inode)" by (simp add: owfs_slots_iff)
    note b = catalog_block [OF inv map i]
    have "owfs_blocks dev inode ! i \<notin> S" using S b(6) by (auto simp: owfs_owned_def)
    then have "blk dev' (owfs_blocks dev inode ! i) = blk dev (owfs_blocks dev inode ! i)"
      using owfs_frameD [OF fr owfs_map_okD(2) [OF inv map]] b(2) by simp
    then show ?thesis by (simp add: owfs_entry_at_def pe bl)
  qed
  show "owfs_entry_at dev' inode p = owfs_entry_at dev inode p" if "p \<in> set (owfs_slots inode)" by (rule at [OF that])
  show "owfs_entries dev' inode = owfs_entries dev inode" "owfs_dir dev' inode = owfs_dir dev inode"
    "owfs_catalog_ok dev' inode = owfs_catalog_ok dev inode"
    by (rule owfs_entries_agree, erule at)+
qed

text \<open>The entries of a catalog whose content is not encrypted are a function of its content.\<close>

lemma owfs_entry_at_content:
  assumes inv: "owfs_alloc_inv dev sb" and map: "owfs_map_ok dev sb inode" and plain: "\<not> is_encrypted sb inode"
    and p: "(i, e) \<in> set (owfs_slots inode)"
  shows "owfs_entry_at dev inode (i, e) = owfs_catalog_entry_of_bytes (window (4096 * i + e * 256) 256 (owfs_content dev sb inode))"
proof -
  have i: "i < unat (ino_block_count inode)" "e * 256 + 256 \<le> 4096" using p by (simp_all add: owfs_slots_iff)
  show ?thesis using owfs_content_window [OF inv map i refl] plain
    by (simp add: owfs_entry_at_def catalog_slot_def owfs_plain_def crypto_xform_def)
qed

lemma owfs_dir_content:
  assumes inv: "owfs_alloc_inv dev sb" "owfs_alloc_inv dev' sb'" and map: "owfs_map_ok dev sb inode" "owfs_map_ok dev' sb' inode"
    and plain: "\<not> is_encrypted sb inode" "\<not> is_encrypted sb' inode" and same: "owfs_content dev' sb' inode = owfs_content dev sb inode"
  shows "owfs_dir dev' inode = owfs_dir dev inode" and "owfs_catalog_ok dev' inode = owfs_catalog_ok dev inode"
proof -
  have at: "owfs_entry_at dev' inode p = owfs_entry_at dev inode p" if "p \<in> set (owfs_slots inode)" for p
    using owfs_entry_at_content [OF inv(1) map(1) plain(1)] owfs_entry_at_content [OF inv(2) map(2) plain(2)] that same by (cases p) simp
  show "owfs_dir dev' inode = owfs_dir dev inode" "owfs_catalog_ok dev' inode = owfs_catalog_ok dev inode"
    by (rule owfs_entries_agree, erule at)+
qed

text \<open>The effect of creating inode \<open>i\<close> under a name in catalog \<open>n\<close>: an empty inode of the requested type, in
  the lowest free slot, that the catalog maps the name to; every other inode keeps its record and content.\<close>

definition owfs_created ::
  "ow_identity \<Rightarrow> 'c htl_device \<Rightarrow> owfs_superblock \<Rightarrow> u32 \<Rightarrow> u8 \<Rightarrow> bytes \<Rightarrow> nat \<Rightarrow> u32 \<Rightarrow> 'c htl_device \<Rightarrow> owfs_superblock \<Rightarrow> bool"
  where
  "owfs_created g dev sb n t nm k i dev' sb' \<longleftrightarrow>
     owfs_volume_ok dev' sb' \<and> owfs_is_catalog dev' sb' n \<and>
     owfs_volume_writable sb' = owfs_volume_writable sb \<and> unat (sb_free_blocks sb) \<le> unat (sb_free_blocks sb') + 2 \<and>
     sb' = sb\<lparr>sb_free_blocks := sb_free_blocks sb', sb_free_inodes := sb_free_inodes sb'\<rparr> \<and>
     unat i \<notin> owfs_live dev sb \<and> owfs_live dev' sb' = insert (unat i) (owfs_live dev sb) \<and>
     {..<unat i} \<subseteq> owfs_live dev sb \<and> owfs_inode_at dev' sb' (unat i) = owfs_inode_fresh g sb t (Some nm) k n i \<and>
     owfs_catalog_ok dev' (owfs_inode_at dev' sb' (unat n)) \<and>
     owfs_dir dev' (owfs_inode_at dev' sb' (unat n)) = (owfs_dir dev (owfs_inode_at dev sb (unat n)))(take k nm \<mapsto> i) \<and>
     (\<forall>j \<in> owfs_live dev sb - {unat n}. owfs_inode_at dev' sb' j = owfs_inode_at dev sb j \<and>
        owfs_content dev' sb' (owfs_inode_at dev sb j) = owfs_content dev sb (owfs_inode_at dev sb j))"

lemma owfs_create_inserted:
  fixes dev :: "'c htl_device"
  assumes ok: "owfs_volume_ok dev sb" and cat: "owfs_is_catalog dev sb n" and k: "k \<le> length nm"
    and a: "owfs_inode_alloc g dev sb t (Some nm) k n = (Inr i, dev1, sb1)"
    and cok: "owfs_catalog_ok dev (owfs_inode_at dev sb (unat n))"
  shows "owfs_volume_ok dev1 sb1" and "owfs_is_catalog dev1 sb1 n" and "owfs_inode_at dev1 sb1 (unat n) = owfs_inode_at dev sb (unat n)"
    and "owfs_catalog_ok dev1 (owfs_inode_at dev sb (unat n))"
    and "owfs_dir dev1 (owfs_inode_at dev sb (unat n)) = owfs_dir dev (owfs_inode_at dev sb (unat n))"
    and "owfs_volume_writable sb1 = OWFS_OK"
    and "owfs_inserted dev1 sb1 n (take k nm) i dev' sb' \<Longrightarrow> owfs_created g dev sb n t nm k i dev' sb'"
proof -
  have nm: "name_arg_ok (Some nm) k" using k by (simp add: name_arg_ok_def)
  note s = owfs_inode_alloc_some [OF ok nm a] and d = owfs_volume_okD [OF ok] and ch = owfs_inode_alloc_checks [OF a]
  let ?inode = "owfs_inode_at dev sb (unat n)"
  have live: "unat n \<in> owfs_live dev sb" using cat by (simp add: owfs_is_catalog_def)
  then have n: "unat n < unat (sb_total_inodes sb)" "unat n \<noteq> unat i" using s(2) by (auto simp: owfs_live_def)
  have cong: "owfs_inode_at dx sb1 = owfs_inode_at dx sb" "owfs_live dx sb1 = owfs_live dx sb" "owfs_content dx sb1 x = owfs_content dx sb x"
    "sb_total_inodes sb1 = sb_total_inodes sb" "owfs_volume_writable sb1 = owfs_volume_writable sb"
    for dx :: "'c htl_device" and x
    unfolding s(7) by simp_all
  show ok1: "owfs_volume_ok dev1 sb1" by (rule s(1))
  show at: "owfs_inode_at dev1 sb1 (unat n) = ?inode" using s(9) [OF n] by (simp add: cong)
  show "owfs_is_catalog dev1 sb1 n" using cat at s(5) by (simp add: owfs_is_catalog_def cong)
  show "owfs_volume_writable sb1 = OWFS_OK" using ch(1) by (simp add: cong)
  have own: "owfs_table sb \<inter> owfs_owned dev (owfs_inode_at dev sb j) = {}" if "j \<in> owfs_live dev sb" for j
    using owfs_map_okD(5,6) [OF d(1) d(6) [OF that]] owfs_table_region [of sb] by blast
  note e = owfs_entries_frame [OF d(1) d(6) [OF live] s(8) own [OF live]]
  show "owfs_catalog_ok dev1 ?inode" "owfs_dir dev1 ?inode = owfs_dir dev ?inode" using cok e by simp_all
  have c1: "owfs_content dev1 sb (owfs_inode_at dev sb j) = owfs_content dev sb (owfs_inode_at dev sb j)" if "j \<in> owfs_live dev sb" for j
    by (rule owfs_content_frame [OF d(1) d(6) [OF that] s(8) own [OF that]])
  show "owfs_created g dev sb n t nm k i dev' sb'" if ins: "owfs_inserted dev1 sb1 n (take k nm) i dev' sb'"
  proof -
    from ins have i1: "owfs_volume_ok dev' sb'" "owfs_is_catalog dev' sb' n" "owfs_others_kept dev1 sb1 (unat n) dev'"
      "sb' = sb1\<lparr>sb_free_blocks := sb_free_blocks sb'\<rparr>" "owfs_catalog_ok dev' (owfs_inode_at dev' sb1 (unat n))"
      "owfs_dir dev' (owfs_inode_at dev' sb1 (unat n)) = (owfs_dir dev1 (owfs_inode_at dev1 sb1 (unat n)))(take k nm \<mapsto> i)"
      "unat (sb_free_blocks sb1) \<le> unat (sb_free_blocks sb') + 2"
      unfolding owfs_inserted_def Let_def by blast+
    have fb1: "owfs_volume_writable sb' = owfs_volume_writable sb" by (subst i1(4)) (simp add: cong)
    have fb2: "unat (sb_free_blocks sb) \<le> unat (sb_free_blocks sb') + 2" using i1(7) unfolding s(7) by simp
    have fb3: "sb' = sb\<lparr>sb_free_blocks := sb_free_blocks sb', sb_free_inodes := sb_free_inodes sb'\<rparr>"
      using i1(4) s(7) by (cases sb, cases sb1, cases sb') simp
    have cong': "owfs_inode_at dx sb' = owfs_inode_at dx sb1" "owfs_live dx sb' = owfs_live dx sb1" "owfs_content dx sb' x = owfs_content dx sb1 x"
      for dx :: "'c htl_device" and x by (subst i1(4); simp)+
    have oth: "owfs_live dev' sb1 = owfs_live dev1 sb1"
      "j \<in> owfs_live dev1 sb1 \<Longrightarrow> j \<noteq> unat n \<Longrightarrow> owfs_inode_at dev' sb1 j = owfs_inode_at dev1 sb1 j \<and>
        owfs_content dev' sb1 (owfs_inode_at dev1 sb1 j) = owfs_content dev1 sb1 (owfs_inode_at dev1 sb1 j)" for j
      using i1(3) unfolding owfs_others_kept_def by blast+
    have other: "owfs_inode_at dev' sb' j = owfs_inode_at dev sb j \<and>
        owfs_content dev' sb' (owfs_inode_at dev sb j) = owfs_content dev sb (owfs_inode_at dev sb j)"
      if j: "j \<in> owfs_live dev sb - {unat n}" for j
    proof -
      have ji: "j < unat (sb_total_inodes sb)" "j \<noteq> unat i" "j \<in> owfs_live dev1 sb1"
        using j s(2,5) by (auto simp: owfs_live_def cong)
      then show ?thesis using oth(2) [of j] j c1 [of j] s(9) [OF ji(1,2)] by (simp add: cong cong')
    qed
    have "unat i \<in> owfs_live dev1 sb1" using s(5) by (simp add: cong)
    then have "owfs_inode_at dev' sb' (unat i) = owfs_inode_fresh g sb t (Some nm) k n i"
      using oth(2) [of "unat i"] n(2) s(4) by (simp add: cong cong')
    moreover have "owfs_live dev' sb' = insert (unat i) (owfs_live dev sb)" using oth(1) s(5) by (simp add: cong cong')
    moreover have "{..<unat i} \<subseteq> owfs_live dev sb" using s(6) by auto
    ultimately show ?thesis
      unfolding owfs_created_def using i1(1,2,5,6) fb1 fb2 fb3 s(2) other at e(2) by (simp add: cong cong')
  qed
qed



section \<open>Creating files and catalogs\<close>

text \<open>The common shape of \<^verbatim>\<open>owfs_catalog_create\<close> and \<^verbatim>\<open>owfs_catalog_mkdir\<close>.\<close>

definition owfs_create_as ::
  "u8 \<Rightarrow> ow_identity \<Rightarrow> 'c htl_device \<Rightarrow> owfs_superblock \<Rightarrow> u32 \<Rightarrow> bytes option \<Rightarrow> nat \<Rightarrow>
   (owfs_status + u32) \<times> 'c htl_device \<times> owfs_superblock" where
  "owfs_create_as t g dev sb n name k =
     (case owfs_inode_alloc g dev sb t name k n of
        (Inl res, dev, sb) \<Rightarrow> (Inl res, dev, sb)
      | (Inr ino, dev, sb) \<Rightarrow>
          case owfs_catalog_insert g dev sb n name k ino t of (res, dev, sb) \<Rightarrow>
          if res \<noteq> OWFS_OK then (case owfs_inode_free g dev sb ino of (_, dev, sb) \<Rightarrow> (Inl res, dev, sb))
          else (Inr ino, dev, sb))"

lemma owfs_create_as_code:
  "owfs_catalog_create = owfs_create_as OWFS_ENTRY_FILE" "owfs_catalog_mkdir = owfs_create_as OWFS_ENTRY_CATALOG"
  by (simp_all add: fun_eq_iff owfs_catalog_create_def owfs_catalog_mkdir_def owfs_create_as_def)

text \<open>The inode just created belongs to its creator when the user id fits the 16 bits of the owner field.\<close>

lemma owfs_inode_fresh_access:
  assumes "unat (uid g) < 2 ^ 16"
  shows "owfs_inode_access_check g (owfs_inode_fresh g sb t name k n i) OW_ACCESS_WRITE = OWFS_OK"
    and "ino_security_flags (owfs_inode_fresh g sb t name k n i) AND OWFS_SEC_READONLY = 0"
proof -
  have u: "ucast (ucast (uid g) :: u16) = uid g"
    using assms by (simp add: word_unat_eq_iff unat_ucast_up) (simp add: unsigned_ucast_eq take_bit_nat_eq_self)
  have p: "ino_permissions (owfs_inode_fresh g sb t name k n i) = (if t = OWFS_ENTRY_CATALOG then OWFS_MODE_DEFAULT_DIR else OWFS_MODE_DEFAULT_FILE)"
    by (simp add: owfs_inode_fresh_def Let_def split: option.split)
  show "owfs_inode_access_check g (owfs_inode_fresh g sb t name k n i) OW_ACCESS_WRITE = OWFS_OK"
    unfolding owfs_inode_access_check_iff p
    by (cases "uid g = 0") (simp_all add: ow_sec_access_def ow_sec_access_bits access_shift_def owfs_inode_fresh_simps u OW_ACCESS_WRITE_def OW_ACCESS_EXEC_def OW_ACCESS_READ_def)
  show "ino_security_flags (owfs_inode_fresh g sb t name k n i) AND OWFS_SEC_READONLY = 0"
    by (simp add: owfs_inode_fresh_def Let_def split: option.split)
qed

lemma owfs_create_as_cases:
  fixes dev :: "'c htl_device"
  assumes ok: "owfs_volume_ok dev sb" and cat: "owfs_is_catalog dev sb n"
    and inode: "inode = owfs_inode_at dev sb (unat n)" and cok: "owfs_catalog_ok dev inode"
    and acc: "owfs_inode_access_check g inode OW_ACCESS_WRITE = OWFS_OK" and vw: "owfs_volume_writable sb = OWFS_OK"
    and t: "t = OWFS_ENTRY_FILE \<or> t = OWFS_ENTRY_CATALOG" and k: "0 < k" "k < 128" "k \<le> length nm"
    and v: "ow_sutf8_validate (Some nm) k" and none: "owfs_dir dev inode (take k nm) = None" and uid: "unat (uid g) < 2 ^ 16"
  obtains (created) i dev' sb' where "owfs_create_as t g dev sb n (Some nm) k = (Inr i, dev', sb')"
      "owfs_created g dev sb n t nm k i dev' sb'"
  | (no_inode) "owfs_create_as t g dev sb n (Some nm) k = (Inl OWFS_ERR_NO_FREE_INODES, dev, sb)"
      "owfs_live dev sb = {..<unat (sb_total_inodes sb)}"
  | (full) dev' sb' where "owfs_create_as t g dev sb n (Some nm) k = (Inl OWFS_ERR_CATALOG_FULL, dev', sb')"
      "owfs_volume_ok dev' sb'" "owfs_live dev' sb' = owfs_live dev sb"
      "\<forall>p \<in> set (owfs_slots inode). entry_live (owfs_entry_at dev inode p)"
      "ino_block_count inode = 1034 \<or> unat (sb_free_blocks sb) \<le> 1"
proof -
  note d = owfs_volume_okD [OF ok]
  have live: "unat n \<in> owfs_live dev sb" using cat by (simp add: owfs_is_catalog_def)
  have own: "owfs_table sb \<inter> owfs_owned dev inode = {}"
    using owfs_map_okD(5,6) [OF d(1) d(6) [OF live, folded inode]] owfs_table_region [of sb] by blast
  have nm: "name_arg_ok (Some nm) k" using k(3) by (simp add: name_arg_ok_def)
  obtain r dev1 sb1 where a: "owfs_inode_alloc g dev sb t (Some nm) k n = (r, dev1, sb1)"
    by (cases "owfs_inode_alloc g dev sb t (Some nm) k n")
  show thesis
  proof (cases r)
    case (Inl e)
    from owfs_inode_alloc_none [OF ok nm a [unfolded Inl] vw t k(2)] v a Inl no_inode
    show thesis by (simp add: owfs_create_as_def)
  next
    case (Inr i)
    note s = owfs_inode_alloc_some [OF ok nm a [unfolded Inr]]
    note c = owfs_create_inserted [OF ok cat k(3) a [unfolded Inr], folded inode, OF cok]
    have cong: "owfs_live dx sb1 = owfs_live dx sb" "owfs_inode_at dx sb1 = owfs_inode_at dx sb" for dx :: "'c htl_device"
      unfolding s(7) by simp_all
    from owfs_catalog_insert_cases [OF c(1,2) c(3) [symmetric] c(4) acc c(6) t k v, of i] c(5) none
    consider (ins) dev' sb' where "owfs_catalog_insert g dev1 sb1 n (Some nm) k i t = (OWFS_OK, dev', sb')"
        "owfs_inserted dev1 sb1 n (take k nm) i dev' sb'"
    | (ful) dev' where "owfs_catalog_insert g dev1 sb1 n (Some nm) k i t = (OWFS_ERR_CATALOG_FULL, dev', sb1)"
        "owfs_unchanged dev1 sb1 dev' sb1" "\<forall>p \<in> set (owfs_slots inode). entry_live (owfs_entry_at dev1 inode p)"
        "ino_block_count inode = 1034 \<or> unat (sb_free_blocks sb1) \<le> 1"
      by metis
    then show thesis
    proof cases
      case ins
      then show thesis using created a Inr c(7) by (simp add: owfs_create_as_def)
    next
      case ful
      have li: "unat i \<in> owfs_live dev1 sb1" using s(5) by (simp add: cong)
      note u = owfs_volume_ok_unchanged [OF c(1) li ful(2)]
      have it: "unat i < unat (sb_total_inodes sb1)" using li by (simp add: owfs_live_def)
      have at: "owfs_inode_at dev' sb1 (unat i) = owfs_inode_fresh g sb t (Some nm) k n i" using u(3) [OF it] s(4) by (simp add: cong)
      have li': "unat i \<in> owfs_live dev' sb1" using u(5) li by simp
      note fa = owfs_inode_fresh_access [OF uid, of sb t "Some nm" k n i]
      obtain dev2 sb2 where f: "owfs_inode_free g dev' sb1 i = (OWFS_OK, dev2, sb2)" "owfs_volume_ok dev2 sb2"
        "owfs_live dev2 sb2 = owfs_live dev' sb1 - {unat i}"
        using owfs_inode_free_ok [OF u(1) li' c(6), of g] at fa by auto
      have "owfs_live dev2 sb2 = owfs_live dev sb" using f(3) u(5) s(2,5) by (simp add: cong)
      moreover have "owfs_create_as t g dev sb n (Some nm) k = (Inl OWFS_ERR_CATALOG_FULL, dev2, sb2)"
        using a Inr ful(1) f(1) by (simp add: owfs_create_as_def)
      moreover have "owfs_entry_at dev1 inode p = owfs_entry_at dev inode p" if "p \<in> set (owfs_slots inode)" for p
        by (rule owfs_entries_frame(4) [OF d(1) d(6) [OF live, folded inode] s(8) own that])
      ultimately show thesis using full f(2) ful(3,4) s(7) by simp
    qed
  qed
qed

end
