(* ===== verification/OWFS_Format.thy ===== *)
theory OWFS_Format
  imports OWFS_Sync
begin

text \<open>
  \<^verbatim>\<open>owfs/src/owfs_format.c\<close>: laying out a volume, scrubbing it, and the two operations on its key. The
  superblock under construction is a static of the C file that no other function sees; formatting
  returns the status and the device. The lemmas show that the layout is the smallest that covers
  the data region, that a formatted device holds a consistent volume with an empty root catalog,
  and what the key slots hold after setting and purging a key.
\<close>

unbundle bit_operations_syntax

definition map_htl :: "htl_status \<Rightarrow> owfs_status" where
  "map_htl hres = (if hres = HTL_ERR_WRITE_PROTECT then OWFS_ERR_WRITE_PROTECTED else OWFS_ERR_IO)"

definition zero_block_checked :: "'c htl_device \<Rightarrow> u32 \<Rightarrow> owfs_status \<times> 'c htl_device" where
  "zero_block_checked dev block =
     (case htl_zero_block dev block of (hres, dev) \<Rightarrow>
        if hres \<noteq> HTL_OK then (map_htl hres, dev) else (OWFS_OK, dev))"

definition owfs_superblock_zero :: owfs_superblock where
  "owfs_superblock_zero =
     \<lparr>sb_magic = 0, sb_version_major = 0, sb_version_minor = 0, sb_block_size = 0, sb_total_blocks = 0,
      sb_free_blocks = 0, sb_total_inodes = 0, sb_free_inodes = 0, sb_bitmap_start_block = 0,
      sb_bitmap_block_count = 0, sb_inode_table_start = 0, sb_inode_table_blocks = 0,
      sb_data_region_start = 0, sb_root_inode = 0, sb_mount_count = 0, sb_state_flags = 0,
      sb_fletcher64_bitmap = 0, sb_volume_label = replicate 64 0, sb_checksum = 0, sb_security_flags = 0,
      sb_key_slot_1 = replicate 256 0, sb_key_slot_2 = replicate 256 0, sb_crypto_nonce = replicate 12 0,
      sb_reserved = replicate 3432 0\<rparr>"

text \<open>The layout of a volume of \<open>nblocks\<close> blocks: the assignments of \<^verbatim>\<open>owfs_format_volume\<close> up to the check
  that the data region is not empty.\<close>

definition owfs_format_layout :: "u32 \<Rightarrow> owfs_superblock" where
  "owfs_format_layout nblocks =
     (let fixed_overhead = 16 + 1 + 256;
          bitmap_blocks = (nblocks - fixed_overhead + 32768) div 32769;
          bitmap_start = 16 + 1;
          table_start = bitmap_start + bitmap_blocks
      in owfs_superblock_zero
        \<lparr>sb_magic := OWFS_MAGIC, sb_version_major := 1, sb_version_minor := 2, sb_block_size := 0x1000,
         sb_total_blocks := nblocks, sb_bitmap_start_block := bitmap_start, sb_bitmap_block_count := bitmap_blocks,
         sb_inode_table_start := table_start, sb_inode_table_blocks := 256, sb_total_inodes := 0x1000,
         sb_free_inodes := 0x1000, sb_data_region_start := table_start + 256\<rparr>)"

text \<open>The fields that follow the check, with the volume label.\<close>

definition owfs_format_fields :: "owfs_superblock \<Rightarrow> u32 \<Rightarrow> bytes option \<Rightarrow> nat \<Rightarrow> owfs_superblock" where
  "owfs_format_fields sb nblocks label label_len =
     (let sb = sb\<lparr>sb_free_blocks := nblocks - sb_data_region_start sb, sb_root_inode := 0, sb_mount_count := 0,
                  sb_state_flags := 0\<rparr>
      in if label \<noteq> None \<and> label_len > 0 then
           case ow_sutf8_name_copy (Some (sb_volume_label sb)) 64 label label_len of
             (Some d, _) \<Rightarrow> sb\<lparr>sb_volume_label := d\<rparr>
           | (None, _) \<Rightarrow> sb
         else sb)"

fun format_table_loop :: "'c htl_device \<Rightarrow> owfs_superblock \<Rightarrow> nat list \<Rightarrow> owfs_status \<times> 'c htl_device" where
  "format_table_loop dev sb [] = (OWFS_OK, dev)"
| "format_table_loop dev sb (i # is) =
     (case htl_write_block dev (sb_inode_table_start sb + of_nat i) (replicate 4096 0) of (hres, dev) \<Rightarrow>
        if hres \<noteq> HTL_OK then (map_htl hres, dev) else format_table_loop dev sb is)"

definition owfs_root_inode :: owfs_inode where
  "owfs_root_inode = owfs_inode_zero
     \<lparr>ino_inode_number := 0, ino_entry_type := OWFS_ENTRY_CATALOG, ino_permissions := OWFS_MODE_DEFAULT_DIR,
      ino_parent_inode := 0, ino_name_length := 1, ino_name := (ino_name owfs_inode_zero)[0 := 0x2F]\<rparr>"

text \<open>The end of \<^verbatim>\<open>owfs_format_volume\<close>, from the allocation of the root catalog's block on.\<close>

definition owfs_format_root ::
  "'c htl_device \<Rightarrow> owfs_superblock \<Rightarrow> owfs_status \<times> 'c htl_device" where
  "owfs_format_root dev sb =
     (case owfs_bitmap_alloc dev sb of
        (Inl res, dev, sb) \<Rightarrow> (res, dev)
      | (Inr root_block, dev, sb) \<Rightarrow>
          case zero_block_checked dev root_block of (res, dev) \<Rightarrow>
          if res \<noteq> OWFS_OK then (case owfs_bitmap_free dev sb root_block of (_, dev, sb) \<Rightarrow> (res, dev))
          else
            let root_ino = owfs_root_inode\<lparr>ino_direct_blocks := (ino_direct_blocks owfs_root_inode)[0 := root_block],
                                          ino_block_count := 1\<rparr>
            in case owfs_inode_write dev sb 0 root_ino of (res, dev, _) \<Rightarrow>
              if res \<noteq> OWFS_OK then (res, dev)
              else case owfs_sync_changes dev sb of (res, dev, _) \<Rightarrow> (res, dev))"

definition owfs_format_volume ::
  "'c htl_device \<Rightarrow> u32 \<Rightarrow> bytes option \<Rightarrow> nat \<Rightarrow> owfs_status \<times> 'c htl_device" where
  "owfs_format_volume dev nblocks label label_len =
     (if block_size dev \<noteq> 0x1000 then (OWFS_ERR_INVALID_PARAM, dev)
      else if total_blocks dev > 0 \<and> nblocks > total_blocks dev then (OWFS_ERR_INVALID_PARAM, dev)
      else if nblocks < 16 + 1 + 1 + 256 + 1 then (OWFS_ERR_INVALID_PARAM, dev)
      else
        let sb = owfs_format_layout nblocks in
        if nblocks \<le> sb_data_region_start sb then (OWFS_ERR_INVALID_PARAM, dev)
        else
          let sb = owfs_format_fields sb nblocks label label_len in
          case htl_get_entropy dev 12 of (hres, nonce, dev) \<Rightarrow>
          let sb = sb\<lparr>sb_crypto_nonce := (if hres \<noteq> HTL_OK then replicate 12 0 else nonce)\<rparr> in
          case owfs_bitmap_init dev sb of (res, dev) \<Rightarrow>
          if res \<noteq> OWFS_OK then (res, dev)
          else case format_table_loop dev sb [0..<unat (sb_inode_table_blocks sb)] of (res, dev) \<Rightarrow>
            if res \<noteq> OWFS_OK then (res, dev) else owfs_format_root dev sb)"

definition owfs_quick_format ::
  "'c htl_device \<Rightarrow> u32 \<Rightarrow> bytes option \<Rightarrow> nat \<Rightarrow> owfs_status \<times> 'c htl_device" where
  "owfs_quick_format dev nblocks label label_len = owfs_format_volume dev nblocks label label_len"

fun full_scrub_loop :: "'c htl_device \<Rightarrow> nat list \<Rightarrow> owfs_status \<times> 'c htl_device" where
  "full_scrub_loop dev [] = (OWFS_OK, dev)"
| "full_scrub_loop dev (b # bs) =
     (case htl_zero_block dev (of_nat b) of (hres, dev) \<Rightarrow>
        if hres \<noteq> HTL_OK then (map_htl hres, dev) else full_scrub_loop dev bs)"

definition owfs_full_scrub ::
  "'c htl_device \<Rightarrow> u32 \<Rightarrow> bytes option \<Rightarrow> nat \<Rightarrow> owfs_status \<times> 'c htl_device" where
  "owfs_full_scrub dev nblocks label label_len =
     (if block_size dev \<noteq> 0x1000 then (OWFS_ERR_INVALID_PARAM, dev)
      else case full_scrub_loop dev [0..<unat nblocks] of (res, dev) \<Rightarrow>
        if res \<noteq> OWFS_OK then (res, dev) else owfs_format_volume dev nblocks label label_len)"

definition owfs_crypto_set_key ::
  "'c htl_device \<Rightarrow> owfs_superblock \<Rightarrow> bytes option \<Rightarrow> nat \<Rightarrow> owfs_status \<times> 'c htl_device \<times> owfs_superblock" where
  "owfs_crypto_set_key dev sb key key_len =
     (case key of
        None \<Rightarrow> (OWFS_ERR_INVALID_PARAM, dev, sb)
      | Some key \<Rightarrow>
          if key_len \<noteq> 32 then (OWFS_ERR_KEY_INVALID, dev, sb)
          else if owfs_volume_writable sb \<noteq> OWFS_OK then (owfs_volume_writable sb, dev, sb)
          else
            let sb = sb\<lparr>sb_key_slot_1 := ow_memset (sb_key_slot_1 sb) 0 0 256\<rparr>;
                sb = sb\<lparr>sb_key_slot_1 := ow_memcpy (sb_key_slot_1 sb) 0 key 0 32\<rparr>;
                sb = sb\<lparr>sb_security_flags := sb_security_flags sb OR OWFS_SEC_ENCRYPTED\<rparr>
            in case owfs_superblock_write dev sb of (res, dev, sb) \<Rightarrow>
              if res \<noteq> OWFS_OK then (res, dev, sb)
              else case htl_flush_cache dev of (_, dev) \<Rightarrow> (OWFS_OK, dev, sb))"

text \<open>One overwriting pass of \<^verbatim>\<open>owfs_crypto_purge\<close>: both slots filled with a byte, written and flushed.\<close>

definition crypto_purge_pass ::
  "'c htl_device \<Rightarrow> owfs_superblock \<Rightarrow> int \<Rightarrow> owfs_status \<times> 'c htl_device \<times> owfs_superblock" where
  "crypto_purge_pass dev sb val =
     (let sb = sb\<lparr>sb_key_slot_1 := ow_memset (sb_key_slot_1 sb) 0 val 256,
                  sb_key_slot_2 := ow_memset (sb_key_slot_2 sb) 0 val 256\<rparr>
      in case owfs_superblock_write dev sb of (res, dev, sb) \<Rightarrow>
        if res \<noteq> OWFS_OK then (res, dev, sb)
        else case htl_flush_cache dev of (_, dev) \<Rightarrow> (OWFS_OK, dev, sb))"

definition owfs_crypto_purge ::
  "'c htl_device \<Rightarrow> owfs_superblock \<Rightarrow> owfs_status \<times> 'c htl_device \<times> owfs_superblock" where
  "owfs_crypto_purge dev sb =
     (case crypto_purge_pass dev sb 0xFF of (res, dev, sb) \<Rightarrow>
      if res \<noteq> OWFS_OK then (res, dev, sb)
      else case crypto_purge_pass dev sb 0x00 of (res, dev, sb) \<Rightarrow>
      if res \<noteq> OWFS_OK then (res, dev, sb)
      else case crypto_purge_pass dev sb 0xAA of (res, dev, sb) \<Rightarrow>
      if res \<noteq> OWFS_OK then (res, dev, sb)
      else owfs_sync_changes dev (sb\<lparr>sb_security_flags := sb_security_flags sb AND NOT OWFS_SEC_ENCRYPTED\<rparr>))"

section \<open>The layout\<close>

text \<open>The number of bitmap blocks for \<open>n\<close> blocks after the fixed regions: the least \<open>m\<close> with
  \<open>n - m \<le> 32768 * m\<close>.\<close>

lemma bitmap_blocks_least:
  fixes n :: nat
  assumes "0 < n"
  defines "m \<equiv> (n + 32768) div 32769"
  shows "0 < m" and "m \<le> n" and "n - m \<le> 32768 * m" and "k < m \<Longrightarrow> 32768 * k < n - k"
proof -
  have le: "32769 * m \<le> n + 32768" and gt: "n + 32768 < 32769 * m + 32769"
    using times_div_less_eq_dividend [of 32769 "n + 32768"] dividend_less_times_div [of 32769 "n + 32768"]
    by (simp_all add: m_def)
  show "0 < m" using gt assms(1) by linarith
  show "m \<le> n" using le by linarith
  show "n - m \<le> 32768 * m" using gt by linarith
  show "32768 * k < n - k" if "k < m" using that le by linarith
qed

definition owfs_data_start :: "nat \<Rightarrow> nat" where
  "owfs_data_start n = 273 + (n - 273 + 32768) div 32769"

text \<open>For a volume of at most \<open>2 ^ 32 - 32496\<close> blocks the computation in 32 bits does not wrap.\<close>

lemma owfs_format_layout_nat:
  assumes "275 \<le> unat n" and "unat n \<le> 0xFFFF8110"
  shows "unat (sb_bitmap_block_count (owfs_format_layout n)) = (unat n - 273 + 32768) div 32769"
    and "unat (sb_inode_table_start (owfs_format_layout n)) = 17 + (unat n - 273 + 32768) div 32769"
    and "unat (sb_data_region_start (owfs_format_layout n)) = owfs_data_start (unat n)"
proof -
  have "unat (n - 273) = unat n - 273" using assms(1) by (simp add: unat_sub word_le_nat_alt)
  then have a: "unat (n - 273 + 32768) = unat n - 273 + 32768"
    using assms by (subst unat_word_ariths) simp
  have b: "unat ((n - 273 + 32768) div 32769) = (unat n - 273 + 32768) div 32769"
    by (simp only: unat_div a) simp
  have "(unat n - 273 + 32768) div 32769 < 200000" using assms(2) by (simp add: div_less_iff_less_mult)
  with b have c: "unat (17 + (n - 273 + 32768) div 32769) = 17 + (unat n - 273 + 32768) div 32769"
    by (subst unat_word_ariths) simp
  have "unat (17 + (n - 273 + 32768) div 32769 + 256) = 273 + (unat n - 273 + 32768) div 32769"
    using c \<open>(unat n - 273 + 32768) div 32769 < 200000\<close> by (subst unat_word_ariths) simp
  then show "unat (sb_bitmap_block_count (owfs_format_layout n)) = (unat n - 273 + 32768) div 32769"
    "unat (sb_inode_table_start (owfs_format_layout n)) = 17 + (unat n - 273 + 32768) div 32769"
    "unat (sb_data_region_start (owfs_format_layout n)) = owfs_data_start (unat n)"
    using b c by (simp_all add: owfs_format_layout_def Let_def owfs_data_start_def)
qed

lemma owfs_data_start_less:
  assumes "275 \<le> n"
  shows "owfs_data_start n < n" and "n - owfs_data_start n \<le> 32768 * ((n - 273 + 32768) div 32769)"
proof -
  have "(n - 273 + 32768) div 32769 < n - 273"
    using assms by (simp add: div_less_iff_less_mult)
  then show "owfs_data_start n < n" by (simp add: owfs_data_start_def)
  show "n - owfs_data_start n \<le> 32768 * ((n - 273 + 32768) div 32769)"
    using bitmap_blocks_least(3) [of "n - 273"] assms by (simp add: owfs_data_start_def)
qed

text \<open>The superblock of a format, as it is when the regions are initialised.\<close>

definition owfs_format_sb :: "u32 \<Rightarrow> bytes option \<Rightarrow> nat \<Rightarrow> bytes \<Rightarrow> owfs_superblock" where
  "owfs_format_sb n label label_len nonce =
     owfs_format_fields (owfs_format_layout n) n label label_len\<lparr>sb_crypto_nonce := nonce\<rparr>"

lemma owfs_format_fields_simps:
  "sb_total_blocks (owfs_format_fields sb n l k) = sb_total_blocks sb"
  "sb_bitmap_start_block (owfs_format_fields sb n l k) = sb_bitmap_start_block sb"
  "sb_bitmap_block_count (owfs_format_fields sb n l k) = sb_bitmap_block_count sb"
  "sb_inode_table_start (owfs_format_fields sb n l k) = sb_inode_table_start sb"
  "sb_inode_table_blocks (owfs_format_fields sb n l k) = sb_inode_table_blocks sb"
  "sb_data_region_start (owfs_format_fields sb n l k) = sb_data_region_start sb"
  "sb_total_inodes (owfs_format_fields sb n l k) = sb_total_inodes sb"
  "sb_free_inodes (owfs_format_fields sb n l k) = sb_free_inodes sb"
  "sb_free_blocks (owfs_format_fields sb n l k) = n - sb_data_region_start sb"
  "sb_state_flags (owfs_format_fields sb n l k) = 0"
  "sb_security_flags (owfs_format_fields sb n l k) = sb_security_flags sb"
  "sb_magic (owfs_format_fields sb n l k) = sb_magic sb"
  "sb_block_size (owfs_format_fields sb n l k) = sb_block_size sb"
  by (simp_all add: owfs_format_fields_def Let_def split: prod.split option.split)

lemmas owfs_format_sb_simps = owfs_format_sb_def owfs_format_fields_simps owfs_format_layout_def owfs_superblock_zero_def Let_def

lemma owfs_format_sb_wf:
  assumes "name_arg_ok label k" and "length nonce = 12"
  shows "owfs_superblock_wf (owfs_format_sb n label k nonce)"
  using assms
  by (auto simp: owfs_superblock_wf_def owfs_format_sb_def owfs_format_fields_def owfs_format_layout_def
      owfs_superblock_zero_def Let_def ow_sutf8_name_copy_def name_arg_ok_def ow_memcpy_eq
      split: prod.split option.splits)

lemma owfs_format_geometry:
  assumes "275 \<le> unat n" and "unat n \<le> 0xFFFF8110" and "unat n \<le> unat (total_blocks dev)"
  shows "owfs_geometry dev (owfs_format_sb n label k nonce)"
    and "sb_bitmap_block_count (owfs_format_sb n label k nonce) \<noteq> 0"
    and "owfs_data_blocks (owfs_format_sb n label k nonce) = unat n - owfs_data_start (unat n)"
    and "unat (sb_free_blocks (owfs_format_sb n label k nonce)) = unat n - owfs_data_start (unat n)"
proof -
  let ?sb = "owfs_format_sb n label k nonce"
  note l = owfs_format_layout_nat [OF assms(1,2)] and s = owfs_data_start_less [OF assms(1)]
  let ?m = "(unat n - 273 + 32768) div 32769"
  have c: "?m < 131072" "0 < ?m"
    using assms(2) bitmap_blocks_least(1) [of "unat n - 273"] assms(1) by (simp_all add: div_less_iff_less_mult)
  have f: "unat (sb_bitmap_block_count ?sb) = ?m" "unat (sb_inode_table_start ?sb) = 17 + ?m"
    "unat (sb_data_region_start ?sb) = owfs_data_start (unat n)" "sb_total_blocks ?sb = n" "sb_bitmap_start_block ?sb = 17"
    "sb_inode_table_blocks ?sb = 256" "sb_total_inodes ?sb = 0x1000" "sb_free_blocks ?sb = n - sb_data_region_start ?sb"
    unfolding owfs_format_sb_def by (simp_all add: owfs_format_fields_simps l) (simp_all add: owfs_format_layout_def Let_def)
  show d: "owfs_data_blocks ?sb = unat n - owfs_data_start (unat n)" by (simp add: owfs_data_blocks_def f)
  show "sb_bitmap_block_count ?sb \<noteq> 0" using f(1) c(2) by auto
  show "owfs_geometry dev ?sb"
    unfolding owfs_geometry_def d f using s c(1) assms(3) by (simp add: owfs_data_start_def)
  show "unat (sb_free_blocks ?sb) = unat n - owfs_data_start (unat n)"
    unfolding f(8) using s(1) f(3) by (simp add: unat_sub word_le_nat_alt)
qed

section \<open>A formatted device\<close>

lemma format_table_loop_ok:
  assumes "htl_reliable dev" and "\<forall>b\<in>set is. sb_inode_table_start sb + of_nat b < total_blocks dev"
  shows "\<exists>dev'. format_table_loop dev sb is = (OWFS_OK, dev') \<and> htl_reliable dev' \<and> total_blocks dev' = total_blocks dev \<and>
    (\<forall>x. x < total_blocks dev \<longrightarrow> blk dev' x =
       (if x \<in> (\<lambda>b. sb_inode_table_start sb + of_nat b) ` set is then replicate 4096 0 else blk dev x))"
  using assms
proof (induction "is" arbitrary: dev)
  case (Cons i "is")
  let ?d = "blk_write dev (sb_inode_table_start sb + of_nat i) (replicate 4096 0)"
  obtain dev' where IH: "format_table_loop ?d sb is = (OWFS_OK, dev')" "htl_reliable dev'" "total_blocks dev' = total_blocks dev"
    "\<forall>x. x < total_blocks dev \<longrightarrow> blk dev' x =
       (if x \<in> (\<lambda>b. sb_inode_table_start sb + of_nat b) ` set is then replicate 4096 0 else blk ?d x)"
    using Cons.IH [of ?d] Cons.prems by (auto simp: dev_simps)
  have "format_table_loop dev sb (i # is) = (OWFS_OK, dev')"
    using Cons.prems IH(1) by (simp add: dev_simps)
  then show ?case using IH(2-4) Cons.prems by (auto simp: dev_simps)
qed simp

lemma owfs_inode_of_zeros: "ino_entry_type (owfs_inode_of_bytes (replicate 256 0)) = 0"
  by (simp add: owfs_inode_of_bytes_def)

text \<open>After the bitmap and the table have been zeroed, the allocator is empty and no inode is in use.\<close>

text \<open>No slot of the inode table has ever been used.\<close>

definition owfs_blank :: "'c htl_device \<Rightarrow> owfs_superblock \<Rightarrow> bool" where
  "owfs_blank dev sb \<longleftrightarrow> (\<forall>i < unat (sb_total_inodes sb). ino_entry_type (owfs_inode_at dev sb i) = 0)"

lemma owfs_blank_live: "owfs_blank dev sb \<Longrightarrow> owfs_live dev sb = {}"
  by (auto simp: owfs_blank_def owfs_live_def owfs_slot_free_def)

lemma owfs_format_empty:
  assumes dev: "htl_reliable dev" and geo: "owfs_geometry dev sb" and bc: "sb_bitmap_block_count sb \<noteq> 0"
    and fb: "unat (sb_free_blocks sb) = owfs_data_blocks sb"
    and ti: "unat (sb_total_inodes sb) = 16 * unat (sb_inode_table_blocks sb)"
  obtains dev1 dev2 where "owfs_bitmap_init dev sb = (OWFS_OK, dev1)"
    "format_table_loop dev1 sb [0..<unat (sb_inode_table_blocks sb)] = (OWFS_OK, dev2)"
    "owfs_alloc_inv dev2 sb" "owfs_allocated dev2 sb = {}" "owfs_blank dev2 sb"
    "total_blocks dev2 = total_blocks dev" "kept_or_zero (owfs_region sb) dev dev2"
proof -
  obtain dev1 where b: "owfs_bitmap_init dev sb = (OWFS_OK, dev1)" "htl_reliable dev1" "same_device dev dev1"
    "\<And>rel. rel < 32768 * unat (sb_bitmap_block_count sb) \<Longrightarrow> \<not> owfs_used dev1 sb rel"
    "\<And>x. x < total_blocks dev \<Longrightarrow> x < sb_bitmap_start_block sb \<or> sb_inode_table_start sb \<le> x \<Longrightarrow> blk dev1 x = blk dev x"
    using owfs_bitmap_init_ok [OF dev geo bc] by metis
  have tb: "total_blocks dev1 = total_blocks dev" using same_deviceD [OF b(3)] by simp
  have geo1: "owfs_geometry dev1 sb" using geo owfs_geometry_dev [OF tb] by simp
  have slot: "unat (sb_inode_table_start sb + of_nat i) = unat (sb_inode_table_start sb) + i"
    "sb_inode_table_start sb + of_nat i < total_blocks dev1"
    if "i < unat (sb_inode_table_blocks sb)" for i
    using owfs_slot_block(1,2) [OF geo1, of "16 * i"] that ti by simp_all
  obtain dev2 where t: "format_table_loop dev1 sb [0..<unat (sb_inode_table_blocks sb)] = (OWFS_OK, dev2)"
    "htl_reliable dev2" "total_blocks dev2 = total_blocks dev1"
    "\<forall>x. x < total_blocks dev1 \<longrightarrow> blk dev2 x = (if x \<in> (\<lambda>b. sb_inode_table_start sb + of_nat b) ` {0..<unat (sb_inode_table_blocks sb)}
       then replicate 4096 0 else blk dev1 x)"
    using format_table_loop_ok [OF b(2), of "[0..<unat (sb_inode_table_blocks sb)]" sb] slot(2) by auto
  have geo2: "owfs_geometry dev2 sb" using geo1 owfs_geometry_dev [OF t(3)] by simp
  have unused: "\<not> owfs_used dev2 sb rel" if "rel < owfs_data_blocks sb" for rel
  proof -
    note g = owfs_geometryD [OF geo1 owfs_rel_bitmap [OF geo1 that]]
    have "rel div 32768 < unat (sb_bitmap_block_count sb)"
      using owfs_rel_bitmap [OF geo1 that] by (simp add: less_mult_imp_div_less mult.commute)
    then have "unat (sb_bitmap_start_block sb + of_nat (rel div 32768)) < unat (sb_inode_table_start sb)"
      using g(1) geo by (simp add: owfs_geometry_def)
    then have "sb_bitmap_start_block sb + of_nat (rel div 32768) \<notin> (\<lambda>b. sb_inode_table_start sb + of_nat b) ` {0..<unat (sb_inode_table_blocks sb)}"
      using slot(1) by auto
    then show ?thesis using b(4) [OF owfs_rel_bitmap [OF geo1 that]] t(4) g(2) by (simp add: owfs_used_def)
  qed
  then have "owfs_free_set dev2 sb = {..<owfs_data_blocks sb}" by (auto simp: owfs_free_set_def)
  then have inv: "owfs_alloc_inv dev2 sb" using t(2) geo2 fb by (simp add: owfs_alloc_inv_def owfs_counted_def)
  have al: "owfs_allocated dev2 sb = {}" using unused owfs_region_rel(1) by (auto simp: owfs_allocated_def)
  have "ino_entry_type (owfs_inode_at dev2 sb i) = 0" if "i < unat (sb_total_inodes sb)" for i
  proof -
    have "i div 16 < unat (sb_inode_table_blocks sb)" using that ti by (simp add: less_mult_imp_div_less mult.commute)
    then have "blk dev2 (sb_inode_table_start sb + of_nat (i div 16)) = replicate 4096 0"
      using t(4) slot(2) by auto
    moreover have "i mod 16 * 256 + 256 \<le> 4096" using mod_less_divisor [of 16 i] by linarith
    ultimately show ?thesis
      by (simp add: owfs_inode_at_def owfs_inode_of_zeros)
  qed
  then have "owfs_blank dev2 sb" by (simp add: owfs_blank_def)
  moreover have "kept_or_zero (owfs_region sb) dev dev2"
    using owfs_region_outside [OF geo] b(5) t(4) tb by (auto simp: kept_or_zero_def)
  ultimately show thesis using that [OF b(1) t(1) inv al] t(3) tb by simp
qed

text \<open>The first inode of an empty volume.\<close>

lemma owfs_first_inode:
  fixes dev :: "'c htl_device"
  assumes inv: "owfs_alloc_inv dev sb" and blank: "owfs_blank dev sb"
    and free: "sb_free_inodes sb = sb_total_inodes sb" "0 < unat (sb_total_inodes sb)" "unat (sb_total_inodes sb) < 2 ^ 32 - 1"
    and map: "owfs_map_ok dev sb inode" and nf: "\<not> owfs_slot_free inode"
  defines "dev' \<equiv> owfs_inode_put dev sb 0 (owfs_inode_sealed inode)"
  shows "owfs_volume_ok dev' sb" and "owfs_live dev' sb = {0}" and "owfs_inode_at dev' sb 0 = owfs_inode_sealed inode"
    and "owfs_frame sb (owfs_table sb) dev dev'" and "total_blocks dev' = total_blocks dev"
proof -
  from inv have g: "htl_reliable dev" "owfs_geometry dev sb" by (simp_all add: owfs_alloc_inv_def)
  have wf: "owfs_inode_wf inode" using map by (simp add: owfs_map_ok_def)
  then have wf': "owfs_inode_wf (owfs_inode_sealed inode)" by simp
  note p = owfs_inode_put_props [OF g free(2) wf', folded dev'_def]
  note q = owfs_alloc_inv_put [OF inv free(2) wf', folded dev'_def]
  show at: "owfs_inode_at dev' sb 0 = owfs_inode_sealed inode" using p(5) [of 0] free(2) by simp
  show fr: "owfs_frame sb (owfs_table sb) dev dev'" and "total_blocks dev' = total_blocks dev" by (rule p(3) p(2))+
  have sf: "owfs_slot_free (owfs_inode_sealed inode) = owfs_slot_free inode" by (simp add: owfs_slot_free_def)
  show live': "owfs_live dev' sb = {0}"
    using owfs_live_update [OF free(2), of dev' dev] p(5) at nf sf owfs_blank_live [OF blank] by simp
  note d = owfs_map_okD [OF inv map]
  have "owfs_table sb \<inter> owfs_owned dev inode = {}" "owfs_owned dev inode \<subseteq> owfs_allocated dev' sb"
    using d(5,6) owfs_table_region [of sb] q(2) by auto
  then have "owfs_map_ok dev' sb inode" using owfs_map_ok_frame(1) [OF inv map fr] by simp
  moreover have "ino_entry_type (owfs_inode_at dev' sb i) = 0 \<or> owfs_inode_verify_checksum (owfs_inode_at dev' sb i)"
    if "i < unat (sb_total_inodes sb)" for i
    using p(5) [OF that] that blank at owfs_inode_sealed_verifies [OF wf] by (cases "i = 0") (simp_all add: owfs_blank_def)
  ultimately show "owfs_volume_ok dev' sb"
    unfolding owfs_volume_ok_def live' using q(1) at free by (simp add: owfs_inodes_counted_def live')
qed

lemma owfs_volume_ok_sync:
  fixes dev :: "'c htl_device"
  assumes ok: "owfs_volume_ok dev sb" and wf: "owfs_superblock_wf sb"
  shows "\<exists>dev' sb'. owfs_sync_changes dev sb = (OWFS_OK, dev', sb') \<and> owfs_disk dev' \<and> owfs_disk_sb dev' = sb' \<and>
    owfs_volume_ok dev' sb' \<and> owfs_live dev' sb' = owfs_live dev sb \<and> total_blocks dev' = total_blocks dev \<and>
    sb' = sb\<lparr>sb_state_flags := sb_state_flags sb AND NOT (OWFS_STATE_DIRTY OR OWFS_STATE_LOCKED),
             sb_fletcher64_bitmap := ow_fletcher64 (owfs_bitmap_bytes dev sb) (4096 * unat (sb_bitmap_block_count sb)),
             sb_checksum := sb_checksum sb'\<rparr> \<and>
    (\<forall>x. x < total_blocks dev \<longrightarrow> x \<noteq> 16 \<longrightarrow> blk dev' x = blk dev x) \<and>
    sb_checksum sb' = owfs_superblock_compute_checksum sb'"
proof -
  note d = owfs_volume_okD [OF ok]
  have disk: "owfs_disk dev" by (rule owfs_geometry_disk [OF d(3,4)])
  define s where "s = owfs_cleaned (sb\<lparr>sb_fletcher64_bitmap :=
    ow_fletcher64 (owfs_bitmap_bytes dev sb) (4096 * unat (sb_bitmap_block_count sb))\<rparr>)"
  have wfs: "owfs_superblock_wf s" using wf by (simp add: s_def)
  note w = owfs_put_sb_props [OF disk wfs]
  note f = owfs_flushed_props [OF w(2)]
  let ?dev' = "htl_flushed (owfs_put_sb dev s)"
  have run: "owfs_sync_changes dev sb = (OWFS_OK, ?dev', owfs_sealed s)"
    using owfs_sync_disk [OF d(3,4) wf] by (simp add: s_def Let_def)
  have same: "blk ?dev' x = blk dev x" if "x < total_blocks dev" "x \<noteq> 16" for x
    using f(4) w(4,5) that by simp
  have rel: "htl_reliable ?dev'" "total_blocks ?dev' = total_blocks dev" using f(2) w(4) by (simp_all add: owfs_disk_def)
  note v = owfs_volume_ok_same_blocks [OF ok rel same]
  have lay: "owfs_layout (owfs_sealed s) = owfs_layout sb" by (simp add: owfs_layout_def s_def)
  have "owfs_volume_ok ?dev' (owfs_sealed s)" "owfs_live ?dev' (owfs_sealed s) = owfs_live dev sb"
    using v(1,3) by (simp_all add: owfs_layout_cong(8,10) [OF lay])
  moreover have "owfs_superblock_compute_checksum (owfs_sealed s) = owfs_superblock_compute_checksum s"
    by (rule owfs_sealed_verifies [OF wfs])
  ultimately show ?thesis
    using run f(2,3) w(3) rel(2) same by (intro exI [of _ ?dev'] exI [of _ "owfs_sealed s"]) (simp add: s_def)
qed

lemma owfs_root_inode_simps:
  "owfs_inode_wf owfs_root_inode" "ino_entry_type owfs_root_inode = OWFS_ENTRY_CATALOG"
  "ino_indirect_block owfs_root_inode = 0" "ino_direct_blocks owfs_root_inode = replicate 10 0"
  by (simp_all add: owfs_root_inode_def owfs_inode_zero_def owfs_inode_wf_def)

text \<open>The root inode with its one block.\<close>

definition owfs_root_with :: "u32 \<Rightarrow> owfs_inode" where
  "owfs_root_with b = owfs_root_inode\<lparr>ino_direct_blocks := (ino_direct_blocks owfs_root_inode)[0 := b], ino_block_count := 1\<rparr>"

lemma owfs_root_with_map:
  assumes "owfs_alloc_inv dev sb" and "b \<in> owfs_allocated dev sb"
  shows "owfs_map_ok dev sb (owfs_root_with b)" and "owfs_blocks dev (owfs_root_with b) = [b]"
    and "\<not> owfs_slot_free (owfs_root_with b)"
proof -
  show bl: "owfs_blocks dev (owfs_root_with b) = [b]"
    by (simp add: owfs_root_with_def owfs_blocks_def owfs_block_at_def owfs_root_inode_simps)
  show "owfs_map_ok dev sb (owfs_root_with b)"
    using assms(2) bl by (simp add: owfs_map_ok_def owfs_owned_def)
      (simp add: owfs_root_with_def owfs_root_inode_simps owfs_inode_wf_def [of "_\<lparr>ino_direct_blocks := _\<rparr>"]
        owfs_root_inode_simps(1) [unfolded owfs_inode_wf_def])
  show "\<not> owfs_slot_free (owfs_root_with b)"
    by (simp add: owfs_slot_free_def owfs_root_with_def owfs_root_inode_simps)
qed

definition owfs_fresh_volume :: "'c htl_device \<Rightarrow> bool" where
  "owfs_fresh_volume dev \<longleftrightarrow>
     (let sb = owfs_disk_sb dev; root = owfs_inode_at dev sb 0 in
      owfs_disk dev \<and> owfs_superblock_wf sb \<and> owfs_superblock_validate sb \<and> owfs_volume_ok dev sb \<and>
      owfs_live dev sb = {0} \<and> \<not> owfs_is_dirty sb \<and> owfs_volume_writable sb = OWFS_OK \<and>
      sb_security_flags sb = 0 \<and> sb_total_inodes sb = 0x1000 \<and>
      (\<exists>b. root = owfs_inode_sealed (owfs_root_with b) \<and> owfs_blocks dev root = [b] \<and> blk dev b = replicate 4096 0))"

lemma owfs_first_block:
  fixes dev :: "'c htl_device"
  assumes inv: "owfs_alloc_inv dev sb" and al: "owfs_allocated dev sb = {}"
  obtains b dev1 dev2 where "owfs_bitmap_alloc dev sb = (Inr b, dev1, sb\<lparr>sb_free_blocks := sb_free_blocks sb - 1\<rparr>)"
    "zero_block_checked dev1 b = (OWFS_OK, dev2)" "owfs_alloc_inv dev2 (sb\<lparr>sb_free_blocks := sb_free_blocks sb - 1\<rparr>)"
    "owfs_allocated dev2 sb = {b}" "blk dev2 b = replicate 4096 0" "owfs_frame sb {b} dev dev2" "b \<in> owfs_region sb"
proof -
  from inv have g: "htl_reliable dev" "owfs_geometry dev sb" by (simp_all add: owfs_alloc_inv_def)
  have "0 < owfs_data_blocks sb" by (rule owfs_data_blocks_pred(3) [OF g(2)])
  moreover from this have "\<not> owfs_used dev sb 0"
    using al owfs_block_of_rel [OF g(2), of 0] by (auto simp: owfs_allocated_def)
  ultimately have "owfs_free_set dev sb \<noteq> {}" by (auto simp: owfs_free_set_def)
  then have "\<not> sb_free_blocks sb = 0"
    using inv unfolding owfs_alloc_inv_def owfs_counted_def by (metis card_0_eq finite_owfs_free_set unat_0)
  then obtain b dev1 sb1 where a: "owfs_bitmap_alloc dev sb = (Inr b, dev1, sb1)"
    using owfs_bitmap_alloc_none(4) [OF inv] by (cases "owfs_bitmap_alloc dev sb", case_tac a) auto
  note o = owfs_bitmap_alloc_some [OF inv a]
  let ?z = "replicate 4096 (0 :: u8)" and ?dev2 = "blk_write dev1 b (replicate 4096 0)"
  have rb: "b \<in> owfs_region sb1" using o(2,3) by simp
  note w = owfs_alloc_inv_region_write [OF o(1) rb, of ?z]
  have z: "zero_block_checked dev1 b = (OWFS_OK, ?dev2)"
    using o(1) owfs_region_outside [of dev1 sb1 b] rb by (auto simp: zero_block_checked_def owfs_alloc_inv_def dev_simps)
  have "owfs_frame sb {b} dev ?dev2"
    using owfs_frame_trans [of sb "{}" dev dev1 "{b}" ?dev2] o(2,5,6) w(4) by (simp add: owfs_frame_def)
  then show thesis using that [of b dev1 ?dev2] a z w(2,3,5) o(2,3,4) al by simp
qed

lemma owfs_fresh_volumeI:
  fixes dev :: "'c htl_device"
  assumes ok: "owfs_volume_ok dev sb" and live: "owfs_live dev sb = {0}" and wf: "owfs_superblock_wf sb"
    and at: "owfs_inode_at dev sb 0 = owfs_inode_sealed (owfs_root_with b)" and z: "blk dev b = replicate 4096 0"
    and st: "sb_state_flags sb = 0" "sb_security_flags sb = 0" "sb_total_inodes sb = 0x1000"
    and id: "sb_magic sb = OWFS_MAGIC" "sb_block_size sb = 0x1000"
    and s: "owfs_sync_changes dev sb = (OWFS_OK, dev', sb')"
  shows "owfs_fresh_volume dev'" and "total_blocks dev' = total_blocks dev" and "owfs_layout (owfs_disk_sb dev') = owfs_layout sb"
    and "x \<in> owfs_region sb \<Longrightarrow> blk dev' x = blk dev x"
proof -
  note d = owfs_volume_okD [OF ok]
  have sy: "owfs_disk dev'" "owfs_disk_sb dev' = sb'" "owfs_volume_ok dev' sb'" "owfs_live dev' sb' = owfs_live dev sb"
    "total_blocks dev' = total_blocks dev"
    "sb' = sb\<lparr>sb_state_flags := sb_state_flags sb AND NOT (OWFS_STATE_DIRTY OR OWFS_STATE_LOCKED),
             sb_fletcher64_bitmap := ow_fletcher64 (owfs_bitmap_bytes dev sb) (4096 * unat (sb_bitmap_block_count sb)),
             sb_checksum := sb_checksum sb'\<rparr>"
    "\<forall>x. x < total_blocks dev \<longrightarrow> x \<noteq> 16 \<longrightarrow> blk dev' x = blk dev x" "sb_checksum sb' = owfs_superblock_compute_checksum sb'"
    using owfs_volume_ok_sync [OF ok wf] s by auto
  show "total_blocks dev' = total_blocks dev" by (rule sy(5))
  show lay: "owfs_layout (owfs_disk_sb dev') = owfs_layout sb" unfolding sy(2) by (subst sy(6)) (simp add: owfs_layout_def)
  have f: "sb_state_flags sb' = 0" "sb_security_flags sb' = 0" "sb_total_inodes sb' = 0x1000" "owfs_superblock_wf sb'"
    "sb_magic sb' = OWFS_MAGIC" "sb_block_size sb' = 0x1000"
    using st id wf by (subst sy(6), simp add: owfs_superblock_wf_def)+
  have at': "owfs_inode_at dev' sb' 0 = owfs_inode_sealed (owfs_root_with b)"
    using owfs_same_but_16(4) [OF d(4) sy(5), of 0] sy(7) at st(3) owfs_layout_cong(7) [OF lay, of dev'] sy(2) by simp
  have bl: "owfs_blocks dev' (owfs_root_with b) = [b]"
    by (simp add: owfs_root_with_def owfs_blocks_def owfs_block_at_def owfs_root_inode_simps)
  have reg: "b \<in> owfs_region sb"
  proof -
    have "owfs_blocks dev (owfs_inode_at dev sb 0) = [b]"
      unfolding at by (simp add: owfs_root_with_def owfs_blocks_def owfs_block_at_def owfs_root_inode_simps)
    then show ?thesis
      using owfs_map_okD(5,6) [OF d(1) d(6), of 0] live unfolding owfs_owned_def by auto
  qed
  show same: "blk dev' x = blk dev x" if x: "x \<in> owfs_region sb" for x
  proof -
    have "16 < unat x" using owfs_region_outside(2) [OF d(4) x] d(4) by (simp add: owfs_geometry_def word_le_nat_alt)
    then have "x \<noteq> 16" by auto
    then show ?thesis using sy(7) owfs_region_outside(1) [OF d(4) x] by simp
  qed
  have "blk dev' b = replicate 4096 0" using same [OF reg] z by simp
  then show "owfs_fresh_volume dev'"
    using sy f at' bl live unfolding owfs_fresh_volume_def Let_def sy(2)
    by (simp add: owfs_superblock_validate_def owfs_is_dirty_def owfs_volume_writable_def)
qed

lemma owfs_format_root_ok:
  fixes dev :: "'c htl_device"
  assumes inv: "owfs_alloc_inv dev sb" and al: "owfs_allocated dev sb = {}" and blank: "owfs_blank dev sb"
    and inodes: "sb_free_inodes sb = 0x1000" "sb_total_inodes sb = 0x1000" and wf: "owfs_superblock_wf sb"
    and st: "sb_state_flags sb = 0" "sb_security_flags sb = 0" and id: "sb_magic sb = OWFS_MAGIC" "sb_block_size sb = 0x1000"
  shows "\<exists>dev'. owfs_format_root dev sb = (OWFS_OK, dev') \<and> owfs_fresh_volume dev' \<and>
    total_blocks dev' = total_blocks dev \<and> owfs_layout (owfs_disk_sb dev') = owfs_layout (sb\<lparr>sb_free_blocks := sb_free_blocks sb - 1\<rparr>) \<and>
    kept_or_zero (owfs_region sb) dev dev'"
proof -
  from inv have g: "htl_reliable dev" "owfs_geometry dev sb" by (simp_all add: owfs_alloc_inv_def)
  let ?sb = "sb\<lparr>sb_free_blocks := sb_free_blocks sb - 1\<rparr>"
  obtain b dev1 dev2 where o: "owfs_bitmap_alloc dev sb = (Inr b, dev1, ?sb)" "zero_block_checked dev1 b = (OWFS_OK, dev2)"
    "owfs_alloc_inv dev2 ?sb" "owfs_allocated dev2 sb = {b}" "blk dev2 b = replicate 4096 0" "owfs_frame sb {b} dev dev2"
    "b \<in> owfs_region sb"
    using owfs_first_block [OF inv al] by metis
  have tab: "{b} \<inter> owfs_table sb = {}" using o(7) owfs_table_region [of sb] by auto
  have blank2: "owfs_blank dev2 ?sb"
    using blank owfs_inode_at_frame [OF g(2) o(6) tab] by (auto simp: owfs_blank_def)
  note rt = owfs_root_with_map [OF o(3), of b]
  note fi = owfs_first_inode [OF o(3) blank2, of "owfs_root_with b"]
  let ?dev3 = "owfs_inode_put dev2 ?sb 0 (owfs_inode_sealed (owfs_root_with b))"
  have v: "owfs_volume_ok ?dev3 ?sb" "owfs_live ?dev3 ?sb = {0}" "owfs_inode_at ?dev3 ?sb 0 = owfs_inode_sealed (owfs_root_with b)"
    "owfs_frame ?sb (owfs_table ?sb) dev2 ?dev3" "total_blocks ?dev3 = total_blocks dev2"
    using fi rt o(4) inodes by simp_all
  have s: "owfs_volume_writable ?sb = OWFS_OK" "owfs_superblock_wf ?sb"
    using st wf by (simp_all add: owfs_volume_writable_def owfs_superblock_wf_def)
  have g2: "htl_reliable dev2" "owfs_geometry dev2 ?sb" using o(3) by (simp_all add: owfs_alloc_inv_def)
  have wr: "owfs_inode_write dev2 ?sb 0 (owfs_root_with b) = (OWFS_OK, ?dev3, owfs_inode_sealed (owfs_root_with b))"
    using owfs_inode_write_reliable [OF g2 _ s(1), of 0 "owfs_root_with b"] rt(1) o(4) inodes by (simp add: owfs_map_ok_def)
  have z3: "blk ?dev3 b = replicate 4096 0"
    using owfs_frameD [OF v(4) g2(2), of b] o(5,7) tab by simp
  obtain dev4 sb4 where sy: "owfs_sync_changes ?dev3 ?sb = (OWFS_OK, dev4, sb4)"
    using owfs_volume_ok_sync [OF v(1) s(2)] by blast
  note f = owfs_fresh_volumeI [OF v(1,2) s(2) v(3) z3 _ _ _ _ _ sy]
  have "owfs_format_root dev sb = (OWFS_OK, dev4)"
    using o(1,2) wr sy by (simp add: owfs_format_root_def owfs_root_with_def)
  moreover have "total_blocks dev2 = total_blocks dev" using o(6) by (simp add: owfs_frame_def)
  moreover have "kept_or_zero (owfs_region sb) dev dev4"
    unfolding kept_or_zero_def
  proof
    fix x assume x: "x \<in> owfs_region sb"
    then have "blk dev4 x = blk ?dev3 x" using f(4) [of x] st id inodes by simp
    also have "\<dots> = blk dev2 x" using owfs_frameD [OF v(4) g2(2), of x] x owfs_table_region [of sb] by auto
    finally show "blk dev4 x = blk dev x \<or> blk dev4 x = replicate 4096 0"
      using owfs_frameD [OF o(6) g(2), of x] x o(5) by (cases "x = b") auto
  qed
  ultimately show ?thesis using f(1-3) st id inodes v(5) by simp
qed

text \<open>Formatting a device succeeds for every size that the device holds and that the bitmap computation
  does not wrap on, and leaves a consistent volume with one inode, the empty root catalog.\<close>

lemma owfs_format_volume_ok:
  fixes dev :: "'c htl_device"
  assumes dev: "htl_reliable dev" and n: "275 \<le> unat n" "unat n \<le> 0xFFFF8110" "unat n \<le> unat (total_blocks dev)"
    and label: "name_arg_ok label k"
  shows "\<exists>dev'. owfs_format_volume dev n label k = (OWFS_OK, dev') \<and> owfs_fresh_volume dev' \<and>
    total_blocks dev' = total_blocks dev \<and> sb_total_blocks (owfs_disk_sb dev') = n \<and>
    unat (sb_free_blocks (owfs_disk_sb dev')) = unat n - owfs_data_start (unat n) - 1 \<and>
    unat (sb_data_region_start (owfs_disk_sb dev')) = owfs_data_start (unat n) \<and>
    kept_or_zero (owfs_region (owfs_disk_sb dev')) dev dev'"
proof -
  obtain hres out dev1 where e: "htl_get_entropy dev 12 = (hres, out, dev1)" by (metis surj_pair)
  note r = htl_entropy_reliable [OF dev e]
  have tb: "total_blocks dev1 = total_blocks dev" "block_size dev = 4096"
    using same_deviceD [OF r(2)] dev by (simp_all add: htl_reliable_def)
  define nonce where "nonce = (if hres \<noteq> HTL_OK then replicate 12 0 else out)"
  define sb where "sb = owfs_format_sb n label k nonce"
  have nl: "length nonce = 12" using r(3) by (auto simp: nonce_def)
  have n1: "unat n \<le> unat (total_blocks dev1)" using n(3) tb by simp
  note geo = owfs_format_geometry [OF n(1,2) n1, of label k nonce, folded sb_def]
  note lay = owfs_format_layout_nat(3) [OF n(1,2)]
  have f: "sb_total_inodes sb = 0x1000" "sb_free_inodes sb = 0x1000" "sb_inode_table_blocks sb = 256" "sb_state_flags sb = 0"
    "sb_security_flags sb = 0" "sb_magic sb = OWFS_MAGIC" "sb_block_size sb = 0x1000" "sb_total_blocks sb = n"
    "sb_data_region_start sb = sb_data_region_start (owfs_format_layout n)"
    unfolding sb_def owfs_format_sb_def by (simp_all add: owfs_format_fields_simps)
      (simp_all add: owfs_format_layout_def owfs_superblock_zero_def Let_def)
  obtain dev2 dev3 where i: "owfs_bitmap_init dev1 sb = (OWFS_OK, dev2)"
    "format_table_loop dev2 sb [0..<unat (sb_inode_table_blocks sb)] = (OWFS_OK, dev3)"
    "owfs_alloc_inv dev3 sb" "owfs_allocated dev3 sb = {}" "owfs_blank dev3 sb" "total_blocks dev3 = total_blocks dev1"
    "kept_or_zero (owfs_region sb) dev1 dev3"
    using owfs_format_empty [OF r(1) geo(1,2)] geo(3,4) f(1,3) by auto
  have wf: "owfs_superblock_wf sb" unfolding sb_def by (rule owfs_format_sb_wf [OF label nl])
  obtain dev4 where o: "owfs_format_root dev3 sb = (OWFS_OK, dev4)" "owfs_fresh_volume dev4" "total_blocks dev4 = total_blocks dev3"
    "owfs_layout (owfs_disk_sb dev4) = owfs_layout (sb\<lparr>sb_free_blocks := sb_free_blocks sb - 1\<rparr>)" "kept_or_zero (owfs_region sb) dev3 dev4"
    using owfs_format_root_ok [OF i(3,4,5) f(2,1) wf f(4-7)] by blast
  have "\<not> n \<le> sb_data_region_start (owfs_format_layout n)"
    using lay owfs_data_start_less(1) [OF n(1)] by (simp add: word_le_nat_alt)
  moreover have "\<not> n < 16 + 1 + 1 + 256 + 1" "\<not> total_blocks dev < n" using n by (simp_all add: word_less_nat_alt)
  moreover have "owfs_format_fields (owfs_format_layout n) n label k\<lparr>sb_crypto_nonce := nonce\<rparr> = sb"
    by (simp add: sb_def owfs_format_sb_def)
  ultimately have "owfs_format_volume dev n label k = (OWFS_OK, dev4)"
    unfolding owfs_format_volume_def Let_def using e i(1,2) o(1) tb(2) by (simp add: nonce_def [symmetric])
  moreover have "sb_total_blocks (owfs_disk_sb dev4) = n" "sb_data_region_start (owfs_disk_sb dev4) = sb_data_region_start sb"
    using o(4) f(8) by (simp_all add: owfs_layout_def)
  moreover have "unat (sb_free_blocks (owfs_disk_sb dev4)) = unat n - owfs_data_start (unat n) - 1"
  proof -
    have "1 \<le> unat (sb_free_blocks sb)" using geo(4) owfs_data_start_less(1) [OF n(1)] by simp
    then have "unat (sb_free_blocks sb - 1) = unat (sb_free_blocks sb) - 1" by (simp add: unat_sub word_le_nat_alt)
    then show ?thesis using o(4) geo(4) by (simp add: owfs_layout_def)
  qed
  moreover have "owfs_region (owfs_disk_sb dev4) = owfs_region sb" using o(4) by (simp add: owfs_region_def owfs_layout_def)
  moreover have "kept_or_zero (owfs_region sb) dev dev4"
  proof -
    have "kept_or_zero (owfs_region sb) dev dev1"
      using r(4) owfs_region_outside(1) [OF geo(1)] tb(1) by (auto simp: kept_or_zero_def)
    also note i(7)
    also note o(5)
    finally show ?thesis .
  qed
  ultimately show ?thesis using o(2,3) i(6) tb(1) lay f(9) by auto
qed

section \<open>Keys\<close>

text \<open>The key is stored in clear in slot 1 of the superblock on the device.\<close>

lemma owfs_crypto_set_key_ok:
  assumes dev: "owfs_disk dev" and wf: "owfs_superblock_wf sb" and w: "owfs_volume_writable sb = OWFS_OK" and key: "32 \<le> length key"
  shows "\<exists>dev' sb'. owfs_crypto_set_key dev sb (Some key) 32 = (OWFS_OK, dev', sb') \<and> owfs_disk dev' \<and> owfs_disk_sb dev' = sb' \<and>
    sb_key_slot_1 sb' = take 32 key @ replicate 224 0 \<and> sb_security_flags sb' = sb_security_flags sb OR OWFS_SEC_ENCRYPTED \<and>
    (\<forall>x. x < total_blocks dev \<longrightarrow> x \<noteq> 16 \<longrightarrow> blk dev' x = blk dev x)"
proof -
  have l: "length (sb_key_slot_1 sb) = 256" using wf by (simp add: owfs_superblock_wf_def)
  define k where "k = ow_memcpy (ow_memset (sb_key_slot_1 sb) 0 0 256) 0 key 0 32"
  have k: "k = take 32 key @ replicate 224 0"
    using l key by (simp add: k_def ow_memset_eq ow_memcpy_eq overwrite_def window_def)
  define s where "s = sb\<lparr>sb_key_slot_1 := k, sb_security_flags := sb_security_flags sb OR OWFS_SEC_ENCRYPTED\<rparr>"
  have wfs: "owfs_superblock_wf s" using wf key by (simp add: s_def owfs_superblock_wf_def k)
  note p = owfs_put_sb_props [OF dev wfs] and fl = owfs_flushed_props [OF owfs_put_sb_props(2) [OF dev wfs]]
  have "owfs_crypto_set_key dev sb (Some key) 32 = (OWFS_OK, htl_flushed (owfs_put_sb dev s), owfs_sealed s)"
    using w p(1) fl(1) by (simp add: owfs_crypto_set_key_def Let_def s_def k_def)
  then show ?thesis using p fl k by (auto simp: s_def)
qed

lemma crypto_purge_pass_ok:
  assumes dev: "owfs_disk dev" and wf: "owfs_superblock_wf sb"
    and s_def: "s = sb\<lparr>sb_key_slot_1 := replicate 256 (word_of_int v), sb_key_slot_2 := replicate 256 (word_of_int v)\<rparr>"
  shows "crypto_purge_pass dev sb v = (OWFS_OK, htl_flushed (owfs_put_sb dev s), owfs_sealed s)"
    and "owfs_superblock_wf (owfs_sealed s)" and "owfs_disk (htl_flushed (owfs_put_sb dev s))"
    and "x < total_blocks dev \<Longrightarrow> x \<noteq> 16 \<Longrightarrow> blk (htl_flushed (owfs_put_sb dev s)) x = blk dev x"
    and "total_blocks (htl_flushed (owfs_put_sb dev s)) = total_blocks dev"
proof -
  have l: "length (sb_key_slot_1 sb) = 256" "length (sb_key_slot_2 sb) = 256" using wf by (simp_all add: owfs_superblock_wf_def)
  have wfs: "owfs_superblock_wf s" using wf by (simp add: s_def owfs_superblock_wf_def)
  then show "owfs_superblock_wf (owfs_sealed s)" by simp
  note p = owfs_put_sb_props [OF dev wfs] and fl = owfs_flushed_props [OF owfs_put_sb_props(2) [OF dev wfs]]
  show "crypto_purge_pass dev sb v = (OWFS_OK, htl_flushed (owfs_put_sb dev s), owfs_sealed s)"
    using p(1) fl(1) l by (simp add: crypto_purge_pass_def Let_def s_def ow_memset_eq overwrite_def)
  show "owfs_disk (htl_flushed (owfs_put_sb dev s))" by (rule fl(2))
  show "x < total_blocks dev \<Longrightarrow> x \<noteq> 16 \<Longrightarrow> blk (htl_flushed (owfs_put_sb dev s)) x = blk dev x"
    using fl(4) p(4,5) by simp
  show "total_blocks (htl_flushed (owfs_put_sb dev s)) = total_blocks dev" using p(4) by (simp add: dev_simps)
qed

text \<open>A purge needs no permission and no unlocked volume. Afterwards neither the superblock in memory nor the
  device holds any byte of either key, and the volume is no longer marked encrypted.\<close>

lemma owfs_crypto_purge_ok:
  assumes dev: "htl_reliable dev" and geo: "owfs_geometry dev sb" and wf: "owfs_superblock_wf sb"
  shows "\<exists>dev' sb'. owfs_crypto_purge dev sb = (OWFS_OK, dev', sb') \<and> owfs_disk dev' \<and> owfs_disk_sb dev' = sb' \<and>
    sb_key_slot_1 sb' = replicate 256 0xAA \<and> sb_key_slot_2 sb' = replicate 256 0xAA \<and>
    sb_security_flags sb' = sb_security_flags sb AND NOT OWFS_SEC_ENCRYPTED \<and> owfs_layout sb' = owfs_layout sb \<and>
    (\<forall>x. x < total_blocks dev \<longrightarrow> x \<noteq> 16 \<longrightarrow> blk dev' x = blk dev x)"
proof -
  have disk: "owfs_disk dev" by (rule owfs_geometry_disk [OF dev geo])
  define s1 where "s1 = sb\<lparr>sb_key_slot_1 := replicate 256 (word_of_int 0xFF), sb_key_slot_2 := replicate 256 (word_of_int 0xFF)\<rparr>"
  define d1 where "d1 = htl_flushed (owfs_put_sb dev s1)"
  note p1 = crypto_purge_pass_ok [OF disk wf s1_def, folded d1_def]
  define s2 where "s2 = owfs_sealed s1\<lparr>sb_key_slot_1 := replicate 256 (word_of_int 0), sb_key_slot_2 := replicate 256 (word_of_int 0)\<rparr>"
  define d2 where "d2 = htl_flushed (owfs_put_sb d1 s2)"
  note p2 = crypto_purge_pass_ok [OF p1(3,2) s2_def, folded d2_def]
  define s3 where "s3 = owfs_sealed s2\<lparr>sb_key_slot_1 := replicate 256 (word_of_int 0xAA), sb_key_slot_2 := replicate 256 (word_of_int 0xAA)\<rparr>"
  define d3 where "d3 = htl_flushed (owfs_put_sb d2 s3)"
  note p3 = crypto_purge_pass_ok [OF p2(3,2) s3_def, folded d3_def]
  define s4 where "s4 = owfs_sealed s3\<lparr>sb_security_flags := sb_security_flags (owfs_sealed s3) AND NOT OWFS_SEC_ENCRYPTED\<rparr>"
  have wf4: "owfs_superblock_wf s4" using p3(2) by (simp add: s4_def owfs_superblock_wf_def)
  have lay: "owfs_layout s4 = owfs_layout sb" by (simp add: owfs_layout_def s4_def s3_def s2_def s1_def)
  have tb: "total_blocks d3 = total_blocks dev" using p1(5) p2(5) p3(5) by simp
  have geo3: "owfs_geometry d3 s4" using geo owfs_layout_cong(1) [OF lay, of dev] owfs_geometry_dev [OF tb] by simp
  have rel: "htl_reliable d3" using p3(3) by (simp add: owfs_disk_def)
  define s5 where "s5 = owfs_cleaned (s4\<lparr>sb_fletcher64_bitmap :=
    ow_fletcher64 (owfs_bitmap_bytes d3 s4) (4096 * unat (sb_bitmap_block_count s4))\<rparr>)"
  have wf5: "owfs_superblock_wf s5" using wf4 by (simp add: s5_def)
  note p = owfs_put_sb_props [OF p3(3) wf5] and fl = owfs_flushed_props [OF owfs_put_sb_props(2) [OF p3(3) wf5]]
  have run: "owfs_crypto_purge dev sb = (OWFS_OK, htl_flushed (owfs_put_sb d3 s5), owfs_sealed s5)"
    unfolding owfs_crypto_purge_def p1(1) p2(1) p3(1) prod.case s4_def [symmetric]
      owfs_sync_disk [OF rel geo3 wf4] s5_def [symmetric] Let_def by simp
  have same: "blk (htl_flushed (owfs_put_sb d3 s5)) x = blk dev x" if "x < total_blocks dev" "x \<noteq> 16" for x
    using that p1(4,5) p2(4,5) p3(4) fl(4) p(4,5) tb by simp
  have lay5: "owfs_layout (owfs_sealed s5) = owfs_layout sb" using lay by (simp add: owfs_layout_def s5_def)
  have slots: "sb_key_slot_1 (owfs_sealed s5) = replicate 256 0xAA" "sb_key_slot_2 (owfs_sealed s5) = replicate 256 0xAA"
    "sb_security_flags (owfs_sealed s5) = sb_security_flags sb AND NOT OWFS_SEC_ENCRYPTED"
    unfolding s5_def s4_def s3_def by (simp_all, simp add: s2_def s1_def)
  show ?thesis
    using run fl(2,3) p(3) slots lay5 same by (intro exI [of _ "htl_flushed (owfs_put_sb d3 s5)"] exI [of _ "owfs_sealed s5"]) simp
qed

section \<open>Scrubbing\<close>

lemma full_scrub_loop_ok:
  assumes "htl_reliable dev" and "\<forall>b\<in>set bs. b < unat (total_blocks dev)"
  shows "\<exists>dev'. full_scrub_loop dev bs = (OWFS_OK, dev') \<and> htl_reliable dev' \<and> total_blocks dev' = total_blocks dev \<and>
    (\<forall>x. x < total_blocks dev \<longrightarrow> blk dev' x = (if unat x \<in> set bs then replicate 4096 0 else blk dev x))"
  using assms
proof (induction bs arbitrary: dev)
  case (Cons b bs)
  have "unat (total_blocks dev) < 2 ^ 32" using unsigned_less [where 'a = nat and 'b = 32] by simp
  then have b: "unat (of_nat b :: u32) = b" "(of_nat b :: u32) < total_blocks dev"
    using Cons.prems(2) by (simp_all add: unat_of_nat word_less_nat_alt take_bit_nat_eq_self)
  let ?d = "blk_write dev (of_nat b) (replicate 4096 0)"
  obtain dev' where IH: "full_scrub_loop ?d bs = (OWFS_OK, dev')" "htl_reliable dev'" "total_blocks dev' = total_blocks dev"
    "\<forall>x. x < total_blocks dev \<longrightarrow> blk dev' x = (if unat x \<in> set bs then replicate 4096 0 else blk ?d x)"
    using Cons.IH [of ?d] Cons.prems b(2) by (auto simp: dev_simps)
  have "full_scrub_loop dev (b # bs) = (OWFS_OK, dev')"
    using Cons.prems(1) b(2) IH(1) by (simp add: dev_simps)
  moreover have "(x = of_nat b) = (unat x = b)" for x :: u32 using b(1) by auto
  ultimately show ?case using IH(2-4) Cons.prems(1) b(2) by (auto simp: dev_simps)
qed simp

text \<open>A full scrub of a device zeroes every block before it formats: what is not zero afterwards was written
  by the format.\<close>

lemma owfs_full_scrub_eq:
  fixes dev :: "'c htl_device"
  assumes dev: "htl_reliable dev" and n: "unat n \<le> unat (total_blocks dev)"
  shows "\<exists>dev0. owfs_full_scrub dev n label k = owfs_format_volume dev0 n label k \<and> htl_reliable dev0 \<and>
    total_blocks dev0 = total_blocks dev \<and> (\<forall>x. x < n \<longrightarrow> blk dev0 x = replicate 4096 0)"
proof -
  obtain dev0 where s: "full_scrub_loop dev [0..<unat n] = (OWFS_OK, dev0)" "htl_reliable dev0" "total_blocks dev0 = total_blocks dev"
    "\<forall>x. x < total_blocks dev \<longrightarrow> blk dev0 x = (if unat x \<in> set [0..<unat n] then replicate 4096 0 else blk dev x)"
    using full_scrub_loop_ok [OF dev, of "[0..<unat n]"] n by auto
  have "block_size dev = 0x1000" using dev by (simp add: htl_reliable_def)
  then have "owfs_full_scrub dev n label k = owfs_format_volume dev0 n label k" using s(1) by (simp add: owfs_full_scrub_def)
  moreover have "blk dev0 x = replicate 4096 0" if "x < n" for x
    using s(4) [rule_format, of x] that n by (simp add: word_less_nat_alt)
  ultimately show ?thesis using s(2,3) by blast
qed

lemma owfs_full_scrub_ok:
  fixes dev :: "'c htl_device"
  assumes dev: "htl_reliable dev" and n: "275 \<le> unat n" "unat n \<le> 0xFFFF8110" "unat n \<le> unat (total_blocks dev)" and label: "name_arg_ok label k"
  obtains dev' where "owfs_full_scrub dev n label k = (OWFS_OK, dev')" "owfs_fresh_volume dev'" "sb_total_blocks (owfs_disk_sb dev') = n"
    "\<And>x. x \<in> owfs_region (owfs_disk_sb dev') \<Longrightarrow> blk dev' x = replicate 4096 0"
proof -
  obtain dev0 where z: "owfs_full_scrub dev n label k = owfs_format_volume dev0 n label k" "htl_reliable dev0"
    "total_blocks dev0 = total_blocks dev" "\<forall>x. x < n \<longrightarrow> blk dev0 x = replicate 4096 0"
    using owfs_full_scrub_eq [OF dev n(3), of label k] by blast
  obtain dev' where f: "owfs_format_volume dev0 n label k = (OWFS_OK, dev')" "owfs_fresh_volume dev'" "sb_total_blocks (owfs_disk_sb dev') = n"
    "kept_or_zero (owfs_region (owfs_disk_sb dev')) dev0 dev'"
    using owfs_format_volume_ok [OF z(2) n(1,2) _ label] n(3) z(3) by auto
  then show thesis using z(1,4) by (intro that [of dev']) (auto simp: kept_or_zero_def owfs_region_def)
qed

end
