(* ===== verification/OWFS_Volume.thy ===== *)
theory OWFS_Volume
  imports OWFS_Catalog OWFS_Format
begin

text \<open>
  The properties of an OWFS volume as a whole, and the volume on which they are applied: the RAM disk of
  the host tests, formatted, with one file. Each property is stated over the operations of the
  components and rests on their lemmas.
\<close>

unbundle bit_operations_syntax

section \<open>A freshly formatted volume\<close>

lemma superuser_access: "uid g = 0 \<Longrightarrow> owfs_inode_access_check g inode want = OWFS_OK"
  by (simp add: owfs_inode_access_check_iff ow_sec_access_def)

lemma owfs_fresh_facts:
  fixes dev :: "'c htl_device"
  assumes f: "owfs_fresh_volume dev"
  defines "sb \<equiv> owfs_disk_sb dev"
  shows "owfs_volume_ok dev sb" and "owfs_is_catalog dev sb 0" and "owfs_live dev sb = {0}"
    and "owfs_catalog_ok dev (owfs_inode_at dev sb 0)" and "owfs_dir dev (owfs_inode_at dev sb 0) = Map.empty"
    and "owfs_volume_writable sb = OWFS_OK" and "unat (sb_total_inodes sb) = 4096"
    and "owfs_superblock_wf sb" and "owfs_superblock_validate sb" and "owfs_disk dev" and "\<not> owfs_is_dirty sb"
    and "(0, 0) \<in> set (owfs_slots (owfs_inode_at dev sb 0))" and "\<not> entry_live (owfs_entry_at dev (owfs_inode_at dev sb 0) (0, 0))"
    and "sb_free_inodes sb \<noteq> 0"
proof -
  let ?root = "owfs_inode_at dev sb 0"
  obtain b where a: "?root = owfs_inode_sealed (owfs_root_with b)" "owfs_blocks dev ?root = [b]" "blk dev b = replicate 4096 0"
    and v: "owfs_volume_ok dev sb" "owfs_live dev sb = {0}" "owfs_volume_writable sb = OWFS_OK" "sb_total_inodes sb = 0x1000"
      "owfs_superblock_wf sb" "owfs_superblock_validate sb" "owfs_disk dev" "\<not> owfs_is_dirty sb"
    using f unfolding owfs_fresh_volume_def Let_def sb_def by blast
  show "owfs_volume_ok dev sb" "owfs_live dev sb = {0}" "owfs_volume_writable sb = OWFS_OK" "unat (sb_total_inodes sb) = 4096"
    "owfs_superblock_wf sb" "owfs_superblock_validate sb" "owfs_disk dev" "\<not> owfs_is_dirty sb" using v by simp_all
  have r: "ino_entry_type ?root = OWFS_ENTRY_CATALOG" "ino_block_count ?root = 1"
    unfolding a(1) by (simp_all add: owfs_root_with_def owfs_root_inode_simps)
  show "owfs_is_catalog dev sb 0" using v(2) r(1) by (simp add: owfs_is_catalog_def)
  have e: "\<not> entry_live (owfs_entry_at dev ?root p)" if "p \<in> set (owfs_slots ?root)" for p
  proof -
    obtain i e where p: "p = (i, e)" by (cases p)
    with that r(2) have "i = 0" "e < 16" by (simp_all add: owfs_slots_iff)
    then show ?thesis using a(2,3) by (simp add: p owfs_entry_at_def catalog_slot_def owfs_catalog_entry_of_bytes_def)
  qed
  then have "owfs_entries dev ?root = {}" unfolding owfs_entries_def by blast
  then show "owfs_catalog_ok dev ?root" "owfs_dir dev ?root = Map.empty"
    by (simp_all add: owfs_catalog_ok_def fun_eq_iff owfs_dir_None)
  show "(0, 0) \<in> set (owfs_slots ?root)" using r(2) by (simp add: owfs_slots_iff)
  then show "\<not> entry_live (owfs_entry_at dev ?root (0, 0))" by (rule e)
  show "sb_free_inodes sb \<noteq> 0"
  proof
    assume "sb_free_inodes sb = 0"
    with owfs_volume_okD(2) [OF v(1)] show False unfolding owfs_inodes_counted_def v(2,4) by simp
  qed
qed

section \<open>The example volume\<close>

definition demo_device :: "ramdisk htl_device" where
  "demo_device = snd (owfs_format_volume ramdisk_device 512 None 0)"

definition demo_sb :: owfs_superblock where
  "demo_sb = owfs_disk_sb demo_device"

lemma demo_fresh: "owfs_fresh_volume demo_device" "unat (sb_free_blocks demo_sb) = 237" "total_blocks demo_device = 512"
proof -
  have t: "total_blocks ramdisk_device = 512" by (simp add: ramdisk_device_def)
  obtain dev' where d: "owfs_format_volume ramdisk_device 512 None 0 = (OWFS_OK, dev')" "owfs_fresh_volume dev'"
    "total_blocks dev' = total_blocks ramdisk_device"
    "unat (sb_free_blocks (owfs_disk_sb dev')) = unat (512 :: u32) - owfs_data_start (unat (512 :: u32)) - 1"
    using owfs_format_volume_ok [OF ramdisk_reliable, of 512 None 0] t by (auto simp: name_arg_ok_def)
  then show "owfs_fresh_volume demo_device" "unat (sb_free_blocks demo_sb) = 237" "total_blocks demo_device = 512"
    using t by (simp_all add: demo_device_def demo_sb_def owfs_data_start_def)
qed

lemmas demo_facts = owfs_fresh_facts [OF demo_fresh(1), folded demo_sb_def]

text \<open>The same volume with one empty file, inode 1.\<close>

definition demo_file_device :: "ramdisk htl_device" where
  "demo_file_device = fst (snd (owfs_inode_alloc superuser demo_device demo_sb OWFS_ENTRY_FILE None 0 0))"

definition demo_file_sb :: owfs_superblock where
  "demo_file_sb = snd (snd (owfs_inode_alloc superuser demo_device demo_sb OWFS_ENTRY_FILE None 0 0))"

definition demo_file :: owfs_inode where
  "demo_file = owfs_inode_at demo_file_device demo_file_sb 1"

lemma demo_file_facts:
  "owfs_volume_ok demo_file_device demo_file_sb" "owfs_live demo_file_device demo_file_sb = {0, 1}"
  "owfs_volume_writable demo_file_sb = OWFS_OK" "unat (sb_free_blocks demo_file_sb) = 237"
  "ino_entry_type demo_file = OWFS_ENTRY_FILE" "ino_block_count demo_file = 0" "ino_size_bytes demo_file = 0"
  "ino_security_flags demo_file AND OWFS_SEC_READONLY = 0" "unat (sb_total_inodes demo_file_sb) = 4096"
  "owfs_superblock_wf demo_file_sb"
proof -
  have nm: "name_arg_ok None 0" by (simp add: name_arg_ok_def)
  obtain r d s where a: "owfs_inode_alloc superuser demo_device demo_sb OWFS_ENTRY_FILE None 0 0 = (r, d, s)"
    by (cases "owfs_inode_alloc superuser demo_device demo_sb OWFS_ENTRY_FILE None 0 0")
  obtain i where r: "r = Inr i"
  proof (cases r)
    case (Inl e)
    have "owfs_live demo_device demo_sb = {..<unat (sb_total_inodes demo_sb)}"
      using owfs_inode_alloc_none(4) [OF demo_facts(1) nm a [unfolded Inl] demo_facts(6)] by simp
    then have "1 \<in> owfs_live demo_device demo_sb" using demo_facts(7) by simp
    then show ?thesis using demo_facts(3) by simp
  qed
  note s = owfs_inode_alloc_some [OF demo_facts(1) nm a [unfolded r]]
  have "unat i \<noteq> 0" using s(2) demo_facts(3) by simp
  moreover have "unat i \<le> 1" using s(6) [of 1] demo_facts(3) by (cases "1 < unat i") auto
  ultimately have i: "unat i = 1" by simp
  have d: "demo_file_device = d" "demo_file_sb = s" by (simp_all add: demo_file_device_def demo_file_sb_def a)
  have f: "demo_file = owfs_inode_fresh superuser demo_sb OWFS_ENTRY_FILE None 0 0 i"
    using s(4) i by (simp add: demo_file_def d s(7))
  show "owfs_volume_ok demo_file_device demo_file_sb" using s(1) by (simp add: d)
  show "owfs_live demo_file_device demo_file_sb = {0, 1}" using s(5) i demo_facts(3) by (auto simp: d s(7))
  show "owfs_volume_writable demo_file_sb = OWFS_OK" "unat (sb_free_blocks demo_file_sb) = 237"
    "unat (sb_total_inodes demo_file_sb) = 4096"
    using demo_facts(6,7) demo_fresh(2) by (simp_all add: d s(7))
  show "ino_entry_type demo_file = OWFS_ENTRY_FILE" "ino_block_count demo_file = 0" "ino_size_bytes demo_file = 0"
    by (simp_all add: f owfs_inode_fresh_simps)
  show "ino_security_flags demo_file AND OWFS_SEC_READONLY = 0" unfolding f by (rule owfs_inode_fresh_access) simp
  show "owfs_superblock_wf demo_file_sb" using demo_facts(8) by (simp add: d s(7) owfs_superblock_wf_def)
qed

lemma demo_may_write: "owfs_may_write superuser demo_file_sb demo_file"
  using demo_file_facts by (simp add: owfs_may_write_def superuser_access)

section \<open>Formatting\<close>



text \<open>C29: the layout is the one the comment in the source asks for: the bitmap has the smallest number of blocks
  that cover the data region, and the regions follow each other without gap or overlap up to the end of the volume.\<close>

theorem owfs_format_layout_minimal:
  assumes "275 \<le> unat n" and "unat n \<le> 0xFFFF8110"
  defines "sb \<equiv> owfs_format_layout n"
  shows "unat (sb_inode_table_start sb) = unat (sb_bitmap_start_block sb) + unat (sb_bitmap_block_count sb) \<and>
    unat (sb_data_region_start sb) = unat (sb_inode_table_start sb) + unat (sb_inode_table_blocks sb) \<and>
    unat (sb_data_region_start sb) < unat n \<and>
    unat n - unat (sb_data_region_start sb) \<le> 32768 * unat (sb_bitmap_block_count sb) \<and>
    (\<forall>m < unat (sb_bitmap_block_count sb). 32768 * m < unat n - (17 + m + 256))"
proof -
  note l = owfs_format_layout_nat [OF assms(1,2)] and s = owfs_data_start_less [OF assms(1)]
  have f: "sb_bitmap_start_block sb = 17" "sb_inode_table_blocks sb = 256"
    by (simp_all add: sb_def owfs_format_layout_def Let_def)
  have "32768 * m < unat n - (17 + m + 256)" if "m < unat (sb_bitmap_block_count sb)" for m
    using bitmap_blocks_least(4) [of "unat n - 273" m] that assms(1) l(1) by (simp add: sb_def)
  then show ?thesis using l s f by (simp add: sb_def owfs_data_start_def)
qed

theorem owfs_format_layout_minimal_witness:
  "unat (sb_data_region_start (owfs_format_layout 512)) < unat (512 :: u32)"
  using owfs_format_layout_minimal [of 512] by simp

section \<open>The block allocator\<close>

text \<open>An allocation returns the lowest-numbered free block of the data region, marks exactly that block,
  takes one from the counter, and leaves every block outside the bitmap as it was.\<close>

lemma owfs_bitmap_alloc_first_fit:
  assumes "owfs_alloc_inv dev sb" and "owfs_bitmap_alloc dev sb = (Inr b, dev', sb')"
  shows "b \<in> owfs_region sb - owfs_allocated dev sb \<and> (\<forall>y \<in> owfs_region sb - owfs_allocated dev sb. b \<le> y) \<and>
    owfs_allocated dev' sb' = insert b (owfs_allocated dev sb) \<and> owfs_alloc_inv dev' sb' \<and>
    sb' = sb\<lparr>sb_free_blocks := sb_free_blocks sb - 1\<rparr> \<and> owfs_frame sb {} dev dev'"
  using owfs_bitmap_alloc_some [OF assms] by (auto simp: owfs_frame_def)

text \<open>Refinement of the abstract allocator: a client that asks for \<open>n\<close> blocks in a row gets that many distinct
  free blocks, or all there are when fewer are free, and the data blocks keep their contents.\<close>

lemma owfs_bitmap_alloc_many:
  assumes "owfs_alloc_inv dev sb" and "owfs_alloc.alloc_n n (dev, sb) = (bs, (dev', sb'))"
  shows "owfs_alloc_inv dev' sb' \<and> distinct bs \<and> set bs \<subseteq> owfs_region sb - owfs_allocated dev sb \<and>
    owfs_allocated dev' sb' = owfs_allocated dev sb \<union> set bs \<and> (\<forall>x \<in> owfs_region sb. blk dev' x = blk dev x) \<and>
    length bs = min n (unat (sb_free_blocks sb))"
  using owfs_alloc.alloc_n_spec [of "(dev, sb)" n bs "(dev', sb')"] assms card_owfs_unallocated [OF assms(1)] by simp

text \<open>Freeing a block of the data region always succeeds, also when it was free already, and is the inverse
  of allocating it; a block outside the region is refused and nothing changes.\<close>

lemma owfs_bitmap_free_correct:
  assumes inv: "owfs_alloc_inv dev sb"
  shows "if b \<in> owfs_region sb then
      \<exists>dev' sb'. owfs_bitmap_free dev sb b = (OWFS_OK, dev', sb') \<and> owfs_alloc_inv dev' sb' \<and>
        owfs_allocated dev' sb' = owfs_allocated dev sb - {b} \<and> owfs_frame sb {} dev dev'
    else owfs_bitmap_free dev sb b = (OWFS_ERR_INVALID_PARAM, dev, sb)"
proof (cases "b \<in> owfs_region sb")
  case True
  obtain e dev' sb' where f: "owfs_bitmap_free dev sb b = (e, dev', sb')" by (cases "owfs_bitmap_free dev sb b")
  from owfs_bitmap_free_ok [OF inv True f] f True show ?thesis by (auto simp: owfs_frame_def)
next
  case False
  with inv owfs_bitmap_free_reliable [of dev sb b] show ?thesis
    by (auto simp: owfs_alloc_inv_def owfs_region_def not_le not_less)
qed

text \<open>Counting the clear bits of the bitmap gives the counter in the superblock whenever the allocator's
  invariant holds, without changing the device.\<close>

lemma owfs_bitmap_count_free_correct:
  assumes "owfs_alloc_inv dev sb"
  shows "owfs_bitmap_count_free dev sb = (sb_free_blocks sb, dev)"
proof -
  have "htl_reliable dev" "owfs_geometry dev sb" "unat (sb_free_blocks sb) = card (owfs_free_set dev sb)"
    using assms by (simp_all add: owfs_alloc_inv_def owfs_counted_def)
  with owfs_bitmap_count_free_card [OF this(1,2)] show ?thesis by (metis of_nat_unat ucast_id)
qed

section \<open>Block maps\<close>

text \<open>Growing a file by one block appends one fresh zeroed block to the file's map and keeps the blocks it
  had, through the direct pointers, the creation of the indirect block and the indirect pointers; every index of
  the grown map can be looked up. The only failure on a consistent writable volume is a lack of blocks, and it
  leaves the inode, the counter and the allocated blocks as they were.\<close>

lemma owfs_blockmap_ensure_correct:
  assumes inv: "owfs_alloc_inv dev sb" and map: "owfs_map_ok dev sb inode" and vw: "owfs_volume_writable sb = OWFS_OK"
    and e: "owfs_blockmap_ensure dev sb inode (ino_block_count inode) = (r, dev', sb', inode')"
  shows "case r of
      Inr b \<Rightarrow> owfs_blocks dev' inode' = owfs_blocks dev inode @ [b] \<and> b \<in> owfs_region sb - owfs_allocated dev sb \<and>
        blk dev' b = replicate 4096 0 \<and> owfs_alloc_inv dev' sb' \<and> owfs_map_ok dev' sb' inode' \<and>
        (\<forall>i < ino_block_count inode'. owfs_blockmap_get dev' inode' i = (Inr (owfs_blocks dev' inode' ! unat i), dev'))
    | Inl err \<Rightarrow> err = OWFS_ERR_NO_FREE_BLOCKS \<and> inode' = inode \<and> sb' = sb \<and>
        owfs_allocated dev' sb' = owfs_allocated dev sb \<and> owfs_alloc_inv dev' sb' \<and>
        (ino_block_count inode = 1034 \<or> unat (sb_free_blocks sb) \<le> 1)"
proof (cases r)
  case (Inl err)
  from owfs_blockmap_ensure_full [OF inv map vw e [unfolded Inl]] show ?thesis by (auto simp: Inl owfs_unchanged_def)
next
  case (Inr b)
  have g: "owfs_alloc_inv dev' sb'" "owfs_map_ok dev' sb' inode'" "owfs_blocks dev' inode' = owfs_blocks dev inode @ [b]"
    "b \<in> owfs_region sb - owfs_allocated dev sb" "blk dev' b = replicate 4096 0"
    using owfs_blockmap_ensure_grown [OF inv map e [unfolded Inr]] unfolding owfs_grown_def by blast+
  then show ?thesis using owfs_blockmap_get_ok [OF g(1,2)] by (simp add: Inr)
qed

lemma demo_file_inv: "owfs_alloc_inv demo_file_device demo_file_sb" "owfs_map_ok demo_file_device demo_file_sb demo_file"
  "1 \<in> owfs_live demo_file_device demo_file_sb"
proof -
  show l: "1 \<in> owfs_live demo_file_device demo_file_sb" using demo_file_facts(2) by simp
  show "owfs_alloc_inv demo_file_device demo_file_sb" "owfs_map_ok demo_file_device demo_file_sb demo_file"
    using owfs_volume_okD(1,6) [OF demo_file_facts(1)] l by (simp_all add: demo_file_def)
qed

text \<open>Releasing the blocks of a file from an index on keeps the blocks before the index, returns the others and
  the indirect block when no index needs it to the allocator, and touches no block outside the bitmap.\<close>

lemma owfs_blockmap_release_correct:
  assumes "owfs_alloc_inv dev sb" and "owfs_map_ok dev sb inode" and "owfs_volume_writable sb = OWFS_OK"
    and "k < ino_block_count inode"
  shows "\<exists>dev' sb' inode'. owfs_blockmap_release dev sb inode k = (OWFS_OK, dev', sb', inode') \<and>
    owfs_alloc_inv dev' sb' \<and> owfs_map_ok dev' sb' inode' \<and> owfs_blocks dev' inode' = take (unat k) (owfs_blocks dev inode) \<and>
    owfs_allocated dev' sb' = owfs_allocated dev sb - (owfs_owned dev inode - owfs_owned dev' inode') \<and>
    card (owfs_owned dev' inode') = owfs_footprint (unat k) \<and> owfs_frame sb {} dev dev'"
proof -
  obtain dev' sb' inode' where r: "owfs_blockmap_release dev sb inode k = (OWFS_OK, dev', sb', inode')"
    "owfs_released dev sb inode (unat k) dev' sb' inode'" "ino_block_count inode' = k"
    using owfs_blockmap_release_ok [OF assms] by blast
  then have m: "owfs_map_ok dev' sb' inode'" unfolding owfs_released_def by blast
  then show ?thesis using r card_owfs_owned [OF m] unfolding owfs_released_def by blast
qed


section \<open>The inode table\<close>

text \<open>An inode that has been written reads back with OK as it was written, sealed by its checksum, and the write
  changes no other inode of the table and no block outside the table.\<close>

lemma owfs_inode_write_read:
  fixes dev :: "'c htl_device"
  assumes "htl_reliable dev" and "owfs_geometry dev sb" and "num < sb_total_inodes sb"
    and "owfs_volume_writable sb = OWFS_OK" and "owfs_inode_wf inode"
  shows "\<exists>dev'. owfs_inode_write dev sb num inode = (OWFS_OK, dev', owfs_inode_sealed inode) \<and>
    owfs_inode_read dev' sb num inode0 = (OWFS_OK, dev', owfs_inode_sealed inode) \<and>
    (\<forall>j < unat (sb_total_inodes sb). j \<noteq> unat num \<longrightarrow> owfs_inode_at dev' sb j = owfs_inode_at dev sb j) \<and>
    owfs_frame sb (owfs_table sb) dev dev'"
proof -
  have n: "unat num < unat (sb_total_inodes sb)" using assms(3) by (simp add: word_less_nat_alt)
  have wf: "owfs_inode_wf (owfs_inode_sealed inode)" using assms(5) by simp
  let ?dev' = "owfs_inode_put dev sb (unat num) (owfs_inode_sealed inode)"
  note p = owfs_inode_put_props [OF assms(1,2) n wf]
  have geo: "owfs_geometry ?dev' sb" using assms(2) owfs_geometry_dev [OF p(2)] by simp
  have "owfs_inode_read ?dev' sb num inode0 = (OWFS_OK, ?dev', owfs_inode_sealed inode)"
    using owfs_inode_read_reliable [OF p(1) geo assms(3), of inode0] p(5) [OF n] owfs_inode_sealed_verifies [OF assms(5)]
    by (simp add: Let_def)
  then show ?thesis using owfs_inode_write_reliable [OF assms] p(3,5) by (intro exI [of _ ?dev']) auto
qed


definition demo_root :: owfs_inode where
  "demo_root = owfs_inode_at demo_device demo_sb 0"




text \<open>Creating an inode takes the lowest free slot of the table, fills it with an empty sealed record that
  belongs to the caller, and keeps the volume consistent; on a writable volume with valid arguments the only
  failure is that every slot is in use, and it changes nothing.\<close>

lemma owfs_inode_alloc_correct:
  assumes ok: "owfs_volume_ok dev sb" and nm: "name_arg_ok name k" "k < 128" "name = None \<or> k = 0 \<or> ow_sutf8_validate name k"
    and t: "t = OWFS_ENTRY_FILE \<or> t = OWFS_ENTRY_CATALOG" and vw: "owfs_volume_writable sb = OWFS_OK"
    and a: "owfs_inode_alloc g dev sb t name k p = (r, dev', sb')"
  shows "case r of
      Inr i \<Rightarrow> owfs_volume_ok dev' sb' \<and> unat i \<notin> owfs_live dev sb \<and> {..<unat i} \<subseteq> owfs_live dev sb \<and>
        owfs_live dev' sb' = insert (unat i) (owfs_live dev sb) \<and>
        owfs_inode_at dev' sb' (unat i) = owfs_inode_fresh g sb t name k p i \<and> owfs_frame sb (owfs_table sb) dev dev'
    | Inl e \<Rightarrow> e = OWFS_ERR_NO_FREE_INODES \<and> dev' = dev \<and> sb' = sb \<and> owfs_live dev sb = {..<unat (sb_total_inodes sb)}"
proof (cases r)
  case (Inl e)
  from owfs_inode_alloc_none [OF ok nm(1) a [unfolded Inl] vw t nm(2,3)] show ?thesis by (simp add: Inl)
next
  case (Inr i)
  note s = owfs_inode_alloc_some [OF ok nm(1) a [unfolded Inr]]
  have c: "owfs_live dev' sb' = owfs_live dev' sb" "owfs_inode_at dev' sb' = owfs_inode_at dev' sb" by (simp_all add: s(7))
  show ?thesis using s by (auto simp: Inr c)
qed

text \<open>C16: freeing an inode that exists, is not read-only and may be written by the caller marks its slot free, returns
  all its blocks to the allocator, keeps the volume consistent, and every other file keeps its record and its
  content.\<close>

theorem owfs_inode_free_correct:
  assumes ok: "owfs_volume_ok dev sb" and "unat n \<in> owfs_live dev sb" and "owfs_volume_writable sb = OWFS_OK"
    and "ino_security_flags (owfs_inode_at dev sb (unat n)) AND OWFS_SEC_READONLY = 0"
    and "owfs_inode_access_check g (owfs_inode_at dev sb (unat n)) OW_ACCESS_WRITE = OWFS_OK"
  shows "\<exists>dev' sb'. owfs_inode_free g dev sb n = (OWFS_OK, dev', sb') \<and> owfs_volume_ok dev' sb' \<and>
    owfs_live dev' sb' = owfs_live dev sb - {unat n} \<and>
    owfs_allocated dev' sb' = owfs_allocated dev sb - owfs_owned dev (owfs_inode_at dev sb (unat n)) \<and>
    (\<forall>j \<in> owfs_live dev sb - {unat n}. owfs_inode_at dev' sb' j = owfs_inode_at dev sb j \<and>
       owfs_content dev' sb' (owfs_inode_at dev sb j) = owfs_content dev sb (owfs_inode_at dev sb j))"
proof -
  obtain dev' sb' where f: "owfs_inode_free g dev sb n = (OWFS_OK, dev', sb')" "owfs_volume_ok dev' sb'"
    "owfs_live dev' sb' = owfs_live dev sb - {unat n}"
    "owfs_allocated dev' sb' = owfs_allocated dev sb - owfs_owned dev (owfs_inode_at dev sb (unat n))"
    "owfs_frame sb (owfs_table sb) dev dev'"
    "\<forall>j \<in> owfs_live dev sb - {unat n}. owfs_inode_at dev' sb' j = owfs_inode_at dev sb j"
    "sb' = sb\<lparr>sb_free_blocks := sb_free_blocks sb', sb_free_inodes := sb_free_inodes sb + 1\<rparr>"
    using owfs_inode_free_ok [OF assms] by blast
  note d = owfs_volume_okD [OF ok]
  have "owfs_content dev' sb' (owfs_inode_at dev sb j) = owfs_content dev sb (owfs_inode_at dev sb j)" if "j \<in> owfs_live dev sb" for j
  proof -
    have "owfs_table sb \<inter> owfs_owned dev (owfs_inode_at dev sb j) = {}"
      using owfs_map_okD(5,6) [OF d(1) d(6) [OF that]] owfs_table_region [of sb] by blast
    from owfs_content_frame [OF d(1) d(6) [OF that] f(5) this] show ?thesis by (subst f(7)) simp
  qed
  with f(1-4,6) show ?thesis by blast
qed

theorem owfs_inode_free_correct_witness:
  "\<exists>dev' sb'. owfs_inode_free superuser demo_file_device demo_file_sb 1 = (OWFS_OK, dev', sb') \<and> owfs_live dev' sb' = {0}"
  using owfs_inode_free_correct [of demo_file_device demo_file_sb 1 superuser] demo_file_facts(1-3,8)
  by (auto simp: superuser_access demo_file_def)

section \<open>Files\<close>

text \<open>C14: a read returns the bytes of the file's content at the offset, as many as were asked for or as there are up
  to the end of the file, and changes neither the rest of the caller's buffer nor the device.\<close>

theorem owfs_file_read_correct:
  assumes "owfs_alloc_inv dev sb" and "owfs_map_ok dev sb inode"
    and "unat (ino_size_bytes inode) \<le> 4096 * unat (ino_block_count inode)"
    and "ino_entry_type inode AND OWFS_ENTRY_FILE \<noteq> 0"
    and "owfs_inode_access_check g inode OW_ACCESS_READ = OWFS_OK" and "unat len \<le> length buf"
  shows "let n = min (unat len) (unat (ino_size_bytes inode) - unat offset) in
    owfs_file_read g dev sb inode buf offset len =
      (OWFS_OK, of_nat n, overwrite 0 (window (unat offset) n (owfs_content dev sb inode)) buf, dev)"
  using owfs_file_read_ok [OF assms] by (simp add: Let_def)

theorem owfs_file_read_correct_witness:
  "owfs_file_read superuser demo_file_device demo_file_sb demo_file (replicate 8 0) 0 8 = (OWFS_OK, 0, replicate 8 0, demo_file_device)"
  using owfs_file_read_correct [OF demo_file_inv(1,2), of superuser 8 "replicate 8 0" 0] demo_file_facts(5-7)
  by (simp add: superuser_access overwrite_def)

text \<open>C1: a write of a non-empty buffer by a caller who may write succeeds in full whenever the volume has room for
  the blocks the file then needs and one more; the bytes replace the window of the content at the offset, a file
  that was too short is extended by fresh blocks, the size grows to the end of the window when it ends beyond it,
  reading the window back returns the bytes, the name, owner and permissions of the file stay, and every other file
  keeps its record and its content.\<close>

theorem owfs_file_write_correct:
  assumes ok: "owfs_volume_ok dev sb" and live: "unat num \<in> owfs_live dev sb"
    and inode: "inode = owfs_inode_at dev sb (unat num)" and may: "owfs_may_write g sb inode"
    and acc: "owfs_inode_access_check g inode OW_ACCESS_READ = OWFS_OK"
    and size: "unat (ino_size_bytes inode) \<le> 4096 * unat (ino_block_count inode)"
    and len: "len \<noteq> 0" "unat len \<le> length buf" and fit: "unat offset + unat len \<le> 1034 * 4096"
    and room: "owfs_footprint ((unat offset + unat len + 4095) div 4096) <
      unat (sb_free_blocks sb) + owfs_footprint (unat (ino_block_count inode))"
  shows "\<exists>dev' sb' inode' new. owfs_file_write g dev sb inode num buf offset len = (OWFS_OK, len, dev', sb', inode') \<and>
    owfs_volume_ok dev' sb' \<and> owfs_inode_at dev' sb' (unat num) = inode' \<and> owfs_others_kept dev sb (unat num) dev' \<and>
    owfs_same_attrs inode inode' \<and> unat (ino_size_bytes inode') = max (unat (ino_size_bytes inode)) (unat offset + unat len) \<and>
    unat (ino_size_bytes inode') \<le> 4096 * unat (ino_block_count inode') \<and>
    owfs_content dev' sb' inode' =
      overwrite (unat offset) (window 0 (unat len) buf) (owfs_content dev sb inode @ owfs_fresh sb inode new) \<and>
    owfs_file_read g dev' sb' inode' (replicate (unat len) 0) offset len = (OWFS_OK, len, window 0 (unat len) buf, dev')"
proof -
  obtain dev' sb' inode' new where w: "owfs_file_write g dev sb inode num buf offset len = (OWFS_OK, len, dev', sb', inode')"
    "owfs_written dev sb inode (unat num) buf offset len new dev' sb' inode'"
    using owfs_file_write_room [OF ok live inode may len fit room] by blast
  have ty: "ino_entry_type inode AND OWFS_ENTRY_FILE \<noteq> 0" using may by (simp add: owfs_may_write_def)
  have "owfs_file_read g dev' sb' inode' (replicate (unat len) 0) offset len = (OWFS_OK, len, window 0 (unat len) buf, dev')"
    using owfs_read_after_write [OF w(2) live inode size ty acc ok len(2), of "replicate (unat len) 0"] len(2)
    by (simp add: overwrite_def)
  moreover have "unat (ino_size_bytes inode') \<le> 4096 * unat (ino_block_count inode')" using w(2) size unfolding owfs_written_def by auto
  ultimately show ?thesis using w unfolding owfs_written_def by blast
qed

theorem owfs_file_write_correct_witness:
  "\<exists>dev' sb' inode'. owfs_file_write superuser demo_file_device demo_file_sb demo_file 1 [7, 8, 9] 100000 3 = (OWFS_OK, 3, dev', sb', inode') \<and>
    owfs_file_read superuser dev' sb' inode' (replicate 3 0) 100000 3 = (OWFS_OK, 3, [7, 8, 9], dev')"
proof -
  have live: "unat (1 :: u32) \<in> owfs_live demo_file_device demo_file_sb" and at: "demo_file = owfs_inode_at demo_file_device demo_file_sb (unat (1 :: u32))"
    using demo_file_inv(3) by (simp_all add: demo_file_def)
  have size: "unat (ino_size_bytes demo_file) \<le> 4096 * unat (ino_block_count demo_file)" using demo_file_facts(6,7) by simp
  have room: "owfs_footprint ((unat (100000 :: u32) + unat (3 :: u32) + 4095) div 4096) <
      unat (sb_free_blocks demo_file_sb) + owfs_footprint (unat (ino_block_count demo_file))"
    using demo_file_facts(4,6) by (simp add: owfs_footprint_def)
  have acc: "owfs_inode_access_check superuser demo_file OW_ACCESS_READ = OWFS_OK" by (simp add: superuser_access)
  have w: "window 0 (unat (3 :: u32)) [7, 8, 9 :: u8] = [7, 8, 9]" "replicate (unat (3 :: u32)) (0 :: u8) = replicate 3 0" by (simp_all add: window_def)
  show ?thesis
    using owfs_file_write_correct [OF demo_file_facts(1) live at demo_may_write acc size _ _ _ room, of "[7, 8, 9]", unfolded w]
    by fastforce
qed

text \<open>C15: truncating a file to a smaller size keeps the blocks that hold the remaining bytes, returns the others to
  the allocator and leaves every other file as it was.\<close>

theorem owfs_file_truncate_correct:
  fixes dev :: "'c htl_device"
  assumes "owfs_volume_ok dev sb" and "unat num \<in> owfs_live dev sb" and "inode = owfs_inode_at dev sb (unat num)"
    and "owfs_may_write g sb inode" and "new_size < ino_size_bytes inode"
  shows "\<exists>dev' sb' inode'. owfs_file_truncate g dev sb inode num new_size = (OWFS_OK, dev', sb', inode') \<and>
    owfs_volume_ok dev' sb' \<and> owfs_inode_at dev' sb' (unat num) = inode' \<and> owfs_others_kept dev sb (unat num) dev' \<and>
    ino_size_bytes inode' = new_size \<and>
    owfs_content dev' sb' inode' = take (4096 * ((unat new_size + 4095) div 4096)) (owfs_content dev sb inode) \<and>
    owfs_allocated dev' sb' = owfs_allocated dev sb - (owfs_owned dev inode - owfs_owned dev' inode')"
  using owfs_file_truncate_ok [OF assms] by blast

text \<open>A file of three bytes at the end of a hole, to be truncated.\<close>

lemma demo_written:
  obtains dev' sb' inode' where "owfs_volume_ok dev' sb'" "1 \<in> owfs_live dev' sb'" "owfs_inode_at dev' sb' 1 = inode'"
    "owfs_may_write superuser sb' inode'" "unat (ino_size_bytes inode') = 100003" "owfs_volume_writable sb' = OWFS_OK"
    "(dev' :: ramdisk htl_device) = fst (snd (snd (owfs_file_write superuser demo_file_device demo_file_sb demo_file 1 [7, 8, 9] 100000 3)))"
    "sb' = fst (snd (snd (snd (owfs_file_write superuser demo_file_device demo_file_sb demo_file 1 [7, 8, 9] 100000 3))))"
proof -
  have r: "unat (1 :: u32) \<in> owfs_live demo_file_device demo_file_sb" "demo_file = owfs_inode_at demo_file_device demo_file_sb (unat (1 :: u32))"
    using demo_file_inv(3) by (simp_all add: demo_file_def)
  obtain dev' sb' inode' new where w: "owfs_file_write superuser demo_file_device demo_file_sb demo_file 1 [7, 8, 9] 100000 3 = (OWFS_OK, 3, dev', sb', inode')"
    "owfs_written demo_file_device demo_file_sb demo_file (unat (1 :: u32)) [7, 8, 9] 100000 3 new dev' sb' inode'"
    using owfs_file_write_room [OF demo_file_facts(1) r demo_may_write, of 3 "[7, 8, 9]" 100000] demo_file_facts(4,6)
    by (auto simp: owfs_footprint_def)
  then have x: "owfs_volume_ok dev' sb'" "owfs_inode_at dev' sb' 1 = inode'" "owfs_same_attrs demo_file inode'"
    "owfs_live dev' demo_file_sb = owfs_live demo_file_device demo_file_sb" "sb' = demo_file_sb\<lparr>sb_free_blocks := sb_free_blocks sb'\<rparr>"
    "unat (ino_size_bytes inode') = 100003"
    using demo_file_facts(7) unfolding owfs_written_def owfs_others_kept_def by (blast, simp, blast, blast, blast, simp)
  have lv: "1 \<in> owfs_live dev' sb'" using x(4) demo_file_inv(3) by (subst x(5)) simp
  have vw: "owfs_volume_writable sb' = OWFS_OK" using demo_file_facts(3) by (subst x(5)) simp
  then have "owfs_may_write superuser sb' inode'"
    using x(3) demo_file_facts by (simp add: owfs_may_write_def superuser_access owfs_same_attrs_def)
  then show thesis by (rule that [OF x(1) lv x(2) _ x(6) vw]) (simp_all only: w(1) fst_conv snd_conv)
qed

theorem owfs_file_truncate_correct_witness:
  "\<exists>dev sb inode dev' sb' inode'. (dev :: ramdisk htl_device) = fst (snd (snd (owfs_file_write superuser demo_file_device demo_file_sb demo_file 1 [7, 8, 9] 100000 3))) \<and>
    owfs_file_truncate superuser dev sb inode 1 5000 = (OWFS_OK, dev', sb', inode') \<and> ino_size_bytes inode' = 5000 \<and> owfs_volume_ok dev' sb'"
proof -
  obtain dev' sb' inode' where w: "owfs_volume_ok dev' sb'" "1 \<in> owfs_live dev' sb'" "owfs_inode_at dev' sb' 1 = inode'"
    "owfs_may_write superuser sb' inode'" "unat (ino_size_bytes inode') = 100003"
    "(dev' :: ramdisk htl_device) = fst (snd (snd (owfs_file_write superuser demo_file_device demo_file_sb demo_file 1 [7, 8, 9] 100000 3)))"
    using demo_written by metis
  have "5000 < ino_size_bytes inode'" using w(5) by (simp add: word_less_nat_alt)
  then obtain d2 s2 i2 where "owfs_file_truncate superuser dev' sb' inode' 1 5000 = (OWFS_OK, d2, s2, i2)" "ino_size_bytes i2 = 5000"
    "owfs_volume_ok d2 s2"
    using owfs_file_truncate_correct [OF w(1), of 1 inode' superuser 5000] w(2-4) by auto
  with w(6) show ?thesis by blast
qed

section \<open>Synchronising, crashing, mounting\<close>

lemma owfs_content_same_blocks:
  fixes dev dev' :: "'c htl_device"
  assumes ok: "owfs_volume_ok dev sb" and j: "j \<in> owfs_live dev sb" and tb: "total_blocks dev' = total_blocks dev"
    and same: "\<And>x. x < total_blocks dev \<Longrightarrow> x \<noteq> 16 \<Longrightarrow> blk dev' x = blk dev x"
    and key: "sb_security_flags sb' = sb_security_flags sb" "sb_key_slot_1 sb' = sb_key_slot_1 sb" "sb_crypto_nonce sb' = sb_crypto_nonce sb"
  shows "owfs_content dev' sb' (owfs_inode_at dev sb j) = owfs_content dev sb (owfs_inode_at dev sb j)"
proof -
  note d = owfs_volume_okD [OF ok]
  have fr: "owfs_frame sb {16} dev dev'" using tb same by (simp add: owfs_frame_def)
  have "16 < unat (sb_inode_table_start sb)" using d(4) by (simp add: owfs_geometry_def)
  then have "(16 :: u32) \<notin> owfs_region sb" using owfs_region_outside(2) [OF d(4), of 16] by (auto simp: word_le_nat_alt)
  then have "{16} \<inter> owfs_owned dev (owfs_inode_at dev sb j) = {}" using owfs_map_okD(5,6) [OF d(1) d(6) [OF j]] by blast
  note c = owfs_content_frame [OF d(1) d(6) [OF j] fr this]
  have "crypto_xform sb' = crypto_xform sb" by (intro ext) (simp only: crypto_xform_def is_encrypted_def key)
  then have "owfs_content dev' sb' = owfs_content dev' sb" by (simp add: fun_eq_iff owfs_content_def owfs_plain_def [abs_def])
  with c show ?thesis by simp
qed

text \<open>The same live inodes with the same contents, which is what writing the superblock leaves.\<close>

definition owfs_kept :: "'c htl_device \<Rightarrow> owfs_superblock \<Rightarrow> 'c htl_device \<Rightarrow> owfs_superblock \<Rightarrow> bool" where
  "owfs_kept dev sb dev' sb' \<longleftrightarrow> owfs_live dev' sb' = owfs_live dev sb \<and>
     (\<forall>j \<in> owfs_live dev sb. owfs_inode_at dev' sb' j = owfs_inode_at dev sb j \<and>
        owfs_content dev' sb' (owfs_inode_at dev sb j) = owfs_content dev sb (owfs_inode_at dev sb j))"

lemma owfs_keptD:
  assumes "owfs_kept dev sb dev' sb'"
  shows "owfs_live dev' sb' = owfs_live dev sb"
    and "j \<in> owfs_live dev sb \<Longrightarrow> owfs_inode_at dev' sb' j = owfs_inode_at dev sb j"
    and "j \<in> owfs_live dev sb \<Longrightarrow> owfs_content dev' sb' (owfs_inode_at dev sb j) = owfs_content dev sb (owfs_inode_at dev sb j)"
  using assms by (simp_all add: owfs_kept_def)

lemma owfs_kept_only_sb:
  fixes dev dev' :: "'c htl_device"
  assumes ok: "owfs_volume_ok dev sb" and rel: "htl_reliable dev'" and os: "owfs_only_sb dev dev'" and lay: "owfs_layout sb' = owfs_layout sb"
    and key: "sb_security_flags sb' = sb_security_flags sb" "sb_key_slot_1 sb' = sb_key_slot_1 sb" "sb_crypto_nonce sb' = sb_crypto_nonce sb"
  shows "owfs_kept dev sb dev' sb'"
proof -
  have tb: "total_blocks dev' = total_blocks dev" and same: "\<And>x. x < total_blocks dev \<Longrightarrow> x \<noteq> 16 \<Longrightarrow> blk dev' x = blk dev x"
    using os by (simp_all add: owfs_only_sb_def)
  note v = owfs_volume_ok_same_blocks [OF ok rel tb same]
  have "owfs_live dev' sb' = owfs_live dev sb" using v(3) by (simp add: owfs_layout_cong(8) [OF lay])
  moreover have "owfs_inode_at dev' sb' j = owfs_inode_at dev sb j" if "j \<in> owfs_live dev sb" for j
    using v(2) that by (simp add: owfs_layout_cong(7) [OF lay] owfs_live_def)
  moreover have "owfs_content dev' sb' (owfs_inode_at dev sb j) = owfs_content dev sb (owfs_inode_at dev sb j)" if "j \<in> owfs_live dev sb" for j
    by (rule owfs_content_same_blocks [OF ok that tb same key])
  ultimately show ?thesis by (simp add: owfs_kept_def)
qed

text \<open>Synchronising a consistent volume, losing the superblock in memory and mounting the device again.\<close>

lemma owfs_sync_recover:
  fixes dev :: "'c htl_device"
  assumes ok: "owfs_volume_ok dev sb" and wf: "owfs_superblock_wf sb" and id: "sb_magic sb = OWFS_MAGIC" "sb_block_size sb = 0x1000"
    and ne: "\<not> bit (sb_state_flags sb) 1"
  obtains dev1 sb1 dev2 sb2 where "owfs_sync_changes dev sb = (OWFS_OK, dev1, sb1)" "owfs_mount dev1 sb0 = (OWFS_OK, dev2, sb2)"
    "owfs_volume_ok dev2 sb2" "owfs_is_dirty sb2" "owfs_kept dev sb dev2 sb2" "sb_security_flags sb2 = sb_security_flags sb"
proof -
  obtain dev1 where s: "owfs_sync_changes dev sb = (OWFS_OK, dev1, owfs_disk_sb dev1)" "owfs_sound dev1" "owfs_faults dev1 = 0"
    "clean_flags (sb_state_flags (owfs_disk_sb dev1))" "owfs_only_sb dev dev1"
    "owfs_volume_ok dev1 (owfs_disk_sb dev1)" "owfs_layout (owfs_disk_sb dev1) = owfs_layout sb"
    "sb_security_flags (owfs_disk_sb dev1) = sb_security_flags sb" "sb_key_slot_1 (owfs_disk_sb dev1) = sb_key_slot_1 sb"
    "sb_crypto_nonce (owfs_disk_sb dev1) = sb_crypto_nonce sb"
    by (rule owfs_sync_faultless [OF ok wf id ne])
  have v1: "owfs_superblock_wf (owfs_disk_sb dev1)" "owfs_superblock_validate (owfs_disk_sb dev1)" using s(2) by (simp_all add: owfs_sound_def)
  obtain dev2 sb2 where m: "owfs_mount dev1 sb0 = (OWFS_OK, dev2, sb2)" "owfs_volume_ok dev2 sb2" "owfs_is_dirty sb2"
    "owfs_layout sb2 = owfs_layout (owfs_disk_sb dev1)" "sb_security_flags sb2 = sb_security_flags (owfs_disk_sb dev1)"
    "sb_key_slot_1 sb2 = sb_key_slot_1 (owfs_disk_sb dev1)" "sb_crypto_nonce sb2 = sb_crypto_nonce (owfs_disk_sb dev1)" "owfs_only_sb dev1 dev2"
    by (rule owfs_mount_ok [OF s(6) v1 refl s(4), of sb0])
  have "owfs_only_sb dev dev2" using s(5) m(8) by (simp add: owfs_only_sb_def)
  then have "owfs_kept dev sb dev2 sb2"
    by (rule owfs_kept_only_sb [OF ok owfs_volume_okD(3) [OF m(2)]]) (use m(4-7) s(7-10) in simp_all)
  then show thesis using that [OF s(1) m(1-3)] m(5) s(8) by simp
qed

text \<open>C2: after a successful synchronisation of a volume that is not marked erroneous, a crash loses nothing: mounting
  the device succeeds, the mounted volume is consistent and has the same inodes with the same contents.\<close>

theorem owfs_sync_survives_crash:
  fixes dev :: "'c htl_device"
  assumes ok: "owfs_volume_ok dev sb" and wf: "owfs_superblock_wf sb" and id: "sb_magic sb = OWFS_MAGIC" "sb_block_size sb = 0x1000"
    and ne: "\<not> bit (sb_state_flags sb) 1"
  shows "\<exists>dev1 sb1 dev2 sb2. owfs_sync_changes dev sb = (OWFS_OK, dev1, sb1) \<and> owfs_mount dev1 sb0 = (OWFS_OK, dev2, sb2) \<and>
    owfs_volume_ok dev2 sb2 \<and> owfs_live dev2 sb2 = owfs_live dev sb \<and> owfs_is_dirty sb2 \<and>
    (\<forall>j \<in> owfs_live dev sb. owfs_inode_at dev2 sb2 j = owfs_inode_at dev sb j \<and>
       owfs_content dev2 sb2 (owfs_inode_at dev sb j) = owfs_content dev sb (owfs_inode_at dev sb j))"
  by (rule owfs_sync_recover [OF assms, of sb0]) (use owfs_keptD in blast)

theorem owfs_sync_survives_crash_witness:
  "\<exists>dev1 sb1 dev2 sb2. owfs_sync_changes demo_device demo_sb = (OWFS_OK, dev1, sb1) \<and>
    owfs_mount dev1 demo_sb = (OWFS_OK, dev2, sb2) \<and> owfs_live dev2 sb2 = {0}"
proof -
  have "sb_magic demo_sb = OWFS_MAGIC" "sb_block_size demo_sb = 0x1000" using demo_facts(9) by (simp_all add: owfs_superblock_validate_def split: if_splits)
  moreover have "\<not> bit (sb_state_flags demo_sb) 1" using demo_facts(6) by (simp add: owfs_volume_writable_iff)
  ultimately show ?thesis using owfs_sync_survives_crash [OF demo_facts(1,8), of demo_sb] demo_facts(3) by auto
qed

text \<open>The example volume marked with an error.\<close>

definition demo_error_sb :: owfs_superblock where
  "demo_error_sb = demo_sb\<lparr>sb_state_flags := sb_state_flags demo_sb OR OWFS_STATE_ERROR\<rparr>"

lemma demo_erroneous: "owfs_erroneous (owfs_put_sb demo_device demo_error_sb, None)"
proof -
  have wf: "owfs_superblock_wf demo_error_sb" using demo_facts(8) by (simp add: demo_error_sb_def)
  from owfs_put_sb_props [OF demo_facts(10) wf] show ?thesis by (simp add: owfs_erroneous_def demo_error_sb_def)
qed

lemma demo_mount: "\<exists>dev1 sb1. owfs_mount demo_device demo_sb = (OWFS_OK, dev1, sb1)"
proof -
  have "\<not> bit (sb_state_flags demo_sb) 0 \<and> \<not> bit (sb_state_flags demo_sb) 1 \<and> \<not> bit (sb_state_flags demo_sb) 2"
    using demo_facts(6,11) unfolding owfs_volume_writable_iff owfs_is_dirty_def state_mask_bits by blast
  then show ?thesis using owfs_mount_disk [OF demo_facts(10), of demo_sb] demo_facts(9) by (simp add: demo_sb_def Let_def)
qed

text \<open>C30: the consistency check of a volume whose superblock is valid returns the exact number of problems (live
  or deleted inodes with a wrong checksum, a bitmap checksum that disagrees, a free counter that disagrees with the
  bitmap), and clears the dirty, locked and error marks on the device exactly when there is none.\<close>

theorem owfs_consistency_check_correct:
  fixes dev :: "'c htl_device"
  assumes dev: "htl_reliable dev" and geo: "owfs_geometry dev sb" and wf: "owfs_superblock_wf sb" and val: "owfs_superblock_validate sb"
    and small: "owfs_check_count dev sb < 2 ^ 32"
  shows "\<exists>dev' sb'. owfs_consistency_check dev sb =
      (if owfs_check_count dev sb = 0 then OWFS_OK else OWFS_ERR_CHECKSUM_MISMATCH, of_nat (owfs_check_count dev sb), dev', sb') \<and>
    owfs_disk_sb dev' = sb' \<and>
    (if owfs_check_count dev sb = 0
     then \<not> bit (sb_state_flags sb') 0 \<and> \<not> bit (sb_state_flags sb') 1 \<and> \<not> bit (sb_state_flags sb') 2
     else bit (sb_state_flags sb') 1 \<and> bit (sb_state_flags sb') 2) \<and>
    (\<forall>x. x < total_blocks dev \<longrightarrow> x \<noteq> 16 \<longrightarrow> blk dev' x = blk dev x)"
proof -
  define s where "s = sb\<lparr>sb_state_flags := sb_state_flags sb OR OWFS_STATE_LOCKED\<rparr>"
  define t where "t = owfs_sealed s\<lparr>sb_state_flags := if owfs_check_count dev sb = 0
       then sb_state_flags (owfs_sealed s) AND NOT (OWFS_STATE_DIRTY OR OWFS_STATE_LOCKED OR OWFS_STATE_ERROR)
       else sb_state_flags (owfs_sealed s) OR OWFS_STATE_ERROR\<rparr>"
  note run = owfs_consistency_check_run [OF assms, folded s_def, folded t_def]
  have wfs: "owfs_superblock_wf s" using wf by (simp add: s_def)
  note w = owfs_put_sb_props [OF owfs_geometry_disk [OF dev geo] wfs]
  note p = owfs_put_sb_props [OF w(2) run(3)] and fl = owfs_flushed_props [OF owfs_put_sb_props(2) [OF w(2) run(3)]]
  let ?d = "htl_flushed (owfs_put_sb (owfs_put_sb dev s) t)"
  have "blk ?d x = blk dev x" if "x < total_blocks dev" "x \<noteq> 16" for x using that w(4,5) p(4,5) fl(4) by simp
  moreover have "owfs_disk_sb ?d = owfs_sealed t" using fl(3) p(3) by simp
  ultimately show ?thesis using run(1,2) unfolding clean_flags_def by blast
qed

theorem owfs_consistency_check_correct_witness:
  "\<exists>dev' sb'. owfs_consistency_check demo_device demo_sb =
      (if owfs_check_count demo_device demo_sb = 0 then OWFS_OK else OWFS_ERR_CHECKSUM_MISMATCH,
       of_nat (owfs_check_count demo_device demo_sb), dev', sb') \<and> owfs_disk_sb dev' = sb'"
proof -
  note d = owfs_volume_okD [OF demo_facts(1)]
  have "owfs_bad_inodes demo_device demo_sb \<subseteq> {..<4096}" using demo_facts(7) by (auto simp: owfs_bad_inodes_def)
  then have "card (owfs_bad_inodes demo_device demo_sb) \<le> 4096" using card_mono [of "{..<4096 :: nat}"] by force
  then have "owfs_check_count demo_device demo_sb < 2 ^ 32" by (simp add: owfs_check_count_def)
  from owfs_consistency_check_correct [OF d(3,4) demo_facts(8,9) this] show ?thesis by blast
qed

text \<open>The consistency check decides about a volume with a valid superblock. Without faults: mounting it, losing it in a
  crash, being refused by the next mount, checking it and mounting it again succeeds, and only the superblock has
  changed. With faults: the check reports their number, and no sequence of mounts opens the volume afterwards.\<close>

lemma owfs_volume_decided:
  fixes dev :: "'c htl_device"
  assumes snd: "owfs_sound dev" and small: "owfs_faults dev < 2 ^ 32"
  shows "(owfs_faults dev = 0 \<and> clean_flags (sb_state_flags (owfs_disk_sb dev)) \<longrightarrow>
      (\<exists>dev1 sb1 dev2 sb2 dev3 sb3 dev4 sb4. owfs_mount dev sb0 = (OWFS_OK, dev1, sb1) \<and>
        owfs_mount dev1 sb0 = (OWFS_ERR_VOLUME_DIRTY, dev2, sb2) \<and> owfs_consistency_check dev2 sb2 = (OWFS_OK, 0, dev3, sb3) \<and>
        owfs_mount dev3 sb0 = (OWFS_OK, dev4, sb4) \<and> owfs_only_sb dev dev4)) \<and>
    (owfs_faults dev \<noteq> 0 \<longrightarrow>
      (\<exists>dev' sb'. owfs_consistency_check dev (owfs_disk_sb dev) = (OWFS_ERR_CHECKSUM_MISMATCH, of_nat (owfs_faults dev), dev', sb') \<and>
        (\<forall>ss s. fst (owfs_mount (fold (\<lambda>s d. fst (snd (owfs_mount d s))) ss dev') s) = OWFS_ERR_VOLUME_DIRTY)))"
proof (intro conjI impI)
  assume f: "owfs_faults dev = 0 \<and> clean_flags (sb_state_flags (owfs_disk_sb dev))"
  show "\<exists>dev1 sb1 dev2 sb2 dev3 sb3 dev4 sb4. owfs_mount dev sb0 = (OWFS_OK, dev1, sb1) \<and>
        owfs_mount dev1 sb0 = (OWFS_ERR_VOLUME_DIRTY, dev2, sb2) \<and> owfs_consistency_check dev2 sb2 = (OWFS_OK, 0, dev3, sb3) \<and>
        owfs_mount dev3 sb0 = (OWFS_OK, dev4, sb4) \<and> owfs_only_sb dev dev4"
    by (rule owfs_mp.crash_recovery [OF snd conjunct2 [OF f] conjunct1 [OF f], of sb0]) blast
next
  assume "owfs_faults dev \<noteq> 0"
  then have "0 < owfs_faults dev" by simp
  then show "\<exists>dev' sb'. owfs_consistency_check dev (owfs_disk_sb dev) = (OWFS_ERR_CHECKSUM_MISMATCH, of_nat (owfs_faults dev), dev', sb') \<and>
        (\<forall>ss s. fst (owfs_mount (fold (\<lambda>s d. fst (snd (owfs_mount d s))) ss dev') s) = OWFS_ERR_VOLUME_DIRTY)"
    by (rule owfs_mp.faults_shut [OF snd _ small]) blast
qed

section \<open>Superblocks\<close>



section \<open>Catalogs as maps from names to inodes\<close>

text \<open>C10: on a sound catalog that the caller may read, looking up a name returns what the catalog's map holds for it;
  a name that is absent and a name whose inode is hidden from the caller are both reported as not found, and the
  device is unchanged.\<close>

theorem owfs_catalog_lookup_correct:
  fixes dev :: "'c htl_device"
  assumes "owfs_volume_ok dev sb" and "owfs_is_catalog dev sb n" and "inode = owfs_inode_at dev sb (unat n)"
    and "owfs_catalog_ok dev inode" and "owfs_inode_access_check g inode OW_ACCESS_READ = OWFS_OK" and "0 < k" and "k < 128"
  shows "owfs_catalog_lookup g dev sb n (Some nm) k =
    (case owfs_dir dev inode (take k nm) of
       None \<Rightarrow> Inl OWFS_ERR_NOT_FOUND
     | Some i \<Rightarrow> if owfs_hidden g dev sb i then Inl OWFS_ERR_NOT_FOUND else Inr i, dev)"
  by (rule owfs_catalog_lookup_dir [OF assms])

lemma demo_root_dir: "owfs_is_catalog demo_device demo_sb 0" "owfs_catalog_ok demo_device demo_root" "owfs_dir demo_device demo_root = Map.empty"
    "demo_root = owfs_inode_at demo_device demo_sb (unat (0 :: u32))"
  using demo_facts(2,4,5) by (simp_all add: demo_root_def)

theorem owfs_catalog_lookup_correct_witness:
  "owfs_catalog_lookup superuser demo_device demo_sb 0 (Some [97]) 1 = (Inl OWFS_ERR_NOT_FOUND, demo_device)"
  using owfs_catalog_lookup_correct [OF demo_facts(1) demo_root_dir(1,4,2), of superuser 1 "[97]"] demo_root_dir(3)
  by (simp add: superuser_access)

text \<open>C8: refinement of a map update: inserting a valid name that the catalog does not hold makes the catalog's map
  the old one extended by the name, keeps the catalog sound, the volume consistent and every other file as it was;
  it fails only when all slots are in use and no block can be added, and then no file changes.\<close>

theorem owfs_catalog_insert_correct:
  fixes dev :: "'c htl_device"
  assumes ok: "owfs_volume_ok dev sb" and cat: "owfs_is_catalog dev sb n" and inode: "inode = owfs_inode_at dev sb (unat n)"
    and cok: "owfs_catalog_ok dev inode" and acc: "owfs_inode_access_check g inode OW_ACCESS_WRITE = OWFS_OK"
    and vw: "owfs_volume_writable sb = OWFS_OK" and t: "t = OWFS_ENTRY_FILE \<or> t = OWFS_ENTRY_CATALOG"
    and k: "0 < k" "k < 128" "k \<le> length nm" and v: "ow_sutf8_validate (Some nm) k" and none: "owfs_dir dev inode (take k nm) = None"
  shows "\<exists>dev' sb'.
    owfs_catalog_insert g dev sb n (Some nm) k target t = (OWFS_OK, dev', sb') \<and> owfs_volume_ok dev' sb' \<and>
      owfs_catalog_ok dev' (owfs_inode_at dev' sb' (unat n)) \<and>
      owfs_dir dev' (owfs_inode_at dev' sb' (unat n)) = (owfs_dir dev inode)(take k nm \<mapsto> target) \<and> owfs_others_kept dev sb (unat n) dev' \<or>
    owfs_catalog_insert g dev sb n (Some nm) k target t = (OWFS_ERR_CATALOG_FULL, dev', sb') \<and> sb' = sb \<and> owfs_volume_ok dev' sb \<and>
      (\<forall>p \<in> set (owfs_slots inode). entry_live (owfs_entry_at dev inode p)) \<and>
      (ino_block_count inode = 1034 \<or> unat (sb_free_blocks sb) \<le> 1) \<and>
      (\<forall>j \<in> owfs_live dev sb. owfs_inode_at dev' sb j = owfs_inode_at dev sb j \<and>
         owfs_content dev' sb (owfs_inode_at dev sb j) = owfs_content dev sb (owfs_inode_at dev sb j))"
proof (cases rule: owfs_catalog_insert_cases [OF assms, where target = target, case_names inserted full])
  case (inserted dev' sb')
  then have i: "owfs_volume_ok dev' sb'" "owfs_catalog_ok dev' (owfs_inode_at dev' sb (unat n))" "owfs_others_kept dev sb (unat n) dev'"
    "owfs_dir dev' (owfs_inode_at dev' sb (unat n)) = (owfs_dir dev inode)(take k nm \<mapsto> target)"
    and s: "sb' = sb\<lparr>sb_free_blocks := sb_free_blocks sb'\<rparr>"
    unfolding owfs_inserted_def Let_def inode by blast+
  have "owfs_inode_at dev' sb' = owfs_inode_at dev' sb" by (subst s) simp
  with inserted(1) i show ?thesis by (intro exI [of _ dev'] exI [of _ sb'] disjI1) simp
next
  case (full dev')
  have live: "unat n \<in> owfs_live dev sb" using cat by (simp add: owfs_is_catalog_def)
  note u = owfs_volume_ok_unchanged [OF ok live full(2)]
  have each: "owfs_inode_at dev' sb j = owfs_inode_at dev sb j \<and>
      owfs_content dev' sb (owfs_inode_at dev sb j) = owfs_content dev sb (owfs_inode_at dev sb j)" if "j \<in> owfs_live dev sb" for j
    using u(3) [of j] u(4) [OF that] that by (simp add: owfs_live_def)
  from full(1,3,4) u(1) each show ?thesis by blast
qed

lemma demo_name: "ow_sutf8_validate (Some [97]) 1"
proof -
  have "sutf8_encode 97 = [97]" "sutf8_transportable 97" by (simp_all add: sutf8_encode_def sutf8_transportable_def)
  then show ?thesis using sutf8_validate_text [of "[97]"] by (simp add: ow_sutf8_validate_def)
qed

theorem owfs_catalog_insert_correct_witness:
  "\<exists>dev' sb'. owfs_catalog_insert superuser demo_device demo_sb 0 (Some [97]) 1 7 OWFS_ENTRY_FILE = (OWFS_OK, dev', sb') \<and>
    owfs_dir dev' (owfs_inode_at dev' sb' 0) [97] = Some 7"
proof -
  have free: "\<not> (\<forall>p \<in> set (owfs_slots demo_root). entry_live (owfs_entry_at demo_device demo_root p))"
    using demo_facts(12,13) unfolding demo_root_def by blast
  have acc: "owfs_inode_access_check superuser demo_root OW_ACCESS_WRITE = OWFS_OK" by (simp add: superuser_access)
  have none: "owfs_dir demo_device demo_root (take 1 [97]) = None" using demo_root_dir(3) by simp
  from owfs_catalog_insert_correct [OF demo_facts(1) demo_root_dir(1,4,2) acc demo_facts(6) disjI1 [OF refl] _ _ _ demo_name none, of 7] free
  show ?thesis by auto
qed

text \<open>C9: refinement of a map deletion: removing a name that the catalog holds and the caller can see deletes it from
  the catalog's map and changes nothing else; a name that is absent or hidden is reported as not found.\<close>

theorem owfs_catalog_remove_correct:
  fixes dev :: "'c htl_device"
  assumes "owfs_volume_ok dev sb" and "owfs_is_catalog dev sb n" and "inode = owfs_inode_at dev sb (unat n)"
    and "owfs_catalog_ok dev inode" and "owfs_inode_access_check g inode OW_ACCESS_WRITE = OWFS_OK"
    and "owfs_volume_writable sb = OWFS_OK" and "0 < k" and "k < 128"
  shows "case owfs_dir dev inode (take k nm) of
      None \<Rightarrow> owfs_catalog_remove g dev sb n (Some nm) k = (OWFS_ERR_NOT_FOUND, dev)
    | Some i \<Rightarrow>
        if owfs_hidden g dev sb i then owfs_catalog_remove g dev sb n (Some nm) k = (OWFS_ERR_NOT_FOUND, dev)
        else \<exists>dev'. owfs_catalog_remove g dev sb n (Some nm) k = (OWFS_OK, dev') \<and> owfs_volume_ok dev' sb \<and>
          owfs_others_kept dev sb (unat n) dev' \<and> owfs_inode_at dev' sb (unat n) = inode \<and>
          owfs_catalog_ok dev' inode \<and> owfs_dir dev' inode = (owfs_dir dev inode)(take k nm := None)"
  by (rule owfs_catalog_remove_dir [OF assms])

theorem owfs_catalog_remove_correct_witness:
  "owfs_catalog_remove superuser demo_device demo_sb 0 (Some [97]) 1 = (OWFS_ERR_NOT_FOUND, demo_device)"
  using owfs_catalog_remove_correct [OF demo_facts(1) demo_root_dir(1,4,2) _ demo_facts(6), of superuser 1 "[97]"] demo_root_dir(3)
  by (simp add: superuser_access)



section \<open>Volumes that may not be written\<close>

lemma owfs_refused:
  assumes "owfs_volume_writable sb \<noteq> OWFS_OK"
  shows "\<exists>st. st \<noteq> OWFS_OK \<and> owfs_inode_alloc g dev sb t nm k p = (Inl st, dev, sb)"
    and "\<exists>st. st \<noteq> OWFS_OK \<and> owfs_inode_free g dev sb i = (st, dev, sb)"
    and "\<exists>st. st \<noteq> OWFS_OK \<and> owfs_inode_write dev sb i e = (st, dev, e)"
    and "\<exists>st. st \<noteq> OWFS_OK \<and> owfs_blockmap_ensure dev sb e idx = (Inl st, dev, sb, e)"
    and "\<exists>st. st \<noteq> OWFS_OK \<and> owfs_blockmap_release dev sb e idx = (st, dev, sb, e)"
    and "\<exists>st. st \<noteq> OWFS_OK \<and> owfs_file_truncate g dev sb e i s = (st, dev, sb, e)"
    and "len \<noteq> 0 \<Longrightarrow> \<exists>st w. st \<noteq> OWFS_OK \<and> owfs_file_write g dev sb e i b f len = (st, w, dev, sb, e)"
    and "\<exists>st. st \<noteq> OWFS_OK \<and> owfs_catalog_insert g dev sb i nm k j t = (st, dev, sb)"
    and "\<exists>st. st \<noteq> OWFS_OK \<and> owfs_catalog_remove g dev sb i nm k = (st, dev)"
    and "\<exists>st. st \<noteq> OWFS_OK \<and> owfs_crypto_set_key dev sb key kl = (st, dev, sb)"
  using assms by (auto simp: owfs_inode_alloc_def owfs_inode_free_def owfs_inode_write_def owfs_blockmap_ensure_def
      owfs_blockmap_release_def owfs_file_truncate_def owfs_file_write_def owfs_catalog_insert_def owfs_catalog_remove_def
      owfs_crypto_set_key_def Let_def split: option.split)

lemma owfs_create_refused:
  assumes "owfs_volume_writable sb \<noteq> OWFS_OK"
  shows "\<exists>st. st \<noteq> OWFS_OK \<and> owfs_catalog_create g dev sb p nm k = (Inl st, dev, sb)"
    and "\<exists>st. st \<noteq> OWFS_OK \<and> owfs_catalog_mkdir g dev sb p nm k = (Inl st, dev, sb)"
  using owfs_refused(1) [OF assms] by (metis (no_types, lifting) owfs_catalog_create_def owfs_catalog_mkdir_def prod.case sum.case(1))+

end
