(* ===== verification/OWFS_Store.thy ===== *)
theory OWFS_Store
  imports OWFS_Volume
begin

text \<open>
  The steps of storing a file on a fresh OWFS volume: mounting it, creating a file in its root and writing
  to it, each with the state it leaves. The root catalog keeps its map through the write and through a
  synchronisation because the entries of an unencrypted catalog are a function of its content.
\<close>

unbundle bit_operations_syntax

text \<open>A mounted volume that may be written and is not encrypted.\<close>

definition owfs_open :: "'c htl_device \<Rightarrow> owfs_superblock \<Rightarrow> bool" where
  "owfs_open dev sb \<longleftrightarrow> owfs_volume_ok dev sb \<and> owfs_superblock_wf sb \<and> sb_magic sb = OWFS_MAGIC \<and> sb_block_size sb = 0x1000 \<and>
     owfs_volume_writable sb = OWFS_OK \<and> sb_security_flags sb = 0"

lemma owfs_openD:
  assumes "owfs_open dev sb"
  shows "owfs_volume_ok dev sb" and "owfs_superblock_wf sb" and "sb_magic sb = OWFS_MAGIC" and "sb_block_size sb = 0x1000"
    and "owfs_volume_writable sb = OWFS_OK" and "sb_security_flags sb = 0" and "\<not> bit (sb_state_flags sb) 1"
  using assms by (simp_all add: owfs_open_def owfs_volume_writable_iff)

lemma owfs_open_counters:
  assumes o: "owfs_open dev sb" and ok: "owfs_volume_ok dev' sb'" and sb: "sb' = sb\<lparr>sb_free_blocks := b, sb_free_inodes := i\<rparr>"
  shows "owfs_open dev' sb'"
  using o ok unfolding owfs_open_def sb by (simp add: owfs_superblock_wf_def owfs_volume_writable_iff)

lemma owfs_live_read:
  assumes ok: "owfs_volume_ok dev sb" and live: "unat num \<in> owfs_live dev sb"
  shows "owfs_inode_read dev sb num inode0 = (OWFS_OK, dev, owfs_inode_at dev sb (unat num))"
proof -
  have "num < sb_total_inodes sb" using live by (simp add: owfs_live_def word_less_nat_alt)
  with owfs_inode_read_reliable [OF owfs_volume_okD(3,4) [OF ok]] owfs_volume_okD(5) [OF ok live] show ?thesis by (simp add: Let_def)
qed

text \<open>While nothing is encrypted, a catalog keeps its map as long as its inode and its content are kept.\<close>

lemma owfs_catalog_kept:
  assumes o: "owfs_volume_ok dev sb" "owfs_volume_ok dev' sb'" and sec: "sb_security_flags sb = 0" "sb_security_flags sb' = 0"
    and j: "j \<in> owfs_live dev sb" "j \<in> owfs_live dev' sb'" and at: "owfs_inode_at dev' sb' j = owfs_inode_at dev sb j"
    and same: "owfs_content dev' sb' (owfs_inode_at dev sb j) = owfs_content dev sb (owfs_inode_at dev sb j)"
  shows "owfs_dir dev' (owfs_inode_at dev' sb' j) = owfs_dir dev (owfs_inode_at dev sb j)"
    and "owfs_catalog_ok dev' (owfs_inode_at dev' sb' j) = owfs_catalog_ok dev (owfs_inode_at dev sb j)"
proof -
  have e: "\<not> is_encrypted sb (owfs_inode_at dev sb j)" "\<not> is_encrypted sb' (owfs_inode_at dev sb j)" using sec by (simp_all add: is_encrypted_def)
  note c = owfs_dir_content [OF o [THEN owfs_volume_okD(1)] owfs_volume_okD(6) [OF o(1) j(1)] owfs_volume_okD(6) [OF o(2) j(2), unfolded at] e same]
  show "owfs_dir dev' (owfs_inode_at dev' sb' j) = owfs_dir dev (owfs_inode_at dev sb j)"
    "owfs_catalog_ok dev' (owfs_inode_at dev' sb' j) = owfs_catalog_ok dev (owfs_inode_at dev sb j)"
    using c by (simp_all only: at)
qed

text \<open>Mounting a fresh volume.\<close>

lemma owfs_fresh_open:
  fixes dev :: "'c htl_device"
  assumes f: "owfs_fresh_volume dev"
  obtains dev2 sb2 where "owfs_mount dev s0 = (OWFS_OK, dev2, sb2)" "owfs_open dev2 sb2" "owfs_live dev2 sb2 = {0}"
    "owfs_is_catalog dev2 sb2 0" "owfs_catalog_ok dev2 (owfs_inode_at dev2 sb2 0)" "owfs_dir dev2 (owfs_inode_at dev2 sb2 0) = Map.empty"
    "sb_free_blocks sb2 = sb_free_blocks (owfs_disk_sb dev)" "unat (sb_total_inodes sb2) = 4096"
    "ino_block_count (owfs_inode_at dev2 sb2 0) = 1"
proof -
  let ?sb = "owfs_disk_sb dev"
  note ff = owfs_fresh_facts [OF f]
  obtain b where sec: "sb_security_flags ?sb = 0" and rt: "owfs_inode_at dev ?sb 0 = owfs_inode_sealed (owfs_root_with b)"
    using f unfolding owfs_fresh_volume_def Let_def by blast
  have cnt: "ino_block_count (owfs_inode_at dev ?sb 0) = 1" unfolding rt by (simp add: owfs_root_with_def owfs_root_inode_simps)
  have id: "sb_magic ?sb = OWFS_MAGIC" "sb_block_size ?sb = 0x1000" using ff(9) by (simp_all add: owfs_superblock_validate_def split: if_splits)
  have cl: "clean_flags (sb_state_flags ?sb)" using ff(6,11) unfolding owfs_is_dirty_def state_mask_bits(2)
    by (simp add: clean_flags_def owfs_volume_writable_iff)
  obtain dev2 sb2 where m: "owfs_mount dev s0 = (OWFS_OK, dev2, sb2)" "owfs_volume_ok dev2 sb2" "owfs_is_dirty sb2"
    "owfs_layout sb2 = owfs_layout ?sb" "sb_security_flags sb2 = sb_security_flags ?sb"
    "sb_key_slot_1 sb2 = sb_key_slot_1 ?sb" "sb_crypto_nonce sb2 = sb_crypto_nonce ?sb" "owfs_only_sb dev dev2"
    "owfs_superblock_wf sb2" "sb_magic sb2 = sb_magic ?sb" "sb_block_size sb2 = sb_block_size ?sb" "owfs_volume_writable sb2 = owfs_volume_writable ?sb"
    by (rule owfs_mount_ok [OF ff(1,8,9) refl cl, of s0])
  note k = owfs_keptD [OF owfs_kept_only_sb [OF ff(1) owfs_volume_okD(3) [OF m(2)] m(8,4,5,6,7)]]
  have op: "owfs_open dev2 sb2" using m ff(6) id sec by (simp add: owfs_open_def)
  have at: "owfs_inode_at dev2 sb2 0 = owfs_inode_at dev ?sb 0" using k(2) [of 0] ff(3) by simp
  have l: "0 \<in> owfs_live dev ?sb" "0 \<in> owfs_live dev2 sb2" using k(1) ff(3) by simp_all
  note c = owfs_catalog_kept [OF ff(1) m(2) sec _ l at k(3) [OF l(1)]]
  show thesis
    by (rule that [OF m(1) op]) (use k(1) ff(2-5,7) at cnt c m(4,5) sec in \<open>simp_all add: owfs_is_catalog_def owfs_layout_def\<close>)
qed

text \<open>Creating a file in the root of a volume with nothing else on it.\<close>

lemma owfs_create_first:
  fixes dev :: "'c htl_device"
  assumes o: "owfs_open dev sb" and live: "owfs_live dev sb = {0}" and cat: "owfs_is_catalog dev sb 0"
    and cok: "owfs_catalog_ok dev (owfs_inode_at dev sb 0)" and emp: "owfs_dir dev (owfs_inode_at dev sb 0) = Map.empty"
    and room: "1 < unat (sb_free_blocks sb)" "unat (sb_total_inodes sb) = 4096" "ino_block_count (owfs_inode_at dev sb 0) = 1"
    and k: "0 < k" "k < 128" "k \<le> length nm" "ow_sutf8_validate (Some nm) k" and g: "uid g = 0"
  obtains dev' sb' where "owfs_catalog_create g dev sb 0 (Some nm) k = (Inr 1, dev', sb')" "owfs_created g dev sb 0 OWFS_ENTRY_FILE nm k 1 dev' sb'"
    "owfs_open dev' sb'" "owfs_live dev' sb' = {0, 1}"
proof -
  have none: "owfs_dir dev (owfs_inode_at dev sb (unat (0 :: u32))) (take k nm) = None" "unat (uid g) < 2 ^ 16"
    and c0: "owfs_catalog_ok dev (owfs_inode_at dev sb (unat (0 :: u32)))" using emp cok g by simp_all
  show thesis
  proof (cases rule: owfs_create_as_cases [OF owfs_openD(1) [OF o] cat refl c0 superuser_access [OF g] owfs_openD(5) [OF o] disjI1 [OF refl] k none,
      case_names created no_inode full])
    case (created i dev' sb')
    have i: "unat i \<notin> {0}" "{..<unat i} \<subseteq> {0}" "owfs_live dev' sb' = insert (unat i) {0}" "owfs_volume_ok dev' sb'"
      "sb' = sb\<lparr>sb_free_blocks := sb_free_blocks sb', sb_free_inodes := sb_free_inodes sb'\<rparr>"
      using created(2) unfolding owfs_created_def live by - (elim conjE, assumption)+
    have "\<not> 1 < unat i" using i(2) by auto
    then have "unat i = 1" using i(1) by simp
    then have "i = 1" by (simp add: word_unat_eq_iff)
    moreover have "owfs_open dev' sb'" by (rule owfs_open_counters [OF o i(4,5)])
    ultimately show thesis using created i(3) that by (simp add: owfs_create_as_code insert_commute)
  next
    case no_inode
    then have "1 \<in> {0 :: nat}" using live room(2) by simp
    then show thesis by simp
  next
    case full
    with room show thesis by simp
  qed
qed

text \<open>Writing to the empty file just created.\<close>

lemma owfs_write_first:
  fixes dev :: "'c htl_device"
  assumes o: "owfs_open dev sb" and c: "owfs_created g dev sb 0 OWFS_ENTRY_FILE nm k 1 dev3 sb3" and o3: "owfs_open dev3 sb3"
    and live: "owfs_live dev3 sb3 = {0, 1}" and g: "uid g = 0"
    and len: "len \<noteq> 0" "unat len \<le> length data" "unat len \<le> 1034 * 4096"
    and room: "owfs_footprint ((unat len + 4095) div 4096) + 2 < unat (sb_free_blocks sb)"
  obtains dev4 sb4 e4 where "owfs_file_write g dev3 sb3 (owfs_inode_at dev3 sb3 1) 1 data 0 len = (OWFS_OK, len, dev4, sb4, e4)"
    "owfs_open dev4 sb4" "owfs_live dev4 sb4 = {0, 1}" "owfs_inode_at dev4 sb4 1 = e4" "ino_size_bytes e4 = len"
    "ino_entry_type e4 = OWFS_ENTRY_FILE" "unat len \<le> 4096 * unat (ino_block_count e4)"
    "window 0 (unat len) (owfs_content dev4 sb4 e4) = take (unat len) data"
    "owfs_is_catalog dev4 sb4 0" "owfs_catalog_ok dev4 (owfs_inode_at dev4 sb4 0)"
    "owfs_dir dev4 (owfs_inode_at dev4 sb4 0) = owfs_dir dev3 (owfs_inode_at dev3 sb3 0)"
proof -
  let ?f = "owfs_inode_at dev3 sb3 1"
  have cr: "?f = owfs_inode_fresh g sb OWFS_ENTRY_FILE (Some nm) k 0 1" "unat (sb_free_blocks sb) \<le> unat (sb_free_blocks sb3) + 2"
    "owfs_is_catalog dev3 sb3 0" "owfs_catalog_ok dev3 (owfs_inode_at dev3 sb3 0)"
    using c unfolding owfs_created_def by simp_all
  have fp: "ino_entry_type ?f = OWFS_ENTRY_FILE" "ino_size_bytes ?f = 0" "ino_block_count ?f = 0" unfolding cr(1) by (simp_all add: owfs_inode_fresh_simps)
  have may: "owfs_may_write g sb3 ?f"
    using owfs_inode_fresh_access [of g sb OWFS_ENTRY_FILE "Some nm" k 0 1] g owfs_openD(5) [OF o3] fp(1)
    by (simp add: owfs_may_write_def cr(1) [symmetric])
  note ok3 = owfs_openD(1) [OF o3]
  have lv: "unat (1 :: u32) \<in> owfs_live dev3 sb3" and at: "?f = owfs_inode_at dev3 sb3 (unat (1 :: u32))" using live by simp_all
  obtain dev4 sb4 e4 new where w: "owfs_file_write g dev3 sb3 ?f 1 data 0 len = (OWFS_OK, len, dev4, sb4, e4)"
    "owfs_written dev3 sb3 ?f (unat (1 :: u32)) data 0 len new dev4 sb4 e4"
    using owfs_file_write_room [OF ok3 lv at may len(1,2), of 0] len(3) room cr(2) fp(3) by (auto simp: owfs_footprint_def)
  from w(2) have wr: "owfs_volume_ok dev4 sb4" "owfs_inode_at dev4 sb4 1 = e4" "owfs_live dev4 sb3 = owfs_live dev3 sb3"
    "\<And>j. j \<in> owfs_live dev3 sb3 - {1} \<Longrightarrow> owfs_inode_at dev4 sb3 j = owfs_inode_at dev3 sb3 j \<and>
        owfs_content dev4 sb3 (owfs_inode_at dev3 sb3 j) = owfs_content dev3 sb3 (owfs_inode_at dev3 sb3 j)"
    "sb4 = sb3\<lparr>sb_free_blocks := sb_free_blocks sb4\<rparr>" "owfs_same_attrs ?f e4" "unat (ino_size_bytes e4) = unat len"
    "owfs_content dev4 sb4 e4 = overwrite 0 (window 0 (unat len) data) (owfs_content dev3 sb3 ?f @ owfs_fresh sb3 ?f new)"
    "unat len \<le> 4096 * unat (ino_block_count e4)" "unat (ino_block_count e4) = length new"
    using fp(2,3) unfolding owfs_written_def owfs_others_kept_def by simp_all
  have "sb4 = sb3\<lparr>sb_free_blocks := sb_free_blocks sb4, sb_free_inodes := sb_free_inodes sb3\<rparr>" using wr(5) by (cases sb3, cases sb4) simp
  then have o4: "owfs_open dev4 sb4" by (rule owfs_open_counters [OF o3 wr(1)])
  have cong: "owfs_inode_at dx sb4 = owfs_inode_at dx sb3" "owfs_live dx sb4 = owfs_live dx sb3" "owfs_content dx sb4 x = owfs_content dx sb3 x"
    for dx :: "'c htl_device" and x by (subst wr(5); simp)+
  have l4: "owfs_live dev4 sb4 = {0, 1}" using wr(3) live by (simp add: cong)
  have r0: "owfs_inode_at dev4 sb4 0 = owfs_inode_at dev3 sb3 0"
    "owfs_content dev4 sb4 (owfs_inode_at dev3 sb3 0) = owfs_content dev3 sb3 (owfs_inode_at dev3 sb3 0)"
    using wr(4) [of 0] live by (simp_all add: cong)
  note ck = owfs_catalog_kept [OF ok3 wr(1) owfs_openD(6) [OF o3] owfs_openD(6) [OF o4] _ _ r0] 
  have "length (owfs_fresh sb3 ?f new) = 4096 * length new" by (simp add: owfs_fresh_def length_concat comp_def sum_list_triv)
  then have win: "window 0 (unat len) (owfs_content dev4 sb4 e4) = take (unat len) data"
    unfolding wr(8) using wr(9,10) len(2) window_overwrite_same [of 0 "window 0 (unat len) data"] by (simp add: window_def)
  show thesis
    by (rule that [OF w(1) o4 l4 wr(2)])
      (use wr(6,7,9) fp(1) win cr(3,4) ck l4 live r0(1) in \<open>simp_all add: owfs_same_attrs_def owfs_is_catalog_def word_unat_eq_iff\<close>)
qed

end
