(* ===== verification/USFS_Superblock.thy ===== *)
theory USFS_Superblock
  imports OW_Record OW_Sec
begin

text \<open>
  \<^verbatim>\<open>usfs/include/usfs_types.h\<close>, \<^verbatim>\<open>usfs_superblock.h\<close>, \<^verbatim>\<open>usfs/src/usfs_superblock.c\<close>,
  \<^verbatim>\<open>usfs_blockio.c\<close> and the two state predicates of \<^verbatim>\<open>usfs_sync.c\<close>: status codes, the superblock with its
  packed image, its checksum and validation, reading and writing it at block 0, and the signature of
  the entry table. The record interface of \<open>OW_Record\<close> is interpreted on it.
\<close>

unbundle bit_operations_syntax

section \<open>Constants and status codes\<close>

abbreviation USFS_MAGIC :: u32 where "USFS_MAGIC \<equiv> 0x55534653"
abbreviation USFS_ENTRY_FILE :: u8 where "USFS_ENTRY_FILE \<equiv> 0x01"
abbreviation USFS_ENTRY_CATALOG :: u8 where "USFS_ENTRY_CATALOG \<equiv> 0x02"
abbreviation USFS_ENTRY_DELETED :: u8 where "USFS_ENTRY_DELETED \<equiv> 0x80"
abbreviation USFS_SEC_ENCRYPTED :: "'a::len word" where "USFS_SEC_ENCRYPTED \<equiv> 1"
abbreviation USFS_SEC_READONLY :: "'a::len word" where "USFS_SEC_READONLY \<equiv> 2"
abbreviation USFS_SEC_HIDDEN :: "'a::len word" where "USFS_SEC_HIDDEN \<equiv> 4"
abbreviation USFS_SEC_SIGNED :: "'a::len word" where "USFS_SEC_SIGNED \<equiv> 8"
abbreviation USFS_MODE_DEFAULT_FILE :: u16 where "USFS_MODE_DEFAULT_FILE \<equiv> 0x1A4"
abbreviation USFS_MODE_DEFAULT_DIR :: u16 where "USFS_MODE_DEFAULT_DIR \<equiv> 0x1ED"
abbreviation USFS_STATE_DIRTY :: u32 where "USFS_STATE_DIRTY \<equiv> 1"
abbreviation USFS_STATE_ERROR :: u32 where "USFS_STATE_ERROR \<equiv> 2"
abbreviation USFS_STATE_LOCKED :: u32 where "USFS_STATE_LOCKED \<equiv> 4"

datatype usfs_status =
    USFS_OK | USFS_ERR_INVALID_MAGIC | USFS_ERR_CORRUPT_SUPERBLOCK | USFS_ERR_CHECKSUM_MISMATCH
  | USFS_ERR_NO_FREE_BLOCKS | USFS_ERR_NO_FREE_ENTRIES | USFS_ERR_NAME_TOO_LONG | USFS_ERR_NOT_FOUND
  | USFS_ERR_ALREADY_EXISTS | USFS_ERR_IO | USFS_ERR_BUFFER_TOO_SMALL | USFS_ERR_VOLUME_DIRTY
  | USFS_ERR_WRITE_PROTECTED | USFS_ERR_ENCRYPTED | USFS_ERR_KEY_INVALID | USFS_ERR_INVALID_PARAM
  | USFS_ERR_NOT_CATALOG | USFS_ERR_NOT_FILE | USFS_ERR_ACCESS_DENIED

section \<open>The superblock\<close>

record usfs_superblock =
  usb_magic :: u32
  usb_version_major :: u16
  usb_version_minor :: u16
  usb_block_size :: u32
  usb_total_blocks :: u32
  usb_free_blocks :: u32
  usb_total_entries :: u32
  usb_used_entries :: u32
  usb_entry_table_start :: u32
  usb_entry_table_blocks :: u32
  usb_bitmap_start_block :: u32
  usb_bitmap_block_count :: u32
  usb_data_region_start :: u32
  usb_security_flags :: u32
  usb_state_flags :: u32
  usb_mount_count :: u32
  usb_signature :: u32
  usb_fletcher64_bitmap :: u64
  usb_volume_label :: bytes
  usb_key_slot_1 :: bytes
  usb_key_slot_2 :: bytes
  usb_checksum :: u32
  usb_crypto_nonce :: bytes
  usb_reserved :: bytes
definition usfs_superblock_bytes :: "usfs_superblock \<Rightarrow> bytes" where
  "usfs_superblock_bytes r =
     le_store 4 (usb_magic r) @ le_store 2 (usb_version_major r) @
     le_store 2 (usb_version_minor r) @ le_store 4 (usb_block_size r) @
     le_store 4 (usb_total_blocks r) @ le_store 4 (usb_free_blocks r) @
     le_store 4 (usb_total_entries r) @ le_store 4 (usb_used_entries r) @
     le_store 4 (usb_entry_table_start r) @ le_store 4 (usb_entry_table_blocks r) @
     le_store 4 (usb_bitmap_start_block r) @ le_store 4 (usb_bitmap_block_count r) @
     le_store 4 (usb_data_region_start r) @ le_store 4 (usb_security_flags r) @
     le_store 4 (usb_state_flags r) @ le_store 4 (usb_mount_count r) @
     le_store 4 (usb_signature r) @ le_store 8 (usb_fletcher64_bitmap r) @
     usb_volume_label r @ usb_key_slot_1 r @ usb_key_slot_2 r @ le_store 4 (usb_checksum r) @
     usb_crypto_nonce r @ usb_reserved r"
definition usfs_superblock_of_bytes :: "bytes \<Rightarrow> usfs_superblock" where
  "usfs_superblock_of_bytes bs =
     \<lparr>usb_magic = le_load (window 0 4 bs), usb_version_major = le_load (window 4 2 bs),
      usb_version_minor = le_load (window 6 2 bs), usb_block_size = le_load (window 8 4 bs),
      usb_total_blocks = le_load (window 12 4 bs), usb_free_blocks = le_load (window 16 4 bs),
      usb_total_entries = le_load (window 20 4 bs),
      usb_used_entries = le_load (window 24 4 bs),
      usb_entry_table_start = le_load (window 28 4 bs),
      usb_entry_table_blocks = le_load (window 32 4 bs),
      usb_bitmap_start_block = le_load (window 36 4 bs),
      usb_bitmap_block_count = le_load (window 40 4 bs),
      usb_data_region_start = le_load (window 44 4 bs),
      usb_security_flags = le_load (window 48 4 bs),
      usb_state_flags = le_load (window 52 4 bs), usb_mount_count = le_load (window 56 4 bs),
      usb_signature = le_load (window 60 4 bs),
      usb_fletcher64_bitmap = le_load (window 64 8 bs), usb_volume_label = window 72 64 bs,
      usb_key_slot_1 = window 136 256 bs, usb_key_slot_2 = window 392 256 bs,
      usb_checksum = le_load (window 648 4 bs), usb_crypto_nonce = window 652 12 bs,
      usb_reserved = window 664 3432 bs\<rparr>"
text \<open>The array fields have their declared lengths.\<close>

definition usfs_superblock_wf :: "usfs_superblock \<Rightarrow> bool" where
  "usfs_superblock_wf r \<longleftrightarrow>
     length (usb_volume_label r) = 64 \<and> length (usb_key_slot_1 r) = 256 \<and> length (usb_key_slot_2 r) = 256 \<and>
     length (usb_crypto_nonce r) = 12 \<and> length (usb_reserved r) = 3432"
definition usfs_superblock_compute_checksum :: "usfs_superblock \<Rightarrow> u32" where
  "usfs_superblock_compute_checksum sb = ow_crc32c_struct (usfs_superblock_bytes sb) 0x1000 0x288"

definition usfs_superblock_validate :: "usfs_superblock \<Rightarrow> bool" where
  "usfs_superblock_validate sb =
     (if usb_magic sb \<noteq> USFS_MAGIC then False
      else if usb_block_size sb \<noteq> 0x1000 then False
      else
        let expected_crc = usfs_superblock_compute_checksum sb in
        if usb_checksum sb \<noteq> expected_crc then False else True)"

definition usfs_superblock_read ::
  "'c htl_device \<Rightarrow> usfs_superblock \<Rightarrow> usfs_status \<times> 'c htl_device \<times> usfs_superblock" where
  "usfs_superblock_read dev sb =
     (case htl_read_block dev 0 of (hres, buf, dev) \<Rightarrow>
        if hres \<noteq> HTL_OK then (USFS_ERR_IO, dev, sb)
        else let sb = usfs_superblock_of_bytes buf in
          if \<not> usfs_superblock_validate sb then (USFS_ERR_CORRUPT_SUPERBLOCK, dev, sb)
          else (USFS_OK, dev, sb))"

text \<open>The status a failed device write is reported as, where the sources tell write protection apart.\<close>

abbreviation usfs_write_error :: "htl_status \<Rightarrow> usfs_status" where
  "usfs_write_error hres \<equiv>
     (if hres = HTL_ERR_WRITE_PROTECT then USFS_ERR_WRITE_PROTECTED else USFS_ERR_IO)"

definition usfs_superblock_write ::
  "'c htl_device \<Rightarrow> usfs_superblock \<Rightarrow> usfs_status \<times> 'c htl_device \<times> usfs_superblock" where
  "usfs_superblock_write dev sb =
     (let sb = sb\<lparr>usb_checksum := usfs_superblock_compute_checksum sb\<rparr> in
      case htl_write_block dev 0 (usfs_superblock_bytes sb) of (hres, dev) \<Rightarrow>
        if hres \<noteq> HTL_OK then (usfs_write_error hres, dev, sb) else (USFS_OK, dev, sb))"

text \<open>The signature: the CRC-32C of the entry table, continued from block to block, or 0 when a block
  cannot be read.\<close>

fun signature_loop ::
  "'c htl_device \<Rightarrow> usfs_superblock \<Rightarrow> nat list \<Rightarrow> u32 \<Rightarrow> u32 \<times> 'c htl_device" where
  "signature_loop dev sb [] crc = (crc, dev)"
| "signature_loop dev sb (i # is) crc =
     (case htl_read_block dev (usb_entry_table_start sb + of_nat i) of (hres, buf, dev) \<Rightarrow>
        if hres \<noteq> HTL_OK then (0, dev) else signature_loop dev sb is (ow_crc32c crc buf))"

definition usfs_signature_compute :: "'c htl_device \<Rightarrow> usfs_superblock \<Rightarrow> u32 \<times> 'c htl_device" where
  "usfs_signature_compute dev sb = signature_loop dev sb [0..<unat (usb_entry_table_blocks sb)] 0"

definition usfs_signature_update ::
  "'c htl_device \<Rightarrow> usfs_superblock \<Rightarrow> usfs_status \<times> 'c htl_device \<times> usfs_superblock" where
  "usfs_signature_update dev sb =
     (case usfs_signature_compute dev sb of (sig, dev) \<Rightarrow>
        usfs_superblock_write dev (sb\<lparr>usb_signature := sig\<rparr>))"

section \<open>Block I/O\<close>

definition usfs_block_read :: "'c htl_device \<Rightarrow> u32 \<Rightarrow> (usfs_status + bytes) \<times> 'c htl_device" where
  "usfs_block_read dev block =
     (case htl_read_block dev block of (hres, buf, dev) \<Rightarrow>
        if hres \<noteq> HTL_OK then (Inl USFS_ERR_IO, dev) else (Inr buf, dev))"

definition usfs_block_write :: "'c htl_device \<Rightarrow> u32 \<Rightarrow> bytes \<Rightarrow> usfs_status \<times> 'c htl_device" where
  "usfs_block_write dev block buf =
     (case htl_write_block dev block buf of (hres, dev) \<Rightarrow>
        if hres \<noteq> HTL_OK then (usfs_write_error hres, dev) else (USFS_OK, dev))"

definition usfs_block_zero :: "'c htl_device \<Rightarrow> u32 \<Rightarrow> usfs_status \<times> 'c htl_device" where
  "usfs_block_zero dev block =
     (case htl_zero_block dev block of (hres, dev) \<Rightarrow>
        if hres \<noteq> HTL_OK then (USFS_ERR_IO, dev) else (USFS_OK, dev))"

section \<open>Volume state\<close>

definition usfs_is_dirty :: "usfs_superblock \<Rightarrow> bool" where
  "usfs_is_dirty sb \<longleftrightarrow>
     usb_state_flags sb AND (USFS_STATE_DIRTY OR USFS_STATE_LOCKED OR USFS_STATE_ERROR) \<noteq> 0"

definition usfs_volume_writable :: "usfs_superblock \<Rightarrow> usfs_status" where
  "usfs_volume_writable sb =
     (if usb_state_flags sb AND (USFS_STATE_LOCKED OR USFS_STATE_ERROR) \<noteq> 0 then USFS_ERR_VOLUME_DIRTY
      else if usb_security_flags sb AND USFS_SEC_READONLY \<noteq> 0 then USFS_ERR_WRITE_PROTECTED
      else USFS_OK)"

section \<open>Lemmas\<close>

lemma length_usfs_superblock_bytes [simp]:
  "usfs_superblock_wf sb \<Longrightarrow> length (usfs_superblock_bytes sb) = 4096"
  by (simp add: usfs_superblock_bytes_def usfs_superblock_wf_def)

lemma usfs_superblock_dec_enc:
  "usfs_superblock_wf sb \<Longrightarrow> usfs_superblock_of_bytes (usfs_superblock_bytes sb) = sb"
  by (simp add: usfs_superblock_of_bytes_def usfs_superblock_bytes_def usfs_superblock_wf_def window_simps)

lemma usfs_superblock_enc_dec:
  "length bs = 4096 \<Longrightarrow> usfs_superblock_bytes (usfs_superblock_of_bytes bs) = bs"
  by (simp add: usfs_superblock_of_bytes_def usfs_superblock_bytes_def window_join window_all)

interpretation usr: disk_record usfs_superblock_bytes usfs_superblock_of_bytes usfs_superblock_wf
    4096 648 usb_checksum "\<lambda>c. usb_checksum_update (\<lambda>_. c)"
proof
  show "usfs_superblock_bytes (sb\<lparr>usb_checksum := c\<rparr>) =
      overwrite 648 (le_store 4 c) (usfs_superblock_bytes sb)" if "usfs_superblock_wf sb" for sb c
    using that by (simp add: usfs_superblock_bytes_def usfs_superblock_wf_def overwrite_def)
qed (simp_all add: usfs_superblock_dec_enc usfs_superblock_enc_dec,
    simp_all add: usfs_superblock_wf_def usfs_superblock_of_bytes_def usfs_superblock_bytes_def window_simps)

lemmas usb_seal_defs = usr.seal_def usr.crc_of_def usfs_superblock_compute_checksum_def

abbreviation usfs_sealed :: "usfs_superblock \<Rightarrow> usfs_superblock" where
  "usfs_sealed sb \<equiv> sb\<lparr>usb_checksum := usfs_superblock_compute_checksum sb\<rparr>"

lemma usfs_sealed_wf [simp]: "usfs_superblock_wf sb \<Longrightarrow> usfs_superblock_wf (usfs_sealed sb)"
  by (simp add: usfs_superblock_wf_def)

lemma usfs_sealed_verifies:
  "usfs_superblock_wf sb \<Longrightarrow>
   usfs_superblock_compute_checksum (usfs_sealed sb) = usfs_superblock_compute_checksum sb"
  using usr.crc_of_set [of sb] by (simp add: usb_seal_defs)

lemma usfs_sealed_validate:
  "usfs_superblock_wf sb \<Longrightarrow>
   usfs_superblock_validate (usfs_sealed sb) \<longleftrightarrow> usb_magic sb = USFS_MAGIC \<and> usb_block_size sb = 0x1000"
  by (simp add: usfs_superblock_validate_def usfs_sealed_verifies Let_def)

lemma usfs_volume_writable_iff:
  "usfs_volume_writable sb = USFS_OK \<longleftrightarrow>
     \<not> bit (usb_state_flags sb) 1 \<and> \<not> bit (usb_state_flags sb) 2 \<and> \<not> bit (usb_security_flags sb) 1"
  unfolding usfs_volume_writable_def state_mask_bits mask_bits by auto

text \<open>Each block of the entry table enters the signature once, in order.\<close>

lemma signature_loop_eq:
  assumes "htl_reliable dev" and "\<forall>i \<in> set is. usb_entry_table_start sb + of_nat i < total_blocks dev"
  shows "signature_loop dev sb is crc = (ow_crc32c crc (concat (map (\<lambda>i. blk dev (usb_entry_table_start sb + of_nat i)) is)), dev)"
  using assms(2)
proof (induction "is" arbitrary: crc)
  case Nil
  show ?case by (simp add: ow_crc32c_def)
next
  case (Cons i "is")
  then show ?case using assms(1) by (simp add: htl_read_reliable ow_crc32c_append)
qed

end
