(* ===== verification/USFS_Bitmap.thy ===== *)
theory USFS_Bitmap
  imports USFS_Superblock OW_Allocator OW_Bits
begin

text \<open>
  \<^verbatim>\<open>usfs/src/usfs_bitmap.c\<close>: the free-block bitmap of a USFS volume. Files are contiguous, so the
  allocator hands out runs of blocks: a scan over the bits that keeps the last bitmap block read,
  then one write for every bitmap block the run touches. The lemmas abstract the bitmap to the set
  of allocated blocks, show that the scan finds the lowest run that is long enough, and that
  allocating and freeing change exactly the bits of the run.
\<close>

unbundle bit_operations_syntax

definition data_block_count :: "usfs_superblock \<Rightarrow> u32" where
  "data_block_count sb = usb_total_blocks sb - usb_data_region_start sb"

definition bit_is_set :: "bytes \<Rightarrow> u32 \<Rightarrow> bool" where
  "bit_is_set buf rel =
     (let byte_idx = drop_bit 3 rel; k = rel AND 7
      in buf ! unat byte_idx AND push_bit (unat k) 1 \<noteq> 0)"

definition bit_set :: "bytes \<Rightarrow> u32 \<Rightarrow> bool \<Rightarrow> bytes" where
  "bit_set buf rel used =
     (let byte_idx = unat (drop_bit 3 rel); k = unat (rel AND 7)
      in if used then buf[byte_idx := buf ! byte_idx OR push_bit k 1]
         else buf[byte_idx := buf ! byte_idx AND NOT (push_bit k 1)])"

fun usfs_bitmap_init_loop :: "'c htl_device \<Rightarrow> usfs_superblock \<Rightarrow> nat list \<Rightarrow> usfs_status \<times> 'c htl_device" where
  "usfs_bitmap_init_loop dev sb [] = (USFS_OK, dev)"
| "usfs_bitmap_init_loop dev sb (i # is) =
     (let bnum = usb_bitmap_start_block sb + of_nat i in
      if bnum \<ge> usb_data_region_start sb then (USFS_ERR_INVALID_PARAM, dev)
      else case htl_write_block dev bnum (replicate 4096 0) of (hres, dev) \<Rightarrow>
        if hres \<noteq> HTL_OK then (usfs_write_error hres, dev)
        else usfs_bitmap_init_loop dev sb is)"

definition usfs_bitmap_init :: "'c htl_device \<Rightarrow> usfs_superblock \<Rightarrow> usfs_status \<times> 'c htl_device" where
  "usfs_bitmap_init dev sb =
     (if usb_bitmap_start_block sb = 0 \<or> usb_bitmap_block_count sb = 0 then (USFS_ERR_INVALID_PARAM, dev)
      else usfs_bitmap_init_loop dev sb [0..<unat (usb_bitmap_block_count sb)])"

text \<open>The bitmap block that holds bit \<open>rel\<close>: read again only when it is not the one in the buffer.\<close>

definition load_bits ::
  "'c htl_device \<Rightarrow> usfs_superblock \<Rightarrow> u32 \<Rightarrow> u32 \<Rightarrow> bytes \<Rightarrow> htl_status \<times> bytes \<times> 'c htl_device" where
  "load_bits dev sb b current_block buf =
     (if b \<noteq> current_block then htl_read_block dev (usb_bitmap_start_block sb + b) else (HTL_OK, buf, dev))"

text \<open>The scan of \<^verbatim>\<open>usfs_block_alloc\<close>: the start and the length of the run in which it ends.\<close>

fun run_scan ::
  "'c htl_device \<Rightarrow> usfs_superblock \<Rightarrow> u32 \<Rightarrow> nat list \<Rightarrow> u32 \<Rightarrow> bytes \<Rightarrow> u32 \<Rightarrow> u32 \<Rightarrow>
   (usfs_status + u32 \<times> u32) \<times> 'c htl_device" where
  "run_scan dev sb count [] current_block buf run_start run_len = (Inr (run_start, run_len), dev)"
| "run_scan dev sb count (r # rs) current_block buf run_start run_len =
     (let rel = of_nat r; b = rel div 32768 in
      case load_bits dev sb b current_block buf of (hres, buf, dev) \<Rightarrow>
      if hres \<noteq> HTL_OK then (Inl USFS_ERR_IO, dev)
      else if \<not> bit_is_set buf (rel mod 32768) then
        let run_start = (if run_len = 0 then rel else run_start);
            run_len = run_len + 1
        in if run_len = count then (Inr (run_start, run_len), dev)
           else run_scan dev sb count rs b buf run_start run_len
      else run_scan dev sb count rs b buf run_start 0)"

text \<open>The loop that marks a run: one read and one write for each bitmap block it touches. Allocation
  and freeing differ in the value written.\<close>

definition bits_fill :: "bytes \<Rightarrow> u32 \<Rightarrow> u32 \<Rightarrow> bool \<Rightarrow> bytes" where
  "bits_fill buf lo hi used = fold (\<lambda>r buf. bit_set buf (of_nat r) used) [unat lo..<Suc (unat hi)] buf"

fun mark_run ::
  "'c htl_device \<Rightarrow> usfs_superblock \<Rightarrow> u32 \<Rightarrow> u32 \<Rightarrow> bool \<Rightarrow> nat list \<Rightarrow> usfs_status \<times> 'c htl_device" where
  "mark_run dev sb rel_start count used [] = (USFS_OK, dev)"
| "mark_run dev sb rel_start count used (k # ks) =
     (let b = of_nat k;
          first_blk = rel_start div 32768;
          last_blk = (rel_start + count - 1) div 32768;
          bnum = usb_bitmap_start_block sb + b
      in case htl_read_block dev bnum of (hres, buf, dev) \<Rightarrow>
      if hres \<noteq> HTL_OK then (USFS_ERR_IO, dev)
      else
        let lo = (if b = first_blk then rel_start mod 32768 else 0);
            hi = (if b = last_blk then (rel_start + count - 1) mod 32768 else 32767);
            buf = bits_fill buf lo hi used
        in case htl_write_block dev bnum buf of (hres, dev) \<Rightarrow>
          if hres \<noteq> HTL_OK then (usfs_write_error hres, dev)
          else mark_run dev sb rel_start count used ks)"

definition run_blocks :: "u32 \<Rightarrow> u32 \<Rightarrow> nat list" where
  "run_blocks rel_start count = [unat (rel_start div 32768)..<Suc (unat ((rel_start + count - 1) div 32768))]"

definition usfs_block_alloc ::
  "'c htl_device \<Rightarrow> usfs_superblock \<Rightarrow> u32 \<Rightarrow> (usfs_status + u32) \<times> 'c htl_device \<times> usfs_superblock" where
  "usfs_block_alloc dev sb count =
     (if count = 0 \<or> count > usb_free_blocks sb then (Inl USFS_ERR_NO_FREE_BLOCKS, dev, sb)
      else if usb_total_blocks sb \<le> usb_data_region_start sb then (Inl USFS_ERR_NO_FREE_BLOCKS, dev, sb)
      else if usfs_volume_writable sb \<noteq> USFS_OK then (Inl (usfs_volume_writable sb), dev, sb)
      else
        let total = data_block_count sb in
        case run_scan dev sb count [0..<unat total] 0xFFFFFFFF [] 0 0 of
          (Inl res, dev) \<Rightarrow> (Inl res, dev, sb)
        | (Inr (run_start, run_len), dev) \<Rightarrow>
            if run_len \<noteq> count then (Inl USFS_ERR_NO_FREE_BLOCKS, dev, sb)
            else case mark_run dev sb run_start count True (run_blocks run_start count) of (res, dev) \<Rightarrow>
              if res \<noteq> USFS_OK then (Inl res, dev, sb)
              else (Inr (usb_data_region_start sb + run_start), dev, sb\<lparr>usb_free_blocks := usb_free_blocks sb - count\<rparr>))"

definition usfs_block_free ::
  "'c htl_device \<Rightarrow> usfs_superblock \<Rightarrow> u32 \<Rightarrow> u32 \<Rightarrow> usfs_status \<times> 'c htl_device \<times> usfs_superblock" where
  "usfs_block_free dev sb first count =
     (if count = 0 then (USFS_OK, dev, sb)
      else if first < usb_data_region_start sb \<or> (ucast first + ucast count :: u64) > ucast (usb_total_blocks sb) then
        (USFS_ERR_INVALID_PARAM, dev, sb)
      else if usfs_volume_writable sb \<noteq> USFS_OK then (usfs_volume_writable sb, dev, sb)
      else
        let rel_start = first - usb_data_region_start sb in
        case mark_run dev sb rel_start count False (run_blocks rel_start count) of (res, dev) \<Rightarrow>
          if res \<noteq> USFS_OK then (res, dev, sb)
          else (USFS_OK, dev, sb\<lparr>usb_free_blocks := usb_free_blocks sb + count\<rparr>))"

definition usfs_block_is_used :: "'c htl_device \<Rightarrow> usfs_superblock \<Rightarrow> u32 \<Rightarrow> bool \<times> 'c htl_device" where
  "usfs_block_is_used dev sb block =
     (if block < usb_data_region_start sb \<or> block \<ge> usb_total_blocks sb then (False, dev)
      else
        let rel = block - usb_data_region_start sb; b = rel div 32768 in
        case htl_read_block dev (usb_bitmap_start_block sb + b) of (hres, buf, dev) \<Rightarrow>
          if hres \<noteq> HTL_OK then (False, dev) else (bit_is_set buf (rel mod 32768), dev))"

definition usfs_block_fletcher :: "bytes \<Rightarrow> u64 \<times> u64 \<Rightarrow> u64 \<times> u64" where
  "usfs_block_fletcher buf s = fold (\<lambda>k s. fletcher_step (fletcher_word buf (4 * k)) s) [0..<1024] s"

fun usfs_fletcher_loop ::
  "'c htl_device \<Rightarrow> usfs_superblock \<Rightarrow> nat list \<Rightarrow> u64 \<times> u64 \<Rightarrow> u64 \<times> 'c htl_device" where
  "usfs_fletcher_loop dev sb [] s = (push_bit 32 (snd s) OR fst s, dev)"
| "usfs_fletcher_loop dev sb (b # bs) s =
     (case htl_read_block dev (usb_bitmap_start_block sb + of_nat b) of (hres, buf, dev) \<Rightarrow>
        if hres \<noteq> HTL_OK then (0, dev)
        else usfs_fletcher_loop dev sb bs (usfs_block_fletcher buf s))"

definition usfs_bitmap_compute_fletcher64 :: "'c htl_device \<Rightarrow> usfs_superblock \<Rightarrow> u64 \<times> 'c htl_device" where
  "usfs_bitmap_compute_fletcher64 dev sb =
     usfs_fletcher_loop dev sb [0..<unat (usb_bitmap_block_count sb)] (0, 0)"

fun usfs_count_loop ::
  "'c htl_device \<Rightarrow> usfs_superblock \<Rightarrow> nat list \<Rightarrow> u32 \<Rightarrow> bytes \<Rightarrow> u32 \<Rightarrow> u32 \<times> 'c htl_device" where
  "usfs_count_loop dev sb [] current_block buf free_count = (free_count, dev)"
| "usfs_count_loop dev sb (r # rs) current_block buf free_count =
     (let rel = of_nat r; b = rel div 32768 in
      case load_bits dev sb b current_block buf of (hres, buf, dev) \<Rightarrow>
      if hres \<noteq> HTL_OK then (0, dev)
      else usfs_count_loop dev sb rs b buf
        (if \<not> bit_is_set buf (rel mod 32768) then free_count + 1 else free_count))"

definition usfs_bitmap_count_free :: "'c htl_device \<Rightarrow> usfs_superblock \<Rightarrow> u32 \<times> 'c htl_device" where
  "usfs_bitmap_count_free dev sb =
     (if usb_total_blocks sb \<le> usb_data_region_start sb then (0, dev)
      else usfs_count_loop dev sb [0..<unat (data_block_count sb)] 0xFFFFFFFF [] 0)"

section \<open>The bitmap as one bit string\<close>

definition usfs_used :: "'c htl_device \<Rightarrow> usfs_superblock \<Rightarrow> nat \<Rightarrow> bool" where
  "usfs_used dev sb rel =
     bits_of (blk dev (usb_bitmap_start_block sb + of_nat (rel div 32768))) (rel mod 32768)"

definition usfs_data_blocks :: "usfs_superblock \<Rightarrow> nat" where
  "usfs_data_blocks sb = unat (usb_total_blocks sb) - unat (usb_data_region_start sb)"

text \<open>The regions of a volume in order: superblock, entry table, bitmap, data.\<close>

definition usfs_geometry :: "'c htl_device \<Rightarrow> usfs_superblock \<Rightarrow> bool" where
  "usfs_geometry dev sb \<longleftrightarrow>
     unat (usb_total_blocks sb) \<le> unat (total_blocks dev) \<and>
     0 < unat (usb_entry_table_start sb) \<and>
     unat (usb_entry_table_start sb) + unat (usb_entry_table_blocks sb) \<le> unat (usb_bitmap_start_block sb) \<and>
     unat (usb_bitmap_start_block sb) + unat (usb_bitmap_block_count sb) \<le> unat (usb_data_region_start sb) \<and>
     unat (usb_data_region_start sb) < unat (usb_total_blocks sb) \<and>
     usfs_data_blocks sb \<le> unat (usb_bitmap_block_count sb) * 32768 \<and>
     unat (usb_total_entries sb) \<le> unat (usb_entry_table_blocks sb) * 16"

lemma usfs_geometryD:
  assumes "usfs_geometry dev sb" and "rel < 32768 * unat (usb_bitmap_block_count sb)"
  shows "unat (usb_bitmap_start_block sb + of_nat (rel div 32768)) = unat (usb_bitmap_start_block sb) + rel div 32768"
    and "usb_bitmap_start_block sb + of_nat (rel div 32768) < total_blocks dev"
proof -
  have "unat (usb_bitmap_start_block sb) + rel div 32768 < unat (total_blocks dev)"
    using assms by (auto simp: usfs_geometry_def less_mult_imp_div_less mult.commute
        intro: order_less_le_trans [where y = "unat (usb_bitmap_start_block sb) + unat (usb_bitmap_block_count sb)"])
  moreover from this have "unat (usb_bitmap_start_block sb) + rel div 32768 < 2 ^ 32"
    using unsigned_less [of "total_blocks dev", where 'a = nat] by simp
  ultimately show "unat (usb_bitmap_start_block sb + of_nat (rel div 32768)) = unat (usb_bitmap_start_block sb) + rel div 32768"
    "usb_bitmap_start_block sb + of_nat (rel div 32768) < total_blocks dev"
    by (simp_all add: word_less_nat_alt unat_word_ariths unat_of_nat_small)
qed

lemma usfs_rel_bitmap:
  "usfs_geometry dev sb \<Longrightarrow> rel < usfs_data_blocks sb \<Longrightarrow> rel < 32768 * unat (usb_bitmap_block_count sb)"
  by (simp add: usfs_geometry_def)

lemma usfs_data_blocks_word:
  assumes "usfs_geometry dev sb"
  shows "unat (data_block_count sb) = usfs_data_blocks sb" and "0 < usfs_data_blocks sb" and "usfs_data_blocks sb < 2 ^ 32"
  using assms unsigned_less [of "usb_total_blocks sb", where 'a = nat]
  by (auto simp: usfs_geometry_def unat_sub word_le_nat_alt usfs_data_blocks_def data_block_count_def)

text \<open>The word-level accesses to a bit of the buffer are the abstract ones.\<close>

lemma bit_is_set_eq:
  assumes "r < 2 ^ 32"
  shows "bit_is_set buf (of_nat r mod 32768) = bits_of buf (r mod 32768)"
proof -
  have u: "unat (of_nat r mod 32768 :: u32) = r mod 32768"
    using assms by (simp add: unat_mod unat_of_nat_small)
  have "x AND 7 = take_bit 3 x" for x :: u32 by (simp add: take_bit_eq_mask mask_eq_exp_minus_1)
  then have "unat ((of_nat r mod 32768 :: u32) AND 7) = r mod 32768 mod 8" "unat (drop_bit 3 (of_nat r mod 32768 :: u32)) = r mod 32768 div 8"
    by (simp_all only: unsigned_take_bit_eq unsigned_drop_bit_eq u) (simp_all add: take_bit_eq_mod drop_bit_eq_div)
  then show ?thesis by (simp add: bit_is_set_def bits_of_def Let_def)
qed

lemma bit_set_eq:
  assumes "p < 32768"
  shows "bit_set buf (of_nat p) used = bits_put buf p used"
proof -
  have u: "unat (of_nat p :: u32) = p" using assms by (intro unat_of_nat_small) simp
  have "x AND 7 = take_bit 3 x" for x :: u32 by (simp add: take_bit_eq_mask mask_eq_exp_minus_1)
  then have "unat ((of_nat p :: u32) AND 7) = p mod 8" "unat (drop_bit 3 (of_nat p :: u32)) = p div 8"
    using assms by (simp_all only: unsigned_take_bit_eq unsigned_drop_bit_eq u) (simp_all add: take_bit_eq_mod drop_bit_eq_div)
  then show ?thesis by (simp add: bit_set_def bits_put_def Let_def)
qed

lemma bits_fill_fold:
  assumes "length buf = 4096" and "hi \<le> 32768"
  shows "length (fold (\<lambda>r buf. bit_set buf (of_nat r) v) [lo..<hi] buf) = 4096 \<and>
    (\<forall>q < 32768. bits_of (fold (\<lambda>r buf. bit_set buf (of_nat r) v) [lo..<hi] buf) q = (if lo \<le> q \<and> q < hi then v else bits_of buf q))"
  using assms(2)
proof (induction hi)
  case (Suc hi)
  show ?case
  proof (cases "lo \<le> hi")
    case True
    then have "[lo..<Suc hi] = [lo..<hi] @ [hi]" by simp
    then show ?thesis using Suc True by (auto simp: bit_set_eq bits_of_put)
  next
    case False
    then show ?thesis using assms(1) by auto
  qed
qed (use assms(1) in auto)

lemma bits_fill_eq:
  assumes "length buf = 4096" and "unat hi < 32768"
  shows "length (bits_fill buf lo hi v) = 4096"
    and "q < 32768 \<Longrightarrow> bits_of (bits_fill buf lo hi v) q = (if unat lo \<le> q \<and> q \<le> unat hi then v else bits_of buf q)"
  using bits_fill_fold [OF assms(1), of "Suc (unat hi)" v "unat lo"] assms(2) by (simp_all add: bits_fill_def less_Suc_eq_le del: upt_Suc)

section \<open>Searching a run\<close>

definition usfs_run :: "'c htl_device \<Rightarrow> usfs_superblock \<Rightarrow> nat \<Rightarrow> nat \<Rightarrow> bool" where
  "usfs_run dev sb s n \<longleftrightarrow> s + n \<le> usfs_data_blocks sb \<and> (\<forall>k. s \<le> k \<and> k < s + n \<longrightarrow> \<not> usfs_used dev sb k)"

lemma load_bits_reliable:
  assumes "htl_reliable dev" and "usfs_geometry dev sb" and "r < usfs_data_blocks sb"
    and "cur \<noteq> 0xFFFFFFFF \<longrightarrow> buf = blk dev (usb_bitmap_start_block sb + cur)"
  shows "load_bits dev sb (of_nat r div 32768) cur buf = (HTL_OK, blk dev (usb_bitmap_start_block sb + of_nat (r div 32768)), dev)"
    and "of_nat r div 32768 = (of_nat (r div 32768) :: u32)" and "of_nat (r div 32768) \<noteq> (0xFFFFFFFF :: u32)"
proof -
  have r: "r < 2 ^ 32" using usfs_data_blocks_word(3) [OF assms(2)] assms(3) by simp
  have d: "r div 32768 < 131072" using r by simp
  have u: "unat (of_nat r :: u32) = r" "unat (of_nat (r div 32768) :: u32) = r div 32768" using r d by (simp_all add: unat_of_nat_small)
  show e: "of_nat r div 32768 = (of_nat (r div 32768) :: u32)"
    by (rule word_unat_eq_iff [THEN iffD2]) (simp add: unat_div u)
  show n: "of_nat (r div 32768) \<noteq> (0xFFFFFFFF :: u32)"
  proof
    assume "of_nat (r div 32768) = (0xFFFFFFFF :: u32)"
    then have "unat (of_nat (r div 32768) :: u32) = unat (0xFFFFFFFF :: u32)" by simp
    then show False using u(2) d by simp
  qed
  show "load_bits dev sb (of_nat r div 32768) cur buf = (HTL_OK, blk dev (usb_bitmap_start_block sb + of_nat (r div 32768)), dev)"
    unfolding e load_bits_def
    using n assms usfs_geometryD(2) [OF assms(2) usfs_rel_bitmap [OF assms(2,3)]] by (auto simp: htl_read_reliable)
qed

lemma run_scan_run:
  assumes dev: "htl_reliable dev" and geo: "usfs_geometry dev sb"
  shows "a \<le> usfs_data_blocks sb \<Longrightarrow> cur \<noteq> 0xFFFFFFFF \<longrightarrow> buf = blk dev (usb_bitmap_start_block sb + cur) \<Longrightarrow>
    unat rl < unat count \<Longrightarrow> unat rl \<le> a \<Longrightarrow> (rl \<noteq> 0 \<longrightarrow> unat rs = a - unat rl) \<Longrightarrow>
    \<forall>k. a - unat rl \<le> k \<and> k < a \<longrightarrow> \<not> usfs_used dev sb k \<Longrightarrow>
    \<forall>s < a - unat rl. \<exists>k. s \<le> k \<and> k < s + unat count \<and> usfs_used dev sb k \<Longrightarrow>
    (\<exists>s. usfs_run dev sb s (unat count) \<and> (\<forall>s' < s. \<not> usfs_run dev sb s' (unat count)) \<and>
       run_scan dev sb count [a..<usfs_data_blocks sb] cur buf rs rl = (Inr (of_nat s, count), dev)) \<or>
    (\<forall>s. \<not> usfs_run dev sb s (unat count)) \<and>
       (\<exists>rs' rl'. run_scan dev sb count [a..<usfs_data_blocks sb] cur buf rs rl = (Inr (rs', rl'), dev) \<and> rl' \<noteq> count)"
proof (induction "usfs_data_blocks sb - a" arbitrary: a cur buf rs rl)
  case 0
  then have a: "a = usfs_data_blocks sb" by simp
  have "\<not> usfs_run dev sb s (unat count)" for s
  proof (cases "s < a - unat rl")
    case True
    then show ?thesis using 0(8) by (auto simp: usfs_run_def)
  next
    case False
    then show ?thesis using 0(4) a by (auto simp: usfs_run_def)
  qed
  moreover have "rl \<noteq> count" using 0(4) by auto
  ultimately show ?case unfolding a by simp
next
  case (Suc n)
  then have a: "a < usfs_data_blocks sb" and l: "[a..<usfs_data_blocks sb] = a # [Suc a..<usfs_data_blocks sb]"
    by (simp_all add: upt_conv_Cons)
  have a32: "a < 2 ^ 32" using usfs_data_blocks_word(3) [OF geo] a by simp
  note ld = load_bits_reliable [OF dev geo a Suc.prems(2)]
  let ?b = "usb_bitmap_start_block sb + of_nat (a div 32768)"
  have used: "bit_is_set (blk dev ?b) (of_nat a mod 32768) = usfs_used dev sb a"
    using bit_is_set_eq [OF a32] by (simp add: usfs_used_def)
  have buf': "of_nat (a div 32768) \<noteq> (0xFFFFFFFF :: u32) \<longrightarrow> blk dev ?b = blk dev (usb_bitmap_start_block sb + of_nat (a div 32768))" by simp
  show ?case
  proof (cases "usfs_used dev sb a")
    case True
    have "\<exists>k. s \<le> k \<and> k < s + unat count \<and> usfs_used dev sb k" if "s < Suc a" for s
    proof (cases "s < a - unat rl")
      case False
      then show ?thesis using True that Suc.prems(3,4) by (intro exI [of _ a]) auto
    qed (use Suc.prems(7) in blast)
    then have IH: "(\<exists>s. usfs_run dev sb s (unat count) \<and> (\<forall>s' < s. \<not> usfs_run dev sb s' (unat count)) \<and>
        run_scan dev sb count [Suc a..<usfs_data_blocks sb] (of_nat (a div 32768)) (blk dev ?b) rs 0 = (Inr (of_nat s, count), dev)) \<or>
      (\<forall>s. \<not> usfs_run dev sb s (unat count)) \<and>
        (\<exists>rs' rl'. run_scan dev sb count [Suc a..<usfs_data_blocks sb] (of_nat (a div 32768)) (blk dev ?b) rs 0 = (Inr (rs', rl'), dev) \<and> rl' \<noteq> count)"
      using Suc.hyps(2) Suc.prems(1,3) a by (intro Suc.hyps(1)) auto
    have "run_scan dev sb count [a..<usfs_data_blocks sb] cur buf rs rl =
        run_scan dev sb count [Suc a..<usfs_data_blocks sb] (of_nat (a div 32768)) (blk dev ?b) rs 0"
      unfolding l using ld(1) True used by (simp add: ld(2) Let_def)
    with IH show ?thesis by simp
  next
    case False
    define rs1 where "rs1 = (if rl = 0 then of_nat a else rs)"
    have u: "unat (of_nat a :: u32) = a" using a32 by (intro unat_of_nat_small) simp
    have "unat rl + 1 < 2 ^ 32" using Suc.prems(3) unsigned_less [of count, where 'a = nat] by simp
    then have rl1: "unat (rl + 1) = Suc (unat rl)" by (simp add: unat_word_ariths)
    then have nz: "rl + 1 \<noteq> 0" by (metis nat.distinct(1) unat_eq_0)
    have rs1: "unat rs1 = a - unat rl" using Suc.prems(5) u by (auto simp: rs1_def)
    have free: "\<forall>k. a - unat rl \<le> k \<and> k < Suc a \<longrightarrow> \<not> usfs_used dev sb k" using Suc.prems(6) False by (auto simp: less_Suc_eq)
    have step: "run_scan dev sb count [a..<usfs_data_blocks sb] cur buf rs rl =
        (if rl + 1 = count then (Inr (rs1, rl + 1), dev)
         else run_scan dev sb count [Suc a..<usfs_data_blocks sb] (of_nat (a div 32768)) (blk dev ?b) rs1 (rl + 1))"
      unfolding l using ld(1) False used by (simp add: ld(2) Let_def rs1_def)
    show ?thesis
    proof (cases "rl + 1 = count")
      case True
      then have c: "unat count = Suc (unat rl)" using rl1 by simp
      have "usfs_run dev sb (unat rs1) (unat count)"
        using free a c Suc.prems(4) by (auto simp: usfs_run_def rs1)
      moreover have "\<forall>s' < unat rs1. \<not> usfs_run dev sb s' (unat count)" using Suc.prems(7) by (auto simp: usfs_run_def rs1)
      ultimately show ?thesis using step True by (intro disjI1 exI [of _ "unat rs1"]) simp
    next
      case n: False
      have lt: "unat (rl + 1) < unat count" using n rl1 Suc.prems(3) by (metis Suc_lessI word_unat_eq_iff)
      have "(\<exists>s. usfs_run dev sb s (unat count) \<and> (\<forall>s' < s. \<not> usfs_run dev sb s' (unat count)) \<and>
          run_scan dev sb count [Suc a..<usfs_data_blocks sb] (of_nat (a div 32768)) (blk dev ?b) rs1 (rl + 1) = (Inr (of_nat s, count), dev)) \<or>
        (\<forall>s. \<not> usfs_run dev sb s (unat count)) \<and>
          (\<exists>rs' rl'. run_scan dev sb count [Suc a..<usfs_data_blocks sb] (of_nat (a div 32768)) (blk dev ?b) rs1 (rl + 1) = (Inr (rs', rl'), dev) \<and> rl' \<noteq> count)"
        by (rule Suc.hyps(1)) (use Suc.hyps(2) Suc.prems(4,7) lt a rl1 rs1 free in auto)
      with step n show ?thesis by simp
    qed
  qed
qed

section \<open>Marking a run\<close>

lemma usfs_bitmap_block_inj:
  assumes "usfs_geometry dev sb" and "p < 32768 * unat (usb_bitmap_block_count sb)"
    and "q < 32768 * unat (usb_bitmap_block_count sb)"
  shows "usb_bitmap_start_block sb + of_nat (p div 32768) = usb_bitmap_start_block sb + of_nat (q div 32768)
    \<longleftrightarrow> p div 32768 = q div 32768"
  using usfs_geometryD(1) [OF assms(1,2)] usfs_geometryD(1) [OF assms(1,3)] by (metis add_left_cancel)

lemma usfs_geometry_dev: "total_blocks dev' = total_blocks dev \<Longrightarrow> usfs_geometry dev' sb = usfs_geometry dev sb"
  by (simp add: usfs_geometry_def)

text \<open>Block \<open>x\<close> lies outside the bitmap.\<close>

definition usfs_outside :: "usfs_superblock \<Rightarrow> u32 \<Rightarrow> bool" where
  "usfs_outside sb x \<longleftrightarrow> x < usb_bitmap_start_block sb \<or> usb_data_region_start sb \<le> x"

lemma usfs_bitmap_block_outside:
  assumes "usfs_geometry dev sb" and "rel < 32768 * unat (usb_bitmap_block_count sb)" and "usfs_outside sb x"
  shows "x \<noteq> usb_bitmap_start_block sb + of_nat (rel div 32768)"
proof -
  have "rel div 32768 < unat (usb_bitmap_block_count sb)" using assms(2) by (simp add: less_mult_imp_div_less mult.commute)
  then show ?thesis
    using usfs_geometryD(1) [OF assms(1,2)] assms(1,3)
    by (auto simp: usfs_geometry_def usfs_outside_def word_less_nat_alt word_le_nat_alt)
qed

text \<open>One bitmap block rewritten: the bits of that block are those of the new image.\<close>

lemma usfs_used_write:
  assumes dev: "htl_reliable dev" and geo: "usfs_geometry dev sb" and k: "k < unat (usb_bitmap_block_count sb)" and len: "length buf = 4096"
  defines "dev' \<equiv> blk_write dev (usb_bitmap_start_block sb + of_nat k) buf"
  shows "htl_write_block dev (usb_bitmap_start_block sb + of_nat k) buf = (HTL_OK, dev')" and "htl_reliable dev'" and "same_device dev dev'"
    and "x < total_blocks dev \<Longrightarrow> usfs_outside sb x \<Longrightarrow> blk dev' x = blk dev x"
    and "q < 32768 * unat (usb_bitmap_block_count sb) \<Longrightarrow>
      usfs_used dev' sb q = (if q div 32768 = k then bits_of buf (q mod 32768) else usfs_used dev sb q)"
proof -
  have k': "32768 * k < 32768 * unat (usb_bitmap_block_count sb)" using k by simp
  have b: "usb_bitmap_start_block sb + of_nat k < total_blocks dev" using usfs_geometryD(2) [OF geo k'] by simp
  show "htl_write_block dev (usb_bitmap_start_block sb + of_nat k) buf = (HTL_OK, dev')" "htl_reliable dev'" "same_device dev dev'"
    using dev b len by (simp_all add: dev'_def dev_simps)
  show "blk dev' x = blk dev x" if "x < total_blocks dev" "usfs_outside sb x"
    using usfs_bitmap_block_outside [OF geo k' that(2)] dev b len that by (simp add: dev'_def dev_simps)
  show "usfs_used dev' sb q = (if q div 32768 = k then bits_of buf (q mod 32768) else usfs_used dev sb q)"
    if q: "q < 32768 * unat (usb_bitmap_block_count sb)"
    using usfs_bitmap_block_inj [OF geo q k'] usfs_geometryD(2) [OF geo q] dev b len
    by (auto simp: usfs_used_def dev'_def dev_simps)
qed

definition usfs_marked :: "'c htl_device \<Rightarrow> usfs_superblock \<Rightarrow> nat set \<Rightarrow> bool \<Rightarrow> 'c htl_device \<Rightarrow> bool" where
  "usfs_marked dev sb R v dev' \<longleftrightarrow>
     htl_reliable dev' \<and> same_device dev dev' \<and>
     (\<forall>x. x < total_blocks dev \<longrightarrow> usfs_outside sb x \<longrightarrow> blk dev' x = blk dev x) \<and>
     (\<forall>q < 32768 * unat (usb_bitmap_block_count sb). usfs_used dev' sb q = (if q \<in> R then v else usfs_used dev sb q))"

lemma run_bounds:
  fixes rel_start count :: u32
  assumes "0 < unat count" and "unat rel_start + unat count < 2 ^ 32"
  shows "unat (rel_start + count - 1) = unat rel_start + unat count - 1"
    and "unat (rel_start div 32768) = unat rel_start div 32768" and "unat (rel_start mod 32768) = unat rel_start mod 32768"
    and "unat ((rel_start + count - 1) div 32768) = (unat rel_start + unat count - 1) div 32768"
    and "unat ((rel_start + count - 1) mod 32768) = (unat rel_start + unat count - 1) mod 32768"
proof -
  have s: "unat (rel_start + count) = unat rel_start + unat count" using assms(2) by (simp add: unat_word_ariths)
  have "(1 :: u32) \<le> rel_start + count" using s assms(1) by (simp add: word_le_nat_alt)
  then show u: "unat (rel_start + count - 1) = unat rel_start + unat count - 1" using s by (simp add: unat_sub)
  show "unat (rel_start div 32768) = unat rel_start div 32768" "unat (rel_start mod 32768) = unat rel_start mod 32768"
    "unat ((rel_start + count - 1) div 32768) = (unat rel_start + unat count - 1) div 32768"
    "unat ((rel_start + count - 1) mod 32768) = (unat rel_start + unat count - 1) mod 32768"
    by (simp_all add: unat_div unat_mod u)
qed

lemma mod_le_iff: "(r :: nat) mod m \<le> p \<longleftrightarrow> r \<le> m * (r div m) + p"
proof -
  have "m * (r div m) + r mod m \<le> m * (r div m) + p \<longleftrightarrow> r mod m \<le> p" by (rule add_le_cancel_left)
  then show ?thesis unfolding mult_div_mod_eq by blast
qed

lemma mark_run_bits:
  fixes r n k p :: nat
  assumes "0 < n" and "first = r div 32768" and "last' = (r + n - 1) div 32768" and "first \<le> k" and "k \<le> last'" and "p < 32768"
  shows "(if k = first then r mod 32768 else 0) \<le> p \<and> p \<le> (if k = last' then (r + n - 1) mod 32768 else 32767) \<longleftrightarrow>
    r \<le> 32768 * k + p \<and> 32768 * k + p < r + n"
proof -
  have lo: "(if k = first then r mod 32768 else 0) \<le> p \<longleftrightarrow> r \<le> 32768 * k + p"
  proof (cases "k = first")
    case True
    then show ?thesis using assms(2) by (simp add: mod_le_iff)
  next
    case False
    then have "r div 32768 < k" using assms(2,4) by simp
    then have "r < 32768 * k" by (simp add: div_less_iff_less_mult mult.commute)
    then show ?thesis using False by simp
  qed
  have hi: "p \<le> (if k = last' then (r + n - 1) mod 32768 else 32767) \<longleftrightarrow> 32768 * k + p < r + n"
  proof (cases "k = last'")
    case True
    have "r + n - 1 = 32768 * k + (r + n - 1) mod 32768" using True assms(3) by simp
    then show ?thesis using True assms(1) by auto
  next
    case False
    then have "k < (r + n - 1) div 32768" using assms(3,5) by simp
    then have "Suc k * 32768 \<le> r + n - 1" by (simp add: less_eq_div_iff_mult_less_eq Suc_le_eq [symmetric] del: mult_Suc)
    then show ?thesis using False assms(1,6) by auto
  qed
  from lo hi show ?thesis by blast
qed

lemma mark_run_marked:
  fixes dev :: "'c htl_device" and rel_start count :: u32
  defines "r \<equiv> unat rel_start" and "n \<equiv> unat count"
  assumes geo: "usfs_geometry dev sb" and dev: "htl_reliable dev" and n: "0 < n" and le: "r + n \<le> usfs_data_blocks sb"
    and first: "r div 32768 \<le> k" and "k \<le> Suc ((r + n - 1) div 32768)"
  shows "\<exists>dev'. mark_run dev sb rel_start count v [k..<Suc ((r + n - 1) div 32768)] = (USFS_OK, dev') \<and>
    usfs_marked dev sb {q. 32768 * k \<le> q \<and> r \<le> q \<and> q < r + n} v dev'"
  using geo dev first assms(8)
proof (induction "Suc ((r + n - 1) div 32768) - k" arbitrary: k dev)
  case 0
  then have k: "k = Suc ((r + n - 1) div 32768)" by simp
  have "r + n - 1 < 32768 * k" unfolding k by (simp add: div_less_iff_less_mult [symmetric] mult.commute)
  then have "{q. 32768 * k \<le> q \<and> r \<le> q \<and> q < r + n} = {}" using n by auto
  then show ?case using 0 k by (auto simp: usfs_marked_def)
next
  case (Suc m)
  let ?l = "(r + n - 1) div 32768"
  have k: "k \<le> ?l" and l: "[k..<Suc ?l] = k # [Suc k..<Suc ?l]" using Suc(2) by (simp_all add: upt_conv_Cons del: upt_Suc)
  have b: "r + n - 1 < 32768 * unat (usb_bitmap_block_count sb)" using usfs_rel_bitmap [OF Suc.prems(1), of "r + n - 1"] le n by simp
  then have "?l < unat (usb_bitmap_block_count sb)" by (simp add: div_less_iff_less_mult mult.commute)
  then have kc: "k < unat (usb_bitmap_block_count sb)" using k by simp
  have "r + n < 2 ^ 32 " using le usfs_data_blocks_word(3) [OF Suc.prems(1)] by simp
  note w = run_bounds [of count rel_start, folded r_def n_def, OF n this]
  have "?l < 2 ^ 32" using w(4) unsigned_less [of "(rel_start + count - 1) div 32768", where 'a = nat] by simp
  then have uk: "unat (of_nat k :: u32) = k" using k by (intro unat_of_nat_small) simp
  have bl: "usb_bitmap_start_block sb + of_nat k < total_blocks dev" using usfs_geometryD(2) [OF Suc.prems(1), of "32768 * k"] kc by simp
  define buf where "buf = blk dev (usb_bitmap_start_block sb + of_nat k)"
  define lo where "lo = (if of_nat k = rel_start div 32768 then rel_start mod 32768 else 0)"
  define hi where "hi = (if of_nat k = (rel_start + count - 1) div 32768 then (rel_start + count - 1) mod 32768 else 32767)"
  have eqs: "of_nat k = rel_start div 32768 \<longleftrightarrow> k = r div 32768" "of_nat k = (rel_start + count - 1) div 32768 \<longleftrightarrow> k = ?l"
    by (simp_all add: word_unat_eq_iff uk w)
  have lohi: "unat lo = (if k = r div 32768 then r mod 32768 else 0)" "unat hi = (if k = ?l then (r + n - 1) mod 32768 else 32767)"
    by (simp_all add: lo_def hi_def eqs w)
  have hi: "unat hi < 32768" by (simp add: lohi)
  have len: "length buf = 4096" using Suc.prems(2) bl by (simp add: buf_def length_blk)
  note f = bits_fill_eq [OF len hi, where lo = lo and v = v]
  let ?d = "blk_write dev (usb_bitmap_start_block sb + of_nat k) (bits_fill buf lo hi v)"
  note u = usfs_used_write [OF Suc.prems(2,1) kc f(1)]
  have tb: "total_blocks ?d = total_blocks dev" by simp
  have geo1: "usfs_geometry ?d sb" using usfs_geometry_dev [OF tb] Suc.prems(1) by simp
  obtain dev' where IH: "mark_run ?d sb rel_start count v [Suc k..<Suc ?l] = (USFS_OK, dev')"
    "usfs_marked ?d sb {q. 32768 * Suc k \<le> q \<and> r \<le> q \<and> q < r + n} v dev'"
    using Suc.hyps(1) [OF _ geo1 u(2), of "Suc k"] Suc.hyps(2) Suc.prems(3) k by fastforce
  have run: "mark_run dev sb rel_start count v [k..<Suc ?l] = (USFS_OK, dev')"
    unfolding l using Suc.prems(2) bl u(1) IH(1)
    by (simp add: htl_read_reliable Let_def lo_def [symmetric] hi_def [symmetric] buf_def [symmetric] del: upt_Suc)
  have bits: "usfs_used dev' sb q = (if 32768 * k \<le> q \<and> r \<le> q \<and> q < r + n then v else usfs_used dev sb q)"
    if q: "q < 32768 * unat (usb_bitmap_block_count sb)" for q
  proof (cases "q div 32768 = k")
    case True
    then have e: "q = 32768 * k + q mod 32768" using mult_div_mod_eq [of 32768 q] by simp
    have e2: "q < 32768 * Suc k" using e mod_less_divisor [of 32768 q] by simp
    have "unat lo \<le> q mod 32768 \<and> q mod 32768 \<le> unat hi \<longleftrightarrow> r \<le> q \<and> q < r + n"
      unfolding lohi using mark_run_bits [OF n refl refl Suc.prems(3) k, of "q mod 32768"] e by simp
    moreover have "usfs_used dev' sb q = usfs_used ?d sb q" using IH(2) q e2 by (auto simp: usfs_marked_def)
    moreover have "usfs_used dev sb q = bits_of buf (q mod 32768)" using True by (simp add: usfs_used_def buf_def)
    ultimately show ?thesis using u(5) [OF q] True f(2) [of "q mod 32768"] e by auto
  next
    case False
    have d: "32768 * j \<le> q \<longleftrightarrow> j \<le> q div 32768" for j by (simp add: less_eq_div_iff_mult_less_eq mult.commute)
    have "32768 * Suc k \<le> q \<longleftrightarrow> 32768 * k \<le> q" unfolding d using False by linarith
    then show ?thesis using IH(2) q u(5) [OF q] False by (auto simp: usfs_marked_def)
  qed
  have out: "blk dev' x = blk dev x" if "x < total_blocks dev" "usfs_outside sb x" for x
    using IH(2) u(4) [OF that] that by (simp add: usfs_marked_def)
  have "same_device dev dev'" using same_trans [OF u(3)] IH(2) by (simp add: usfs_marked_def)
  with run bits out IH(2) show ?case by (auto simp: usfs_marked_def)
qed

section \<open>Allocated blocks\<close>

definition usfs_region :: "usfs_superblock \<Rightarrow> u32 set" where
  "usfs_region sb = {b. usb_data_region_start sb \<le> b \<and> b < usb_total_blocks sb}"

definition usfs_allocated :: "'c htl_device \<Rightarrow> usfs_superblock \<Rightarrow> u32 set" where
  "usfs_allocated dev sb = {b \<in> usfs_region sb. usfs_used dev sb (unat b - unat (usb_data_region_start sb))}"

definition usfs_free_set :: "'c htl_device \<Rightarrow> usfs_superblock \<Rightarrow> nat set" where
  "usfs_free_set dev sb = {r. r < usfs_data_blocks sb \<and> \<not> usfs_used dev sb r}"

text \<open>The blocks of a run that starts at block \<open>first\<close>.\<close>

definition extent :: "u32 \<Rightarrow> u32 \<Rightarrow> u32 set" where
  "extent first count = {b. unat first \<le> unat b \<and> unat b < unat first + unat count}"

definition usfs_alloc_inv :: "'c htl_device \<Rightarrow> usfs_superblock \<Rightarrow> bool" where
  "usfs_alloc_inv dev sb \<longleftrightarrow>
     htl_reliable dev \<and> usfs_geometry dev sb \<and> unat (usb_free_blocks sb) = card (usfs_free_set dev sb)"

lemma extent_empty [simp]: "extent first 0 = {}"
  by (simp add: extent_def)

lemma finite_usfs_free_set [simp]: "finite (usfs_free_set dev sb)"
  by (rule finite_subset [of _ "{..<usfs_data_blocks sb}"]) (auto simp: usfs_free_set_def)

lemma usfs_counter_cong [simp]:
  "usfs_geometry dev (sb\<lparr>usb_free_blocks := f\<rparr>) = usfs_geometry dev sb"
  "usfs_used dev (sb\<lparr>usb_free_blocks := f\<rparr>) = usfs_used dev sb"
  "usfs_data_blocks (sb\<lparr>usb_free_blocks := f\<rparr>) = usfs_data_blocks sb"
  "usfs_free_set dev (sb\<lparr>usb_free_blocks := f\<rparr>) = usfs_free_set dev sb"
  "usfs_region (sb\<lparr>usb_free_blocks := f\<rparr>) = usfs_region sb"
  "usfs_allocated dev (sb\<lparr>usb_free_blocks := f\<rparr>) = usfs_allocated dev sb"
  "usfs_outside (sb\<lparr>usb_free_blocks := f\<rparr>) = usfs_outside sb"
  by (simp_all add: usfs_geometry_def usfs_used_def usfs_data_blocks_def usfs_free_set_def usfs_region_def
      usfs_allocated_def usfs_outside_def fun_eq_iff)

lemma usfs_region_rel:
  assumes "b \<in> usfs_region sb"
  shows "unat b - unat (usb_data_region_start sb) < usfs_data_blocks sb"
    and "unat (usb_data_region_start sb) + (unat b - unat (usb_data_region_start sb)) = unat b"
  using assms by (auto simp: usfs_region_def usfs_data_blocks_def word_less_nat_alt word_le_nat_alt)

lemma usfs_region_outside:
  assumes "usfs_geometry dev sb" and "b \<in> usfs_region sb"
  shows "b < total_blocks dev" and "usfs_outside sb b" and "0 < unat b"
  using assms by (auto simp: usfs_geometry_def usfs_region_def usfs_outside_def word_less_nat_alt word_le_nat_alt)

text \<open>A run of relative blocks as an extent of the region.\<close>

lemma usfs_run_extent:
  assumes geo: "usfs_geometry dev sb" and le: "r + unat count \<le> usfs_data_blocks sb" and n: "0 < unat count"
  defines "first \<equiv> usb_data_region_start sb + of_nat r"
  shows "unat first = unat (usb_data_region_start sb) + r" and "extent first count \<subseteq> usfs_region sb"
    and "b \<in> usfs_region sb \<Longrightarrow> b \<in> extent first count \<longleftrightarrow>
      unat b - unat (usb_data_region_start sb) \<in> {r..<r + unat count}"
    and "unat first + unat count \<le> unat (usb_total_blocks sb)"
proof -
  have lt: "unat (usb_data_region_start sb) + r + unat count \<le> unat (usb_total_blocks sb)"
    using le geo by (auto simp: usfs_geometry_def usfs_data_blocks_def)
  moreover have "unat (usb_data_region_start sb) + r < 2 ^ 32"
    using lt n unsigned_less [of "usb_total_blocks sb", where 'a = nat] by simp
  ultimately show u: "unat first = unat (usb_data_region_start sb) + r"
    by (simp add: first_def unat_word_ariths unat_of_nat_small)
  show "extent first count \<subseteq> usfs_region sb"
    using lt u by (auto simp: extent_def usfs_region_def word_le_nat_alt word_less_nat_alt)
  show "unat first + unat count \<le> unat (usb_total_blocks sb)" using lt u by simp
  show "b \<in> extent first count \<longleftrightarrow> unat b - unat (usb_data_region_start sb) \<in> {r..<r + unat count}" if "b \<in> usfs_region sb"
    using usfs_region_rel(2) [OF that] u by (auto simp: extent_def)
qed

lemma usfs_extent_rel:
  assumes geo: "usfs_geometry dev sb" and "extent first count \<subseteq> usfs_region sb" and "0 < unat count"
    and "unat first + unat count \<le> 2 ^ 32"
  shows "usb_data_region_start sb \<le> first" and "unat first + unat count \<le> unat (usb_total_blocks sb)"
    and "unat (first - usb_data_region_start sb) = unat first - unat (usb_data_region_start sb)"
    and "unat (first - usb_data_region_start sb) + unat count \<le> usfs_data_blocks sb"
proof -
  have f: "first \<in> usfs_region sb" using assms(2,3) by (auto simp: extent_def)
  then show le: "usb_data_region_start sb \<le> first" by (simp add: usfs_region_def)
  then show u: "unat (first - usb_data_region_start sb) = unat first - unat (usb_data_region_start sb)" by (simp add: unat_sub word_le_nat_alt)
  have "unat (of_nat (unat first + unat count - 1) :: u32) = unat first + unat count - 1"
    using assms(3,4) by (intro unat_of_nat_small) auto
  then have "of_nat (unat first + unat count - 1) \<in> extent first count" using assms(3) by (simp add: extent_def)
  then have "of_nat (unat first + unat count - 1) < usb_total_blocks sb" using assms(2) by (auto simp: usfs_region_def)
  then show t: "unat first + unat count \<le> unat (usb_total_blocks sb)"
    using \<open>unat (of_nat _ :: u32) = _\<close> by (simp add: word_less_nat_alt)
  show "unat (first - usb_data_region_start sb) + unat count \<le> usfs_data_blocks sb"
    using u t le by (simp add: usfs_data_blocks_def word_le_nat_alt)
qed

text \<open>The set of allocated blocks and the counter after a run has been marked.\<close>

lemma usfs_marked_allocated:
  assumes dev: "htl_reliable dev" and geo: "usfs_geometry dev sb" and m: "usfs_marked dev sb {r..<r + unat count} v dev'"
    and le: "r + unat count \<le> usfs_data_blocks sb" and n: "0 < unat count"
  defines "first \<equiv> usb_data_region_start sb + of_nat r"
  shows "usfs_allocated dev' sb = (if v then usfs_allocated dev sb \<union> extent first count else usfs_allocated dev sb - extent first count)"
    and "usfs_free_set dev' sb = (if v then usfs_free_set dev sb - {r..<r + unat count} else usfs_free_set dev sb \<union> {r..<r + unat count})"
    and "usfs_geometry dev' sb" and "htl_reliable dev'"
proof -
  note e = usfs_run_extent [OF geo le n, folded first_def]
  have u: "usfs_used dev' sb q = (if q \<in> {r..<r + unat count} then v else usfs_used dev sb q)" if "q < usfs_data_blocks sb" for q
    using m usfs_rel_bitmap [OF geo that] by (auto simp: usfs_marked_def)
  show "usfs_allocated dev' sb = (if v then usfs_allocated dev sb \<union> extent first count else usfs_allocated dev sb - extent first count)"
  proof (rule set_eqI)
    fix b
    show "b \<in> usfs_allocated dev' sb \<longleftrightarrow> b \<in> (if v then usfs_allocated dev sb \<union> extent first count else usfs_allocated dev sb - extent first count)"
    proof (cases "b \<in> usfs_region sb")
      case True
      then show ?thesis using u [OF usfs_region_rel(1) [OF True]] e(3) [OF True] by (auto simp: usfs_allocated_def)
    qed (use e(2) in \<open>auto simp: usfs_allocated_def\<close>)
  qed
  show "usfs_free_set dev' sb = (if v then usfs_free_set dev sb - {r..<r + unat count} else usfs_free_set dev sb \<union> {r..<r + unat count})"
  proof (rule set_eqI)
    fix q
    show "q \<in> usfs_free_set dev' sb \<longleftrightarrow> q \<in> (if v then usfs_free_set dev sb - {r..<r + unat count} else usfs_free_set dev sb \<union> {r..<r + unat count})"
    proof (cases "q < usfs_data_blocks sb")
      case True
      from u [OF True] show ?thesis using True by (simp add: usfs_free_set_def) blast
    qed (use le in \<open>auto simp: usfs_free_set_def\<close>)
  qed
  from m have d: "htl_reliable dev'" "same_device dev dev'" by (simp_all add: usfs_marked_def)
  have tb: "total_blocks dev' = total_blocks dev" using same_deviceD [OF d(2)] by simp
  show "usfs_geometry dev' sb" "htl_reliable dev'" using d(1) geo usfs_geometry_dev [OF tb] by simp_all
qed

lemma mark_run_blocks:
  assumes geo: "usfs_geometry dev sb" and dev: "htl_reliable dev" and n: "0 < unat count"
    and le: "unat rel_start + unat count \<le> usfs_data_blocks sb"
  obtains dev' where "mark_run dev sb rel_start count v (run_blocks rel_start count) = (USFS_OK, dev')"
    "usfs_marked dev sb {unat rel_start..<unat rel_start + unat count} v dev'"
proof -
  have "unat rel_start + unat count < 2 ^ 32" using le usfs_data_blocks_word(3) [OF geo] by simp
  note w = run_bounds [OF n this]
  have "unat rel_start div 32768 \<le> Suc ((unat rel_start + unat count - 1) div 32768)"
    using n div_le_mono [of "unat rel_start" "unat rel_start + unat count - 1" 32768] by simp
  from mark_run_marked [OF geo dev n le order_refl this, of v]
  obtain dev' where "mark_run dev sb rel_start count v (run_blocks rel_start count) = (USFS_OK, dev')"
    "usfs_marked dev sb {q. 32768 * (unat rel_start div 32768) \<le> q \<and> unat rel_start \<le> q \<and> q < unat rel_start + unat count} v dev'"
    unfolding run_blocks_def w by blast
  moreover have "32768 * (unat rel_start div 32768) \<le> unat rel_start" by simp
  then have "{q. 32768 * (unat rel_start div 32768) \<le> q \<and> unat rel_start \<le> q \<and> q < unat rel_start + unat count} =
      {unat rel_start..<unat rel_start + unat count}" by auto
  ultimately show thesis using that by simp
qed

section \<open>Allocating and freeing runs\<close>

text \<open>What a change of the allocation leaves alone: everything outside the bitmap and the superblock in
  memory but for its free counter.\<close>

definition usfs_kept :: "'c htl_device \<Rightarrow> usfs_superblock \<Rightarrow> 'c htl_device \<Rightarrow> usfs_superblock \<Rightarrow> bool" where
  "usfs_kept dev sb dev' sb' \<longleftrightarrow>
     same_device dev dev' \<and> sb' = sb\<lparr>usb_free_blocks := usb_free_blocks sb'\<rparr> \<and>
     (\<forall>x. x < total_blocks dev \<longrightarrow> usfs_outside sb x \<longrightarrow> blk dev' x = blk dev x)"

lemma usfs_run_card:
  assumes "usfs_run dev sb s n"
  shows "{s..<s + n} \<subseteq> usfs_free_set dev sb" and "n \<le> card (usfs_free_set dev sb)"
proof -
  show sub: "{s..<s + n} \<subseteq> usfs_free_set dev sb" using assms by (auto simp: usfs_run_def usfs_free_set_def)
  from card_mono [OF finite_usfs_free_set sub] show "n \<le> card (usfs_free_set dev sb)" by simp
qed

lemma usfs_block_alloc_cases:
  assumes inv: "usfs_alloc_inv dev sb" and vw: "usfs_volume_writable sb = USFS_OK" and n: "count \<noteq> 0"
  obtains (found) s dev' sb' where "usfs_run dev sb s (unat count)" "\<forall>s' < s. \<not> usfs_run dev sb s' (unat count)"
      "usfs_block_alloc dev sb count = (Inr (usb_data_region_start sb + of_nat s), dev', sb')"
      "usfs_alloc_inv dev' sb'" "usfs_kept dev sb dev' sb'"
      "usfs_allocated dev' sb' = usfs_allocated dev sb \<union> extent (usb_data_region_start sb + of_nat s) count"
  | (none) "\<forall>s. \<not> usfs_run dev sb s (unat count)" "usfs_block_alloc dev sb count = (Inl USFS_ERR_NO_FREE_BLOCKS, dev, sb)"
proof -
  from inv have dev: "htl_reliable dev" and geo: "usfs_geometry dev sb" and fc: "unat (usb_free_blocks sb) = card (usfs_free_set dev sb)"
    by (simp_all add: usfs_alloc_inv_def)
  have n0: "0 < unat count" using n by (simp add: unat_gt_0)
  have nd: "\<not> usb_total_blocks sb \<le> usb_data_region_start sb" using geo by (simp add: usfs_geometry_def word_le_nat_alt)
  have dbc: "unat (data_block_count sb) = usfs_data_blocks sb" by (rule usfs_data_blocks_word(1) [OF geo])
  show thesis
  proof (cases "count > usb_free_blocks sb")
    case True
    then have "\<not> usfs_run dev sb s (unat count)" for s using usfs_run_card(2) [of dev sb s "unat count"] fc by (auto simp: word_less_nat_alt)
    then show thesis using none True by (simp add: usfs_block_alloc_def)
  next
    case False
    have "(\<exists>s. usfs_run dev sb s (unat count) \<and> (\<forall>s' < s. \<not> usfs_run dev sb s' (unat count)) \<and>
        run_scan dev sb count [0..<usfs_data_blocks sb] 0xFFFFFFFF [] 0 0 = (Inr (of_nat s, count), dev)) \<or>
      (\<forall>s. \<not> usfs_run dev sb s (unat count)) \<and>
        (\<exists>rs rl. run_scan dev sb count [0..<usfs_data_blocks sb] 0xFFFFFFFF [] 0 0 = (Inr (rs, rl), dev) \<and> rl \<noteq> count)"
      by (rule run_scan_run [OF dev geo]) (use n0 in auto)
    then consider (run) s where "usfs_run dev sb s (unat count)" "\<forall>s' < s. \<not> usfs_run dev sb s' (unat count)"
        "run_scan dev sb count [0..<usfs_data_blocks sb] 0xFFFFFFFF [] 0 0 = (Inr (of_nat s, count), dev)"
      | (no) rs rl where "\<forall>s. \<not> usfs_run dev sb s (unat count)"
        "run_scan dev sb count [0..<usfs_data_blocks sb] 0xFFFFFFFF [] 0 0 = (Inr (rs, rl), dev)" "rl \<noteq> count" by blast
    then show thesis
    proof cases
      case run
      have le: "s + unat count \<le> usfs_data_blocks sb" using run(1) by (simp add: usfs_run_def)
      then have u: "unat (of_nat s :: u32) = s" using usfs_data_blocks_word(3) [OF geo] by (intro unat_of_nat_small) simp
      obtain dev' where m: "mark_run dev sb (of_nat s) count True (run_blocks (of_nat s) count) = (USFS_OK, dev')"
        "usfs_marked dev sb {s..<s + unat count} True dev'"
        using mark_run_blocks [OF geo dev n0, of "of_nat s" True] le u by auto
      define sb' where "sb' = sb\<lparr>usb_free_blocks := usb_free_blocks sb - count\<rparr>"
      have a: "usfs_block_alloc dev sb count = (Inr (usb_data_region_start sb + of_nat s), dev', sb')"
        using n False nd vw run(3) m(1) by (simp add: usfs_block_alloc_def dbc Let_def sb'_def)
      note ma = usfs_marked_allocated [OF dev geo m(2) le n0]
      have "card (usfs_free_set dev sb - {s..<s + unat count}) = card (usfs_free_set dev sb) - unat count"
        using card_Diff_subset [OF _ usfs_run_card(1) [OF run(1)]] by simp
      then have "unat (usb_free_blocks sb - count) = card (usfs_free_set dev' sb)"
        using ma(2) fc False by (simp add: unat_sub word_le_nat_alt not_less)
      then have "usfs_alloc_inv dev' sb'" using ma(3,4) by (simp add: usfs_alloc_inv_def sb'_def)
      moreover have "usfs_kept dev sb dev' sb'" using m(2) by (simp add: usfs_kept_def usfs_marked_def sb'_def)
      ultimately show thesis using found [OF run(1,2) a] ma(1) by (simp add: sb'_def)
    next
      case no
      then show thesis using none n False nd vw by (simp add: usfs_block_alloc_def dbc Let_def)
    qed
  qed
qed

lemma usfs_block_free_ok:
  assumes inv: "usfs_alloc_inv dev sb" and vw: "usfs_volume_writable sb = USFS_OK" and n: "count \<noteq> 0"
    and al: "extent first count \<subseteq> usfs_allocated dev sb" and w: "unat first + unat count \<le> 2 ^ 32"
  obtains dev' sb' where "usfs_block_free dev sb first count = (USFS_OK, dev', sb')" "usfs_alloc_inv dev' sb'"
    "usfs_kept dev sb dev' sb'" "usfs_allocated dev' sb' = usfs_allocated dev sb - extent first count"
proof -
  from inv have dev: "htl_reliable dev" and geo: "usfs_geometry dev sb" and fc: "unat (usb_free_blocks sb) = card (usfs_free_set dev sb)"
    by (simp_all add: usfs_alloc_inv_def)
  have n0: "0 < unat count" using n by (simp add: unat_gt_0)
  have reg: "extent first count \<subseteq> usfs_region sb" using al by (auto simp: usfs_allocated_def)
  note e = usfs_extent_rel [OF geo reg n0 w]
  define r where "r = unat (first - usb_data_region_start sb)"
  have first: "usb_data_region_start sb + of_nat r = first" by (simp add: r_def)
  obtain dev' where m: "mark_run dev sb (first - usb_data_region_start sb) count False (run_blocks (first - usb_data_region_start sb) count) = (USFS_OK, dev')"
    "usfs_marked dev sb {r..<r + unat count} False dev'"
    using mark_run_blocks [OF geo dev n0 e(4), of False] by (auto simp: r_def)
  have le: "r + unat count \<le> usfs_data_blocks sb" using e(4) by (simp add: r_def)
  note ma = usfs_marked_allocated [OF dev geo m(2) le n0, unfolded first]
  note ex = usfs_run_extent [OF geo le n0, unfolded first]
  have "{r..<r + unat count} \<inter> usfs_free_set dev sb = {}"
  proof -
    have "usfs_used dev sb k" if k: "k \<in> {r..<r + unat count}" for k
    proof -
      have u: "unat (of_nat (unat (usb_data_region_start sb) + k) :: u32) = unat (usb_data_region_start sb) + k"
        using k ex(1,4) unsigned_less [of "usb_total_blocks sb", where 'a = nat] by (intro unat_of_nat_small) simp
      then have "of_nat (unat (usb_data_region_start sb) + k) \<in> extent first count" using k ex(1) by (auto simp: extent_def simp del: of_nat_add)
      then have "of_nat (unat (usb_data_region_start sb) + k) \<in> usfs_allocated dev sb" using al by blast
      then show ?thesis using u by (simp add: usfs_allocated_def del: of_nat_add)
    qed
    then show ?thesis by (auto simp: usfs_free_set_def)
  qed
  then have "card (usfs_free_set dev' sb) = card (usfs_free_set dev sb) + unat count"
    using ma(2) by (simp add: card_Un_disjoint Int_commute)
  moreover have "card (usfs_free_set dev' sb) \<le> usfs_data_blocks sb"
    using card_mono [of "{..<usfs_data_blocks sb}" "usfs_free_set dev' sb"] by (auto simp: usfs_free_set_def)
  ultimately have "unat (usb_free_blocks sb + count) = card (usfs_free_set dev' sb)"
    using fc usfs_data_blocks_word(3) [OF geo] by (simp add: unat_word_ariths)
  then have i: "usfs_alloc_inv dev' (sb\<lparr>usb_free_blocks := usb_free_blocks sb + count\<rparr>)"
    using ma(3,4) by (simp add: usfs_alloc_inv_def)
  have "unat first + unat count < 2 ^ 64" using w by simp
  then have "unat (ucast first + ucast count :: u64) = unat first + unat count"
    by (simp add: unat_word_ariths unat_ucast_up)
  then have nw: "\<not> (ucast first + ucast count :: u64) > ucast (usb_total_blocks sb)"
    using e(2) by (simp add: word_less_nat_alt unat_ucast_up)
  have "usfs_block_free dev sb first count = (USFS_OK, dev', sb\<lparr>usb_free_blocks := usb_free_blocks sb + count\<rparr>)"
    using n e(1) nw vw m(1) by (simp add: usfs_block_free_def Let_def not_less)
  moreover have "usfs_kept dev sb dev' (sb\<lparr>usb_free_blocks := usb_free_blocks sb + count\<rparr>)"
    using m(2) by (simp add: usfs_kept_def usfs_marked_def)
  ultimately show thesis using that i ma(1) by simp
qed

text \<open>One block at a time, the bitmap is a block allocator.\<close>

lemma extent_one: "extent b 1 = {b}"
  by (auto simp: extent_def word_unat_eq_iff)

lemma usfs_run_one:
  assumes "usfs_geometry dev sb"
  shows "(\<exists>s. usfs_run dev sb s 1) \<longleftrightarrow> \<not> usfs_region sb \<subseteq> usfs_allocated dev sb"
proof
  assume "\<exists>s. usfs_run dev sb s 1"
  then obtain s where s: "s < usfs_data_blocks sb" "\<not> usfs_used dev sb s" unfolding usfs_run_def by (metis Suc_eq_plus1 Suc_le_eq lessI order_refl)
  have le: "s + unat (1 :: u32) \<le> usfs_data_blocks sb" using s(1) by simp
  note e = usfs_run_extent [OF assms le]
  let ?b = "usb_data_region_start sb + of_nat s"
  have "?b \<in> usfs_region sb" using e(2) by (simp add: extent_one)
  moreover have "unat ?b - unat (usb_data_region_start sb) = s" using e(1) by simp
  ultimately have "?b \<in> usfs_region sb - usfs_allocated dev sb" using s(2) by (simp add: usfs_allocated_def)
  then show "\<not> usfs_region sb \<subseteq> usfs_allocated dev sb" by blast
next
  assume "\<not> usfs_region sb \<subseteq> usfs_allocated dev sb"
  then obtain b where b: "b \<in> usfs_region sb" "\<not> usfs_used dev sb (unat b - unat (usb_data_region_start sb))"
    by (auto simp: usfs_allocated_def)
  have "usfs_run dev sb (unat b - unat (usb_data_region_start sb)) 1"
    using usfs_region_rel(1) [OF b(1)] b(2) by (auto simp: usfs_run_def less_Suc_eq_le dest: le_antisym)
  then show "\<exists>s. usfs_run dev sb s 1" ..
qed

lemma usfs_run_free:
  assumes "usfs_geometry dev sb" and "usfs_run dev sb s (unat count)" and "0 < unat count"
  shows "extent (usb_data_region_start sb + of_nat s) count \<subseteq> usfs_region sb - usfs_allocated dev sb"
proof
  have le: "s + unat count \<le> usfs_data_blocks sb" using assms(2) by (simp add: usfs_run_def)
  note e = usfs_run_extent [OF assms(1) le assms(3)]
  fix b assume b: "b \<in> extent (usb_data_region_start sb + of_nat s) count"
  then have "b \<in> usfs_region sb" using e(2) by blast
  then show "b \<in> usfs_region sb - usfs_allocated dev sb"
    using e(3) b assms(2) by (auto simp: usfs_allocated_def usfs_run_def)
qed

lemma usfs_keptD:
  assumes "usfs_kept dev sb dev' sb'"
  shows "total_blocks dev' = total_blocks dev" and "usfs_region sb' = usfs_region sb" and "usfs_volume_writable sb' = usfs_volume_writable sb"
    and "usfs_geometry dev' sb' = usfs_geometry dev sb" and "same_device dev dev'"
    and "x < total_blocks dev \<Longrightarrow> usfs_outside sb x \<Longrightarrow> blk dev' x = blk dev x"
proof -
  from assms have s: "sb' = sb\<lparr>usb_free_blocks := usb_free_blocks sb'\<rparr>" by (simp only: usfs_kept_def)
  from assms show tb: "total_blocks dev' = total_blocks dev" and "same_device dev dev'" by (simp_all only: usfs_kept_def same_deviceD)
  show "usfs_region sb' = usfs_region sb" "usfs_volume_writable sb' = usfs_volume_writable sb" "usfs_geometry dev' sb' = usfs_geometry dev sb"
    by (subst s, simp add: usfs_volume_writable_def usfs_geometry_dev [OF tb])+
  show "blk dev' x = blk dev x" if "x < total_blocks dev" "usfs_outside sb x" using assms that by (simp only: usfs_kept_def)
qed

interpretation usfs_alloc: block_allocator
  "\<lambda>(dev, sb). usfs_block_alloc dev sb 1" "\<lambda>(dev, sb) b. usfs_block_free dev sb b 1" USFS_OK
  "\<lambda>(dev, sb). usfs_alloc_inv dev sb \<and> usfs_volume_writable sb = USFS_OK" "\<lambda>(dev, sb). usfs_region sb"
  "\<lambda>(dev, sb). usfs_allocated dev sb" "\<lambda>(dev, sb). blk dev"
proof (unfold_locales, goal_cases)
  case (1 s b s')
  obtain dev sb dev' sb' where s: "s = (dev, sb)" "s' = (dev', sb')" by (cases s; cases s')
  have i: "usfs_alloc_inv dev sb" "usfs_volume_writable sb = USFS_OK" "usfs_geometry dev sb" using 1 s by (simp_all add: usfs_alloc_inv_def)
  show ?case
  proof (cases rule: usfs_block_alloc_cases [OF i(1,2), of 1, case_names nz found none])
    case (found r dev1 sb1)
    then have e: "dev1 = dev'" "sb1 = sb'" "b = usb_data_region_start sb + of_nat r" using 1(2) s by simp_all
    note k = usfs_keptD [OF found(5) [unfolded e]]
    have "b \<in> usfs_region sb - usfs_allocated dev sb" using usfs_run_free [OF i(3) found(1)] by (simp add: extent_one e)
    then show ?thesis
      using found(4,6) k(2,3,6) i(2) usfs_region_outside [OF i(3)] by (auto simp: s e extent_one)
  next
    case none
    then show ?thesis using 1(2) s by simp
  qed simp
next
  case (2 s e s')
  obtain dev sb dev' sb' where s: "s = (dev, sb)" "s' = (dev', sb')" by (cases s; cases s')
  have i: "usfs_alloc_inv dev sb" "usfs_volume_writable sb = USFS_OK" "usfs_geometry dev sb" using 2 s by (simp_all add: usfs_alloc_inv_def)
  show ?case
  proof (cases rule: usfs_block_alloc_cases [OF i(1,2), of 1, case_names nz found none])
    case none
    then show ?thesis using 2(2) s usfs_run_one [OF i(3)] by auto
  qed (use 2(2) s in simp_all)
next
  case (3 s b e s')
  obtain dev sb dev' sb' where s: "s = (dev, sb)" "s' = (dev', sb')" by (cases s; cases s')
  have i: "usfs_alloc_inv dev sb" "usfs_volume_writable sb = USFS_OK" "usfs_geometry dev sb" "b \<in> usfs_allocated dev sb"
    using 3 s by (simp_all add: usfs_alloc_inv_def)
  have "unat b + unat (1 :: u32) \<le> 2 ^ 32" using unsigned_less [of b, where 'a = nat] by simp
  with i obtain dev1 sb1 where f: "usfs_block_free dev sb b 1 = (USFS_OK, dev1, sb1)" "usfs_alloc_inv dev1 sb1"
    "usfs_kept dev sb dev1 sb1" "usfs_allocated dev1 sb1 = usfs_allocated dev sb - {b}"
    using usfs_block_free_ok [OF i(1,2), of 1 b] by (auto simp: extent_one)
  have e: "dev1 = dev'" "sb1 = sb'" "e = USFS_OK" using f(1) 3(3) s by simp_all
  show ?case using f(2,4) usfs_keptD(2,3,6) [OF f(3)] i(2) usfs_region_outside [OF i(3)] by (auto simp: s e)
next
  case (4 s)
  then show ?case by (auto simp: usfs_allocated_def split: prod.splits)
qed

section \<open>Counting, checksum, initialisation\<close>

lemma usfs_count_loop_filter:
  assumes dev: "htl_reliable dev" and geo: "usfs_geometry dev sb"
  shows "a \<le> usfs_data_blocks sb \<Longrightarrow> cur \<noteq> 0xFFFFFFFF \<longrightarrow> buf = blk dev (usb_bitmap_start_block sb + cur) \<Longrightarrow>
    usfs_count_loop dev sb [a..<usfs_data_blocks sb] cur buf fc =
      (fc + of_nat (length (filter (\<lambda>r. \<not> usfs_used dev sb r) [a..<usfs_data_blocks sb])), dev)"
proof (induction "usfs_data_blocks sb - a" arbitrary: a cur buf fc)
  case (Suc n)
  then have a: "a < usfs_data_blocks sb" and l: "[a..<usfs_data_blocks sb] = a # [Suc a..<usfs_data_blocks sb]"
    by (simp_all add: upt_conv_Cons)
  have "a < 2 ^ 32" using usfs_data_blocks_word(3) [OF geo] a by simp
  note used = bit_is_set_eq [OF this]
  note ld = load_bits_reliable [OF dev geo a Suc.prems(2)]
  show ?case
    unfolding l using ld(1) Suc.hyps a by (simp add: ld(2) Let_def used usfs_used_def)
qed simp

lemma usfs_bitmap_count_free_card:
  assumes "htl_reliable dev" and "usfs_geometry dev sb"
  shows "usfs_bitmap_count_free dev sb = (of_nat (card (usfs_free_set dev sb)), dev)"
proof -
  have "usfs_free_set dev sb = set (filter (\<lambda>r. \<not> usfs_used dev sb r) [0..<usfs_data_blocks sb])"
    by (auto simp: usfs_free_set_def)
  then have "card (usfs_free_set dev sb) = length (filter (\<lambda>r. \<not> usfs_used dev sb r) [0..<usfs_data_blocks sb])"
    by (simp only: distinct_card distinct_filter distinct_upt)
  moreover have "\<not> usb_total_blocks sb \<le> usb_data_region_start sb" using assms(2) by (simp add: usfs_geometry_def word_le_nat_alt)
  ultimately show ?thesis
    using usfs_count_loop_filter [OF assms, of 0 "0xFFFFFFFF" "[]" 0]
    by (simp add: usfs_bitmap_count_free_def usfs_data_blocks_word(1) [OF assms(2)])
qed

definition usfs_bitmap_bytes :: "'c htl_device \<Rightarrow> usfs_superblock \<Rightarrow> bytes" where
  "usfs_bitmap_bytes dev sb =
     concat (map (\<lambda>b. blk dev (usb_bitmap_start_block sb + of_nat b)) [0..<unat (usb_bitmap_block_count sb)])"

lemma usfs_bitmap_block_lt:
  assumes "usfs_geometry dev sb" and "b < unat (usb_bitmap_block_count sb)"
  shows "usb_bitmap_start_block sb + of_nat b < total_blocks dev"
  using usfs_geometryD(2) [OF assms(1), of "32768 * b"] assms(2) by simp

lemma usfs_fletcher_loop_run:
  assumes "htl_reliable dev" and "usfs_geometry dev sb"
  shows "\<forall>b\<in>set bs. b < unat (usb_bitmap_block_count sb) \<Longrightarrow>
    usfs_fletcher_loop dev sb bs s =
      (let s = fletcher_run (le_words (concat (map (\<lambda>b. blk dev (usb_bitmap_start_block sb + of_nat b)) bs))) s
       in (push_bit 32 (snd s) OR fst s, dev))"
proof (induction bs arbitrary: s)
  case (Cons b bs)
  then show ?case
    using assms usfs_bitmap_block_lt [OF assms(2)]
    by (simp add: dev_simps le_words_append usfs_block_fletcher_def block_fletcher_run del: upt_rec_numeral)
qed (simp add: le_words.simps)

lemma usfs_bitmap_fletcher64_eq:
  assumes "htl_reliable dev" and "usfs_geometry dev sb"
  shows "usfs_bitmap_compute_fletcher64 dev sb =
    (ow_fletcher64 (usfs_bitmap_bytes dev sb) (4096 * unat (usb_bitmap_block_count sb)), dev)"
proof -
  have "length (usfs_bitmap_bytes dev sb) = 4096 * unat (usb_bitmap_block_count sb)"
    unfolding usfs_bitmap_bytes_def using usfs_bitmap_block_lt [OF assms(2)] assms(1)
    by (subst length_concat_blocks) (simp_all add: dev_simps)
  then show ?thesis
    by (simp add: usfs_bitmap_compute_fletcher64_def usfs_fletcher_loop_run [OF assms]
        ow_fletcher64_words usfs_bitmap_bytes_def Let_def)
qed

lemma usfs_block_is_used_reliable:
  assumes dev: "htl_reliable dev" and geo: "usfs_geometry dev sb"
  shows "usfs_block_is_used dev sb block = (block \<in> usfs_allocated dev sb, dev)"
proof (cases "block \<in> usfs_region sb")
  case True
  then have b: "\<not> block < usb_data_region_start sb" "\<not> usb_total_blocks sb \<le> block" by (auto simp: usfs_region_def)
  define r where "r = unat block - unat (usb_data_region_start sb)"
  have r: "r < usfs_data_blocks sb" using usfs_region_rel(1) [OF True] by (simp add: r_def)
  have "unat (block - usb_data_region_start sb) = r" using b by (simp add: r_def unat_sub)
  then have w: "block - usb_data_region_start sb = of_nat r" by (metis of_nat_unat ucast_id)
  have r32: "r < 2 ^ 32" using r usfs_data_blocks_word(3) [OF geo] by simp
  have e: "of_nat r div 32768 = (of_nat (r div 32768) :: u32)" by (rule load_bits_reliable(2) [OF dev geo r, of "0xFFFFFFFF" "[]"]) simp
  show ?thesis
    using b True dev usfs_geometryD(2) [OF geo usfs_rel_bitmap [OF geo r]]
    by (simp add: usfs_block_is_used_def w e Let_def htl_read_reliable bit_is_set_eq [OF r32] usfs_allocated_def usfs_used_def r_def [symmetric])
next
  case False
  then show ?thesis by (auto simp: usfs_block_is_used_def usfs_region_def usfs_allocated_def)
qed

lemma usfs_bitmap_init_loop_ok:
  assumes "htl_reliable dev" and "usfs_geometry dev sb" and "\<forall>b\<in>set is. b < unat (usb_bitmap_block_count sb)"
  shows "\<exists>dev'. usfs_bitmap_init_loop dev sb is = (USFS_OK, dev') \<and> htl_reliable dev' \<and> same_device dev dev' \<and>
    (\<forall>x. x < total_blocks dev \<longrightarrow> usfs_outside sb x \<longrightarrow> blk dev' x = blk dev x) \<and>
    (\<forall>q < 32768 * unat (usb_bitmap_block_count sb). usfs_used dev' sb q = (q div 32768 \<notin> set is \<and> usfs_used dev sb q))"
  using assms
proof (induction "is" arbitrary: dev)
  case (Cons i "is")
  let ?b = "usb_bitmap_start_block sb + of_nat i"
  let ?d = "blk_write dev ?b (replicate 4096 0)"
  have i: "i < unat (usb_bitmap_block_count sb)" using Cons.prems(3) by simp
  note u = usfs_used_write [OF Cons.prems(1,2) i, of "replicate 4096 0"]
  have "unat ?b = unat (usb_bitmap_start_block sb) + i"
    using usfs_geometryD(1) [OF Cons.prems(2), of "32768 * i"] i by simp
  then have lt: "\<not> usb_data_region_start sb \<le> ?b"
    using Cons.prems(2) i by (auto simp: usfs_geometry_def word_le_nat_alt)
  have tb: "total_blocks ?d = total_blocks dev" by simp
  have d: "htl_reliable ?d" "usfs_geometry ?d sb" "same_device dev ?d"
    using u Cons.prems(2) usfs_geometry_dev [OF tb] by simp_all
  obtain dev' where IH: "usfs_bitmap_init_loop ?d sb is = (USFS_OK, dev')" "htl_reliable dev'" "same_device ?d dev'"
    "\<forall>x. x < total_blocks dev \<longrightarrow> usfs_outside sb x \<longrightarrow> blk dev' x = blk ?d x"
    "\<forall>q < 32768 * unat (usb_bitmap_block_count sb). usfs_used dev' sb q = (q div 32768 \<notin> set is \<and> usfs_used ?d sb q)"
    using Cons.IH [OF d(1,2)] Cons.prems(3) tb by auto
  have "usfs_bitmap_init_loop dev sb (i # is) = (USFS_OK, dev')"
    using u(1) lt IH(1) by (simp add: Let_def)
  moreover have "usfs_used dev' sb q = (q div 32768 \<notin> set (i # is) \<and> usfs_used dev sb q)"
    if q: "q < 32768 * unat (usb_bitmap_block_count sb)" for q
    using IH(5) q u(5) [OF _ q] by (auto simp: bits_of_def)
  ultimately show ?case using IH(2,4) u(4) same_trans [OF d(3) IH(3)] by auto
qed simp

lemma usfs_bitmap_init_ok:
  assumes "htl_reliable dev" and "usfs_geometry dev sb" and "usb_bitmap_block_count sb \<noteq> 0"
  obtains dev' where "usfs_bitmap_init dev sb = (USFS_OK, dev')" "htl_reliable dev'" "same_device dev dev'"
    "\<And>x. x < total_blocks dev \<Longrightarrow> usfs_outside sb x \<Longrightarrow> blk dev' x = blk dev x"
    "usfs_free_set dev' sb = {..<usfs_data_blocks sb}" "usfs_allocated dev' sb = {}"
proof -
  have nz: "usb_bitmap_start_block sb \<noteq> 0" using assms(2) by (auto simp: usfs_geometry_def)
  obtain dev' where d: "usfs_bitmap_init_loop dev sb [0..<unat (usb_bitmap_block_count sb)] = (USFS_OK, dev')"
    "htl_reliable dev'" "same_device dev dev'" "\<forall>x. x < total_blocks dev \<longrightarrow> usfs_outside sb x \<longrightarrow> blk dev' x = blk dev x"
    "\<forall>q < 32768 * unat (usb_bitmap_block_count sb). usfs_used dev' sb q = (q div 32768 \<notin> set [0..<unat (usb_bitmap_block_count sb)] \<and> usfs_used dev sb q)"
    using usfs_bitmap_init_loop_ok [OF assms(1,2), of "[0..<unat (usb_bitmap_block_count sb)]"] by auto
  have u: "\<not> usfs_used dev' sb q" if "q < usfs_data_blocks sb" for q
    using d(5) usfs_rel_bitmap [OF assms(2) that] by (auto simp: div_less_iff_less_mult mult.commute)
  then have "usfs_free_set dev' sb = {..<usfs_data_blocks sb}" "usfs_allocated dev' sb = {}"
    using usfs_region_rel(1) by (auto simp: usfs_free_set_def usfs_allocated_def)
  moreover have "usfs_bitmap_init dev sb = (USFS_OK, dev')" using nz assms(3) d(1) by (simp add: usfs_bitmap_init_def)
  ultimately show thesis using that d(2,3,4) by blast
qed

end
