(* ===== verification/USFS_Entry.thy ===== *)
theory USFS_Entry
  imports USFS_Bitmap OW_String
begin

text \<open>
  \<^verbatim>\<open>usfs/src/usfs_entry.c\<close>: the flat table of entries, sixteen records of 256 bytes to a block. An entry
  names its parent and one contiguous run of data blocks. The lemmas show that reading and writing
  act on one slot, that allocation takes the lowest free slot, that freeing returns the run, and
  that lookup finds the lowest live entry of that name and parent the caller may see. The invariant
  \<open>usfs_volume_ok\<close> of a volume is stated here.
\<close>

unbundle bit_operations_syntax

record usfs_entry =
  ue_entry_index :: u32
  ue_entry_type :: u8
  ue_name_length :: u8
  ue_security_flags :: u8
  ue_reserved1 :: u8
  ue_permissions :: u16
  ue_flags :: u16
  ue_size_bytes :: u32
  ue_first_block :: u32
  ue_block_count :: u32
  ue_parent_entry :: u32
  ue_created_timestamp :: u32
  ue_modified_timestamp :: u32
  ue_name :: bytes
  ue_owner_uid :: u16
  ue_owner_gid :: u16
  ue_reserved :: bytes
  ue_checksum :: u32
definition usfs_entry_bytes :: "usfs_entry \<Rightarrow> bytes" where
  "usfs_entry_bytes r =
     le_store 4 (ue_entry_index r) @ [ue_entry_type r] @ [ue_name_length r] @
     [ue_security_flags r] @ [ue_reserved1 r] @ le_store 2 (ue_permissions r) @
     le_store 2 (ue_flags r) @ le_store 4 (ue_size_bytes r) @ le_store 4 (ue_first_block r) @
     le_store 4 (ue_block_count r) @ le_store 4 (ue_parent_entry r) @
     le_store 4 (ue_created_timestamp r) @ le_store 4 (ue_modified_timestamp r) @ ue_name r @
     le_store 2 (ue_owner_uid r) @ le_store 2 (ue_owner_gid r) @ ue_reserved r @
     le_store 4 (ue_checksum r)"
definition usfs_entry_of_bytes :: "bytes \<Rightarrow> usfs_entry" where
  "usfs_entry_of_bytes bs =
     \<lparr>ue_entry_index = le_load (window 0 4 bs), ue_entry_type = bs ! 4,
      ue_name_length = bs ! 5, ue_security_flags = bs ! 6, ue_reserved1 = bs ! 7,
      ue_permissions = le_load (window 8 2 bs), ue_flags = le_load (window 10 2 bs),
      ue_size_bytes = le_load (window 12 4 bs), ue_first_block = le_load (window 16 4 bs),
      ue_block_count = le_load (window 20 4 bs), ue_parent_entry = le_load (window 24 4 bs),
      ue_created_timestamp = le_load (window 28 4 bs),
      ue_modified_timestamp = le_load (window 32 4 bs), ue_name = window 36 128 bs,
      ue_owner_uid = le_load (window 164 2 bs), ue_owner_gid = le_load (window 166 2 bs),
      ue_reserved = window 168 84 bs, ue_checksum = le_load (window 252 4 bs)\<rparr>"
text \<open>The array fields have their declared lengths.\<close>

definition usfs_entry_wf :: "usfs_entry \<Rightarrow> bool" where
  "usfs_entry_wf r \<longleftrightarrow>
     length (ue_name r) = 128 \<and> length (ue_reserved r) = 84"
definition entry_is_hidden :: "usfs_entry \<Rightarrow> bool" where
  "entry_is_hidden entry \<longleftrightarrow> ue_security_flags entry AND USFS_SEC_HIDDEN \<noteq> 0"

definition entry_check_access :: "ow_identity \<Rightarrow> usfs_entry \<Rightarrow> u8 \<Rightarrow> usfs_status" where
  "entry_check_access g entry want =
     (if ue_entry_type entry = 0 then USFS_ERR_NOT_FOUND
      else if \<not> ow_sec_access g (ue_permissions entry) (ue_owner_uid entry) (ue_owner_gid entry) want
      then USFS_ERR_ACCESS_DENIED else USFS_OK)"

definition usfs_entry_compute_checksum :: "usfs_entry \<Rightarrow> u32" where
  "usfs_entry_compute_checksum entry = ow_crc32c_struct (usfs_entry_bytes entry) 256 252"

definition usfs_entry_verify_checksum :: "usfs_entry \<Rightarrow> bool" where
  "usfs_entry_verify_checksum entry \<longleftrightarrow> ue_checksum entry = usfs_entry_compute_checksum entry"

definition entry_block_offset :: "usfs_superblock \<Rightarrow> u32 \<Rightarrow> u32" where
  "entry_block_offset sb entry_idx = (let block_idx = drop_bit 4 entry_idx in usb_entry_table_start sb + block_idx)"

definition entry_slot_index :: "u32 \<Rightarrow> u32" where
  "entry_slot_index entry_idx = entry_idx AND 0x0F"

definition usfs_entry_read ::
  "'c htl_device \<Rightarrow> usfs_superblock \<Rightarrow> u32 \<Rightarrow> usfs_entry \<Rightarrow> usfs_status \<times> 'c htl_device \<times> usfs_entry" where
  "usfs_entry_read dev sb entry_idx entry =
     (if entry_idx \<ge> usb_total_entries sb then (USFS_ERR_NOT_FOUND, dev, entry)
      else case htl_read_block dev (entry_block_offset sb entry_idx) of (hres, block_buf, dev) \<Rightarrow>
        if hres \<noteq> HTL_OK then (USFS_ERR_IO, dev, entry)
        else
          let idx = entry_slot_index entry_idx;
              entry = usfs_entry_of_bytes (window (unat idx * 256) 256 block_buf)
          in
          if ue_entry_type entry = 0 then (USFS_OK, dev, entry)
          else if \<not> usfs_entry_verify_checksum entry then (USFS_ERR_CHECKSUM_MISMATCH, dev, entry)
          else (USFS_OK, dev, entry))"

definition usfs_entry_write ::
  "'c htl_device \<Rightarrow> usfs_superblock \<Rightarrow> u32 \<Rightarrow> usfs_entry \<Rightarrow> usfs_status \<times> 'c htl_device \<times> usfs_entry" where
  "usfs_entry_write dev sb entry_idx entry =
     (if entry_idx \<ge> usb_total_entries sb then (USFS_ERR_NOT_FOUND, dev, entry)
      else if usfs_volume_writable sb \<noteq> USFS_OK then (usfs_volume_writable sb, dev, entry)
      else
        let block_num = entry_block_offset sb entry_idx in
        case htl_read_block dev block_num of (hres, block_buf, dev) \<Rightarrow>
        if hres \<noteq> HTL_OK then (USFS_ERR_IO, dev, entry)
        else
          let entry = entry\<lparr>ue_checksum := usfs_entry_compute_checksum entry\<rparr>;
              idx = entry_slot_index entry_idx;
              block_buf = ow_memcpy block_buf (unat idx * 256) (usfs_entry_bytes entry) 0 256
          in case htl_write_block dev block_num block_buf of (hres, dev) \<Rightarrow>
            if hres \<noteq> HTL_OK then (usfs_write_error hres, dev, entry)
            else (USFS_OK, dev, entry))"

definition default_mode_for :: "u8 \<Rightarrow> usfs_status + u16" where
  "default_mode_for entry_type =
     (if entry_type = USFS_ENTRY_CATALOG then Inr USFS_MODE_DEFAULT_DIR
      else if entry_type = USFS_ENTRY_FILE then Inr USFS_MODE_DEFAULT_FILE
      else Inl USFS_ERR_INVALID_PARAM)"

text \<open>An entry whose bytes are all zero; an uninitialised local, whose content is never read, is zero too.\<close>

definition usfs_entry_zero :: usfs_entry where
  "usfs_entry_zero =
     \<lparr>ue_entry_index = 0, ue_entry_type = 0, ue_name_length = 0, ue_security_flags = 0, ue_reserved1 = 0,
      ue_permissions = 0, ue_flags = 0, ue_size_bytes = 0, ue_first_block = 0, ue_block_count = 0,
      ue_parent_entry = 0, ue_created_timestamp = 0, ue_modified_timestamp = 0, ue_name = replicate 128 0,
      ue_owner_uid = 0, ue_owner_gid = 0, ue_reserved = replicate 84 0, ue_checksum = 0\<rparr>"

text \<open>The check of the parent catalog, skipped for the first entry of a volume.\<close>

definition parent_check ::
  "ow_identity \<Rightarrow> 'c htl_device \<Rightarrow> usfs_superblock \<Rightarrow> u32 \<Rightarrow> usfs_status \<times> 'c htl_device" where
  "parent_check g dev sb parent =
     (if parent \<noteq> 0 \<or> usb_used_entries sb > 0 then
        case usfs_entry_read dev sb parent usfs_entry_zero of (pres, dev, parent_entry) \<Rightarrow>
        if pres \<noteq> USFS_OK then (pres, dev)
        else if ue_entry_type parent_entry = 0 then (USFS_ERR_NOT_FOUND, dev)
        else (entry_check_access g parent_entry OW_ACCESS_WRITE, dev)
      else (USFS_OK, dev))"

text \<open>The search for a free slot: the status that ends it early, or the slot, if there is one.\<close>

fun entry_scan ::
  "'c htl_device \<Rightarrow> usfs_superblock \<Rightarrow> usfs_entry \<Rightarrow> nat list \<Rightarrow> (usfs_status + nat option) \<times> 'c htl_device" where
  "entry_scan dev sb temp [] = (Inr None, dev)"
| "entry_scan dev sb temp (i # is) =
     (case usfs_entry_read dev sb (of_nat i) temp of (res, dev, temp) \<Rightarrow>
      if res = USFS_OK then
        if ue_entry_type temp = 0 \<or> ue_entry_type temp AND USFS_ENTRY_DELETED \<noteq> 0 then (Inr (Some i), dev)
        else entry_scan dev sb temp is
      else if res \<noteq> USFS_ERR_CHECKSUM_MISMATCH then (Inl res, dev)
      else entry_scan dev sb temp is)"

definition usfs_entry_fresh ::
  "ow_identity \<Rightarrow> usfs_superblock \<Rightarrow> u8 \<Rightarrow> u16 \<Rightarrow> bytes option \<Rightarrow> nat \<Rightarrow> u32 \<Rightarrow> u32 \<Rightarrow> usfs_entry" where
  "usfs_entry_fresh g sb entry_type mode name name_len parent chosen =
     (let id = ow_sec_current g;
          temp = usfs_entry_zero
            \<lparr>ue_entry_index := chosen, ue_entry_type := entry_type, ue_permissions := mode,
             ue_owner_uid := ucast (uid id), ue_owner_gid := ucast (gid id), ue_parent_entry := parent,
             ue_name_length := of_nat name_len,
             ue_security_flags := (if usb_security_flags sb AND USFS_SEC_ENCRYPTED \<noteq> 0 then USFS_SEC_ENCRYPTED else 0)\<rparr>
      in case ow_sutf8_name_copy (Some (ue_name temp)) 128 name name_len of
           (Some d, _) \<Rightarrow> temp\<lparr>ue_name := d\<rparr>
         | (None, _) \<Rightarrow> temp)"

text \<open>The end of \<^verbatim>\<open>usfs_entry_alloc\<close>: the entry is written, or its run given back.\<close>

definition entry_commit ::
  "'c htl_device \<Rightarrow> usfs_superblock \<Rightarrow> u32 \<Rightarrow> usfs_entry \<Rightarrow> (usfs_status + u32) \<times> 'c htl_device \<times> usfs_superblock" where
  "entry_commit dev sb chosen temp =
     (case usfs_entry_write dev sb chosen temp of (res, dev, temp) \<Rightarrow>
      if res \<noteq> USFS_OK then
        if ue_block_count temp > 0 then
          case usfs_block_free dev sb (ue_first_block temp) (ue_block_count temp) of (_, dev, sb) \<Rightarrow> (Inl res, dev, sb)
        else (Inl res, dev, sb)
      else (Inr chosen, dev, sb\<lparr>usb_used_entries := usb_used_entries sb + 1\<rparr>))"

definition usfs_entry_alloc ::
  "ow_identity \<Rightarrow> 'c htl_device \<Rightarrow> usfs_superblock \<Rightarrow> u8 \<Rightarrow> bytes option \<Rightarrow> nat \<Rightarrow> u32 \<Rightarrow>
   (usfs_status + u32) \<times> 'c htl_device \<times> usfs_superblock" where
  "usfs_entry_alloc g dev sb entry_type name name_len parent =
     (if name = None then (Inl USFS_ERR_INVALID_PARAM, dev, sb)
      else if entry_type \<noteq> USFS_ENTRY_FILE \<and> entry_type \<noteq> USFS_ENTRY_CATALOG then (Inl USFS_ERR_INVALID_PARAM, dev, sb)
      else if name_len = 0 \<or> name_len \<ge> 128 then (Inl USFS_ERR_NAME_TOO_LONG, dev, sb)
      else if \<not> ow_sutf8_validate name name_len then (Inl USFS_ERR_INVALID_PARAM, dev, sb)
      else if usb_used_entries sb \<ge> usb_total_entries sb then (Inl USFS_ERR_NO_FREE_ENTRIES, dev, sb)
      else if usfs_volume_writable sb \<noteq> USFS_OK then (Inl (usfs_volume_writable sb), dev, sb)
      else case parent_check g dev sb parent of (pres, dev) \<Rightarrow>
      if pres \<noteq> USFS_OK then (Inl pres, dev, sb)
      else case default_mode_for entry_type of
        Inl res \<Rightarrow> (Inl res, dev, sb)
      | Inr mode \<Rightarrow>
          case entry_scan dev sb usfs_entry_zero [0..<unat (usb_total_entries sb)] of
            (Inl res, dev) \<Rightarrow> (Inl res, dev, sb)
          | (Inr None, dev) \<Rightarrow> (Inl USFS_ERR_NO_FREE_ENTRIES, dev, sb)
          | (Inr (Some i), dev) \<Rightarrow>
              let chosen = of_nat i;
                  temp = usfs_entry_fresh g sb entry_type mode name name_len parent chosen
              in
              if entry_type = USFS_ENTRY_CATALOG then
                case usfs_block_alloc dev sb 1 of
                  (Inl res, dev, sb) \<Rightarrow> (Inl res, dev, sb)
                | (Inr first, dev, sb) \<Rightarrow>
                    case htl_write_block dev first (replicate 4096 0) of (hres, dev) \<Rightarrow>
                    if hres \<noteq> HTL_OK then
                      case usfs_block_free dev sb first 1 of (_, dev, sb) \<Rightarrow> (Inl (usfs_write_error hres), dev, sb)
                    else entry_commit dev sb chosen (temp\<lparr>ue_first_block := first, ue_block_count := 1\<rparr>)
              else entry_commit dev sb chosen temp)"

definition usfs_entry_free ::
  "ow_identity \<Rightarrow> 'c htl_device \<Rightarrow> usfs_superblock \<Rightarrow> u32 \<Rightarrow> usfs_status \<times> 'c htl_device \<times> usfs_superblock" where
  "usfs_entry_free g dev sb entry_idx =
     (if usfs_volume_writable sb \<noteq> USFS_OK then (usfs_volume_writable sb, dev, sb)
      else case usfs_entry_read dev sb entry_idx usfs_entry_zero of (res, dev, temp) \<Rightarrow>
      if res \<noteq> USFS_OK then (res, dev, sb)
      else if ue_entry_type temp = 0 then (USFS_ERR_NOT_FOUND, dev, sb)
      else if ue_security_flags temp AND USFS_SEC_READONLY \<noteq> 0 then (USFS_ERR_WRITE_PROTECTED, dev, sb)
      else if entry_check_access g temp OW_ACCESS_WRITE \<noteq> USFS_OK then (entry_check_access g temp OW_ACCESS_WRITE, dev, sb)
      else case (if ue_block_count temp > 0 then
                   case usfs_block_free dev sb (ue_first_block temp) (ue_block_count temp) of (res, dev, sb) \<Rightarrow>
                     (res, dev, sb, temp\<lparr>ue_first_block := 0, ue_block_count := 0, ue_size_bytes := 0\<rparr>)
                 else (USFS_OK, dev, sb, temp)) of (res, dev, sb, temp) \<Rightarrow>
      if res \<noteq> USFS_OK then (res, dev, sb)
      else case usfs_entry_write dev sb entry_idx (temp\<lparr>ue_entry_type := USFS_ENTRY_DELETED\<rparr>) of (res, dev, _) \<Rightarrow>
        if res = USFS_OK \<and> usb_used_entries sb > 0 then (res, dev, sb\<lparr>usb_used_entries := usb_used_entries sb - 1\<rparr>)
        else (res, dev, sb))"

fun entry_lookup_loop ::
  "ow_identity \<Rightarrow> 'c htl_device \<Rightarrow> usfs_superblock \<Rightarrow> u32 \<Rightarrow> bytes \<Rightarrow> nat \<Rightarrow> usfs_entry \<Rightarrow> nat list \<Rightarrow>
   (usfs_status + u32) \<times> 'c htl_device" where
  "entry_lookup_loop g dev sb parent_idx name name_len temp [] = (Inl USFS_ERR_NOT_FOUND, dev)"
| "entry_lookup_loop g dev sb parent_idx name name_len temp (i # is) =
     (case usfs_entry_read dev sb (of_nat i) temp of (res, dev, temp) \<Rightarrow>
      if res = USFS_OK \<and> ue_entry_type temp \<noteq> 0 \<and> ue_entry_type temp AND USFS_ENTRY_DELETED = 0 \<and>
         ue_parent_entry temp = parent_idx \<and>
         \<not> (entry_is_hidden temp \<and> \<not> ow_sec_is_superuser g \<and> uid (ow_sec_current g) \<noteq> ucast (ue_owner_uid temp)) \<and>
         ow_sutf8_name_cmp (ue_name temp) (unat (ue_name_length temp)) name name_len = 0
      then (Inr (of_nat i), dev)
      else entry_lookup_loop g dev sb parent_idx name name_len temp is)"

definition usfs_entry_lookup ::
  "ow_identity \<Rightarrow> 'c htl_device \<Rightarrow> usfs_superblock \<Rightarrow> u32 \<Rightarrow> bytes option \<Rightarrow> nat \<Rightarrow> (usfs_status + u32) \<times> 'c htl_device" where
  "usfs_entry_lookup g dev sb parent_idx name name_len =
     (case name of
        None \<Rightarrow> (Inl USFS_ERR_INVALID_PARAM, dev)
      | Some nm \<Rightarrow>
          if name_len = 0 then (Inl USFS_ERR_INVALID_PARAM, dev)
          else if name_len \<ge> 128 then (Inl USFS_ERR_NAME_TOO_LONG, dev)
          else entry_lookup_loop g dev sb parent_idx nm name_len usfs_entry_zero [0..<unat (usb_total_entries sb)])"

section \<open>The entry record\<close>

lemma length_usfs_entry_bytes [simp]: "usfs_entry_wf r \<Longrightarrow> length (usfs_entry_bytes r) = 256"
  by (simp add: usfs_entry_bytes_def usfs_entry_wf_def)

lemma usfs_entry_dec_enc: "usfs_entry_wf r \<Longrightarrow> usfs_entry_of_bytes (usfs_entry_bytes r) = r"
  by (simp add: usfs_entry_of_bytes_def usfs_entry_bytes_def usfs_entry_wf_def window_simps nth_append)

lemma usfs_entry_enc_dec:
  assumes "length bs = 256"
  shows "usfs_entry_bytes (usfs_entry_of_bytes bs) = bs"
  using assms window_single [of 4 bs] window_single [of 5 bs] window_single [of 6 bs] window_single [of 7 bs]
  by (simp add: usfs_entry_of_bytes_def usfs_entry_bytes_def window_join window_join_more window_all
      flip: window_single)

interpretation uer: slot_record usfs_entry_bytes usfs_entry_of_bytes usfs_entry_wf
    256 252 ue_checksum "\<lambda>c. ue_checksum_update (\<lambda>_. c)"
proof
  show "usfs_entry_bytes (r\<lparr>ue_checksum := c\<rparr>) = overwrite 252 (le_store 4 c) (usfs_entry_bytes r)"
    if "usfs_entry_wf r" for r c
    using that by (simp add: usfs_entry_bytes_def usfs_entry_wf_def overwrite_def)
qed (simp_all add: usfs_entry_dec_enc usfs_entry_enc_dec,
    simp_all add: usfs_entry_wf_def usfs_entry_of_bytes_def usfs_entry_bytes_def window_simps)

abbreviation usfs_entry_sealed :: "usfs_entry \<Rightarrow> usfs_entry" where
  "usfs_entry_sealed e \<equiv> e\<lparr>ue_checksum := usfs_entry_compute_checksum e\<rparr>"

lemma usfs_entry_wf_cong [simp]:
  "usfs_entry_wf (e\<lparr>ue_checksum := c\<rparr>) = usfs_entry_wf e"
  "usfs_entry_wf (e\<lparr>ue_entry_type := t\<rparr>) = usfs_entry_wf e"
  "usfs_entry_wf (e\<lparr>ue_first_block := f\<rparr>) = usfs_entry_wf e"
  "usfs_entry_wf (e\<lparr>ue_block_count := n\<rparr>) = usfs_entry_wf e"
  "usfs_entry_wf (e\<lparr>ue_size_bytes := s\<rparr>) = usfs_entry_wf e"
  by (simp_all add: usfs_entry_wf_def)

lemma usfs_entry_sealed_verifies [simp]:
  assumes "usfs_entry_wf e"
  shows "usfs_entry_verify_checksum (usfs_entry_sealed e)"
  using uer.crc_of_set [OF assms] by (simp add: usfs_entry_verify_checksum_def usfs_entry_compute_checksum_def uer.crc_of_def)

section \<open>Slots of the entry table\<close>

definition usfs_entry_at :: "'c htl_device \<Rightarrow> usfs_superblock \<Rightarrow> nat \<Rightarrow> usfs_entry" where
  "usfs_entry_at dev sb i = uer.table_get dev (usb_entry_table_start sb) i"

definition usfs_entry_put :: "'c htl_device \<Rightarrow> usfs_superblock \<Rightarrow> nat \<Rightarrow> usfs_entry \<Rightarrow> 'c htl_device" where
  "usfs_entry_put dev sb i e = uer.table_put dev (usb_entry_table_start sb) i e"

lemma usfs_table:
  assumes "usfs_geometry dev sb"
  shows "unat (usb_entry_table_start sb) + unat (usb_entry_table_blocks sb) \<le> unat (total_blocks dev)"
    and "i < unat (usb_total_entries sb) \<Longrightarrow> i < 16 * unat (usb_entry_table_blocks sb)"
  using assms by (auto simp: usfs_geometry_def)

lemma entry_position:
  "entry_block_offset sb n = usb_entry_table_start sb + of_nat (unat n div 16)"
  "unat (entry_slot_index n) = unat n mod 16"
proof -
  have "unat (drop_bit 4 n) = unat n div 16"
    by (simp only: unsigned_drop_bit_eq) (simp add: drop_bit_eq_div take_bit_nat_eq_self unsigned_less [where 'b = 32, simplified])
  then have "drop_bit 4 n = of_nat (unat n div 16)" by (metis of_nat_unat ucast_id)
  then show "entry_block_offset sb n = usb_entry_table_start sb + of_nat (unat n div 16)"
    by (simp add: entry_block_offset_def)
  have "n AND 0x0F = take_bit 4 n" by (simp add: take_bit_eq_mask mask_eq_exp_minus_1)
  then show "unat (entry_slot_index n) = unat n mod 16"
    by (simp only: entry_slot_index_def unsigned_take_bit_eq) (simp add: take_bit_eq_mod)
qed

lemma usfs_entry_at_wf [simp]:
  "htl_reliable dev \<Longrightarrow> usfs_geometry dev sb \<Longrightarrow> i < unat (usb_total_entries sb) \<Longrightarrow> usfs_entry_wf (usfs_entry_at dev sb i)"
  unfolding usfs_entry_at_def using uer.wf_table usfs_table by blast

lemma usfs_entry_read_reliable:
  assumes "htl_reliable dev" and "usfs_geometry dev sb" and "num < usb_total_entries sb"
  shows "usfs_entry_read dev sb num e0 =
    (let e = usfs_entry_at dev sb (unat num) in
     (if ue_entry_type e = 0 \<or> usfs_entry_verify_checksum e then USFS_OK else USFS_ERR_CHECKSUM_MISMATCH, dev, e))"
proof -
  from assms(3) have n: "unat num < unat (usb_total_entries sb)" by (simp add: word_less_nat_alt)
  from uer.table_block(2) [OF usfs_table(1) usfs_table(2), OF assms(2,2) n] show ?thesis
    using assms by (simp add: usfs_entry_read_def entry_position htl_read_reliable usfs_entry_at_def uer.table_get_def uer.slot_get_def Let_def not_le)
qed

lemma usfs_entry_write_reliable:
  assumes "htl_reliable dev" and "usfs_geometry dev sb" and "num < usb_total_entries sb"
    and "usfs_volume_writable sb = USFS_OK" and wf: "usfs_entry_wf e"
  shows "usfs_entry_write dev sb num e = (USFS_OK, usfs_entry_put dev sb (unat num) (usfs_entry_sealed e), usfs_entry_sealed e)"
proof -
  from assms(3) have n: "unat num < unat (usb_total_entries sb)" by (simp add: word_less_nat_alt)
  note tab = usfs_table(1) [OF assms(2)] usfs_table(2) [OF assms(2) n]
  note b = uer.table_block(2) [OF tab]
  have wf': "usfs_entry_wf (usfs_entry_sealed e)" using wf by simp
  note len = uer.table_put_props(1) [OF assms(1) tab wf']
  have "unat num mod 16 * 256 + 256 \<le> 4096" using mod_less_divisor [of 16 "unat num"] by linarith
  then have "ow_memcpy (blk dev (usb_entry_table_start sb + of_nat (unat num div 16))) (unat num mod 16 * 256)
      (usfs_entry_bytes (usfs_entry_sealed e)) 0 256 =
      uer.slot_put (blk dev (usb_entry_table_start sb + of_nat (unat num div 16))) (unat num mod 16) (usfs_entry_sealed e)"
    using length_blk [OF assms(1) b] wf by (simp add: uer.slot_put_def ow_memcpy_eq window_all)
  then show ?thesis
    using assms b len
    by (simp add: usfs_entry_write_def entry_position usfs_entry_put_def uer.table_put_def Let_def dev_simps not_le)
qed

text \<open>Changes to the device that leave the bitmap alone leave the allocation alone.\<close>

lemma usfs_alloc_inv_same_bitmap:
  assumes inv: "usfs_alloc_inv dev sb" and rel: "htl_reliable dev'" and tb: "total_blocks dev' = total_blocks dev"
    and same: "\<And>x. x < total_blocks dev \<Longrightarrow> \<not> usfs_outside sb x \<Longrightarrow> blk dev' x = blk dev x"
  shows "usfs_alloc_inv dev' sb" and "usfs_allocated dev' sb = usfs_allocated dev sb" and "usfs_bitmap_bytes dev' sb = usfs_bitmap_bytes dev sb"
proof -
  from inv have geo: "usfs_geometry dev sb" by (simp add: usfs_alloc_inv_def)
  have b: "blk dev' (usb_bitmap_start_block sb + of_nat k) = blk dev (usb_bitmap_start_block sb + of_nat k)"
    if "k < unat (usb_bitmap_block_count sb)" for k
  proof (rule same)
    have k: "32768 * k < 32768 * unat (usb_bitmap_block_count sb)" using that by simp
    note g = usfs_geometryD [OF geo k]
    show "usb_bitmap_start_block sb + of_nat k < total_blocks dev" using g(2) by simp
    show "\<not> usfs_outside sb (usb_bitmap_start_block sb + of_nat k)"
      using g(1) that geo by (auto simp: usfs_outside_def usfs_geometry_def word_less_nat_alt word_le_nat_alt)
  qed
  have u: "usfs_used dev' sb r = usfs_used dev sb r" if "r < usfs_data_blocks sb" for r
    using b usfs_rel_bitmap [OF geo that] by (simp add: usfs_used_def less_mult_imp_div_less mult.commute)
  then have "usfs_free_set dev' sb = usfs_free_set dev sb" by (auto simp: usfs_free_set_def)
  then show "usfs_alloc_inv dev' sb" using inv rel usfs_geometry_dev [OF tb] by (simp add: usfs_alloc_inv_def)
  show "usfs_allocated dev' sb = usfs_allocated dev sb" using u usfs_region_rel(1) by (auto simp: usfs_allocated_def)
  show "usfs_bitmap_bytes dev' sb = usfs_bitmap_bytes dev sb"
    unfolding usfs_bitmap_bytes_def using b by (intro arg_cong [where f = concat] map_cong) auto
qed

text \<open>Block \<open>x\<close> lies outside the entry table.\<close>

definition usfs_off_table :: "usfs_superblock \<Rightarrow> u32 \<Rightarrow> bool" where
  "usfs_off_table sb x \<longleftrightarrow> unat x < unat (usb_entry_table_start sb) \<or>
     unat (usb_entry_table_start sb) + unat (usb_entry_table_blocks sb) \<le> unat x"

lemma usfs_off_table_bitmap:
  assumes "usfs_geometry dev sb"
  shows "\<not> usfs_outside sb x \<Longrightarrow> usfs_off_table sb x" and "x \<in> usfs_region sb \<Longrightarrow> usfs_off_table sb x" and "usfs_off_table sb 0"
  using assms by (auto simp: usfs_geometry_def usfs_outside_def usfs_off_table_def usfs_region_def word_less_nat_alt word_le_nat_alt)

lemma usfs_entry_put_props:
  assumes inv: "usfs_alloc_inv dev sb" and i: "i < unat (usb_total_entries sb)" and wf: "usfs_entry_wf e"
  shows "usfs_alloc_inv (usfs_entry_put dev sb i e) sb" and "same_device dev (usfs_entry_put dev sb i e)"
    and "usfs_allocated (usfs_entry_put dev sb i e) sb = usfs_allocated dev sb"
    and "x < total_blocks dev \<Longrightarrow> usfs_off_table sb x \<Longrightarrow> blk (usfs_entry_put dev sb i e) x = blk dev x"
    and "j < unat (usb_total_entries sb) \<Longrightarrow>
      usfs_entry_at (usfs_entry_put dev sb i e) sb j = (if j = i then e else usfs_entry_at dev sb j)"
proof -
  from inv have dev: "htl_reliable dev" and geo: "usfs_geometry dev sb" by (simp_all add: usfs_alloc_inv_def)
  note t = uer.table_put_props [OF dev usfs_table(1) [OF geo] usfs_table(2) [OF geo i] wf, folded usfs_entry_put_def]
  show "same_device dev (usfs_entry_put dev sb i e)" by (rule t(3))
  show off: "x < total_blocks dev \<Longrightarrow> usfs_off_table sb x \<Longrightarrow> blk (usfs_entry_put dev sb i e) x = blk dev x" for x
    using t(4) by (auto simp: usfs_off_table_def)
  show "j < unat (usb_total_entries sb) \<Longrightarrow>
      usfs_entry_at (usfs_entry_put dev sb i e) sb j = (if j = i then e else usfs_entry_at dev sb j)"
    using t(5) [OF usfs_table(2) [OF geo]] by (simp add: usfs_entry_at_def)
  have tb: "total_blocks (usfs_entry_put dev sb i e) = total_blocks dev" using same_deviceD [OF t(3)] by simp
  from usfs_alloc_inv_same_bitmap [OF inv t(2) tb] off usfs_off_table_bitmap(1) [OF geo]
  show "usfs_alloc_inv (usfs_entry_put dev sb i e) sb" "usfs_allocated (usfs_entry_put dev sb i e) sb = usfs_allocated dev sb" by blast+
qed

lemma usfs_entry_at_same:
  assumes "usfs_geometry dev sb" and "\<And>x. x < total_blocks dev \<Longrightarrow> \<not> usfs_off_table sb x \<Longrightarrow> blk dev' x = blk dev x"
    and "i < unat (usb_total_entries sb)"
  shows "usfs_entry_at dev' sb i = usfs_entry_at dev sb i"
  using uer.table_block [OF usfs_table(1) usfs_table(2), OF assms(1,1,3)] assms(2)
  by (simp add: usfs_entry_at_def uer.table_get_def usfs_off_table_def)

section \<open>A consistent volume\<close>

text \<open>The fields of the superblock that place the regions.\<close>

definition usfs_layout :: "usfs_superblock \<Rightarrow> u32 list" where
  "usfs_layout sb =
     [usb_total_blocks sb, usb_entry_table_start sb, usb_entry_table_blocks sb, usb_total_entries sb,
      usb_bitmap_start_block sb, usb_bitmap_block_count sb, usb_data_region_start sb]"

definition usfs_slot_free :: "usfs_entry \<Rightarrow> bool" where
  "usfs_slot_free e \<longleftrightarrow> ue_entry_type e = 0 \<or> ue_entry_type e AND USFS_ENTRY_DELETED \<noteq> 0"

definition usfs_live :: "'c htl_device \<Rightarrow> usfs_superblock \<Rightarrow> nat set" where
  "usfs_live dev sb = {i. i < unat (usb_total_entries sb) \<and> \<not> usfs_slot_free (usfs_entry_at dev sb i)}"

definition usfs_extent :: "usfs_entry \<Rightarrow> u32 set" where
  "usfs_extent e = extent (ue_first_block e) (ue_block_count e)"

definition usfs_entry_ok :: "'c htl_device \<Rightarrow> usfs_superblock \<Rightarrow> usfs_entry \<Rightarrow> bool" where
  "usfs_entry_ok dev sb e \<longleftrightarrow>
     usfs_extent e \<subseteq> usfs_allocated dev sb \<and> unat (ue_first_block e) + unat (ue_block_count e) \<le> 2 ^ 32 \<and>
     unat (ue_size_bytes e) \<le> 4096 * unat (ue_block_count e)"

definition usfs_others :: "'c htl_device \<Rightarrow> usfs_superblock \<Rightarrow> nat \<Rightarrow> u32 set" where
  "usfs_others dev sb i = (\<Union>j \<in> usfs_live dev sb - {i}. usfs_extent (usfs_entry_at dev sb j))"

text \<open>The invariant of a volume: the counters are right, every entry is sealed, every live entry owns an
  allocated run long enough for its size, and no block belongs to two entries.\<close>

definition usfs_volume_ok :: "'c htl_device \<Rightarrow> usfs_superblock \<Rightarrow> bool" where
  "usfs_volume_ok dev sb \<longleftrightarrow>
     usfs_alloc_inv dev sb \<and> unat (usb_used_entries sb) = card (usfs_live dev sb) \<and>
     (\<forall>i < unat (usb_total_entries sb).
        ue_entry_type (usfs_entry_at dev sb i) = 0 \<or> usfs_entry_verify_checksum (usfs_entry_at dev sb i)) \<and>
     (\<forall>i \<in> usfs_live dev sb. usfs_entry_ok dev sb (usfs_entry_at dev sb i)) \<and>
     (\<forall>i \<in> usfs_live dev sb. \<forall>j \<in> usfs_live dev sb. i \<noteq> j \<longrightarrow>
        usfs_extent (usfs_entry_at dev sb i) \<inter> usfs_extent (usfs_entry_at dev sb j) = {})"

lemma usfs_layout_cong:
  assumes "usfs_layout sb' = usfs_layout sb"
  shows "usfs_geometry dev sb' = usfs_geometry dev sb" and "usfs_allocated dev sb' = usfs_allocated dev sb"
    and "usfs_free_set dev sb' = usfs_free_set dev sb" and "usfs_region sb' = usfs_region sb"
    and "usfs_outside sb' = usfs_outside sb" and "usfs_off_table sb' = usfs_off_table sb"
    and "usfs_entry_at dev sb' = usfs_entry_at dev sb" and "usfs_entry_put dev sb' = usfs_entry_put dev sb"
    and "usfs_live dev sb' = usfs_live dev sb" and "usfs_others dev sb' = usfs_others dev sb"
    and "usfs_entry_ok dev sb' = usfs_entry_ok dev sb" and "usfs_bitmap_bytes dev sb' = usfs_bitmap_bytes dev sb"
    and "usb_total_entries sb' = usb_total_entries sb" and "usfs_run dev sb' = usfs_run dev sb"
proof -
  from assms have f: "usb_total_blocks sb' = usb_total_blocks sb" "usb_entry_table_start sb' = usb_entry_table_start sb"
    "usb_entry_table_blocks sb' = usb_entry_table_blocks sb" "usb_total_entries sb' = usb_total_entries sb"
    "usb_bitmap_start_block sb' = usb_bitmap_start_block sb" "usb_bitmap_block_count sb' = usb_bitmap_block_count sb"
    "usb_data_region_start sb' = usb_data_region_start sb"
    by (simp_all add: usfs_layout_def)
  have d: "usfs_data_blocks sb' = usfs_data_blocks sb" by (simp add: usfs_data_blocks_def f)
  have u: "usfs_used dev sb' = usfs_used dev sb" by (simp add: usfs_used_def fun_eq_iff f)
  show "usb_total_entries sb' = usb_total_entries sb" by (rule f)
  show "usfs_geometry dev sb' = usfs_geometry dev sb" by (simp add: usfs_geometry_def f d)
  show r: "usfs_region sb' = usfs_region sb" by (simp add: usfs_region_def f)
  show "usfs_free_set dev sb' = usfs_free_set dev sb" by (simp add: usfs_free_set_def d u)
  show a: "usfs_allocated dev sb' = usfs_allocated dev sb" by (simp add: usfs_allocated_def r u f)
  show "usfs_outside sb' = usfs_outside sb" by (simp add: usfs_outside_def fun_eq_iff f)
  show "usfs_off_table sb' = usfs_off_table sb" by (simp add: usfs_off_table_def fun_eq_iff f)
  show n: "usfs_entry_at dev sb' = usfs_entry_at dev sb" by (simp add: usfs_entry_at_def fun_eq_iff f)
  show "usfs_entry_put dev sb' = usfs_entry_put dev sb" by (simp add: usfs_entry_put_def fun_eq_iff f)
  show l: "usfs_live dev sb' = usfs_live dev sb" by (simp add: usfs_live_def n f)
  show "usfs_others dev sb' = usfs_others dev sb" by (simp add: usfs_others_def fun_eq_iff n l)
  show "usfs_entry_ok dev sb' = usfs_entry_ok dev sb" by (simp add: usfs_entry_ok_def fun_eq_iff a)
  show "usfs_bitmap_bytes dev sb' = usfs_bitmap_bytes dev sb" by (simp add: usfs_bitmap_bytes_def f)
  show "usfs_run dev sb' = usfs_run dev sb" by (simp add: usfs_run_def fun_eq_iff u d)
qed

lemma usfs_layout_counters [simp]:
  "usfs_layout (sb\<lparr>usb_free_blocks := n\<rparr>) = usfs_layout sb" "usfs_layout (sb\<lparr>usb_used_entries := n\<rparr>) = usfs_layout sb"
  by (simp_all add: usfs_layout_def)

lemma usfs_alloc_inv_layout:
  assumes "usfs_layout sb' = usfs_layout sb" and "usb_free_blocks sb' = usb_free_blocks sb"
  shows "usfs_alloc_inv dev sb' = usfs_alloc_inv dev sb"
  by (simp add: usfs_alloc_inv_def assms(2) usfs_layout_cong(1,3) [OF assms(1)])

lemma usfs_used_entries_cong [simp]:
  "usfs_alloc_inv dev (sb\<lparr>usb_used_entries := n\<rparr>) = usfs_alloc_inv dev sb"
  "usfs_volume_writable (sb\<lparr>usb_used_entries := n\<rparr>) = usfs_volume_writable sb"
  by (rule usfs_alloc_inv_layout; simp) (simp add: usfs_volume_writable_def)

lemma usfs_volume_ok_layout:
  assumes "usfs_layout sb' = usfs_layout sb" and "usb_free_blocks sb' = usb_free_blocks sb" and "usb_used_entries sb' = usb_used_entries sb"
  shows "usfs_volume_ok dev sb' = usfs_volume_ok dev sb"
  by (simp add: usfs_volume_ok_def assms(3) usfs_alloc_inv_layout [OF assms(1,2)] usfs_layout_cong [OF assms(1)])

lemma usfs_volume_okD:
  assumes "usfs_volume_ok dev sb"
  shows "usfs_alloc_inv dev sb" and "htl_reliable dev" and "usfs_geometry dev sb"
    and "unat (usb_used_entries sb) = card (usfs_live dev sb)"
    and "i < unat (usb_total_entries sb) \<Longrightarrow>
      ue_entry_type (usfs_entry_at dev sb i) = 0 \<or> usfs_entry_verify_checksum (usfs_entry_at dev sb i)"
    and "i \<in> usfs_live dev sb \<Longrightarrow> usfs_entry_ok dev sb (usfs_entry_at dev sb i)"
    and "i \<in> usfs_live dev sb \<Longrightarrow> usfs_extent (usfs_entry_at dev sb i) \<inter> usfs_others dev sb i = {}"
    and "usfs_others dev sb i \<subseteq> usfs_allocated dev sb"
proof -
  show "usfs_alloc_inv dev sb" "htl_reliable dev" "usfs_geometry dev sb" "unat (usb_used_entries sb) = card (usfs_live dev sb)"
    "i < unat (usb_total_entries sb) \<Longrightarrow>
      ue_entry_type (usfs_entry_at dev sb i) = 0 \<or> usfs_entry_verify_checksum (usfs_entry_at dev sb i)"
    "i \<in> usfs_live dev sb \<Longrightarrow> usfs_entry_ok dev sb (usfs_entry_at dev sb i)"
    using assms by (simp_all add: usfs_volume_ok_def usfs_alloc_inv_def)
  show "i \<in> usfs_live dev sb \<Longrightarrow> usfs_extent (usfs_entry_at dev sb i) \<inter> usfs_others dev sb i = {}"
    using assms unfolding usfs_volume_ok_def usfs_others_def by blast
  show "usfs_others dev sb i \<subseteq> usfs_allocated dev sb"
    using assms unfolding usfs_volume_ok_def usfs_others_def usfs_entry_ok_def by blast
qed

lemma usfs_live_subset: "usfs_live dev sb \<subseteq> {..<unat (usb_total_entries sb)}" "finite (usfs_live dev sb)"
  by (auto simp: usfs_live_def)

lemma usfs_extent_cong [simp]:
  "usfs_extent (e\<lparr>ue_checksum := c\<rparr>) = usfs_extent e" "usfs_extent (e\<lparr>ue_size_bytes := s\<rparr>) = usfs_extent e"
  "usfs_slot_free (e\<lparr>ue_checksum := c\<rparr>) = usfs_slot_free e" "usfs_entry_ok dev sb (e\<lparr>ue_checksum := c\<rparr>) = usfs_entry_ok dev sb e"
  by (simp_all add: usfs_extent_def usfs_slot_free_def usfs_entry_ok_def)

text \<open>Every change of an entry ends by writing it: the volume stays consistent when the changes before
  that write left the table and the blocks of the other entries alone.\<close>

lemma usfs_entry_commit:
  fixes dev :: "'c htl_device"
  assumes ok: "usfs_volume_ok dev sb" and i: "i < unat (usb_total_entries sb)"
    and inv: "usfs_alloc_inv dev1 sb1" and sb1: "usfs_layout sb1 = usfs_layout sb" and tb: "total_blocks dev1 = total_blocks dev"
    and same: "\<And>x. x < total_blocks dev \<Longrightarrow> \<not> usfs_off_table sb x \<Longrightarrow> blk dev1 x = blk dev x"
    and al: "usfs_others dev sb i \<subseteq> usfs_allocated dev1 sb" and wf: "usfs_entry_wf e"
    and new: "\<not> usfs_slot_free e \<Longrightarrow> usfs_entry_ok dev1 sb e \<and> usfs_extent e \<inter> usfs_others dev sb i = {}"
    and n: "unat n = card (if usfs_slot_free e then usfs_live dev sb - {i} else insert i (usfs_live dev sb))"
  defines "dev' \<equiv> usfs_entry_put dev1 sb1 i (usfs_entry_sealed e)" and "sb' \<equiv> sb1\<lparr>usb_used_entries := n\<rparr>"
  shows "usfs_volume_ok dev' sb'" and "usfs_entry_at dev' sb i = usfs_entry_sealed e"
    and "\<And>j. j < unat (usb_total_entries sb) \<Longrightarrow> j \<noteq> i \<Longrightarrow> usfs_entry_at dev' sb j = usfs_entry_at dev sb j"
    and "usfs_live dev' sb = (if usfs_slot_free e then usfs_live dev sb - {i} else insert i (usfs_live dev sb))"
    and "usfs_allocated dev' sb = usfs_allocated dev1 sb" and "same_device dev1 dev'"
    and "\<And>x. x < total_blocks dev \<Longrightarrow> usfs_off_table sb x \<Longrightarrow> blk dev' x = blk dev1 x"
proof -
  note d = usfs_volume_okD [OF ok]
  have wf': "usfs_entry_wf (usfs_entry_sealed e)" using wf by simp
  note c = usfs_layout_cong [OF sb1]
  note p = usfs_entry_put_props [OF inv _ wf', of i, folded dev'_def, unfolded c, OF i]
  show at_i: "usfs_entry_at dev' sb i = usfs_entry_sealed e" using p(5) i by simp
  show at_j: "usfs_entry_at dev' sb j = usfs_entry_at dev sb j" if "j < unat (usb_total_entries sb)" "j \<noteq> i" for j
    using p(5) that usfs_entry_at_same [OF d(3) same that(1)] by simp
  show al': "usfs_allocated dev' sb = usfs_allocated dev1 sb" by (rule p(3))
  show "same_device dev1 dev'" by (rule p(2))
  show "blk dev' x = blk dev1 x" if "x < total_blocks dev" "usfs_off_table sb x" for x using p(4) tb that by simp
  show live: "usfs_live dev' sb = (if usfs_slot_free e then usfs_live dev sb - {i} else insert i (usfs_live dev sb))"
  proof (rule set_eqI)
    fix j
    show "j \<in> usfs_live dev' sb \<longleftrightarrow> j \<in> (if usfs_slot_free e then usfs_live dev sb - {i} else insert i (usfs_live dev sb))"
      using at_i at_j [of j] i by (cases "j = i") (auto simp: usfs_live_def)
  qed
  have other: "j \<in> usfs_live dev sb" "usfs_entry_at dev' sb j = usfs_entry_at dev sb j" "usfs_extent (usfs_entry_at dev sb j) \<subseteq> usfs_others dev sb i"
    if "j \<in> usfs_live dev' sb" "j \<noteq> i" for j
    using that live at_j [of j] by (auto simp: usfs_others_def usfs_live_def split: if_splits)
  have each: "usfs_entry_ok dev' sb (usfs_entry_at dev' sb j)" if j: "j \<in> usfs_live dev' sb" for j
  proof (cases "j = i")
    case True
    then show ?thesis using new j at_i al' by (simp add: usfs_live_def usfs_entry_ok_def)
  next
    case False
    then show ?thesis using d(6) [OF other(1) [OF j False]] other(2,3) [OF j False] al al' unfolding usfs_entry_ok_def by auto
  qed
  have with_i: "usfs_extent (usfs_entry_at dev' sb i) \<inter> usfs_extent (usfs_entry_at dev' sb j) = {}"
    if "i \<in> usfs_live dev' sb" "j \<in> usfs_live dev' sb" "j \<noteq> i" for j
  proof -
    have "\<not> usfs_slot_free e" using that(1) at_i by (simp add: usfs_live_def)
    then show ?thesis using new other(2,3) [OF that(2,3)] at_i by auto
  qed
  have apart: "usfs_extent (usfs_entry_at dev' sb k) \<inter> usfs_extent (usfs_entry_at dev' sb j) = {}"
    if kj: "k \<in> usfs_live dev' sb" "j \<in> usfs_live dev' sb" "k \<noteq> j" for k j
  proof (cases "k = i \<or> j = i")
    case True
    then show ?thesis using with_i kj by blast
  next
    case False
    then show ?thesis using other(1,2) kj ok by (simp add: usfs_volume_ok_def)
  qed
  have ver: "ue_entry_type (usfs_entry_at dev' sb j) = 0 \<or> usfs_entry_verify_checksum (usfs_entry_at dev' sb j)"
    if "j < unat (usb_total_entries sb)" for j
    using at_i at_j [OF that] d(5) [OF that] usfs_entry_sealed_verifies [OF wf] by (cases "j = i") simp_all
  have lay: "usfs_layout sb' = usfs_layout sb" using sb1 by (simp add: sb'_def)
  have inv': "usfs_alloc_inv dev' sb'" using p(1) by (simp add: sb'_def)
  have cnt: "unat (usb_used_entries sb') = card (usfs_live dev' sb)" using n live by (simp add: sb'_def)
  show "usfs_volume_ok dev' sb'"
    unfolding usfs_volume_ok_def usfs_layout_cong [OF lay] using inv' cnt each ver apart by blast
qed

section \<open>Creating an entry\<close>

lemma usfs_kept_layout:
  assumes "usfs_kept dev sb dev' sb'"
  shows "usfs_layout sb' = usfs_layout sb" and "usb_used_entries sb' = usb_used_entries sb" and "usb_security_flags sb' = usb_security_flags sb"
    and "usb_key_slot_1 sb' = usb_key_slot_1 sb" and "usb_crypto_nonce sb' = usb_crypto_nonce sb"
proof -
  from assms have s: "sb' = sb\<lparr>usb_free_blocks := usb_free_blocks sb'\<rparr>" by (simp only: usfs_kept_def)
  show "usfs_layout sb' = usfs_layout sb" "usb_used_entries sb' = usb_used_entries sb" "usb_security_flags sb' = usb_security_flags sb"
    "usb_key_slot_1 sb' = usb_key_slot_1 sb" "usb_crypto_nonce sb' = usb_crypto_nonce sb"
    by (subst s, simp)+
qed

text \<open>Only the counter of free blocks differs.\<close>

definition usfs_same_sb :: "usfs_superblock \<Rightarrow> usfs_superblock \<Rightarrow> bool" where
  "usfs_same_sb sb sb' \<longleftrightarrow> (\<exists>f. sb' = sb\<lparr>usb_free_blocks := f\<rparr>)"

lemma usfs_same_sbD:
  assumes "usfs_same_sb sb sb'"
  shows "usfs_layout sb' = usfs_layout sb" and "usb_used_entries sb' = usb_used_entries sb" and "usfs_volume_writable sb' = usfs_volume_writable sb"
    and "usb_security_flags sb' = usb_security_flags sb" and "usb_key_slot_1 sb' = usb_key_slot_1 sb" and "usb_crypto_nonce sb' = usb_crypto_nonce sb"
    and "usfs_superblock_wf sb' = usfs_superblock_wf sb" and "usb_magic sb' = usb_magic sb" and "usb_block_size sb' = usb_block_size sb"
  using assms by (auto simp: usfs_same_sb_def usfs_volume_writable_def usfs_superblock_wf_def)

lemma usfs_same_sb_refl [simp]: "usfs_same_sb sb sb"
  unfolding usfs_same_sb_def by (rule exI [of _ "usb_free_blocks sb"]) simp

lemma usfs_same_sb_trans: "usfs_same_sb a b \<Longrightarrow> usfs_same_sb b c \<Longrightarrow> usfs_same_sb a c"
  by (auto simp: usfs_same_sb_def)

lemma usfs_kept_same_sb: "usfs_kept dev sb dev' sb' \<Longrightarrow> usfs_same_sb sb sb'"
  unfolding usfs_kept_def usfs_same_sb_def by blast

text \<open>Only the two counters differ.\<close>

definition usfs_sb_counters :: "usfs_superblock \<Rightarrow> usfs_superblock \<Rightarrow> bool" where
  "usfs_sb_counters sb sb' \<longleftrightarrow> (\<exists>f u. sb' = sb\<lparr>usb_free_blocks := f, usb_used_entries := u\<rparr>)"

lemma usfs_sb_countersD:
  assumes "usfs_sb_counters sb sb'"
  shows "usfs_layout sb' = usfs_layout sb" and "usfs_volume_writable sb' = usfs_volume_writable sb" and "usb_state_flags sb' = usb_state_flags sb"
    and "usb_security_flags sb' = usb_security_flags sb" and "usb_key_slot_1 sb' = usb_key_slot_1 sb" and "usb_crypto_nonce sb' = usb_crypto_nonce sb"
    and "usfs_superblock_wf sb' = usfs_superblock_wf sb" and "usb_magic sb' = usb_magic sb" and "usb_block_size sb' = usb_block_size sb"
  using assms by (auto simp: usfs_sb_counters_def usfs_volume_writable_def usfs_superblock_wf_def)

lemma usfs_same_sb_counters: "usfs_same_sb sb sb1 \<Longrightarrow> usfs_sb_counters sb (sb1\<lparr>usb_used_entries := u\<rparr>)"
  by (auto simp: usfs_same_sb_def usfs_sb_counters_def)

lemma usfs_entry_index:
  assumes "i < unat (usb_total_entries sb)"
  shows "unat (of_nat i :: u32) = i" and "of_nat i < usb_total_entries sb"
proof -
  have "i < 2 ^ 32" using assms unsigned_less [of "usb_total_entries sb", where 'a = nat] by simp
  then show "unat (of_nat i :: u32) = i" by (intro unat_of_nat_small) simp
  then show "of_nat i < usb_total_entries sb" using assms by (simp add: word_less_nat_alt)
qed

lemma entry_scan_find:
  assumes ok: "usfs_volume_ok dev sb" and n: "n \<le> unat (usb_total_entries sb)"
  shows "entry_scan dev sb temp [a..<n] = (Inr (find (\<lambda>i. usfs_slot_free (usfs_entry_at dev sb i)) [a..<n]), dev)"
proof (induction "n - a" arbitrary: a temp)
  case (Suc d)
  then have a: "a < n" and l: "[a..<n] = a # [Suc a..<n]" by (simp_all add: upt_conv_Cons)
  have t: "a < unat (usb_total_entries sb)" using a n by simp
  note i = usfs_entry_index [OF t] and d = usfs_volume_okD [OF ok]
  show ?case
    using Suc(1) [of "Suc a"] Suc(2) d(5) [OF t] unfolding l
    by (simp add: usfs_entry_read_reliable [OF d(2,3) i(2)] i(1) usfs_slot_free_def Let_def)
qed simp

text \<open>The parent of a new entry: any entry that is in use and that the caller may write; no parent is
  needed while the volume has no entry.\<close>

definition usfs_parent_ok :: "ow_identity \<Rightarrow> 'c htl_device \<Rightarrow> usfs_superblock \<Rightarrow> u32 \<Rightarrow> bool" where
  "usfs_parent_ok g dev sb parent \<longleftrightarrow> parent = 0 \<and> usb_used_entries sb = 0 \<or>
     parent < usb_total_entries sb \<and> entry_check_access g (usfs_entry_at dev sb (unat parent)) OW_ACCESS_WRITE = USFS_OK"

lemma parent_check_iff:
  assumes ok: "usfs_volume_ok dev sb"
  shows "snd (parent_check g dev sb parent) = dev" and "fst (parent_check g dev sb parent) = USFS_OK \<longleftrightarrow> usfs_parent_ok g dev sb parent"
proof -
  note d = usfs_volume_okD [OF ok]
  consider "parent = 0" "usb_used_entries sb = 0" | "parent \<noteq> 0 \<or> usb_used_entries sb > 0" "parent < usb_total_entries sb"
    | "parent \<noteq> 0 \<or> usb_used_entries sb > 0" "\<not> parent < usb_total_entries sb" 
    by (cases "parent = 0"; cases "usb_used_entries sb = 0"; cases "parent < usb_total_entries sb") (simp_all add: word_neq_0_conv)
  then have "snd (parent_check g dev sb parent) = dev \<and> (fst (parent_check g dev sb parent) = USFS_OK \<longleftrightarrow> usfs_parent_ok g dev sb parent)"
  proof cases
    case 1
    then show ?thesis by (simp add: parent_check_def usfs_parent_ok_def)
  next
    case 2
    then show ?thesis
      using d(5) [of "unat parent"] usfs_entry_read_reliable [OF d(2,3) 2(2), of usfs_entry_zero]
      by (auto simp: parent_check_def usfs_parent_ok_def word_less_nat_alt Let_def entry_check_access_def split: if_splits)
  next
    case 3
    then show ?thesis by (auto simp: parent_check_def usfs_parent_ok_def usfs_entry_read_def)
  qed
  then show "snd (parent_check g dev sb parent) = dev" "fst (parent_check g dev sb parent) = USFS_OK \<longleftrightarrow> usfs_parent_ok g dev sb parent" by auto
qed

lemma usfs_entry_fresh_props:
  assumes "0 < k" and "k < 128" and "k \<le> length nm"
    and e: "e = usfs_entry_fresh g sb t m (Some nm) k p i"
  shows "usfs_entry_wf e" and "ue_entry_type e = t" and "ue_block_count e = 0" and "ue_first_block e = 0" and "ue_size_bytes e = 0"
    and "ue_parent_entry e = p" and "unat (ue_name_length e) = k" and "take k (ue_name e) = take k nm" and "ue_permissions e = m"
    and "ue_entry_index e = i" and "ue_owner_uid e = ucast (uid g)" and "ue_owner_gid e = ucast (gid g)"
    and "ue_security_flags e = (if usb_security_flags sb AND USFS_SEC_ENCRYPTED \<noteq> 0 then USFS_SEC_ENCRYPTED else 0)"
proof -
  have c: "ow_sutf8_name_copy (Some (replicate 128 0)) 128 (Some nm) k = (Some (overwrite 0 (take k nm @ [0]) (replicate 128 0)), k)"
    using assms by (subst ow_sutf8_name_copy_eq) (simp_all add: Let_def min_def)
  have "take k (overwrite 0 (take k nm @ [0]) (replicate 128 0)) = take k nm"
    using assms by (intro nth_equalityI) (auto simp: nth_overwrite nth_append)
  then show "take k (ue_name e) = take k nm" by (simp add: e usfs_entry_fresh_def usfs_entry_zero_def c Let_def)
  show "usfs_entry_wf e" using assms by (simp add: e usfs_entry_fresh_def usfs_entry_zero_def usfs_entry_wf_def c Let_def)
  have "unat (of_nat k :: u8) = k" using assms by (intro unat_of_nat_small) simp
  then show "unat (ue_name_length e) = k" by (simp add: e usfs_entry_fresh_def usfs_entry_zero_def c Let_def)
qed (simp_all add: e usfs_entry_fresh_def usfs_entry_zero_def ow_sec_current_def Let_def split: prod.split option.split)

text \<open>Writing a block of the data region changes neither the bitmap nor the table.\<close>

lemma usfs_data_write:
  assumes inv: "usfs_alloc_inv dev sb" and x: "x \<in> usfs_region sb" and len: "length buf = 4096"
  shows "htl_write_block dev x buf = (HTL_OK, blk_write dev x buf)" and "usfs_alloc_inv (blk_write dev x buf) sb"
    and "usfs_allocated (blk_write dev x buf) sb = usfs_allocated dev sb"
    and "y < total_blocks dev \<Longrightarrow> blk (blk_write dev x buf) y = (if y = x then buf else blk dev y)"
    and "htl_read_block dev x = (HTL_OK, blk dev x, dev)" and "length (blk dev x) = 4096"
proof -
  from inv have dev: "htl_reliable dev" "usfs_geometry dev sb" by (simp_all add: usfs_alloc_inv_def)
  note o = usfs_region_outside [OF dev(2) x]
  show "htl_write_block dev x buf = (HTL_OK, blk_write dev x buf)" "htl_read_block dev x = (HTL_OK, blk dev x, dev)"
    "length (blk dev x) = 4096" using dev(1) o(1) len by (simp_all add: dev_simps)
  show b: "blk (blk_write dev x buf) y = (if y = x then buf else blk dev y)" if "y < total_blocks dev" for y
    using dev(1) o(1) len that by (simp add: dev_simps)
  have rel: "htl_reliable (blk_write dev x buf)" using dev(1) o(1) len by (simp add: dev_simps)
  have "y \<noteq> x" if "\<not> usfs_outside sb y" for y using o(2) that by auto
  then show "usfs_alloc_inv (blk_write dev x buf) sb" "usfs_allocated (blk_write dev x buf) sb = usfs_allocated dev sb"
    using usfs_alloc_inv_same_bitmap [OF inv rel] b by auto
qed

definition usfs_mode_for :: "u8 \<Rightarrow> u16" where
  "usfs_mode_for t = (if t = USFS_ENTRY_CATALOG then USFS_MODE_DEFAULT_DIR else USFS_MODE_DEFAULT_FILE)"

text \<open>What a successful creation does.\<close>

definition usfs_created ::
  "'c htl_device \<Rightarrow> usfs_superblock \<Rightarrow> nat \<Rightarrow> usfs_entry \<Rightarrow> 'c htl_device \<Rightarrow> usfs_superblock \<Rightarrow> bool" where
  "usfs_created dev sb i e dev' sb' \<longleftrightarrow>
     usfs_volume_ok dev' sb' \<and> usfs_sb_counters sb sb' \<and> same_device dev dev' \<and>
     i < unat (usb_total_entries sb) \<and> i \<notin> usfs_live dev sb \<and> (\<forall>j < i. j \<in> usfs_live dev sb) \<and>
     usfs_live dev' sb = insert i (usfs_live dev sb) \<and> usfs_entry_at dev' sb i = usfs_entry_sealed e \<and>
     (\<forall>j < unat (usb_total_entries sb). j \<noteq> i \<longrightarrow> usfs_entry_at dev' sb j = usfs_entry_at dev sb j) \<and>
     usfs_extent e \<inter> usfs_allocated dev sb = {} \<and> usfs_allocated dev' sb = usfs_allocated dev sb \<union> usfs_extent e \<and>
     (\<forall>b \<in> usfs_extent e. \<forall>x \<in> usfs_region sb. x < b \<longrightarrow> x \<in> usfs_allocated dev sb) \<and>
     (\<forall>x \<in> usfs_extent e. blk dev' x = replicate 4096 0) \<and>
     (\<forall>x \<in> usfs_region sb - usfs_extent e. blk dev' x = blk dev x)"

lemma usfs_created_file:
  assumes ok: "usfs_volume_ok dev sb" and i: "i < unat (usb_total_entries sb)" "usfs_slot_free (usfs_entry_at dev sb i)"
    "\<And>j. j < i \<Longrightarrow> \<not> usfs_slot_free (usfs_entry_at dev sb j)"
    and inv: "usfs_alloc_inv dev1 sb1" and s1: "usfs_same_sb sb sb1"
    and vw: "usfs_volume_writable sb1 = USFS_OK" and sd: "same_device dev dev1"
    and same: "\<And>x. x < total_blocks dev \<Longrightarrow> \<not> usfs_off_table sb x \<Longrightarrow> blk dev1 x = blk dev x"
    and al: "usfs_allocated dev1 sb = usfs_allocated dev sb \<union> usfs_extent e" and new: "usfs_extent e \<inter> usfs_allocated dev sb = {}"
    and low: "\<And>b x. b \<in> usfs_extent e \<Longrightarrow> x \<in> usfs_region sb \<Longrightarrow> x < b \<Longrightarrow> x \<in> usfs_allocated dev sb"
    and zero: "\<And>x. x \<in> usfs_extent e \<Longrightarrow> blk dev1 x = replicate 4096 0"
    and keep: "\<And>x. x \<in> usfs_region sb - usfs_extent e \<Longrightarrow> blk dev1 x = blk dev x"
    and wf: "usfs_entry_wf e" and nf: "\<not> usfs_slot_free e" and sz: "ue_size_bytes e = 0"
    and w: "unat (ue_first_block e) + unat (ue_block_count e) \<le> 2 ^ 32"
  obtains dev' sb' where "entry_commit dev1 sb1 (of_nat i) e = (Inr (of_nat i), dev', sb')" "usfs_created dev sb i e dev' sb'"
proof -
  note sb1 = usfs_same_sbD(1,2) [OF s1]
  note d = usfs_volume_okD [OF ok] and u = usfs_entry_index [OF i(1)] and c = usfs_layout_cong [OF sb1(1)]
  from inv have dev1: "htl_reliable dev1" "usfs_geometry dev1 sb1" by (simp_all add: usfs_alloc_inv_def)
  have tb: "total_blocks dev1 = total_blocks dev" using same_deviceD [OF sd] by simp
  have nl: "i \<notin> usfs_live dev sb" using i(2) by (simp add: usfs_live_def)
  have "usfs_live dev sb \<subseteq> {..<unat (usb_total_entries sb)} - {i}" using usfs_live_subset(1) nl by auto
  then have "card (usfs_live dev sb) \<le> card ({..<unat (usb_total_entries sb)} - {i})" by (rule card_mono [rotated]) simp
  then have "unat (usb_used_entries sb) < unat (usb_total_entries sb)" using d(4) i(1) by simp
  then have "unat (usb_used_entries sb) < 2 ^ 32 - 1" using unsigned_less [of "usb_total_entries sb", where 'a = nat] by simp
  then have n: "unat (usb_used_entries sb + 1) = card (insert i (usfs_live dev sb))"
    using d(4) nl usfs_live_subset(2) [of dev sb] unat_plus1 [of "usb_used_entries sb"] by simp
  have oth: "usfs_others dev sb i \<subseteq> usfs_allocated dev sb" by (rule d(8))
  have eok: "usfs_entry_ok dev1 sb e" using al sz w by (simp add: usfs_entry_ok_def)
  let ?dev' = "usfs_entry_put dev1 sb1 i (usfs_entry_sealed e)" and ?sb' = "sb1\<lparr>usb_used_entries := usb_used_entries sb + 1\<rparr>"
  note k = usfs_entry_commit [OF ok i(1) inv sb1(1) tb same, of e "usb_used_entries sb + 1", unfolded if_not_P [OF nf]]
  have al1: "usfs_others dev sb i \<subseteq> usfs_allocated dev1 sb" "usfs_extent e \<inter> usfs_others dev sb i = {}" using oth al new by auto
  note k = k [OF _ _ al1(1) wf _ n]
  have run: "entry_commit dev1 sb1 (of_nat i) e = (Inr (of_nat i), ?dev', ?sb')"
    using usfs_entry_write_reliable [OF dev1 _ vw wf, of "of_nat i"] u sb1(2) c(13) by (simp add: entry_commit_def)
  have reg: "x < total_blocks dev" "usfs_off_table sb x" if "x \<in> usfs_region sb" for x
    using usfs_region_outside(1) [OF d(3) that] usfs_off_table_bitmap(2) [OF d(3) that] .
  have eR: "usfs_extent e \<subseteq> usfs_region sb" using al by (auto simp: usfs_allocated_def)
  have "usfs_created dev sb i e ?dev' ?sb'"
    unfolding usfs_created_def
    using k nl i nf al new low zero keep reg eR sd eok al1 same usfs_same_sb_counters [OF s1]
    by (auto simp: usfs_live_def intro: same_trans)
  with run show thesis by (rule that)
qed

lemma extent_one_word: "extent first 1 = {first}" "unat first + unat (1 :: u32) \<le> 2 ^ 32"
  using extent_one [of first] unsigned_less [of first, where 'a = nat] by simp_all

text \<open>The block found for a single block is the lowest free one.\<close>

lemma usfs_run_lowest:
  assumes geo: "usfs_geometry dev sb" and low: "\<forall>s' < s. \<not> usfs_run dev sb s' (unat (1 :: u32))"
    and s: "s < usfs_data_blocks sb" and x: "x \<in> usfs_region sb" "x < usb_data_region_start sb + of_nat s"
  shows "x \<in> usfs_allocated dev sb"
proof -
  let ?r = "unat x - unat (usb_data_region_start sb)"
  note r = usfs_region_rel [OF x(1)]
  have "unat (usb_data_region_start sb + of_nat s) = unat (usb_data_region_start sb) + s"
    using usfs_run_extent(1) [OF geo, of s 1] s by simp
  then have "?r < s" using x(2) r(2) by (simp add: word_less_nat_alt)
  then have "usfs_used dev sb ?r" using low r(1) by (auto simp: usfs_run_def less_Suc_eq_le)
  then show ?thesis using x(1) by (simp add: usfs_allocated_def)
qed

lemma usfs_catalog_block:
  fixes dev :: "'c htl_device"
  assumes inv: "usfs_alloc_inv dev sb" and vw: "usfs_volume_writable sb = USFS_OK"
    and a: "usfs_block_alloc dev sb 1 = (Inr first, dev1, sb1)"
  shows "htl_write_block dev1 first (replicate 4096 0) = (HTL_OK, blk_write dev1 first (replicate 4096 0))"
    and "usfs_alloc_inv (blk_write dev1 first (replicate 4096 0)) sb1" and "usfs_kept dev sb dev1 sb1"
    and "usfs_allocated (blk_write dev1 first (replicate 4096 0)) sb = insert first (usfs_allocated dev sb)"
    and "first \<in> usfs_region sb - usfs_allocated dev sb"
    and "x < total_blocks dev \<Longrightarrow> usfs_outside sb x \<Longrightarrow>
      blk (blk_write dev1 first (replicate 4096 0)) x = (if x = first then replicate 4096 0 else blk dev x)"
proof -
  have geo: "usfs_geometry dev sb" using inv by (simp add: usfs_alloc_inv_def)
  obtain s where s: "usfs_run dev sb s (unat (1 :: u32))" "first = usb_data_region_start sb + of_nat s" "usfs_alloc_inv dev1 sb1"
    "usfs_kept dev sb dev1 sb1" "usfs_allocated dev1 sb1 = insert first (usfs_allocated dev sb)"
  proof (cases rule: usfs_block_alloc_cases [OF inv vw, of 1, case_names nz found none])
    case (found s dev' sb')
    then show ?thesis using a by (intro that [of s]) (simp_all add: extent_one_word)
  qed (use a in simp_all)
  show fr: "first \<in> usfs_region sb - usfs_allocated dev sb" using usfs_run_free [OF geo s(1)] by (simp add: s(2) extent_one_word)
  note k = usfs_keptD [OF s(4)] and c = usfs_layout_cong [OF usfs_kept_layout(1) [OF s(4)]]
  have r: "first \<in> usfs_region sb1" using fr k(2) by simp
  have len: "length (replicate 4096 (0 :: u8)) = 4096" by simp
  note w = usfs_data_write [OF s(3) r len]
  show "htl_write_block dev1 first (replicate 4096 0) = (HTL_OK, blk_write dev1 first (replicate 4096 0))"
    "usfs_alloc_inv (blk_write dev1 first (replicate 4096 0)) sb1" "usfs_kept dev sb dev1 sb1"
    using w(1,2) s(4) by simp_all
  show "usfs_allocated (blk_write dev1 first (replicate 4096 0)) sb = insert first (usfs_allocated dev sb)"
    using w(3) s(5) by (simp only: c)
  show "blk (blk_write dev1 first (replicate 4096 0)) x = (if x = first then replicate 4096 0 else blk dev x)"
    if "x < total_blocks dev" "usfs_outside sb x"
    using w(4) [of x] k(1) k(6) [OF that] that(1) by simp
qed

text \<open>An entry is created in the lowest free slot; a catalog gets one zeroed block. The request fails,
  and changes nothing, only when the table or, for a catalog, the data region is full.\<close>

lemma usfs_entry_alloc_cases:
  fixes dev :: "'c htl_device"
  assumes ok: "usfs_volume_ok dev sb" and vw: "usfs_volume_writable sb = USFS_OK" and t: "t = USFS_ENTRY_FILE \<or> t = USFS_ENTRY_CATALOG"
    and k: "0 < k" "k < 128" "k \<le> length nm" "ow_sutf8_validate (Some nm) k" and p: "usfs_parent_ok g dev sb p"
  obtains (created) i e first dev' sb' where "usfs_entry_alloc g dev sb t (Some nm) k p = (Inr (of_nat i), dev', sb')"
      "usfs_created dev sb i e dev' sb'"
      "e = (let f = usfs_entry_fresh g sb t (usfs_mode_for t) (Some nm) k p (of_nat i)
            in if t = USFS_ENTRY_CATALOG then f\<lparr>ue_first_block := first, ue_block_count := 1\<rparr> else f)"
  | (full) "usfs_entry_alloc g dev sb t (Some nm) k p = (Inl USFS_ERR_NO_FREE_ENTRIES, dev, sb)"
      "usfs_live dev sb = {..<unat (usb_total_entries sb)}"
  | (no_block) "usfs_entry_alloc g dev sb t (Some nm) k p = (Inl USFS_ERR_NO_FREE_BLOCKS, dev, sb)"
      "t = USFS_ENTRY_CATALOG" "usfs_region sb \<subseteq> usfs_allocated dev sb"
proof (cases "usb_used_entries sb \<ge> usb_total_entries sb")
  case True
  then have "card (usfs_live dev sb) \<ge> card {..<unat (usb_total_entries sb)}"
    using usfs_volume_okD(4) [OF ok] by (simp add: word_le_nat_alt)
  then have "usfs_live dev sb = {..<unat (usb_total_entries sb)}" by (intro card_seteq usfs_live_subset(1)) simp_all
  moreover have "usfs_entry_alloc g dev sb t (Some nm) k p = (Inl USFS_ERR_NO_FREE_ENTRIES, dev, sb)"
    using True t k by (auto simp: usfs_entry_alloc_def)
  ultimately show thesis by (intro full)
next
  case False
  note d = usfs_volume_okD [OF ok]
  have pc: "parent_check g dev sb p = (USFS_OK, dev)" using parent_check_iff [OF ok, of g p] p by (metis prod.collapse)
  have dm: "default_mode_for t = Inr (usfs_mode_for t)" using t by (auto simp: default_mode_for_def usfs_mode_for_def)
  note sc = entry_scan_find [OF ok order_refl, of usfs_entry_zero 0]
  show thesis
  proof (cases "find (\<lambda>i. usfs_slot_free (usfs_entry_at dev sb i)) [0..<unat (usb_total_entries sb)]")
    case None
    then have "usfs_live dev sb = {..<unat (usb_total_entries sb)}" by (auto simp: find_None_iff usfs_live_def)
    moreover have "usfs_entry_alloc g dev sb t (Some nm) k p = (Inl USFS_ERR_NO_FREE_ENTRIES, dev, sb)"
      using False t k vw pc dm sc None by (auto simp: usfs_entry_alloc_def)
    ultimately show thesis by (intro full)
  next
    case (Some i)
    then have i: "i < unat (usb_total_entries sb)" "usfs_slot_free (usfs_entry_at dev sb i)"
      "\<And>j. j < i \<Longrightarrow> \<not> usfs_slot_free (usfs_entry_at dev sb j)" by (auto simp: find_Some_iff)
    define e where "e = usfs_entry_fresh g sb t (usfs_mode_for t) (Some nm) k p (of_nat i)"
    note f = usfs_entry_fresh_props [OF k(1-3) e_def]
    have nf: "\<not> usfs_slot_free e" using t f(2) by (auto simp: usfs_slot_free_def)
    show thesis
    proof (cases "t = USFS_ENTRY_CATALOG")
      case F: False
      then have run: "usfs_entry_alloc g dev sb t (Some nm) k p = entry_commit dev sb (of_nat i) e"
        using False t k vw pc dm sc Some by (simp add: usfs_entry_alloc_def Let_def e_def)
      have x: "usfs_extent e = {}" using f(3) by (simp add: usfs_extent_def)
      obtain dev' sb' where "entry_commit dev sb (of_nat i) e = (Inr (of_nat i), dev', sb')" "usfs_created dev sb i e dev' sb'"
        by (rule usfs_created_file [OF ok i d(1), of e]) (simp_all add: x f(1,3,4,5) nf vw)
      then show thesis using run F by (intro created [of i dev' sb' e]) (simp_all add: e_def)
    next
      case T: True
      show thesis
      proof (cases rule: usfs_block_alloc_cases [OF d(1) vw, of 1, case_names nz found none])
        case (found s dev1 sb1)
        let ?first = "usb_data_region_start sb + of_nat s" and ?z = "replicate 4096 0"
        let ?e = "e\<lparr>ue_first_block := ?first, ue_block_count := 1\<rparr>" and ?dev2 = "blk_write dev1 ?first ?z"
        note c = usfs_catalog_block [OF d(1) vw found(3)]
        have run: "usfs_entry_alloc g dev sb t (Some nm) k p = entry_commit ?dev2 sb1 (of_nat i) ?e"
          using False T k vw pc dm sc Some found(3) c(1) by (simp add: usfs_entry_alloc_def Let_def e_def)
        have x: "usfs_extent ?e = {?first}" by (simp add: usfs_extent_def extent_one_word)
        have sd: "same_device dev ?dev2" using usfs_keptD(5) [OF c(3)] same_trans same_write by blast
        obtain dev' sb' where "entry_commit ?dev2 sb1 (of_nat i) ?e = (Inr (of_nat i), dev', sb')" "usfs_created dev sb i ?e dev' sb'"
        proof (rule usfs_created_file [OF ok i c(2) usfs_kept_same_sb [OF c(3)] _ sd, of ?e])
          show "usfs_volume_writable sb1 = USFS_OK" using usfs_keptD(3) [OF c(3)] vw by simp
          show "blk ?dev2 x = blk dev x" if "x < total_blocks dev" "\<not> usfs_off_table sb x" for x
          proof -
            have "usfs_outside sb x" "x \<noteq> ?first" using usfs_off_table_bitmap(1,2) [OF d(3)] that(2) c(5) by auto
            then show ?thesis using c(6) [OF that(1)] by simp
          qed
          show "usfs_allocated ?dev2 sb = usfs_allocated dev sb \<union> usfs_extent ?e" using c(4) x by simp
          show "usfs_extent ?e \<inter> usfs_allocated dev sb = {}" using c(5) x by auto
          show "x \<in> usfs_allocated dev sb" if "b \<in> usfs_extent ?e" "x \<in> usfs_region sb" "x < b" for b x
          proof (rule usfs_run_lowest [OF d(3) found(2) _ that(2)])
            show "s < usfs_data_blocks sb" using found(1) by (simp add: usfs_run_def)
            show "x < usb_data_region_start sb + of_nat s" using that(1,3) x by simp
          qed
          show "blk ?dev2 x = ?z" if "x \<in> usfs_extent ?e" for x
            using c(5,6) that x usfs_region_outside [OF d(3)] by simp
          show "blk ?dev2 x = blk dev x" if "x \<in> usfs_region sb - usfs_extent ?e" for x
            using c(6) that x usfs_region_outside [OF d(3)] by simp
          show "\<not> usfs_slot_free ?e" using nf by (simp add: usfs_slot_free_def)
        qed (use f(1,5) extent_one_word(2) in simp_all)
        then show thesis using run T by (intro created [of i dev' sb' ?e]) (simp_all add: e_def Let_def)
      next
        case none
        then have "usfs_entry_alloc g dev sb t (Some nm) k p = (Inl USFS_ERR_NO_FREE_BLOCKS, dev, sb)"
          using False T k vw pc dm sc Some by (simp add: usfs_entry_alloc_def Let_def)
        moreover have "usfs_region sb \<subseteq> usfs_allocated dev sb" using none(1) usfs_run_one [OF d(3)] by simp
        ultimately show thesis using T by (intro no_block)
      qed simp
    qed
  qed
qed

section \<open>Deleting an entry\<close>

text \<open>Deleting a live entry that is not read-only and that the caller may write: its run returns to the
  allocator, the slot becomes free, and nothing else of the volume changes.\<close>

lemma usfs_entry_free_ok:
  fixes dev :: "'c htl_device"
  assumes ok: "usfs_volume_ok dev sb" and vw: "usfs_volume_writable sb = USFS_OK" and live: "unat n \<in> usfs_live dev sb"
    and ro: "ue_security_flags (usfs_entry_at dev sb (unat n)) AND USFS_SEC_READONLY = 0"
    and acc: "entry_check_access g (usfs_entry_at dev sb (unat n)) OW_ACCESS_WRITE = USFS_OK"
  obtains dev' sb' where "usfs_entry_free g dev sb n = (USFS_OK, dev', sb')" "usfs_volume_ok dev' sb'" "usfs_sb_counters sb sb'"
    "same_device dev dev'" "usfs_live dev' sb = usfs_live dev sb - {unat n}"
    "usfs_allocated dev' sb = usfs_allocated dev sb - usfs_extent (usfs_entry_at dev sb (unat n))"
    "\<And>j. j < unat (usb_total_entries sb) \<Longrightarrow> j \<noteq> unat n \<Longrightarrow> usfs_entry_at dev' sb j = usfs_entry_at dev sb j"
    "\<And>x. x \<in> usfs_region sb \<Longrightarrow> blk dev' x = blk dev x"
proof -
  note d = usfs_volume_okD [OF ok]
  define e where "e = usfs_entry_at dev sb (unat n)"
  from live have n: "unat n < unat (usb_total_entries sb)" "n < usb_total_entries sb" and
    ty: "ue_entry_type e \<noteq> 0" by (auto simp: usfs_live_def usfs_slot_free_def word_less_nat_alt e_def)
  have rd: "usfs_entry_read dev sb n usfs_entry_zero = (USFS_OK, dev, e)"
    using usfs_entry_read_reliable [OF d(2,3) n(2)] d(5) [OF n(1)] by (simp add: e_def Let_def)
  have eok: "usfs_entry_ok dev sb e" and wf: "usfs_entry_wf e" using d(6) [OF live] d(2,3) n(1) by (simp_all add: e_def)
  have nz: "ue_block_count e \<noteq> 0 \<longleftrightarrow> 0 < ue_block_count e" by (simp add: word_neq_0_conv)
  obtain dev1 sb1 e1 where f: "(if ue_block_count e > 0 then
        case usfs_block_free dev sb (ue_first_block e) (ue_block_count e) of (res, dev, sb) \<Rightarrow>
          (res, dev, sb, e\<lparr>ue_first_block := 0, ue_block_count := 0, ue_size_bytes := 0\<rparr>)
      else (USFS_OK, dev, sb, e)) = (USFS_OK, dev1, sb1, e1)"
    and l: "usfs_alloc_inv dev1 sb1" "usfs_kept dev sb dev1 sb1" "usfs_allocated dev1 sb = usfs_allocated dev sb - usfs_extent e" "usfs_entry_wf e1"
  proof (cases "ue_block_count e = 0")
    case True
    then show ?thesis using d(1) wf by (intro that [of dev sb e]) (simp_all add: usfs_kept_def usfs_extent_def)
  next
    case False
    obtain dev1 sb1 where b: "usfs_block_free dev sb (ue_first_block e) (ue_block_count e) = (USFS_OK, dev1, sb1)"
      "usfs_alloc_inv dev1 sb1" "usfs_kept dev sb dev1 sb1" "usfs_allocated dev1 sb1 = usfs_allocated dev sb - usfs_extent e"
      using usfs_block_free_ok [OF d(1) vw False, of "ue_first_block e"] eok by (auto simp: usfs_entry_ok_def usfs_extent_def)
    show ?thesis
      using False b(1-3) b(4) [unfolded usfs_layout_cong(2) [OF usfs_kept_layout(1) [OF b(3)]]] wf
      by (intro that [of dev1 sb1 "e\<lparr>ue_first_block := 0, ue_block_count := 0, ue_size_bytes := 0\<rparr>"]) (simp_all add: nz)
  qed
  let ?del = "e1\<lparr>ue_entry_type := USFS_ENTRY_DELETED\<rparr>"
  let ?dev' = "usfs_entry_put dev1 sb1 (unat n) (usfs_entry_sealed ?del)" and ?sb' = "sb1\<lparr>usb_used_entries := usb_used_entries sb - 1\<rparr>"
  note kl = usfs_kept_layout [OF l(2)] and kd = usfs_keptD [OF l(2)]
  have i1: "htl_reliable dev1" "usfs_geometry dev1 sb1" using l(1) by (simp_all add: usfs_alloc_inv_def)
  have sf: "usfs_slot_free ?del" by (simp add: usfs_slot_free_def)
  have "0 < card (usfs_live dev sb)" using live usfs_live_subset(2) [of dev sb] by (auto simp: card_gt_0_iff)
  then have u: "0 < usb_used_entries sb" using d(4) by (simp add: unat_gt_0 [symmetric] word_neq_0_conv [symmetric])
  then have un: "unat (usb_used_entries sb - 1) = card (usfs_live dev sb - {unat n})"
    using d(4) live usfs_live_subset(2) [of dev sb] by (simp add: unat_minus_one word_neq_0_conv [symmetric])
  have w: "usfs_entry_write dev1 sb1 n ?del = (USFS_OK, ?dev', usfs_entry_sealed ?del)"
    using usfs_entry_write_reliable [OF i1, of n ?del] n(2) usfs_layout_cong(13) [OF kl(1)] kd(3) vw l(4) by simp
  have run: "usfs_entry_free g dev sb n = (USFS_OK, ?dev', ?sb')"
    unfolding usfs_entry_free_def vw rd using ty ro acc w u
    by (simp only: f prod.case e_def [symmetric] kl(2) simp_thms if_True if_False)
  have same: "blk dev1 x = blk dev x" if "x < total_blocks dev" "\<not> usfs_off_table sb x" for x
    using kd(6) [OF that(1)] usfs_off_table_bitmap(1) [OF d(3)] that(2) by blast
  have oth: "usfs_others dev sb (unat n) \<subseteq> usfs_allocated dev1 sb"
    using d(8) d(7) [OF live] l(3) unfolding e_def by blast
  have wf': "usfs_entry_wf ?del" using l(4) by simp
  note c = usfs_entry_commit [OF ok n(1) l(1) kl(1) kd(1) same oth wf', of "usb_used_entries sb - 1", unfolded if_P [OF sf], OF _ _ _ un]
  have reg: "x < total_blocks dev" "usfs_off_table sb x" "usfs_outside sb x" if "x \<in> usfs_region sb" for x
    using usfs_region_outside(1,2) [OF d(3) that] usfs_off_table_bitmap(2) [OF d(3) that] by simp_all
  have vok: "usfs_volume_ok ?dev' ?sb'" and al': "usfs_allocated ?dev' sb = usfs_allocated dev1 sb" and sd': "same_device dev1 ?dev'"
    and lv: "usfs_live ?dev' sb = usfs_live dev sb - {unat n}"
    by (rule c(1) c(5) c(6) c(4), assumption, assumption, simp add: sf)+
  show thesis
  proof (rule that [OF run vok])
    show "usfs_sb_counters sb ?sb'" by (rule usfs_same_sb_counters [OF usfs_kept_same_sb [OF l(2)]])
    show "same_device dev ?dev'" by (rule same_trans [OF kd(5) sd'])
    show "usfs_live ?dev' sb = usfs_live dev sb - {unat n}" by (rule lv)
    show "usfs_allocated ?dev' sb = usfs_allocated dev sb - usfs_extent (usfs_entry_at dev sb (unat n))" using al' l(3) by (simp add: e_def)
    show "usfs_entry_at ?dev' sb j = usfs_entry_at dev sb j" if "j < unat (usb_total_entries sb)" "j \<noteq> unat n" for j
      by (rule c(3) [OF _ _ _ that]) (simp_all add: sf)
    show "blk ?dev' x = blk dev x" if "x \<in> usfs_region sb" for x
      using c(7) [OF _ _ _ reg(1,2) [OF that]] kd(6) [OF reg(1,3) [OF that]] sf by simp
  qed
qed

section \<open>Looking up a name\<close>

definition usfs_name :: "usfs_entry \<Rightarrow> bytes" where
  "usfs_name e = take (unat (ue_name_length e)) (ue_name e)"

text \<open>Entry \<open>i\<close> has that name and parent and the caller may see it: a hidden entry is shown to its owner
  and to the superuser only.\<close>

definition usfs_entry_match :: "ow_identity \<Rightarrow> 'c htl_device \<Rightarrow> usfs_superblock \<Rightarrow> u32 \<Rightarrow> bytes \<Rightarrow> nat \<Rightarrow> bool" where
  "usfs_entry_match g dev sb parent name i \<longleftrightarrow>
     (let e = usfs_entry_at dev sb i in i \<in> usfs_live dev sb \<and> ue_parent_entry e = parent \<and> usfs_name e = name \<and>
       (entry_is_hidden e \<longrightarrow> ow_sec_is_superuser g \<or> uid g = ucast (ue_owner_uid e)))"

lemma entry_lookup_loop_find:
  assumes ok: "usfs_volume_ok dev sb" and n: "n \<le> unat (usb_total_entries sb)" and v: "sutf8_validate_loop (take k nm)"
  shows "entry_lookup_loop g dev sb p nm k temp [a..<n] =
    (case find (usfs_entry_match g dev sb p (take k nm)) [a..<n] of
       None \<Rightarrow> (Inl USFS_ERR_NOT_FOUND, dev) | Some i \<Rightarrow> (Inr (of_nat i), dev))"
proof (induction "n - a" arbitrary: a temp)
  case (Suc d)
  then have a: "a < n" and l: "[a..<n] = a # [Suc a..<n]" by (simp_all add: upt_conv_Cons)
  have t: "a < unat (usb_total_entries sb)" using a n by simp
  note i = usfs_entry_index [OF t] and d = usfs_volume_okD [OF ok]
  have cmp: "ow_sutf8_name_cmp (ue_name e) (unat (ue_name_length e)) nm k = 0 \<longleftrightarrow> usfs_name e = take k nm" for e
    using v by (auto simp: ow_sutf8_name_cmp_def sutf8_cmp_0 usfs_name_def)
  have m: "usfs_entry_match g dev sb p (take k nm) a \<longleftrightarrow>
      (let e = usfs_entry_at dev sb a in ue_entry_type e \<noteq> 0 \<and> ue_entry_type e AND USFS_ENTRY_DELETED = 0 \<and> ue_parent_entry e = p \<and>
       \<not> (entry_is_hidden e \<and> \<not> ow_sec_is_superuser g \<and> uid (ow_sec_current g) \<noteq> ucast (ue_owner_uid e)) \<and>
       ow_sutf8_name_cmp (ue_name e) (unat (ue_name_length e)) nm k = 0)"
    using t by (auto simp: usfs_entry_match_def usfs_live_def usfs_slot_free_def cmp Let_def ow_sec_current_def)
  show ?case
    using Suc(1) [of "Suc a"] Suc(2) d(5) [OF t] unfolding l
    by (auto simp: usfs_entry_read_reliable [OF d(2,3) i(2)] i(1) m Let_def)
qed simp

lemma usfs_entry_lookup_find:
  assumes ok: "usfs_volume_ok dev sb" and k: "0 < k" "k < 128" and v: "sutf8_validate_loop (take k nm)"
  shows "usfs_entry_lookup g dev sb p (Some nm) k =
    (case find (usfs_entry_match g dev sb p (take k nm)) [0..<unat (usb_total_entries sb)] of
       None \<Rightarrow> (Inl USFS_ERR_NOT_FOUND, dev) | Some i \<Rightarrow> (Inr (of_nat i), dev))"
  using entry_lookup_loop_find [OF ok order_refl v, of g p usfs_entry_zero 0] k by (simp add: usfs_entry_lookup_def)

end
