(* ===== verification/USFS_Sync.thy ===== *)
theory USFS_Sync
  imports USFS_Entry OW_Mount
begin

text \<open>
  \<^verbatim>\<open>usfs/src/usfs_sync.c\<close>: the state flags of a volume, flushing, the consistency check, mounting and
  unmounting. (The two predicates \<^verbatim>\<open>usfs_is_dirty\<close> and \<^verbatim>\<open>usfs_volume_writable\<close> stand with the
  superblock.) The lemmas follow the flags through every operation on a working device and show that
  the check counts exactly the damage it looks for: bad entries, a wrong bitmap checksum, a wrong free
  counter, and on a signed volume a wrong signature.
\<close>

unbundle bit_operations_syntax

definition usfs_mark_dirty ::
  "'c htl_device \<Rightarrow> usfs_superblock \<Rightarrow> usfs_status \<times> 'c htl_device \<times> usfs_superblock" where
  "usfs_mark_dirty dev sb =
     usfs_superblock_write dev (sb\<lparr>usb_state_flags := usb_state_flags sb OR USFS_STATE_DIRTY\<rparr>)"

definition usfs_mark_clean ::
  "'c htl_device \<Rightarrow> usfs_superblock \<Rightarrow> usfs_status \<times> 'c htl_device \<times> usfs_superblock" where
  "usfs_mark_clean dev sb =
     (if usb_state_flags sb AND USFS_STATE_ERROR \<noteq> 0 then (USFS_ERR_CHECKSUM_MISMATCH, dev, sb)
      else
        let sb = sb\<lparr>usb_state_flags := usb_state_flags sb AND NOT (USFS_STATE_DIRTY OR USFS_STATE_LOCKED)\<rparr> in
        case usfs_superblock_write dev sb of (res, dev, sb) \<Rightarrow>
        if res \<noteq> USFS_OK then (res, dev, sb)
        else case htl_flush_cache dev of (hres, dev) \<Rightarrow>
          if hres \<noteq> HTL_OK then (USFS_ERR_IO, dev, sb) else (USFS_OK, dev, sb))"

definition usfs_flush_dirty ::
  "'c htl_device \<Rightarrow> usfs_superblock \<Rightarrow> usfs_status \<times> 'c htl_device \<times> usfs_superblock" where
  "usfs_flush_dirty dev sb =
     (case usfs_bitmap_compute_fletcher64 dev sb of (fl, dev) \<Rightarrow>
      let sb = sb\<lparr>usb_fletcher64_bitmap := fl\<rparr>;
          sb = sb\<lparr>usb_state_flags := usb_state_flags sb AND NOT (USFS_STATE_DIRTY OR USFS_STATE_LOCKED)\<rparr>
      in case usfs_superblock_write dev sb of (res, dev, sb) \<Rightarrow>
        if res \<noteq> USFS_OK then (res, dev, sb)
        else case htl_flush_cache dev of (hres, dev) \<Rightarrow>
          if hres \<noteq> HTL_OK then (USFS_ERR_IO, dev, sb) else (USFS_OK, dev, sb))"

text \<open>The scan over the entry table: the status of the read that ends it early, if any, and the number
  of checksum mismatches so far.\<close>

fun usfs_consistency_scan ::
  "'c htl_device \<Rightarrow> usfs_superblock \<Rightarrow> usfs_entry \<Rightarrow> u32 \<Rightarrow> nat list \<Rightarrow> usfs_status option \<times> u32 \<times> 'c htl_device" where
  "usfs_consistency_scan dev sb entry count [] = (None, count, dev)"
| "usfs_consistency_scan dev sb entry count (i # is) =
     (case usfs_entry_read dev sb (of_nat i) entry of (res, dev, entry) \<Rightarrow>
      if res = USFS_ERR_CHECKSUM_MISMATCH then usfs_consistency_scan dev sb entry (count + 1) is
      else if res \<noteq> USFS_OK \<and> res \<noteq> USFS_ERR_NOT_FOUND then (Some res, count, dev)
      else usfs_consistency_scan dev sb entry count is)"

text \<open>The end of \<^verbatim>\<open>usfs_consistency_check\<close>: the verdict is recorded and flushed, the statuses of a
  failing flush ignored as in the source.\<close>

definition usfs_consistency_verdict ::
  "'c htl_device \<Rightarrow> usfs_superblock \<Rightarrow> u32 \<Rightarrow> usfs_status \<times> u32 \<times> 'c htl_device \<times> usfs_superblock" where
  "usfs_consistency_verdict dev sb count =
     (if count = 0 then
        let sb = sb\<lparr>usb_state_flags := usb_state_flags sb AND
                  NOT (USFS_STATE_DIRTY OR USFS_STATE_LOCKED OR USFS_STATE_ERROR)\<rparr> in
        case usfs_superblock_write dev sb of (wres, dev, sb) \<Rightarrow>
        if wres \<noteq> USFS_OK then (wres, count, dev, sb)
        else case htl_flush_cache dev of (_, dev) \<Rightarrow> (USFS_OK, count, dev, sb)
      else
        let sb = sb\<lparr>usb_state_flags := usb_state_flags sb OR USFS_STATE_ERROR\<rparr> in
        case usfs_superblock_write dev sb of (_, dev, sb) \<Rightarrow>
        case htl_flush_cache dev of (_, dev) \<Rightarrow> (USFS_ERR_CHECKSUM_MISMATCH, count, dev, sb))"

definition usfs_consistency_check ::
  "'c htl_device \<Rightarrow> usfs_superblock \<Rightarrow> usfs_status \<times> u32 \<times> 'c htl_device \<times> usfs_superblock" where
  "usfs_consistency_check dev sb =
     (if \<not> usfs_superblock_validate sb then
        let sb = sb\<lparr>usb_state_flags := usb_state_flags sb OR (USFS_STATE_ERROR OR USFS_STATE_LOCKED)\<rparr> in
        case usfs_superblock_write dev sb of (_, dev, sb) \<Rightarrow>
        case htl_flush_cache dev of (_, dev) \<Rightarrow> (USFS_ERR_CORRUPT_SUPERBLOCK, 1, dev, sb)
      else
        case usfs_superblock_write dev (sb\<lparr>usb_state_flags := usb_state_flags sb OR USFS_STATE_LOCKED\<rparr>)
        of (wres, dev, sb) \<Rightarrow>
        if wres \<noteq> USFS_OK then (wres, 0, dev, sb)
        else case usfs_consistency_scan dev sb usfs_entry_zero 0 [0..<unat (usb_total_entries sb)] of
            (Some res, count, dev) \<Rightarrow> (res, count, dev, sb)
          | (None, count, dev) \<Rightarrow>
              case usfs_bitmap_compute_fletcher64 dev sb of (current_fletcher, dev) \<Rightarrow>
              let count = (if usb_fletcher64_bitmap sb \<noteq> 0 \<and> current_fletcher \<noteq> usb_fletcher64_bitmap sb
                           then count + 1 else count) in
              case usfs_bitmap_count_free dev sb of (counted_free, dev) \<Rightarrow>
              let count = (if counted_free \<noteq> usb_free_blocks sb then count + 1 else count) in
              case (if usb_security_flags sb AND USFS_SEC_SIGNED \<noteq> 0 then
                      case usfs_signature_compute dev sb of (sig, dev) \<Rightarrow>
                        (if usb_signature sb \<noteq> sig then count + 1 else count, dev)
                    else (count, dev)) of (count, dev) \<Rightarrow>
              usfs_consistency_verdict dev sb count)"

definition usfs_mount ::
  "'c htl_device \<Rightarrow> usfs_superblock \<Rightarrow> usfs_status \<times> 'c htl_device \<times> usfs_superblock" where
  "usfs_mount dev sb =
     (case usfs_superblock_read dev sb of (res, dev, sb) \<Rightarrow>
      if res \<noteq> USFS_OK then (res, dev, sb)
      else if usb_state_flags sb AND USFS_STATE_ERROR \<noteq> 0 then (USFS_ERR_VOLUME_DIRTY, dev, sb)
      else if usb_state_flags sb AND (USFS_STATE_DIRTY OR USFS_STATE_LOCKED) \<noteq> 0 then
        case usfs_superblock_write dev (sb\<lparr>usb_state_flags := usb_state_flags sb OR USFS_STATE_LOCKED\<rparr>)
        of (res, dev, sb) \<Rightarrow>
        if res \<noteq> USFS_OK then (res, dev, sb) else (USFS_ERR_VOLUME_DIRTY, dev, sb)
      else
        usfs_superblock_write dev
          (sb\<lparr>usb_mount_count := usb_mount_count sb + 1, usb_state_flags := usb_state_flags sb OR USFS_STATE_DIRTY\<rparr>))"

definition usfs_unmount ::
  "'c htl_device \<Rightarrow> usfs_superblock \<Rightarrow> usfs_status \<times> 'c htl_device \<times> usfs_superblock" where
  "usfs_unmount dev sb =
     (if usb_state_flags sb AND USFS_STATE_ERROR \<noteq> 0 then (USFS_ERR_CHECKSUM_MISMATCH, dev, sb)
      else
        let sb = sb\<lparr>usb_state_flags := usb_state_flags sb AND NOT (USFS_STATE_DIRTY OR USFS_STATE_LOCKED)\<rparr> in
        case usfs_superblock_write dev sb of (res, dev, sb) \<Rightarrow>
        if res \<noteq> USFS_OK then (res, dev, sb)
        else case htl_flush_cache dev of (hres, dev) \<Rightarrow>
          if hres \<noteq> HTL_OK then (USFS_ERR_IO, dev, sb) else (USFS_OK, dev, sb))"

section \<open>The superblock on disk\<close>

definition usfs_disk_sb :: "'c htl_device \<Rightarrow> usfs_superblock" where
  "usfs_disk_sb dev = usfs_superblock_of_bytes (blk dev 0)"

definition usfs_disk :: "'c htl_device \<Rightarrow> bool" where
  "usfs_disk dev \<longleftrightarrow> htl_reliable dev \<and> 0 < total_blocks dev"

definition usfs_put_sb :: "'c htl_device \<Rightarrow> usfs_superblock \<Rightarrow> 'c htl_device" where
  "usfs_put_sb dev sb = blk_write dev 0 (usfs_superblock_bytes (usfs_sealed sb))"

lemma usfs_disk_sb_wf [simp]: "usfs_disk dev \<Longrightarrow> usfs_superblock_wf (usfs_disk_sb dev)"
  by (simp add: usfs_disk_def usfs_disk_sb_def usr.wf_dec length_blk)

lemma usfs_put_sb_props:
  assumes dev: "usfs_disk dev" and wf: "usfs_superblock_wf sb"
  shows "usfs_superblock_write dev sb = (USFS_OK, usfs_put_sb dev sb, usfs_sealed sb)"
    and "usfs_disk (usfs_put_sb dev sb)" and "usfs_disk_sb (usfs_put_sb dev sb) = usfs_sealed sb"
    and "total_blocks (usfs_put_sb dev sb) = total_blocks dev" and "same_device dev (usfs_put_sb dev sb)"
    and "x < total_blocks dev \<Longrightarrow> x \<noteq> 0 \<Longrightarrow> blk (usfs_put_sb dev sb) x = blk dev x"
proof -
  have len: "length (usfs_superblock_bytes (usfs_sealed sb)) = 4096" using wf by simp
  show "usfs_superblock_write dev sb = (USFS_OK, usfs_put_sb dev sb, usfs_sealed sb)"
    using dev len by (simp add: usfs_disk_def usfs_put_sb_def usfs_superblock_write_def Let_def htl_write_reliable)
  show "usfs_disk (usfs_put_sb dev sb)" "total_blocks (usfs_put_sb dev sb) = total_blocks dev" "same_device dev (usfs_put_sb dev sb)"
    "x < total_blocks dev \<Longrightarrow> x \<noteq> 0 \<Longrightarrow> blk (usfs_put_sb dev sb) x = blk dev x"
    using dev len by (simp_all add: usfs_disk_def usfs_put_sb_def dev_simps)
  show "usfs_disk_sb (usfs_put_sb dev sb) = usfs_sealed sb"
    using dev len wf usfs_superblock_dec_enc [of "usfs_sealed sb"]
    by (simp add: usfs_disk_def usfs_disk_sb_def usfs_put_sb_def dev_simps)
qed

lemma usfs_flushed_props:
  assumes "usfs_disk dev"
  shows "htl_flush_cache dev = (HTL_OK, htl_flushed dev)" and "usfs_disk (htl_flushed dev)"
    and "usfs_disk_sb (htl_flushed dev) = usfs_disk_sb dev"
    and "x < total_blocks dev \<Longrightarrow> blk (htl_flushed dev) x = blk dev x"
  using assms by (simp_all add: usfs_disk_def usfs_disk_sb_def dev_simps)

lemma usfs_geometry_disk: "htl_reliable dev \<Longrightarrow> usfs_geometry dev sb \<Longrightarrow> usfs_disk dev"
  by (auto simp: usfs_disk_def usfs_geometry_def word_less_nat_alt)

text \<open>A device that differs in block 0 only holds the same entries, bitmap and data.\<close>

lemma usfs_same_but_0:
  fixes dev dev' :: "'c htl_device"
  assumes geo: "usfs_geometry dev sb" and same: "\<And>x. x < total_blocks dev \<Longrightarrow> x \<noteq> 0 \<Longrightarrow> blk dev' x = blk dev x"
  shows "i < unat (usb_total_entries sb) \<Longrightarrow> usfs_entry_at dev' sb i = usfs_entry_at dev sb i"
    and "usfs_live dev' sb = usfs_live dev sb" and "usfs_others dev' sb = usfs_others dev sb"
    and "x < total_blocks dev \<Longrightarrow> \<not> usfs_outside sb x \<Longrightarrow> blk dev' x = blk dev x"
    and "x \<in> usfs_region sb \<Longrightarrow> blk dev' x = blk dev x"
proof -
  note z = usfs_off_table_bitmap(3) [OF geo]
  show at: "usfs_entry_at dev' sb i = usfs_entry_at dev sb i" if "i < unat (usb_total_entries sb)" for i
    by (rule usfs_entry_at_same [OF geo _ that]) (use z in \<open>metis same\<close>)
  show l: "usfs_live dev' sb = usfs_live dev sb" using at by (auto simp: usfs_live_def)
  show "usfs_others dev' sb = usfs_others dev sb" by (rule ext) (use at in \<open>auto simp: usfs_others_def l usfs_live_def\<close>)
  have "usfs_outside sb 0" using geo by (auto simp: usfs_outside_def usfs_geometry_def word_less_nat_alt)
  then show "x < total_blocks dev \<Longrightarrow> \<not> usfs_outside sb x \<Longrightarrow> blk dev' x = blk dev x" using same [of x] by auto
  show "x \<in> usfs_region sb \<Longrightarrow> blk dev' x = blk dev x" using same [of x] usfs_region_outside(1,3) [OF geo, of x] by (cases "x = 0") simp_all
qed

lemma usfs_volume_ok_same_blocks:
  fixes dev dev' :: "'c htl_device"
  assumes ok: "usfs_volume_ok dev sb" and rel: "htl_reliable dev'" and tb: "total_blocks dev' = total_blocks dev"
    and same: "\<And>x. x < total_blocks dev \<Longrightarrow> x \<noteq> 0 \<Longrightarrow> blk dev' x = blk dev x"
  shows "usfs_volume_ok dev' sb" and "usfs_allocated dev' sb = usfs_allocated dev sb" and "usfs_bitmap_bytes dev' sb = usfs_bitmap_bytes dev sb"
proof -
  note d = usfs_volume_okD [OF ok] and s = usfs_same_but_0 [OF d(3) same]
  note a = usfs_alloc_inv_same_bitmap [OF d(1) rel tb s(4)]
  show al: "usfs_allocated dev' sb = usfs_allocated dev sb" "usfs_bitmap_bytes dev' sb = usfs_bitmap_bytes dev sb" using a(2,3) by simp_all
  have "usfs_entry_ok dev' sb e = usfs_entry_ok dev sb e" for e by (simp add: usfs_entry_ok_def al)
  moreover have "i < unat (usb_total_entries sb)" if "i \<in> usfs_live dev sb" for i using that by (simp add: usfs_live_def)
  moreover have "usfs_alloc_inv dev' sb" using a(1) by simp
  ultimately show "usfs_volume_ok dev' sb" using ok s(1,2) by (simp add: usfs_volume_ok_def)
qed

section \<open>The state flags\<close>

lemma usfs_sb_wf_simps [simp]:
  "usfs_superblock_wf (sb\<lparr>usb_state_flags := f\<rparr>) = usfs_superblock_wf sb"
  "usfs_superblock_wf (sb\<lparr>usb_mount_count := m\<rparr>) = usfs_superblock_wf sb"
  "usfs_superblock_wf (sb\<lparr>usb_fletcher64_bitmap := h\<rparr>) = usfs_superblock_wf sb"
  "usfs_superblock_wf (sb\<lparr>usb_used_entries := u\<rparr>) = usfs_superblock_wf sb"
  "usfs_superblock_wf (sb\<lparr>usb_free_blocks := u\<rparr>) = usfs_superblock_wf sb"
  "usfs_superblock_wf (sb\<lparr>usb_signature := g\<rparr>) = usfs_superblock_wf sb"
  by (simp_all add: usfs_superblock_wf_def)

lemma usfs_mount_disk:
  assumes "usfs_disk dev"
  defines "sb \<equiv> usfs_disk_sb dev"
  shows "usfs_mount dev sb0 =
    (if \<not> usfs_superblock_validate sb then (USFS_ERR_CORRUPT_SUPERBLOCK, dev, sb)
     else if bit (usb_state_flags sb) 1 then (USFS_ERR_VOLUME_DIRTY, dev, sb)
     else if bit (usb_state_flags sb) 0 \<or> bit (usb_state_flags sb) 2 then
       let sb' = sb\<lparr>usb_state_flags := usb_state_flags sb OR USFS_STATE_LOCKED\<rparr>
       in (USFS_ERR_VOLUME_DIRTY, usfs_put_sb dev sb', usfs_sealed sb')
     else
       let sb' = sb\<lparr>usb_mount_count := usb_mount_count sb + 1, usb_state_flags := usb_state_flags sb OR USFS_STATE_DIRTY\<rparr>
       in (USFS_OK, usfs_put_sb dev sb', usfs_sealed sb'))"
proof -
  have "usfs_superblock_read dev sb0 = (if usfs_superblock_validate sb then USFS_OK else USFS_ERR_CORRUPT_SUPERBLOCK, dev, sb)"
    using assms by (simp add: usfs_disk_def usfs_disk_sb_def usfs_superblock_read_def htl_read_reliable Let_def)
  moreover have "usfs_superblock_wf sb" using assms by simp
  ultimately show ?thesis
    unfolding usfs_mount_def state_mask_bits(3) using assms(1) by (simp add: usfs_put_sb_props Let_def)
qed

lemma usfs_mark_dirty_disk:
  "usfs_disk dev \<Longrightarrow> usfs_superblock_wf sb \<Longrightarrow> usfs_mark_dirty dev sb =
     (let sb' = sb\<lparr>usb_state_flags := usb_state_flags sb OR USFS_STATE_DIRTY\<rparr>
      in (USFS_OK, usfs_put_sb dev sb', usfs_sealed sb'))"
  by (simp add: usfs_mark_dirty_def usfs_put_sb_props Let_def)

abbreviation usfs_cleaned :: "usfs_superblock \<Rightarrow> usfs_superblock" where
  "usfs_cleaned sb \<equiv> sb\<lparr>usb_state_flags := usb_state_flags sb AND NOT (USFS_STATE_DIRTY OR USFS_STATE_LOCKED)\<rparr>"

lemma usfs_unmount_disk:
  assumes "usfs_disk dev" and "usfs_superblock_wf sb"
  shows "usfs_unmount dev sb =
    (if bit (usb_state_flags sb) 1 then (USFS_ERR_CHECKSUM_MISMATCH, dev, sb)
     else (USFS_OK, htl_flushed (usfs_put_sb dev (usfs_cleaned sb)), usfs_sealed (usfs_cleaned sb)))"
    and "usfs_mark_clean dev sb = usfs_unmount dev sb"
  using assms by (simp_all add: usfs_unmount_def usfs_mark_clean_def Let_def usfs_put_sb_props usfs_flushed_props)

lemma usfs_flush_disk:
  assumes "htl_reliable dev" and "usfs_geometry dev sb" and "usfs_superblock_wf sb"
  shows "usfs_flush_dirty dev sb =
    (let sb' = usfs_cleaned (sb\<lparr>usb_fletcher64_bitmap :=
         ow_fletcher64 (usfs_bitmap_bytes dev sb) (4096 * unat (usb_bitmap_block_count sb))\<rparr>)
     in (USFS_OK, htl_flushed (usfs_put_sb dev sb'), usfs_sealed sb'))"
  using assms usfs_geometry_disk [OF assms(1,2)]
  by (simp add: usfs_flush_dirty_def usfs_bitmap_fletcher64_eq Let_def usfs_put_sb_props usfs_flushed_props)

section \<open>The consistency check\<close>

definition usfs_bad_entries :: "'c htl_device \<Rightarrow> usfs_superblock \<Rightarrow> nat set" where
  "usfs_bad_entries dev sb = {i. i < unat (usb_total_entries sb) \<and>
     ue_entry_type (usfs_entry_at dev sb i) \<noteq> 0 \<and> \<not> usfs_entry_verify_checksum (usfs_entry_at dev sb i)}"

lemma usfs_consistency_scan_count:
  assumes dev: "htl_reliable dev" and geo: "usfs_geometry dev sb"
  shows "\<forall>i \<in> set is. i < unat (usb_total_entries sb) \<Longrightarrow> usfs_consistency_scan dev sb entry count is =
    (None, count + of_nat (length (filter (\<lambda>i. i \<in> usfs_bad_entries dev sb) is)), dev)"
proof (induction "is" arbitrary: count entry)
  case (Cons i "is")
  then have i: "i < unat (usb_total_entries sb)" by simp
  note u = usfs_entry_index [OF i]
  note r = usfs_entry_read_reliable [OF dev geo u(2), unfolded u(1)]
  show ?case using Cons i by (auto simp: r Let_def usfs_bad_entries_def)
qed simp

text \<open>The signature over the whole entry table.\<close>

definition usfs_table_crc :: "'c htl_device \<Rightarrow> usfs_superblock \<Rightarrow> u32" where
  "usfs_table_crc dev sb =
     ow_crc32c 0 (concat (map (\<lambda>i. blk dev (usb_entry_table_start sb + of_nat i)) [0..<unat (usb_entry_table_blocks sb)]))"

lemma usfs_table_block:
  assumes "usfs_geometry dev sb" and "i < unat (usb_entry_table_blocks sb)"
  shows "usb_entry_table_start sb + of_nat i < total_blocks dev" and "usb_entry_table_start sb + of_nat i \<noteq> 0"
proof -
  have "unat (usb_entry_table_start sb) + i < unat (total_blocks dev)" using usfs_table(1) [OF assms(1)] assms(2) by simp
  moreover from this have "unat (usb_entry_table_start sb) + i < 2 ^ 32"
    using unsigned_less [of "total_blocks dev", where 'a = nat] by simp
  ultimately have u: "unat (usb_entry_table_start sb + of_nat i) = unat (usb_entry_table_start sb) + i"
    by (simp add: unat_word_ariths unat_of_nat_small)
  then show "usb_entry_table_start sb + of_nat i < total_blocks dev"
    using \<open>unat (usb_entry_table_start sb) + i < unat (total_blocks dev)\<close> by (simp add: word_less_nat_alt)
  show "usb_entry_table_start sb + of_nat i \<noteq> 0" using u assms(1) by (auto simp: usfs_geometry_def)
qed

lemma usfs_signature_compute_eq:
  assumes "htl_reliable dev" and "usfs_geometry dev sb"
  shows "usfs_signature_compute dev sb = (usfs_table_crc dev sb, dev)"
  using signature_loop_eq [OF assms(1), of "[0..<unat (usb_entry_table_blocks sb)]" sb 0] usfs_table_block(1) [OF assms(2)]
  by (simp add: usfs_signature_compute_def usfs_table_crc_def)

text \<open>The number of faults the check looks for.\<close>

definition usfs_check_count :: "'c htl_device \<Rightarrow> usfs_superblock \<Rightarrow> nat" where
  "usfs_check_count dev sb =
     card (usfs_bad_entries dev sb) +
     (if usb_fletcher64_bitmap sb \<noteq> 0 \<and>
         ow_fletcher64 (usfs_bitmap_bytes dev sb) (4096 * unat (usb_bitmap_block_count sb)) \<noteq> usb_fletcher64_bitmap sb
      then 1 else 0) +
     (if unat (usb_free_blocks sb) \<noteq> card (usfs_free_set dev sb) then 1 else 0) +
     (if usb_security_flags sb AND USFS_SEC_SIGNED \<noteq> 0 \<and> usb_signature sb \<noteq> usfs_table_crc dev sb then 1 else 0)"

lemma card_usfs_free_set: "usfs_geometry dev sb \<Longrightarrow> card (usfs_free_set dev sb) < 2 ^ 32"
  using card_mono [of "{..<usfs_data_blocks sb}" "usfs_free_set dev sb"] usfs_data_blocks_word(3) [of dev sb]
  by (fastforce simp: usfs_free_set_def)

lemma usfs_check_same:
  fixes dev dev' :: "'c htl_device"
  assumes geo: "usfs_geometry dev sb" and tb: "total_blocks dev' = total_blocks dev"
    and same: "\<And>x. x < total_blocks dev \<Longrightarrow> x \<noteq> 0 \<Longrightarrow> blk dev' x = blk dev x"
  shows "usfs_bad_entries dev' sb = usfs_bad_entries dev sb" and "usfs_table_crc dev' sb = usfs_table_crc dev sb"
    and "usfs_bitmap_bytes dev' sb = usfs_bitmap_bytes dev sb" and "usfs_free_set dev' sb = usfs_free_set dev sb"
proof -
  note s = usfs_same_but_0 [OF geo same]
  show "usfs_bad_entries dev' sb = usfs_bad_entries dev sb" using s(1) by (auto simp: usfs_bad_entries_def)
  show "usfs_table_crc dev' sb = usfs_table_crc dev sb"
    unfolding usfs_table_crc_def using usfs_table_block [OF geo] same
    by (intro arg_cong [where f = "\<lambda>bs. ow_crc32c 0 (concat bs)"] map_cong) auto
  have b: "blk dev' (usb_bitmap_start_block sb + of_nat k) = blk dev (usb_bitmap_start_block sb + of_nat k)"
    if "k < unat (usb_bitmap_block_count sb)" for k
  proof -
    have "32768 * k < 32768 * unat (usb_bitmap_block_count sb)" using that by simp
    note g = usfs_geometryD [OF geo this]
    have "0 < unat (usb_bitmap_start_block sb)" using geo by (simp add: usfs_geometry_def)
    then have "usb_bitmap_start_block sb + of_nat k \<noteq> 0" using g(1) by auto
    then show ?thesis using same g(2) by simp
  qed
  then show "usfs_bitmap_bytes dev' sb = usfs_bitmap_bytes dev sb"
    unfolding usfs_bitmap_bytes_def by (intro arg_cong [where f = concat] map_cong) auto
  have "usfs_used dev' sb r = usfs_used dev sb r" if "r < usfs_data_blocks sb" for r
    using b usfs_rel_bitmap [OF geo that] by (simp add: usfs_used_def less_mult_imp_div_less mult.commute)
  then show "usfs_free_set dev' sb = usfs_free_set dev sb" by (auto simp: usfs_free_set_def)
qed

lemma usfs_layout_state [simp]:
  "usfs_layout (sb\<lparr>usb_state_flags := f\<rparr>) = usfs_layout sb" "usfs_layout (sb\<lparr>usb_checksum := c\<rparr>) = usfs_layout sb"
  "usfs_layout (sb\<lparr>usb_mount_count := m\<rparr>) = usfs_layout sb" "usfs_layout (sb\<lparr>usb_fletcher64_bitmap := h\<rparr>) = usfs_layout sb"
  "usfs_layout (sb\<lparr>usb_signature := s\<rparr>) = usfs_layout sb" "usfs_layout (sb\<lparr>usb_key_slot_1 := k\<rparr>) = usfs_layout sb"
  "usfs_layout (sb\<lparr>usb_security_flags := g\<rparr>) = usfs_layout sb" "usfs_layout (sb\<lparr>usb_key_slot_2 := k\<rparr>) = usfs_layout sb"
  by (simp_all add: usfs_layout_def)

lemma usfs_consistency_check_count:
  fixes dev :: "'c htl_device"
  assumes dev: "htl_reliable dev" and geo: "usfs_geometry dev sb" and wf: "usfs_superblock_wf sb"
    and val: "usfs_superblock_validate sb"
  defines "s \<equiv> sb\<lparr>usb_state_flags := usb_state_flags sb OR USFS_STATE_LOCKED\<rparr>"
  shows "usfs_consistency_check dev sb =
    usfs_consistency_verdict (usfs_put_sb dev s) (usfs_sealed s) (of_nat (usfs_check_count dev sb))"
proof -
  have disk: "usfs_disk dev" by (rule usfs_geometry_disk [OF dev geo])
  define sb1 where "sb1 = usfs_sealed s"
  let ?d = "usfs_put_sb dev s"
  have wf1: "usfs_superblock_wf s" using wf by (simp add: s_def)
  note w = usfs_put_sb_props [OF disk wf1]
  have lay: "usfs_layout sb1 = usfs_layout sb" by (simp add: sb1_def s_def)
  have f: "usb_bitmap_block_count sb1 = usb_bitmap_block_count sb" "usb_free_blocks sb1 = usb_free_blocks sb"
    "usb_total_entries sb1 = usb_total_entries sb" "usb_fletcher64_bitmap sb1 = usb_fletcher64_bitmap sb"
    "usb_security_flags sb1 = usb_security_flags sb" "usb_signature sb1 = usb_signature sb"
    "usb_entry_table_start sb1 = usb_entry_table_start sb" "usb_entry_table_blocks sb1 = usb_entry_table_blocks sb"
    by (simp_all add: sb1_def s_def)
  note c = usfs_layout_cong(1,3,7,12) [OF lay, where dev = ?d]
  have geo1: "usfs_geometry ?d sb1" using geo c(1) usfs_geometry_dev [OF w(4)] by simp
  have d1: "htl_reliable ?d" using w(2) by (simp add: usfs_disk_def)
  note same = usfs_check_same [OF geo w(4,6)]
  have bad: "usfs_bad_entries ?d sb1 = usfs_bad_entries dev sb" using same(1) c(3) by (simp add: usfs_bad_entries_def f)
  have "set (filter (\<lambda>i. i \<in> usfs_bad_entries dev sb) [0..<unat (usb_total_entries sb)]) = usfs_bad_entries dev sb"
    by (auto simp: usfs_bad_entries_def)
  then have len: "length (filter (\<lambda>i. i \<in> usfs_bad_entries dev sb) [0..<unat (usb_total_entries sb)]) = card (usfs_bad_entries dev sb)"
    using distinct_card [of "filter (\<lambda>i. i \<in> usfs_bad_entries dev sb) [0..<unat (usb_total_entries sb)]"] by simp
  have cf: "(of_nat (card (usfs_free_set dev sb)) \<noteq> usb_free_blocks sb) = (unat (usb_free_blocks sb) \<noteq> card (usfs_free_set dev sb))"
    using card_usfs_free_set [OF geo] unat_of_nat_small [of "card (usfs_free_set dev sb)", where 'a = 32]
    by (auto simp: word_unat_eq_iff)
  have cnt: "usfs_bitmap_count_free ?d sb1 = (of_nat (card (usfs_free_set dev sb)), ?d)"
    using usfs_bitmap_count_free_card [OF d1 geo1] same(4) c(2) by simp
  have fle: "usfs_bitmap_compute_fletcher64 ?d sb1 =
      (ow_fletcher64 (usfs_bitmap_bytes dev sb) (4096 * unat (usb_bitmap_block_count sb)), ?d)"
    using usfs_bitmap_fletcher64_eq [OF d1 geo1] same(3) c(4) by (simp add: f)
  have sig: "usfs_signature_compute ?d sb1 = (usfs_table_crc dev sb, ?d)"
    using usfs_signature_compute_eq [OF d1 geo1] same(2) by (simp add: usfs_table_crc_def f)
  have scan: "usfs_consistency_scan ?d sb1 usfs_entry_zero 0 [0..<unat (usb_total_entries sb1)] =
      (None, of_nat (card (usfs_bad_entries dev sb)), ?d)"
    using usfs_consistency_scan_count [OF d1 geo1, of "[0..<unat (usb_total_entries sb1)]" usfs_entry_zero 0] bad len by (simp add: f)
  show ?thesis
    using val w(1) scan cnt fle cf sig f(2,4,5,6)
    by (simp add: usfs_consistency_check_def s_def [symmetric] sb1_def [symmetric] usfs_check_count_def Let_def)
qed

lemma usfs_consistency_verdict_disk:
  assumes "usfs_disk dev" and "usfs_superblock_wf sb"
  shows "usfs_consistency_verdict dev sb count =
    (let sb' = sb\<lparr>usb_state_flags := if count = 0
           then usb_state_flags sb AND NOT (USFS_STATE_DIRTY OR USFS_STATE_LOCKED OR USFS_STATE_ERROR)
           else usb_state_flags sb OR USFS_STATE_ERROR\<rparr>
     in (if count = 0 then USFS_OK else USFS_ERR_CHECKSUM_MISMATCH, count,
         htl_flushed (usfs_put_sb dev sb'), usfs_sealed sb'))"
  using assms by (simp add: usfs_consistency_verdict_def usfs_put_sb_props usfs_flushed_props Let_def)

text \<open>The whole check, run on a superblock the caller holds: it is locked, the faults are counted, and the
  verdict is written and flushed.\<close>

lemma usfs_consistency_check_run:
  fixes dev :: "'c htl_device"
  assumes dev: "htl_reliable dev" and geo: "usfs_geometry dev sb" and wf: "usfs_superblock_wf sb" and val: "usfs_superblock_validate sb"
    and small: "usfs_check_count dev sb < 2 ^ 32"
  defines "c \<equiv> usfs_check_count dev sb" and "s \<equiv> usfs_sealed (sb\<lparr>usb_state_flags := usb_state_flags sb OR USFS_STATE_LOCKED\<rparr>)"
  defines "t \<equiv> s\<lparr>usb_state_flags := if c = 0 then usb_state_flags s AND NOT (USFS_STATE_DIRTY OR USFS_STATE_LOCKED OR USFS_STATE_ERROR)
      else usb_state_flags s OR USFS_STATE_ERROR\<rparr>"
  shows "usfs_consistency_check dev sb = (if c = 0 then USFS_OK else USFS_ERR_CHECKSUM_MISMATCH, of_nat c,
      htl_flushed (usfs_put_sb (usfs_put_sb dev (sb\<lparr>usb_state_flags := usb_state_flags sb OR USFS_STATE_LOCKED\<rparr>)) t), usfs_sealed t)"
    and "if c = 0 then clean_flags (usb_state_flags (usfs_sealed t)) else bit (usb_state_flags (usfs_sealed t)) 1 \<and> bit (usb_state_flags (usfs_sealed t)) 2"
    and "usfs_superblock_wf t"
proof -
  let ?s = "sb\<lparr>usb_state_flags := usb_state_flags sb OR USFS_STATE_LOCKED\<rparr>"
  have wfs: "usfs_superblock_wf ?s" "usfs_superblock_wf s" using wf by (simp_all add: s_def)
  note w = usfs_put_sb_props [OF usfs_geometry_disk [OF dev geo] wfs(1)]
  have "unat (of_nat c :: u32) = c" using small by (intro unat_of_nat_small) (simp add: c_def)
  then have z: "(of_nat c :: u32) = 0 \<longleftrightarrow> c = 0" by (metis unat_eq_0)
  show "usfs_consistency_check dev sb = (if c = 0 then USFS_OK else USFS_ERR_CHECKSUM_MISMATCH, of_nat c,
      htl_flushed (usfs_put_sb (usfs_put_sb dev ?s) t), usfs_sealed t)"
    unfolding usfs_consistency_check_count [OF dev geo wf val, folded s_def c_def] usfs_consistency_verdict_disk [OF w(2) wfs(2)] z Let_def t_def by simp
  show "if c = 0 then clean_flags (usb_state_flags (usfs_sealed t)) else bit (usb_state_flags (usfs_sealed t)) 1 \<and> bit (usb_state_flags (usfs_sealed t)) 2"
    by (simp add: t_def s_def clean_flags_def)
  show "usfs_superblock_wf t" using wfs(2) by (simp add: t_def)
qed

section \<open>The mount protocol\<close>

text \<open>A device with a valid superblock whose layout fits it, the faults its check would count, and two devices
  that differ in the superblock only.\<close>

definition usfs_sound :: "'c htl_device \<Rightarrow> bool" where
  "usfs_sound dev \<longleftrightarrow> usfs_disk dev \<and> usfs_superblock_validate (usfs_disk_sb dev) \<and> usfs_geometry dev (usfs_disk_sb dev)"

definition usfs_faults :: "'c htl_device \<Rightarrow> nat" where
  "usfs_faults dev = usfs_check_count dev (usfs_disk_sb dev)"

definition usfs_only_sb :: "'c htl_device \<Rightarrow> 'c htl_device \<Rightarrow> bool" where
  "usfs_only_sb dev dev' \<longleftrightarrow> total_blocks dev' = total_blocks dev \<and> (\<forall>x. x < total_blocks dev \<longrightarrow> x \<noteq> 0 \<longrightarrow> blk dev' x = blk dev x)"

text \<open>Writing the superblock with other state flags or another mount count.\<close>

lemma usfs_sound_put:
  fixes dev :: "'c htl_device"
  assumes snd: "usfs_sound dev" and s: "s = (usfs_disk_sb dev)\<lparr>usb_mount_count := m, usb_state_flags := f, usb_checksum := c\<rparr>"
    and d': "d' = usfs_put_sb dev s \<or> d' = htl_flushed (usfs_put_sb dev s)"
  shows "usfs_sound d'" and "usfs_faults d' = usfs_faults dev" and "usfs_only_sb dev d'" and "usfs_disk_sb d' = usfs_sealed s"
proof -
  let ?sb = "usfs_disk_sb dev"
  from snd have disk: "usfs_disk dev" and val: "usfs_superblock_validate ?sb" and geo: "usfs_geometry dev ?sb" by (simp_all add: usfs_sound_def)
  have wf: "usfs_superblock_wf s" using usfs_disk_sb_wf [OF disk] by (simp add: s usfs_superblock_wf_def)
  note p = usfs_put_sb_props [OF disk wf] and fl = usfs_flushed_props [OF usfs_put_sb_props(2) [OF disk wf]]
  have disk': "usfs_disk d'" and tb: "total_blocks d' = total_blocks dev" using d' p(2,4) fl(2) by auto
  show sb': "usfs_disk_sb d' = usfs_sealed s" using d' p(3) fl(3) by auto
  have same: "blk d' x = blk dev x" if "x < total_blocks dev" "x \<noteq> 0" for x using d' p(4,6) fl(4) that by auto
  then show "usfs_only_sb dev d'" by (simp add: usfs_only_sb_def tb)
  have lay: "usfs_layout (usfs_sealed s) = usfs_layout ?sb" by (simp add: s)
  have "usb_magic ?sb = USFS_MAGIC" "usb_block_size ?sb = 0x1000" using val by (simp_all add: usfs_superblock_validate_def split: if_splits)
  then have "usfs_superblock_validate (usfs_sealed s)" using usfs_sealed_validate [OF wf] by (simp add: s)
  moreover have "usfs_geometry d' (usfs_sealed s)" using geo usfs_layout_cong(1) [OF lay, of d'] usfs_geometry_dev [OF tb] by simp
  ultimately show "usfs_sound d'" using disk' by (simp add: usfs_sound_def sb')
  note k = usfs_check_same [OF geo tb same] and l = usfs_layout_cong(3,7,12) [OF lay, where dev = d'] and te = usfs_layout_cong(13) [OF lay]
  have "usfs_bad_entries d' (usfs_sealed s) = usfs_bad_entries d' ?sb" by (simp only: usfs_bad_entries_def l te)
  moreover have "usfs_table_crc d' (usfs_sealed s) = usfs_table_crc d' ?sb" by (simp add: usfs_table_crc_def s)
  ultimately show "usfs_faults d' = usfs_faults dev"
    unfolding usfs_faults_def usfs_check_count_def sb' l(1,3) using k by (simp add: s)
qed

text \<open>The check on a sound device: the verdict is the number of faults, and the marks on the device follow it.\<close>

lemma usfs_check_sound:
  fixes dev :: "'c htl_device"
  assumes snd: "usfs_sound dev" and small: "usfs_faults dev < 2 ^ 32"
  shows "\<exists>d'. usfs_consistency_check dev (usfs_disk_sb dev) =
        (if usfs_faults dev = 0 then USFS_OK else USFS_ERR_CHECKSUM_MISMATCH, of_nat (usfs_faults dev), d', usfs_disk_sb d') \<and>
      usfs_sound d' \<and> usfs_faults d' = usfs_faults dev \<and> usfs_only_sb dev d' \<and>
      (if usfs_faults dev = 0 then clean_flags (usb_state_flags (usfs_disk_sb d')) else bit (usb_state_flags (usfs_disk_sb d')) 1)"
proof -
  let ?sb = "usfs_disk_sb dev" and ?c = "usfs_faults dev"
  from snd have disk: "usfs_disk dev" and val: "usfs_superblock_validate ?sb" and geo: "usfs_geometry dev ?sb" by (simp_all add: usfs_sound_def)
  have rel: "htl_reliable dev" using disk by (simp add: usfs_disk_def)
  define s where "s = ?sb\<lparr>usb_state_flags := usb_state_flags ?sb OR USFS_STATE_LOCKED\<rparr>"
  have s: "s = ?sb\<lparr>usb_mount_count := usb_mount_count ?sb, usb_state_flags := usb_state_flags ?sb OR USFS_STATE_LOCKED, usb_checksum := usb_checksum ?sb\<rparr>"
    by (simp add: s_def)
  note p = usfs_sound_put [OF snd s disjI1 [OF refl]]
  define t where "t = usfs_sealed s\<lparr>usb_state_flags := if ?c = 0
       then usb_state_flags (usfs_sealed s) AND NOT (USFS_STATE_DIRTY OR USFS_STATE_LOCKED OR USFS_STATE_ERROR)
       else usb_state_flags (usfs_sealed s) OR USFS_STATE_ERROR\<rparr>"
  note run = usfs_consistency_check_run [OF rel geo usfs_disk_sb_wf [OF disk] val small [unfolded usfs_faults_def], folded s_def usfs_faults_def, folded t_def]
  let ?d1 = "usfs_put_sb dev s" and ?d2 = "htl_flushed (usfs_put_sb (usfs_put_sb dev s) t)"
  have t: "t = (usfs_disk_sb ?d1)\<lparr>usb_mount_count := usb_mount_count t, usb_state_flags := usb_state_flags t, usb_checksum := usb_checksum t\<rparr>"
    by (simp add: p(4) t_def)
  note q = usfs_sound_put [OF p(1) t disjI2 [OF refl]]
  have "usfs_only_sb dev ?d2" using p(3) q(3) by (simp add: usfs_only_sb_def)
  moreover have "usfs_faults ?d2 = ?c" using q(2) p(2) by simp
  moreover have "if ?c = 0 then clean_flags (usb_state_flags (usfs_sealed t)) else bit (usb_state_flags (usfs_sealed t)) 1"
    using run(2) by (auto split: if_splits)
  ultimately show ?thesis using q(1) run(1) by (intro exI [of _ ?d2], unfold q(4)) blast
qed

interpretation usfs_mp: mount_protocol usfs_mount usfs_consistency_check USFS_OK USFS_ERR_VOLUME_DIRTY USFS_ERR_CHECKSUM_MISMATCH
  usfs_disk_sb usb_state_flags usfs_sound usfs_faults usfs_only_sb
proof
  fix dev :: "'c htl_device" and s0
  let ?sb = "usfs_disk_sb dev"
  assume s: "usfs_sound dev"
  then have disk: "usfs_disk dev" and val: "usfs_superblock_validate ?sb" and geo: "usfs_geometry dev ?sb" by (simp_all add: usfs_sound_def)
  note m = usfs_mount_disk [OF disk, of s0]
  show "\<exists>d'. usfs_mount dev s0 = (USFS_OK, d', usfs_disk_sb d') \<and> usfs_sound d' \<and> usfs_faults d' = usfs_faults dev \<and> usfs_only_sb dev d' \<and>
      bit (usb_state_flags (usfs_disk_sb d')) 0 \<and> \<not> bit (usb_state_flags (usfs_disk_sb d')) 1"
    if "clean_flags (usb_state_flags ?sb)"
  proof -
    define t where "t = ?sb\<lparr>usb_mount_count := usb_mount_count ?sb + 1, usb_state_flags := usb_state_flags ?sb OR USFS_STATE_DIRTY\<rparr>"
    have t: "t = ?sb\<lparr>usb_mount_count := usb_mount_count ?sb + 1, usb_state_flags := usb_state_flags ?sb OR USFS_STATE_DIRTY, usb_checksum := usb_checksum ?sb\<rparr>"
      by (simp add: t_def)
    note p = usfs_sound_put [OF s t disjI1 [OF refl]]
    have "usfs_mount dev s0 = (USFS_OK, usfs_put_sb dev t, usfs_sealed t)" using m val that by (simp add: clean_flags_def t_def Let_def)
    moreover have "bit (usb_state_flags (usfs_sealed t)) 0" "\<not> bit (usb_state_flags (usfs_sealed t)) 1" using that by (simp_all add: t_def clean_flags_def)
    ultimately show ?thesis using p by (intro exI [of _ "usfs_put_sb dev t"]) simp
  qed
  show "\<exists>d'. usfs_mount dev s0 = (USFS_ERR_VOLUME_DIRTY, d', usfs_disk_sb d') \<and> usfs_sound d' \<and> usfs_faults d' = usfs_faults dev \<and> usfs_only_sb dev d' \<and>
      \<not> clean_flags (usb_state_flags (usfs_disk_sb d')) \<and> bit (usb_state_flags (usfs_disk_sb d')) 1 = bit (usb_state_flags ?sb) 1"
    if "\<not> clean_flags (usb_state_flags ?sb)"
  proof (cases "bit (usb_state_flags ?sb) 1")
    case True
    then have "usfs_mount dev s0 = (USFS_ERR_VOLUME_DIRTY, dev, ?sb)" using m val by simp
    then show ?thesis using s that by (intro exI [of _ dev]) (simp add: usfs_only_sb_def)
  next
    case False
    define t where "t = ?sb\<lparr>usb_state_flags := usb_state_flags ?sb OR USFS_STATE_LOCKED\<rparr>"
    have t: "t = ?sb\<lparr>usb_mount_count := usb_mount_count ?sb, usb_state_flags := usb_state_flags ?sb OR USFS_STATE_LOCKED, usb_checksum := usb_checksum ?sb\<rparr>"
      by (simp add: t_def)
    note p = usfs_sound_put [OF s t disjI1 [OF refl]]
    have "usfs_mount dev s0 = (USFS_ERR_VOLUME_DIRTY, usfs_put_sb dev t, usfs_sealed t)" using m val that False by (auto simp: clean_flags_def t_def Let_def)
    moreover have "\<not> clean_flags (usb_state_flags (usfs_sealed t))" "\<not> bit (usb_state_flags (usfs_sealed t)) 1" using False by (simp_all add: t_def clean_flags_def)
    ultimately show ?thesis using p False by (intro exI [of _ "usfs_put_sb dev t"]) simp
  qed
  show "\<exists>d'. usfs_consistency_check dev ?sb =
        (if usfs_faults dev = 0 then USFS_OK else USFS_ERR_CHECKSUM_MISMATCH, of_nat (usfs_faults dev), d', usfs_disk_sb d') \<and>
      usfs_sound d' \<and> usfs_faults d' = usfs_faults dev \<and> usfs_only_sb dev d' \<and>
      (if usfs_faults dev = 0 then clean_flags (usb_state_flags (usfs_disk_sb d')) else bit (usb_state_flags (usfs_disk_sb d')) 1)"
    if small: "usfs_faults dev < 2 ^ 32"
    using usfs_check_sound [OF s small] by blast
qed (auto simp: usfs_only_sb_def)

text \<open>A flush of a consistent volume without a signature leaves a device on which the check finds nothing.\<close>

lemma usfs_flush_faultless:
  fixes dev :: "'c htl_device"
  assumes ok: "usfs_volume_ok dev sb" and wf: "usfs_superblock_wf sb" and id: "usb_magic sb = USFS_MAGIC" "usb_block_size sb = 0x1000"
    and ns: "usb_security_flags sb AND USFS_SEC_SIGNED = 0" and ne: "\<not> bit (usb_state_flags sb) 1"
  obtains dev1 where "usfs_flush_dirty dev sb = (USFS_OK, dev1, usfs_disk_sb dev1)" "usfs_sound dev1" "usfs_faults dev1 = 0"
    "clean_flags (usb_state_flags (usfs_disk_sb dev1))" "usfs_only_sb dev dev1"
proof -
  note d = usfs_volume_okD [OF ok]
  have disk: "usfs_disk dev" by (rule usfs_geometry_disk [OF d(2,3)])
  let ?f = "ow_fletcher64 (usfs_bitmap_bytes dev sb) (4096 * unat (usb_bitmap_block_count sb))"
  define s where "s = usfs_cleaned (sb\<lparr>usb_fletcher64_bitmap := ?f\<rparr>)"
  let ?d = "htl_flushed (usfs_put_sb dev s)"
  have wfs: "usfs_superblock_wf s" using wf by (simp add: s_def)
  note p = usfs_put_sb_props [OF disk wfs] and fl = usfs_flushed_props [OF usfs_put_sb_props(2) [OF disk wfs]]
  have tb: "total_blocks ?d = total_blocks dev" using p(4) by simp
  have same: "blk ?d x = blk dev x" if "x < total_blocks dev" "x \<noteq> 0" for x using fl(4) p(4,6) that by simp
  have sb': "usfs_disk_sb ?d = usfs_sealed s" using fl(3) p(3) by simp
  have lay: "usfs_layout (usfs_sealed s) = usfs_layout sb" by (simp add: s_def)
  note k = usfs_check_same [OF d(3) tb same] and l = usfs_layout_cong(1,3,7,12) [OF lay, where dev = ?d] and te = usfs_layout_cong(13) [OF lay]
  have "usfs_bad_entries ?d sb = {}" using k(1) d(5) by (auto simp: usfs_bad_entries_def)
  moreover have "usfs_bad_entries ?d (usfs_sealed s) = usfs_bad_entries ?d sb" by (simp only: usfs_bad_entries_def l te)
  ultimately have bad: "usfs_bad_entries ?d (usfs_sealed s) = {}" by simp
  have cnt: "unat (usb_free_blocks sb) = card (usfs_free_set dev sb)" using d(1) by (simp add: usfs_alloc_inv_def)
  have "usfs_faults ?d = 0"
    unfolding usfs_faults_def usfs_check_count_def sb' l(2,4) bad using cnt ns k(3,4) by (simp add: s_def)
  moreover have "usfs_sound ?d"
  proof -
    have "usb_magic s = USFS_MAGIC" "usb_block_size s = 0x1000" using id by (simp_all add: s_def)
    then show ?thesis using fl(2) usfs_sealed_validate [OF wfs] l(1) usfs_geometry_dev [OF tb] d(3) by (simp add: usfs_sound_def sb')
  qed
  moreover have "clean_flags (usb_state_flags (usfs_disk_sb ?d))" using ne unfolding sb' by (simp add: s_def clean_flags_def)
  moreover have "usfs_flush_dirty dev sb = (USFS_OK, ?d, usfs_disk_sb ?d)" unfolding sb' unfolding usfs_flush_disk [OF d(2,3) wf] Let_def s_def by (rule refl)
  ultimately show thesis using same tb by (intro that [of ?d]) (simp_all add: usfs_only_sb_def)
qed

section \<open>Flushing and mounting again\<close>

lemma usfs_writable_flags:
  "bit (usb_state_flags sb') 1 = bit (usb_state_flags sb) 1 \<Longrightarrow> \<not> bit (usb_state_flags sb') 2 \<Longrightarrow>
   usb_security_flags sb' = usb_security_flags sb \<Longrightarrow> usfs_volume_writable sb = USFS_OK \<Longrightarrow> usfs_volume_writable sb' = USFS_OK"
  by (simp add: usfs_volume_writable_iff)

text \<open>Mounting a clean volume: nothing but the superblock changes, and the volume may be written.\<close>

lemma usfs_mount_ok:
  fixes dev :: "'c htl_device"
  assumes ok: "usfs_volume_ok dev sb" and wf: "usfs_superblock_wf sb" and vw: "usfs_volume_writable sb = USFS_OK"
    and val: "usfs_superblock_validate sb" and sb: "usfs_disk_sb dev = sb" and clean: "\<not> bit (usb_state_flags sb) 0"
  obtains dev' sb' where "usfs_mount dev sb0 = (USFS_OK, dev', sb')" "usfs_volume_ok dev' sb'" "usfs_volume_writable sb' = USFS_OK"
    "usfs_superblock_wf sb'" "usfs_layout sb' = usfs_layout sb" "usb_security_flags sb' = usb_security_flags sb"
    "usb_key_slot_1 sb' = usb_key_slot_1 sb" "usb_crypto_nonce sb' = usb_crypto_nonce sb" "usb_used_entries sb' = usb_used_entries sb"
    "usb_magic sb' = USFS_MAGIC" "usb_block_size sb' = 0x1000" "same_device dev dev'"
    "\<And>x. x < total_blocks dev \<Longrightarrow> x \<noteq> 0 \<Longrightarrow> blk dev' x = blk dev x"
proof -
  note d = usfs_volume_okD [OF ok]
  have disk: "usfs_disk dev" by (rule usfs_geometry_disk [OF d(2,3)])
  define s where "s = sb\<lparr>usb_mount_count := usb_mount_count sb + 1, usb_state_flags := usb_state_flags sb OR USFS_STATE_DIRTY\<rparr>"
  have wfs: "usfs_superblock_wf s" using wf by (simp add: s_def)
  note p = usfs_put_sb_props [OF disk wfs]
  have id: "usb_magic sb = USFS_MAGIC" "usb_block_size sb = 0x1000" using val by (simp_all add: usfs_superblock_validate_def split: if_splits)
  have run: "usfs_mount dev sb0 = (USFS_OK, usfs_put_sb dev s, usfs_sealed s)"
    using usfs_mount_disk [OF disk, of sb0] val clean vw by (simp add: sb s_def Let_def usfs_volume_writable_iff)
  have rel: "htl_reliable (usfs_put_sb dev s)" using p(2) by (simp add: usfs_disk_def)
  have "usfs_volume_ok (usfs_put_sb dev s) sb" by (rule usfs_volume_ok_same_blocks(1) [OF ok rel p(4,6)])
  then have vok: "usfs_volume_ok (usfs_put_sb dev s) (usfs_sealed s)"
    by (subst usfs_volume_ok_layout [of _ sb]) (simp_all add: s_def)
  have "usfs_volume_writable (usfs_sealed s) = USFS_OK"
    by (rule usfs_writable_flags [OF _ _ _ vw]) (use vw in \<open>simp_all add: s_def usfs_volume_writable_iff\<close>)
  with run vok show thesis
    by (rule that) (simp_all add: p(5,6), use wf id in \<open>simp_all add: s_def\<close>)
qed

text \<open>What a flush has written is what the next mount finds: the same entries, the same blocks, the same
  keys.\<close>

lemma usfs_flush_mount:
  fixes dev :: "'c htl_device"
  assumes ok: "usfs_volume_ok dev sb" and wf: "usfs_superblock_wf sb" and vw: "usfs_volume_writable sb = USFS_OK"
    and val: "usb_magic sb = USFS_MAGIC" "usb_block_size sb = 0x1000"
  obtains dev1 sb1 dev2 sb2 where "usfs_flush_dirty dev sb = (USFS_OK, dev1, sb1)" "usfs_mount dev1 sb0 = (USFS_OK, dev2, sb2)"
    "usfs_volume_ok dev2 sb2" "usfs_volume_writable sb2 = USFS_OK" "usfs_layout sb2 = usfs_layout sb"
    "usb_security_flags sb2 = usb_security_flags sb" "usb_key_slot_1 sb2 = usb_key_slot_1 sb" "usb_crypto_nonce sb2 = usb_crypto_nonce sb"
    "\<And>x. x < total_blocks dev \<Longrightarrow> x \<noteq> 0 \<Longrightarrow> blk dev2 x = blk dev x"
proof -
  note d = usfs_volume_okD [OF ok]
  have disk: "usfs_disk dev" by (rule usfs_geometry_disk [OF d(2,3)])
  define s1 where "s1 = usfs_cleaned (sb\<lparr>usb_fletcher64_bitmap :=
      ow_fletcher64 (usfs_bitmap_bytes dev sb) (4096 * unat (usb_bitmap_block_count sb))\<rparr>)"
  define dev1 where "dev1 = htl_flushed (usfs_put_sb dev s1)"
  have wf1: "usfs_superblock_wf s1" using wf by (simp add: s1_def)
  note p1 = usfs_put_sb_props [OF disk wf1] and f1 = usfs_flushed_props [OF usfs_put_sb_props(2) [OF disk wf1]]
  have run1: "usfs_flush_dirty dev sb = (USFS_OK, dev1, usfs_sealed s1)"
    unfolding usfs_flush_disk [OF d(2,3) wf] Let_def s1_def dev1_def by (rule refl)
  have sb1: "usfs_disk_sb dev1 = usfs_sealed s1" using f1(3) p1(3) by (simp add: dev1_def)
  have b1: "blk dev1 x = blk dev x" if "x < total_blocks dev" "x \<noteq> 0" for x
    using f1(4) p1(4,6) that by (simp add: dev1_def)
  have tb1: "total_blocks dev1 = total_blocks dev" using p1(4) by (simp add: dev1_def)
  have rel1: "htl_reliable dev1" using f1(2) by (simp add: dev1_def usfs_disk_def)
  have "usfs_volume_ok dev1 sb" by (rule usfs_volume_ok_same_blocks(1) [OF ok rel1 tb1 b1])
  then have ok1: "usfs_volume_ok dev1 (usfs_sealed s1)" by (subst usfs_volume_ok_layout [of _ sb]) (simp_all add: s1_def)
  have vw1: "usfs_volume_writable (usfs_sealed s1) = USFS_OK" by (rule usfs_writable_flags [OF _ _ _ vw]) (simp_all add: s1_def)
  have v1: "usfs_superblock_validate (usfs_sealed s1)" using usfs_sealed_validate [OF wf1] val by (simp add: s1_def)
  have wfs: "usfs_superblock_wf (usfs_sealed s1)" and clean: "\<not> bit (usb_state_flags (usfs_sealed s1)) 0" using wf1 by (simp_all add: s1_def)
  show thesis
    by (rule usfs_mount_ok [OF ok1 wfs vw1 v1 sb1 clean, of sb0], rule that [OF run1], assumption+) (simp_all add: tb1 b1, simp_all add: s1_def)
qed

section \<open>Mounting, crashing and the error state\<close>

text \<open>One operation of \<^verbatim>\<open>usfs_sync.c\<close> other than the consistency check, or a crash.\<close>

inductive usfs_step ::
  "'c htl_device \<times> usfs_superblock option \<Rightarrow> volume_event \<Rightarrow> 'c htl_device \<times> usfs_superblock option \<Rightarrow> bool" where
  mount: "usfs_mount dev sb0 = (st, dev', sb') \<Longrightarrow> usfs_step (dev, m) Mount (dev', Some sb')"
| crash: "usfs_step (dev, m) Crash (dev, None)"
| mark_dirty: "usfs_mark_dirty dev sb = (st, dev', sb') \<Longrightarrow> usfs_step (dev, Some sb) Mark_dirty (dev', Some sb')"
| mark_clean: "usfs_mark_clean dev sb = (st, dev', sb') \<Longrightarrow> usfs_step (dev, Some sb) Mark_clean (dev', Some sb')"
| sync: "usfs_flush_dirty dev sb = (st, dev', sb') \<Longrightarrow> usfs_step (dev, Some sb) Sync (dev', Some sb')"
| unmount: "usfs_unmount dev sb = (st, dev', sb') \<Longrightarrow> usfs_step (dev, Some sb) Unmount (dev', Some sb')"

lemma usfs_fletcher_loop_same: "htl_reliable dev \<Longrightarrow> snd (usfs_fletcher_loop dev sb bs s) = dev"
proof (induction bs arbitrary: s)
  case (Cons b bs)
  show ?case
    using htl_read_same [OF Cons.prems, of "usb_bitmap_start_block sb + of_nat b"]
    by (auto simp: Cons.IH [OF Cons.prems])
qed simp

text \<open>The disk and the structure in memory are marked with an error; the disk has any of the three marks.\<close>

definition usfs_erroneous :: "'c htl_device \<times> usfs_superblock option \<Rightarrow> bool" where
  "usfs_erroneous s \<longleftrightarrow> usfs_disk (fst s) \<and> bit (usb_state_flags (usfs_disk_sb (fst s))) 1 \<and>
     (case snd s of None \<Rightarrow> True | Some sb \<Rightarrow> usfs_superblock_wf sb \<and> bit (usb_state_flags sb) 1)"

definition usfs_unclean :: "'c htl_device \<times> usfs_superblock option \<Rightarrow> bool" where
  "usfs_unclean s \<longleftrightarrow> usfs_disk (fst s) \<and> \<not> clean_flags (usb_state_flags (usfs_disk_sb (fst s))) \<and>
     (case snd s of None \<Rightarrow> True | Some sb \<Rightarrow> usfs_superblock_wf sb)"

lemma usfs_erroneous_step:
  assumes "usfs_step s e s'" and "usfs_erroneous s"
  shows "usfs_erroneous s'"
  using assms
proof (cases rule: usfs_step.cases)
  case (mount dev sb0 st dev' sb' m)
  then show ?thesis
    using assms(2) usfs_mount_disk [of dev sb0] by (auto simp: usfs_erroneous_def split: if_splits)
next
  case (sync dev sb st dev' sb')
  then have dev: "usfs_disk dev" "usfs_superblock_wf sb" "bit (usb_state_flags sb) 1"
    using assms(2) by (simp_all add: usfs_erroneous_def)
  obtain fl where "usfs_bitmap_compute_fletcher64 dev sb = (fl, dev)"
    using usfs_fletcher_loop_same [of dev sb] dev(1)
    by (metis usfs_bitmap_compute_fletcher64_def usfs_disk_def prod.collapse)
  then show ?thesis
    using sync dev by (auto simp: usfs_flush_dirty_def usfs_erroneous_def usfs_put_sb_props usfs_flushed_props Let_def)
qed (auto simp: usfs_erroneous_def usfs_mark_dirty_disk usfs_unmount_disk usfs_put_sb_props Let_def)

lemma usfs_unclean_step:
  assumes "usfs_step s e s'" and "usfs_unclean s" and "e \<in> {Mount, Crash, Mark_dirty}"
  shows "usfs_unclean s'"
  using assms(1)
proof (cases rule: usfs_step.cases)
  case (mount dev sb0 st dev' sb' m)
  then show ?thesis
    using assms(2) usfs_mount_disk [of dev sb0]
    by (auto simp: usfs_unclean_def clean_flags_def Let_def usfs_put_sb_props split: if_splits)
next
  case (mark_dirty dev sb st dev' sb')
  then show ?thesis
    using assms(2) by (auto simp: usfs_unclean_def clean_flags_def Let_def usfs_mark_dirty_disk usfs_put_sb_props)
qed (use assms in \<open>auto simp: usfs_unclean_def\<close>)

lemma usfs_erroneous_unclean: "usfs_erroneous s \<Longrightarrow> usfs_unclean s"
  by (auto simp: usfs_erroneous_def usfs_unclean_def clean_flags_def split: option.splits)

interpretation usfs_life: volume_life usfs_step usfs_mount USFS_OK usfs_disk usfs_erroneous usfs_unclean
proof
  fix d d' :: "'c htl_device" and s0 sb assume d: "usfs_disk d" and m: "usfs_mount d s0 = (USFS_OK, d', sb)"
  show "usfs_unclean (d', Some sb)" using m usfs_mount_disk [OF d, of s0] d
    by (auto simp: usfs_unclean_def clean_flags_def Let_def usfs_put_sb_props split: if_splits)
next
  fix d :: "'c htl_device" and m s0 assume "usfs_unclean (d, m)"
  then show "fst (usfs_mount d s0) \<noteq> USFS_OK"
    using usfs_mount_disk [of d s0] by (auto simp: usfs_unclean_def clean_flags_def Let_def split: if_splits)
qed (rule usfs_erroneous_step usfs_unclean_step usfs_erroneous_unclean; assumption)+

end
