(* ===== verification/USFS_File.thy ===== *)
theory USFS_File
  imports USFS_Sync OW_Crypto OW_Chunk
begin

text \<open>
  \<^verbatim>\<open>usfs/src/usfs_file.c\<close>: reading, writing and truncating files. A file is one run of blocks; when it
  has to grow, a longer run is allocated, the blocks are copied and re-encrypted under their new
  numbers, and the old run is returned. The caller's buffer is passed in and returned; \<^verbatim>\<open>out_read\<close> and
  \<^verbatim>\<open>out_written\<close> are passed in too, since the early returns leave them as they were. The lemmas give a
  file its content, the concatenation of its decrypted blocks, and show what each operation does to
  it, that every other file keeps its content, and that the volume stays consistent.
\<close>

unbundle bit_operations_syntax

definition usfs_is_encrypted :: "usfs_superblock \<Rightarrow> usfs_entry \<Rightarrow> bool" where
  "usfs_is_encrypted sb entry \<longleftrightarrow>
     usb_security_flags sb AND USFS_SEC_ENCRYPTED \<noteq> 0 \<and> ue_security_flags entry AND USFS_SEC_ENCRYPTED \<noteq> 0"

definition entry_access_check :: "ow_identity \<Rightarrow> usfs_entry \<Rightarrow> u8 \<Rightarrow> usfs_status" where
  "entry_access_check g entry want =
     (if \<not> ow_sec_access g (ue_permissions entry) (ue_owner_uid entry) (ue_owner_gid entry) want
      then USFS_ERR_ACCESS_DENIED else USFS_OK)"

definition usfs_crypto_xform :: "usfs_superblock \<Rightarrow> usfs_entry \<Rightarrow> bytes \<Rightarrow> u32 \<Rightarrow> bytes" where
  "usfs_crypto_xform sb entry buf abs_block =
     (if usfs_is_encrypted sb entry
      then ow_chacha20_xor abs_block (usb_key_slot_1 sb) (usb_crypto_nonce sb) buf 4096 else buf)"

text \<open>The copy loop of \<^verbatim>\<open>grow_file\<close>.\<close>

fun grow_copy ::
  "'c htl_device \<Rightarrow> usfs_superblock \<Rightarrow> usfs_entry \<Rightarrow> u32 \<Rightarrow> u32 \<Rightarrow> nat list \<Rightarrow> usfs_status \<times> 'c htl_device" where
  "grow_copy dev sb entry old_first new_first [] = (USFS_OK, dev)"
| "grow_copy dev sb entry old_first new_first (i # is) =
     (case htl_read_block dev (old_first + of_nat i) of (hres, buf, dev) \<Rightarrow>
      if hres \<noteq> HTL_OK then (USFS_ERR_IO, dev)
      else
        let buf = usfs_crypto_xform sb entry buf (old_first + of_nat i);
            buf = usfs_crypto_xform sb entry buf (new_first + of_nat i)
        in case htl_write_block dev (new_first + of_nat i) buf of (hres, dev) \<Rightarrow>
          if hres \<noteq> HTL_OK then (usfs_write_error hres, dev)
          else grow_copy dev sb entry old_first new_first is)"

definition grow_file ::
  "'c htl_device \<Rightarrow> usfs_superblock \<Rightarrow> usfs_entry \<Rightarrow> u32 \<Rightarrow> u32 \<Rightarrow>
   usfs_status \<times> 'c htl_device \<times> usfs_superblock \<times> usfs_entry" where
  "grow_file dev sb entry entry_idx need_blocks =
     (if ue_block_count entry \<ge> need_blocks then (USFS_OK, dev, sb, entry)
      else case usfs_block_alloc dev sb need_blocks of
        (Inl res, dev, sb) \<Rightarrow> (res, dev, sb, entry)
      | (Inr new_first, dev, sb) \<Rightarrow>
          let old_first = ue_first_block entry; old_count = ue_block_count entry in
          case grow_copy dev sb entry old_first new_first [0..<unat old_count] of (res, dev) \<Rightarrow>
          if res \<noteq> USFS_OK then
            case usfs_block_free dev sb new_first need_blocks of (_, dev, sb) \<Rightarrow> (res, dev, sb, entry)
          else case (if old_count > 0 then usfs_block_free dev sb old_first old_count else (USFS_OK, dev, sb))
            of (res, dev, sb) \<Rightarrow>
          if res \<noteq> USFS_OK then
            case usfs_block_free dev sb new_first need_blocks of (_, dev, sb) \<Rightarrow> (res, dev, sb, entry)
          else case usfs_entry_write dev sb entry_idx (entry\<lparr>ue_first_block := new_first, ue_block_count := need_blocks\<rparr>)
            of (res, dev, entry) \<Rightarrow> (res, dev, sb, entry))"

function usfs_file_read_loop ::
  "'c htl_device \<Rightarrow> usfs_superblock \<Rightarrow> usfs_entry \<Rightarrow> bytes \<Rightarrow> u32 \<Rightarrow> u32 \<Rightarrow> u32 \<Rightarrow>
   usfs_status \<times> bytes \<times> 'c htl_device" where
  "usfs_file_read_loop dev sb entry buf len don off =
     (if don < len then
        let blk_abs = ue_first_block entry + drop_bit 12 off;
            in_blk = off AND 0xFFF;
            chunk = chunk_len in_blk (len - don)
        in case htl_read_block dev blk_abs of (hres, block_buf, dev) \<Rightarrow>
          if hres \<noteq> HTL_OK then (USFS_ERR_IO, buf, dev)
          else
            let block_buf = usfs_crypto_xform sb entry block_buf blk_abs;
                buf = ow_memcpy buf (unat don) block_buf (unat in_blk) (unat chunk)
            in usfs_file_read_loop dev sb entry buf len (don + chunk) (off + chunk)
      else (USFS_OK, buf, dev))"
  by pat_completeness auto
termination
  by (relation "measure (\<lambda>(dev, sb, entry, buf, len, don, off). unat len - unat don)") (auto simp: chunk_progress)

definition usfs_file_read ::
  "ow_identity \<Rightarrow> 'c htl_device \<Rightarrow> usfs_superblock \<Rightarrow> usfs_entry \<Rightarrow> bytes \<Rightarrow> u32 \<Rightarrow> u32 \<Rightarrow> u32 \<Rightarrow>
   usfs_status \<times> u32 \<times> bytes \<times> 'c htl_device" where
  "usfs_file_read g dev sb entry buf offset len out_read =
     (if ue_entry_type entry \<noteq> USFS_ENTRY_FILE then (USFS_ERR_NOT_FILE, out_read, buf, dev)
      else if entry_access_check g entry OW_ACCESS_READ \<noteq> USFS_OK then
        (entry_access_check g entry OW_ACCESS_READ, out_read, buf, dev)
      else if ue_block_count entry = 0 \<or> offset \<ge> ue_size_bytes entry then (USFS_OK, 0, buf, dev)
      else
        let len = (if len > ue_size_bytes entry - offset then ue_size_bytes entry - offset else len)
        in case usfs_file_read_loop dev sb entry buf len 0 offset of (res, buf, dev) \<Rightarrow>
          if res \<noteq> USFS_OK then (res, 0, buf, dev) else (USFS_OK, len, buf, dev))"

function usfs_file_write_loop ::
  "'c htl_device \<Rightarrow> usfs_superblock \<Rightarrow> usfs_entry \<Rightarrow> bytes \<Rightarrow> u32 \<Rightarrow> u32 \<Rightarrow> u32 \<Rightarrow> usfs_status \<times> u32 \<times> 'c htl_device" where
  "usfs_file_write_loop dev sb entry buf len don off =
     (if don < len then
        let blk_abs = ue_first_block entry + drop_bit 12 off;
            in_blk = off AND 0xFFF;
            chunk = chunk_len in_blk (len - don)
        in case htl_read_block dev blk_abs of (hres, block_buf, dev) \<Rightarrow>
          if hres \<noteq> HTL_OK then (USFS_ERR_IO, don, dev)
          else
            let block_buf = usfs_crypto_xform sb entry block_buf blk_abs;
                block_buf = ow_memcpy block_buf (unat in_blk) buf (unat don) (unat chunk);
                block_buf = usfs_crypto_xform sb entry block_buf blk_abs
            in case htl_write_block dev blk_abs block_buf of (hres, dev) \<Rightarrow>
              if hres \<noteq> HTL_OK then (usfs_write_error hres, don, dev)
              else usfs_file_write_loop dev sb entry buf len (don + chunk) (off + chunk)
      else (USFS_OK, don, dev))"
  by pat_completeness auto
termination
  by (relation "measure (\<lambda>(dev, sb, entry, buf, len, don, off). unat len - unat don)") (auto simp: chunk_progress)

text \<open>The number of blocks that hold \<open>n\<close> bytes, computed with 64 bits.\<close>

definition blocks_needed :: "u64 \<Rightarrow> u32" where
  "blocks_needed n = ucast (drop_bit 12 (n + 0x1000 - 1))"

definition usfs_file_write ::
  "ow_identity \<Rightarrow> 'c htl_device \<Rightarrow> usfs_superblock \<Rightarrow> usfs_entry \<Rightarrow> u32 \<Rightarrow> bytes \<Rightarrow> u32 \<Rightarrow> u32 \<Rightarrow> u32 \<Rightarrow>
   usfs_status \<times> u32 \<times> 'c htl_device \<times> usfs_superblock \<times> usfs_entry" where
  "usfs_file_write g dev sb entry entry_idx buf offset len out_written =
     (if ue_entry_type entry \<noteq> USFS_ENTRY_FILE then (USFS_ERR_NOT_FILE, out_written, dev, sb, entry)
      else if usfs_volume_writable sb \<noteq> USFS_OK then (usfs_volume_writable sb, out_written, dev, sb, entry)
      else if ue_security_flags entry AND USFS_SEC_READONLY \<noteq> 0 then (USFS_ERR_WRITE_PROTECTED, out_written, dev, sb, entry)
      else if entry_access_check g entry OW_ACCESS_WRITE \<noteq> USFS_OK then
        (entry_access_check g entry OW_ACCESS_WRITE, out_written, dev, sb, entry)
      else if len = 0 then (USFS_OK, 0, dev, sb, entry)
      else
        let end_pos = ucast offset + ucast len :: u64 in
        case grow_file dev sb entry entry_idx (blocks_needed end_pos) of (res, dev, sb, entry) \<Rightarrow>
        if res \<noteq> USFS_OK then (res, 0, dev, sb, entry)
        else case usfs_file_write_loop dev sb entry buf len 0 offset of (res, don, dev) \<Rightarrow>
        if res \<noteq> USFS_OK then (res, 0, dev, sb, entry)
        else case usfs_entry_write dev sb entry_idx (entry\<lparr>ue_size_bytes := ucast end_pos\<rparr>) of (res, dev, entry) \<Rightarrow>
          (res, don, dev, sb, entry))"

definition usfs_file_truncate ::
  "ow_identity \<Rightarrow> 'c htl_device \<Rightarrow> usfs_superblock \<Rightarrow> usfs_entry \<Rightarrow> u32 \<Rightarrow> u32 \<Rightarrow>
   usfs_status \<times> 'c htl_device \<times> usfs_superblock \<times> usfs_entry" where
  "usfs_file_truncate g dev sb entry entry_idx new_size =
     (if ue_entry_type entry \<noteq> USFS_ENTRY_FILE then (USFS_ERR_NOT_FILE, dev, sb, entry)
      else if usfs_volume_writable sb \<noteq> USFS_OK then (usfs_volume_writable sb, dev, sb, entry)
      else if ue_security_flags entry AND USFS_SEC_READONLY \<noteq> 0 then (USFS_ERR_WRITE_PROTECTED, dev, sb, entry)
      else if entry_access_check g entry OW_ACCESS_WRITE \<noteq> USFS_OK then
        (entry_access_check g entry OW_ACCESS_WRITE, dev, sb, entry)
      else if new_size = ue_size_bytes entry then (USFS_OK, dev, sb, entry)
      else if new_size > ue_size_bytes entry then
        case grow_file dev sb entry entry_idx (blocks_needed (ucast new_size)) of (res, dev, sb, entry) \<Rightarrow>
        if res \<noteq> USFS_OK then (res, dev, sb, entry)
        else case usfs_entry_write dev sb entry_idx (entry\<lparr>ue_size_bytes := new_size\<rparr>) of (res, dev, entry) \<Rightarrow>
          (res, dev, sb, entry)
      else
        let new_blocks = blocks_needed (ucast new_size);
            new_blocks = (if new_size = 0 then 0 else new_blocks)
        in case (if new_blocks < ue_block_count entry then
                   case usfs_block_free dev sb (ue_first_block entry + new_blocks) (ue_block_count entry - new_blocks) of
                     (res, dev, sb) \<Rightarrow> (res, dev, sb, if res \<noteq> USFS_OK then entry else entry\<lparr>ue_block_count := new_blocks\<rparr>)
                 else (USFS_OK, dev, sb, entry)) of (res, dev, sb, entry) \<Rightarrow>
        if res \<noteq> USFS_OK then (res, dev, sb, entry)
        else case usfs_entry_write dev sb entry_idx (entry\<lparr>ue_size_bytes := new_size\<rparr>) of (res, dev, entry) \<Rightarrow>
          (res, dev, sb, entry))"

declare usfs_file_read_loop.simps [simp del] usfs_file_write_loop.simps [simp del]

section \<open>The content of a file\<close>

definition usfs_blocks :: "usfs_entry \<Rightarrow> u32 list" where
  "usfs_blocks e = map (\<lambda>k. ue_first_block e + of_nat k) [0..<unat (ue_block_count e)]"

definition usfs_plain :: "'c htl_device \<Rightarrow> usfs_superblock \<Rightarrow> usfs_entry \<Rightarrow> u32 \<Rightarrow> bytes" where
  "usfs_plain dev sb e b = usfs_crypto_xform sb e (blk dev b) b"

definition usfs_content :: "'c htl_device \<Rightarrow> usfs_superblock \<Rightarrow> usfs_entry \<Rightarrow> bytes" where
  "usfs_content dev sb e = concat (map (usfs_plain dev sb e) (usfs_blocks e))"

text \<open>What a reader of the file sees.\<close>

definition usfs_data :: "'c htl_device \<Rightarrow> usfs_superblock \<Rightarrow> usfs_entry \<Rightarrow> bytes" where
  "usfs_data dev sb e = take (unat (ue_size_bytes e)) (usfs_content dev sb e)"

lemma length_usfs_crypto_xform [simp]: "length buf = 4096 \<Longrightarrow> length (usfs_crypto_xform sb e buf b) = 4096"
  by (simp add: usfs_crypto_xform_def)

lemma usfs_crypto_xform_involution [simp]:
  "length buf = 4096 \<Longrightarrow> usfs_crypto_xform sb e (usfs_crypto_xform sb e buf b) b = buf"
  by (simp add: usfs_crypto_xform_def ow_chacha20_xor_involution)

lemma length_usfs_blocks [simp]: "length (usfs_blocks e) = unat (ue_block_count e)"
  by (simp add: usfs_blocks_def)

lemma usfs_block_word:
  assumes "unat (ue_first_block e) + unat (ue_block_count e) \<le> 2 ^ 32" and "k < unat (ue_block_count e)"
  shows "unat (ue_first_block e + of_nat k) = unat (ue_first_block e) + k" and "usfs_blocks e ! k = ue_first_block e + of_nat k"
proof -
  have "k < 2 ^ 32" "unat (ue_first_block e) + k < 2 ^ 32" using assms by simp_all
  then show "unat (ue_first_block e + of_nat k) = unat (ue_first_block e) + k"
    by (simp add: unat_word_ariths unat_of_nat_small)
qed (use assms in \<open>simp add: usfs_blocks_def\<close>)

lemma usfs_blocks_extent:
  assumes "unat (ue_first_block e) + unat (ue_block_count e) \<le> 2 ^ 32"
  shows "set (usfs_blocks e) = usfs_extent e" and "distinct (usfs_blocks e)"
proof -
  note w = usfs_block_word(1) [OF assms]
  have "b \<in> set (usfs_blocks e)" if b: "b \<in> usfs_extent e" for b
  proof -
    let ?k = "unat b - unat (ue_first_block e)"
    have k: "?k < unat (ue_block_count e)" "unat (ue_first_block e) + ?k = unat b" using b by (auto simp: usfs_extent_def extent_def)
    then have "b = ue_first_block e + of_nat ?k" using w [of ?k] by (simp add: word_unat_eq_iff)
    then show ?thesis using k(1) unfolding usfs_blocks_def set_map by (intro image_eqI [of _ _ ?k]) simp_all
  qed
  then show "set (usfs_blocks e) = usfs_extent e" using w by (auto simp: usfs_blocks_def usfs_extent_def extent_def)
  have "inj_on (\<lambda>k. ue_first_block e + of_nat k) {0..<unat (ue_block_count e)}"
    using w by (intro inj_onI) (metis add_left_cancel atLeastLessThan_iff)
  then show "distinct (usfs_blocks e)" by (simp add: usfs_blocks_def distinct_map)
qed

lemma usfs_entry_okD:
  assumes "usfs_alloc_inv dev sb" and "usfs_entry_ok dev sb e"
  shows "usfs_extent e \<subseteq> usfs_allocated dev sb" and "unat (ue_first_block e) + unat (ue_block_count e) \<le> 2 ^ 32"
    and "unat (ue_size_bytes e) \<le> 4096 * unat (ue_block_count e)"
    and "b \<in> usfs_extent e \<Longrightarrow> b \<in> usfs_region sb" and "b \<in> usfs_extent e \<Longrightarrow> b < total_blocks dev"
    and "b \<in> usfs_extent e \<Longrightarrow> length (blk dev b) = 4096" and "b \<in> usfs_extent e \<Longrightarrow> length (usfs_plain dev sb e b) = 4096"
proof -
  from assms(1) have g: "htl_reliable dev" "usfs_geometry dev sb" by (simp_all add: usfs_alloc_inv_def)
  from assms(2) show o: "usfs_extent e \<subseteq> usfs_allocated dev sb" "unat (ue_first_block e) + unat (ue_block_count e) \<le> 2 ^ 32"
    "unat (ue_size_bytes e) \<le> 4096 * unat (ue_block_count e)" by (simp_all add: usfs_entry_ok_def)
  show r: "b \<in> usfs_extent e \<Longrightarrow> b \<in> usfs_region sb" for b using o(1) by (auto simp: usfs_allocated_def)
  show t: "b \<in> usfs_extent e \<Longrightarrow> b < total_blocks dev" using usfs_region_outside(1) [OF g(2) r] by simp
  show l: "b \<in> usfs_extent e \<Longrightarrow> length (blk dev b) = 4096" using length_blk [OF g(1) t] by simp
  then show "b \<in> usfs_extent e \<Longrightarrow> length (usfs_plain dev sb e b) = 4096" by (simp add: usfs_plain_def)
qed

lemma length_usfs_content:
  assumes "usfs_alloc_inv dev sb" and "usfs_entry_ok dev sb e"
  shows "length (usfs_content dev sb e) = 4096 * unat (ue_block_count e)"
  unfolding usfs_content_def using usfs_entry_okD [OF assms] usfs_blocks_extent(1) [of e]
  by (subst length_concat_4096) auto

lemma usfs_content_window:
  assumes "usfs_alloc_inv dev sb" and "usfs_entry_ok dev sb e" and "i < unat (ue_block_count e)"
    and "m + n \<le> 4096" and "p = 4096 * i + m"
  shows "window p n (usfs_content dev sb e) = window m n (usfs_plain dev sb e (ue_first_block e + of_nat i))"
  unfolding usfs_content_def
  using usfs_entry_okD [OF assms(1,2)] usfs_blocks_extent(1) [of e] usfs_block_word(2) [OF _ assms(3)] assms(3,4,5)
  by (subst window_concat_4096 [where d = i and m = m]) auto

text \<open>Equal blocks give equal content.\<close>

lemma usfs_content_cong:
  assumes "\<And>b. b \<in> set (usfs_blocks e) \<Longrightarrow> blk dev' b = blk dev b" and "usb_security_flags sb' = usb_security_flags sb"
    and "usb_key_slot_1 sb' = usb_key_slot_1 sb" and "usb_crypto_nonce sb' = usb_crypto_nonce sb"
  shows "usfs_content dev' sb' e = usfs_content dev sb e" and "usfs_data dev' sb' e = usfs_data dev sb e"
proof -
  have "usfs_plain dev' sb' e b = usfs_plain dev sb e b" if "b \<in> set (usfs_blocks e)" for b
    using assms that by (simp add: usfs_plain_def usfs_crypto_xform_def usfs_is_encrypted_def)
  then show "usfs_content dev' sb' e = usfs_content dev sb e"
    unfolding usfs_content_def by (intro arg_cong [where f = concat] map_cong) auto
  then show "usfs_data dev' sb' e = usfs_data dev sb e" by (simp add: usfs_data_def)
qed

section \<open>Reading\<close>

text \<open>One step of a transfer: where it falls in the file.\<close>

lemma usfs_chunk:
  fixes offset len don :: u32
  assumes fit: "unat offset + unat len \<le> 4096 * unat n" "unat offset + unat len \<le> 2 ^ 32" and lt: "don < len" and o: "off = offset + don"
  defines "c \<equiv> chunk_len (off AND 0xFFF) (len - don)"
  shows "unat off = unat offset + unat don" and "unat off div 4096 < unat n" and "unat off mod 4096 + unat c \<le> 4096"
    and "unat (don + c) = unat don + unat c" and "unat don + unat c \<le> unat len" and "0 < unat c" and "off + c = offset + (don + c)"
    and "drop_bit 12 off = (of_nat (unat off div 4096) :: u32)"
proof -
  note cb = chunk_bounds [OF lt, of off, folded c_def]
  have "unat don < unat len" using lt by (simp add: word_less_nat_alt)
  then have "unat offset + unat don < 2 ^ 32" using fit(2) by linarith
  then show pos: "unat off = unat offset + unat don" by (simp add: o unat_word_ariths)
  show "unat off div 4096 < unat n" using fit(1) cb(2,4) pos by (intro less_mult_imp_div_less) linarith
  show "unat off mod 4096 + unat c \<le> 4096" using cb(1) mod_less_divisor [of 4096 "unat off"] by linarith
  show "unat (don + c) = unat don + unat c" "unat don + unat c \<le> unat len" "0 < unat c" "off + c = offset + (don + c)"
    using cb(2-4) by (simp_all add: o)
  have "of_nat (unat (drop_bit 12 off)) = (of_nat (unat off div 4096) :: u32)" by (simp only: unat_drop_12)
  then show "drop_bit 12 off = (of_nat (unat off div 4096) :: u32)" by (simp del: unsigned_drop_bit_eq)
qed

lemma usfs_file_read_loop_ok:
  assumes inv: "usfs_alloc_inv dev sb" and e: "usfs_entry_ok dev sb e"
    and fit: "unat offset + unat len \<le> 4096 * unat (ue_block_count e)" "unat offset + unat len \<le> 2 ^ 32"
  shows "don \<le> len \<Longrightarrow> unat len \<le> length buf \<Longrightarrow> off = offset + don \<Longrightarrow> usfs_file_read_loop dev sb e buf len don off =
    (USFS_OK, overwrite (unat don) (window (unat offset + unat don) (unat len - unat don) (usfs_content dev sb e)) buf, dev)"
proof (induction "unat len - unat don" arbitrary: don off buf rule: less_induct)
  case less
  note d = usfs_entry_okD [OF inv e]
  show ?case
  proof (cases "don < len")
    case False
    then have "don = len" using less.prems by simp
    then show ?thesis by (simp add: usfs_file_read_loop.simps)
  next
    case True
    define c where "c = chunk_len (off AND 0xFFF) (len - don)"
    note cb = usfs_chunk [OF fit True less.prems(3), folded c_def]
    let ?i = "unat off div 4096" and ?m = "unat off mod 4096"
    let ?b = "ue_first_block e + of_nat ?i"
    have b: "?b \<in> usfs_extent e"
      using usfs_blocks_extent(1) [OF d(2)] nth_mem [of ?i "usfs_blocks e"] cb(2) usfs_block_word(2) [OF d(2) cb(2)] by simp
    let ?w = "window ?m (unat c) (usfs_plain dev sb e ?b)"
    have w: "?w = window (unat off) (unat c) (usfs_content dev sb e)"
      by (rule usfs_content_window [OF inv e cb(2,3), symmetric]) simp
    have buf: "ow_memcpy buf (unat don) (usfs_plain dev sb e ?b) ?m (unat c) = overwrite (unat don) ?w buf"
      using cb(3,5) d(7) [OF b] less.prems(2) by (intro ow_memcpy_eq) linarith+
    have lw: "length ?w = unat c" using cb(3) d(7) [OF b] by simp
    have le: "don + c \<le> len" "unat len \<le> length (overwrite (unat don) ?w buf)"
      using cb(4,5) less.prems(2) lw by (simp_all add: word_le_nat_alt)
    have dev: "htl_reliable dev" using inv by (simp add: usfs_alloc_inv_def)
    have step: "usfs_file_read_loop dev sb e buf len don off =
        usfs_file_read_loop dev sb e (overwrite (unat don) ?w buf) len (don + c) (off + c)"
      using True d(5) [OF b] dev buf
      by (subst usfs_file_read_loop.simps)
        (simp add: Let_def htl_read_reliable c_def [symmetric] unat_and_FFF cb(8) usfs_plain_def)
    have IH: "usfs_file_read_loop dev sb e (overwrite (unat don) ?w buf) len (don + c) (off + c) =
      (USFS_OK, overwrite (unat (don + c)) (window (unat offset + unat (don + c)) (unat len - unat (don + c))
         (usfs_content dev sb e)) (overwrite (unat don) ?w buf), dev)"
      using cb(4-7) le by (intro less.hyps) simp_all
    have "?w @ window (unat offset + unat (don + c)) (unat len - unat (don + c)) (usfs_content dev sb e) =
        window (unat offset + unat don) (unat len - unat don) (usfs_content dev sb e)"
      unfolding w by (subst window_join) (use cb(1,4,5) in simp_all)
    then show ?thesis
      unfolding step IH using lw cb(4,5) fit less.prems(2) length_usfs_content [OF inv e]
      by (subst overwrite_adjacent) auto
  qed
qed

text \<open>Reading returns the window of the content that lies below the file size.\<close>

lemma usfs_file_read_ok:
  fixes offset len :: u32
  assumes inv: "usfs_alloc_inv dev sb" and e: "usfs_entry_ok dev sb e" and ty: "ue_entry_type e = USFS_ENTRY_FILE"
    and acc: "entry_access_check g e OW_ACCESS_READ = USFS_OK" and buf: "unat len \<le> length buf"
  defines "n \<equiv> min (unat len) (unat (ue_size_bytes e) - unat offset)"
  shows "usfs_file_read g dev sb e buf offset len r0 =
    (USFS_OK, of_nat n, overwrite 0 (window (unat offset) n (usfs_data dev sb e)) buf, dev)"
proof (cases "ue_block_count e = 0 \<or> ue_size_bytes e \<le> offset")
  case True
  then have "n = 0" using usfs_entry_okD(3) [OF inv e] by (auto simp: n_def word_le_nat_alt)
  then show ?thesis using True ty acc by (simp add: usfs_file_read_def)
next
  case False
  define l where "l = (if len > ue_size_bytes e - offset then ue_size_bytes e - offset else len)"
  from False have s: "unat (ue_size_bytes e - offset) = unat (ue_size_bytes e) - unat offset" "unat offset < unat (ue_size_bytes e)"
    by (auto simp: unat_sub word_le_nat_alt)
  then have u: "unat l = n" by (auto simp: l_def n_def word_less_nat_alt)
  then have of: "of_nat n = l" by (metis of_nat_unat ucast_id)
  have sz: "unat offset + n \<le> unat (ue_size_bytes e)" using s(2) by (simp add: n_def)
  then have fit: "unat offset + unat l \<le> 4096 * unat (ue_block_count e)" "unat offset + unat l \<le> 2 ^ 32" "unat l \<le> length buf"
    using usfs_entry_okD(3) [OF inv e] buf u n_def unsigned_less [of "ue_size_bytes e", where 'a = nat] by auto
  have w: "window (unat offset) n (usfs_data dev sb e) = window (unat offset) n (usfs_content dev sb e)"
    using sz by (simp add: usfs_data_def window_def drop_take min_def)
  show ?thesis
    using False ty acc usfs_file_read_loop_ok [OF inv e fit(1,2), of 0 buf offset] fit(3)
    by (simp add: usfs_file_read_def Let_def l_def [symmetric] of u w)
qed

section \<open>Writing blocks of a file\<close>

lemma usfs_write_data_block:
  assumes inv: "usfs_alloc_inv dev sb" and e: "usfs_entry_ok dev sb e" and i: "i < unat (ue_block_count e)" and len: "length new = 4096"
  defines "b \<equiv> ue_first_block e + of_nat i"
  defines "dev' \<equiv> blk_write dev b (usfs_crypto_xform sb e new b)"
  shows "htl_write_block dev b (usfs_crypto_xform sb e new b) = (HTL_OK, dev')" and "htl_read_block dev b = (HTL_OK, blk dev b, dev)"
    and "usfs_alloc_inv dev' sb" and "usfs_allocated dev' sb = usfs_allocated dev sb" and "usfs_entry_ok dev' sb e"
    and "x < total_blocks dev \<Longrightarrow> x \<notin> usfs_extent e \<Longrightarrow> blk dev' x = blk dev x" and "same_device dev dev'"
    and "usfs_content dev' sb e = overwrite (4096 * i) new (usfs_content dev sb e)"
proof -
  note d = usfs_entry_okD [OF inv e] and bw = usfs_block_word(2) [OF usfs_entry_okD(2) [OF inv e] i]
  have b: "b \<in> usfs_extent e" using usfs_blocks_extent(1) [OF d(2)] nth_mem [of i "usfs_blocks e"] i bw by (simp add: b_def)
  have len': "length (usfs_crypto_xform sb e new b) = 4096" using len by simp
  note w = usfs_data_write [OF inv d(4) [OF b] len', folded dev'_def]
  show "htl_write_block dev b (usfs_crypto_xform sb e new b) = (HTL_OK, dev')" "htl_read_block dev b = (HTL_OK, blk dev b, dev)"
    "usfs_alloc_inv dev' sb" "usfs_allocated dev' sb = usfs_allocated dev sb" by (rule w)+
  then show "usfs_entry_ok dev' sb e" using e by (simp add: usfs_entry_ok_def)
  show "blk dev' x = blk dev x" if "x < total_blocks dev" "x \<notin> usfs_extent e" using w(4) [OF that(1)] that(2) b by auto
  show "same_device dev dev'" by (simp add: dev'_def)
  have pl: "usfs_plain dev' sb e x = (if x = b then new else usfs_plain dev sb e x)" if "x \<in> usfs_extent e" for x
    using w(4) [OF d(5) [OF that]] len by (simp add: usfs_plain_def)
  show "usfs_content dev' sb e = overwrite (4096 * i) new (usfs_content dev sb e)"
    unfolding usfs_content_def
    by (rule concat_4096_update) (use d usfs_blocks_extent [OF d(2)] i bw pl len b in \<open>auto simp: b_def\<close>)
qed

lemma usfs_file_write_loop_ok:
  assumes fit: "unat offset + unat len \<le> 4096 * unat (ue_block_count e)" "unat offset + unat len \<le> 2 ^ 32" "unat len \<le> length buf"
  shows "usfs_alloc_inv dev sb \<Longrightarrow> usfs_entry_ok dev sb e \<Longrightarrow> don \<le> len \<Longrightarrow> off = offset + don \<Longrightarrow>
    \<exists>dev'. usfs_file_write_loop dev sb e buf len don off = (USFS_OK, len, dev') \<and> usfs_alloc_inv dev' sb \<and>
      usfs_allocated dev' sb = usfs_allocated dev sb \<and> same_device dev dev' \<and>
      (\<forall>x. x < total_blocks dev \<longrightarrow> x \<notin> usfs_extent e \<longrightarrow> blk dev' x = blk dev x) \<and>
      usfs_content dev' sb e =
        overwrite (unat offset + unat don) (window (unat don) (unat len - unat don) buf) (usfs_content dev sb e)"
proof (induction "unat len - unat don" arbitrary: don off dev rule: less_induct)
  case less
  note inv = less.prems(1) and e = less.prems(2)
  note d = usfs_entry_okD [OF inv e]
  show ?case
  proof (cases "don < len")
    case False
    then have "don = len" using less.prems by simp
    then show ?thesis using inv by (simp add: usfs_file_write_loop.simps)
  next
    case True
    define c where "c = chunk_len (off AND 0xFFF) (len - don)"
    note cb = usfs_chunk [OF fit(1,2) True less.prems(4), folded c_def]
    let ?i = "unat off div 4096" and ?m = "unat off mod 4096"
    let ?b = "ue_first_block e + of_nat ?i" and ?p = "window (unat don) (unat c) buf"
    have b: "?b \<in> usfs_extent e"
      using usfs_blocks_extent(1) [OF d(2)] nth_mem [of ?i "usfs_blocks e"] cb(2) usfs_block_word(2) [OF d(2) cb(2)] by simp
    define new where "new = overwrite ?m ?p (usfs_plain dev sb e ?b)"
    have lp: "length ?p = unat c" using cb(5) fit(3) by simp
    have new: "length new = 4096" "ow_memcpy (usfs_plain dev sb e ?b) ?m buf (unat don) (unat c) = new"
      using cb(3,5) d(7) [OF b] fit(3) lp by (simp_all add: new_def ow_memcpy_eq)
    note w = usfs_write_data_block [OF inv e cb(2) new(1)]
    let ?d1 = "blk_write dev ?b (usfs_crypto_xform sb e new ?b)"
    have step: "usfs_file_write_loop dev sb e buf len don off = usfs_file_write_loop ?d1 sb e buf len (don + c) (off + c)"
      using True new(2) w(1,2)
      by (subst usfs_file_write_loop.simps) (simp add: Let_def c_def [symmetric] unat_and_FFF cb(8) usfs_plain_def)
    have le: "don + c \<le> len" using cb(4,5) by (simp add: word_le_nat_alt)
    have lt: "unat len - unat (don + c) < unat len - unat don" using cb(4-6) by linarith
    obtain dev' where IH: "usfs_file_write_loop ?d1 sb e buf len (don + c) (off + c) = (USFS_OK, len, dev')"
      "usfs_alloc_inv dev' sb" "usfs_allocated dev' sb = usfs_allocated ?d1 sb" "same_device ?d1 dev'"
      "\<forall>x. x < total_blocks dev \<longrightarrow> x \<notin> usfs_extent e \<longrightarrow> blk dev' x = blk ?d1 x"
      "usfs_content dev' sb e = overwrite (unat offset + unat (don + c)) (window (unat (don + c)) (unat len - unat (don + c)) buf)
         (usfs_content ?d1 sb e)"
      using less.hyps [OF lt w(3,5) le cb(7)] by auto
    have lc: "length (usfs_content dev sb e) = 4096 * unat (ue_block_count e)" by (rule length_usfs_content [OF inv e])
    have "4096 * ?i + 4096 \<le> 4096 * unat (ue_block_count e)" using cb(2) by simp
    then have "overwrite (4096 * ?i) new (usfs_content dev sb e) = overwrite (4096 * ?i + ?m) ?p (usfs_content dev sb e)"
      using overwrite_nested [of ?m ?p 4096 "4096 * ?i" "usfs_content dev sb e"] usfs_content_window [OF inv e cb(2), of 0 4096 "4096 * ?i"]
        cb(3) lp lc d(7) [OF b] by (simp add: new_def window_all)
    then have c1: "usfs_content ?d1 sb e = overwrite (unat offset + unat don) ?p (usfs_content dev sb e)"
      using w(8) cb(1) by simp
    have "?p @ window (unat (don + c)) (unat len - unat (don + c)) buf = window (unat don) (unat len - unat don) buf"
      by (subst window_join) (use cb(4,5) in simp_all)
    then have "usfs_content dev' sb e = overwrite (unat offset + unat don) (window (unat don) (unat len - unat don) buf) (usfs_content dev sb e)"
      unfolding IH(6) c1 using lp cb(4,5) fit lc by (subst overwrite_adjacent) simp_all
    moreover have "same_device dev dev'" using same_trans [OF w(7) IH(4)] .
    ultimately show ?thesis using step IH w(4,6) by auto
  qed
qed

section \<open>Rewriting the entry of a file\<close>

text \<open>The outcome of an operation on the file of entry \<open>i\<close>: its entry is now \<open>e\<close>, the other entries and
  their blocks are as before.\<close>

definition usfs_updated ::
  "'c htl_device \<Rightarrow> usfs_superblock \<Rightarrow> nat \<Rightarrow> usfs_entry \<Rightarrow> 'c htl_device \<Rightarrow> usfs_superblock \<Rightarrow> bool" where
  "usfs_updated dev sb i e dev' sb' \<longleftrightarrow>
     usfs_volume_ok dev' sb' \<and> usfs_same_sb sb sb' \<and> same_device dev dev' \<and>
     usfs_live dev' sb = usfs_live dev sb \<and> usfs_entry_at dev' sb i = e \<and>
     (\<forall>j < unat (usb_total_entries sb). j \<noteq> i \<longrightarrow> usfs_entry_at dev' sb j = usfs_entry_at dev sb j) \<and>
     (\<forall>x \<in> usfs_others dev sb i. blk dev' x = blk dev x)"

lemma usfs_updated_trans:
  assumes a: "usfs_updated dev sb i e dev1 sb1" and b: "usfs_updated dev1 sb1 i e' dev2 sb2"
  shows "usfs_updated dev sb i e' dev2 sb2"
proof -
  have s1: "usfs_layout sb1 = usfs_layout sb" using a usfs_same_sbD(1) by (simp add: usfs_updated_def)
  note c = usfs_layout_cong [OF s1]
  have live: "usfs_live dev1 sb = usfs_live dev sb" using a by (simp add: usfs_updated_def)
  have "usfs_others dev1 sb1 i = usfs_others dev sb i"
    unfolding c usfs_others_def live using a by (auto simp: usfs_updated_def usfs_live_def)
  then show ?thesis
    using a b usfs_same_sb_trans same_trans unfolding usfs_updated_def c by (metis (no_types, lifting))
qed

lemma usfs_update_entry:
  fixes dev :: "'c htl_device"
  assumes ok: "usfs_volume_ok dev sb" and live: "unat n \<in> usfs_live dev sb" and vw: "usfs_volume_writable sb = USFS_OK"
    and inv: "usfs_alloc_inv dev1 sb1" and sb1: "usfs_same_sb sb sb1" and sd: "same_device dev dev1"
    and same: "\<And>x. x < total_blocks dev \<Longrightarrow> \<not> usfs_off_table sb x \<Longrightarrow> blk dev1 x = blk dev x"
    and al: "usfs_others dev sb (unat n) \<subseteq> usfs_allocated dev1 sb" and keep: "\<And>x. x \<in> usfs_others dev sb (unat n) \<Longrightarrow> blk dev1 x = blk dev x"
    and wf: "usfs_entry_wf e" and nf: "\<not> usfs_slot_free e"
    and eok: "usfs_entry_ok dev1 sb e" and dis: "usfs_extent e \<inter> usfs_others dev sb (unat n) = {}"
  obtains dev' where "usfs_entry_write dev1 sb1 n e = (USFS_OK, dev', usfs_entry_sealed e)"
    "usfs_updated dev sb (unat n) (usfs_entry_sealed e) dev' sb1" "\<And>x. x \<in> usfs_region sb \<Longrightarrow> blk dev' x = blk dev1 x"
    "usfs_allocated dev' sb = usfs_allocated dev1 sb"
proof -
  note d = usfs_volume_okD [OF ok] and s = usfs_same_sbD [OF sb1] and c = usfs_layout_cong [OF usfs_same_sbD(1) [OF sb1]]
  have i1: "htl_reliable dev1" "usfs_geometry dev1 sb1" using inv by (simp_all add: usfs_alloc_inv_def)
  have tb: "total_blocks dev1 = total_blocks dev" using same_deviceD [OF sd] by simp
  from live have i: "unat n < unat (usb_total_entries sb)" by (simp add: usfs_live_def)
  have ins: "insert (unat n) (usfs_live dev sb) = usfs_live dev sb" using live by auto
  have cnt: "unat (usb_used_entries sb1) = card (usfs_live dev sb)" using d(4) s(2) by simp
  let ?dev' = "usfs_entry_put dev1 sb1 (unat n) (usfs_entry_sealed e)"
  have w: "usfs_entry_write dev1 sb1 n e = (USFS_OK, ?dev', usfs_entry_sealed e)"
    using usfs_entry_write_reliable [OF i1 _ _ wf, of n] i c(13) s(3) vw by (simp add: word_less_nat_alt)
  note k = usfs_entry_commit [OF ok i inv s(1) tb same al wf, of "usb_used_entries sb1", unfolded if_not_P [OF nf] ins, OF _ _ _ cnt, simplified eok dis, simplified]
  have reg: "x < total_blocks dev" "usfs_off_table sb x" if "x \<in> usfs_region sb" for x
    using usfs_region_outside(1) [OF d(3) that] usfs_off_table_bitmap(2) [OF d(3) that] .
  have oth: "usfs_others dev sb (unat n) \<subseteq> usfs_region sb" using d(8) by (auto simp: usfs_allocated_def)
  have "usfs_updated dev sb (unat n) (usfs_entry_sealed e) ?dev' sb1"
    unfolding usfs_updated_def using k sb1 same_trans [OF sd k(6)] keep reg oth by auto
  with w show thesis by (rule that) (use k reg in auto)
qed

section \<open>Growing a file\<close>

lemma usfs_crypto_xform_cong [simp]:
  "usfs_crypto_xform sb (e\<lparr>ue_first_block := f\<rparr>) = usfs_crypto_xform sb e" "usfs_crypto_xform sb (e\<lparr>ue_block_count := n\<rparr>) = usfs_crypto_xform sb e"
  "usfs_crypto_xform sb (e\<lparr>ue_checksum := c\<rparr>) = usfs_crypto_xform sb e" "usfs_crypto_xform sb (e\<lparr>ue_size_bytes := s\<rparr>) = usfs_crypto_xform sb e"
  by (simp_all add: usfs_crypto_xform_def usfs_is_encrypted_def fun_eq_iff)

text \<open>The copy puts the content of the old run at the start of the new one; \<open>e2\<close> is the entry as it will
  be.\<close>

lemma grow_copy_ok:
  assumes e2: "e2 = e\<lparr>ue_first_block := nf, ue_block_count := need\<rparr>" and le: "unat (ue_block_count e) \<le> unat need"
    and dis: "usfs_extent e \<inter> usfs_extent e2 = {}"
  shows "usfs_alloc_inv dev sb \<Longrightarrow> usfs_entry_ok dev sb e \<Longrightarrow> usfs_entry_ok dev sb e2 \<Longrightarrow> a \<le> unat (ue_block_count e) \<Longrightarrow>
    \<exists>dev'. grow_copy dev sb e (ue_first_block e) nf [a..<unat (ue_block_count e)] = (USFS_OK, dev') \<and> usfs_alloc_inv dev' sb \<and>
      usfs_allocated dev' sb = usfs_allocated dev sb \<and> same_device dev dev' \<and>
      (\<forall>x. x < total_blocks dev \<longrightarrow> x \<notin> usfs_extent e2 \<longrightarrow> blk dev' x = blk dev x) \<and>
      usfs_content dev' sb e2 = overwrite (4096 * a) (drop (4096 * a) (usfs_content dev sb e)) (usfs_content dev sb e2)"
proof (induction "unat (ue_block_count e) - a" arbitrary: a dev)
  case 0
  then have "a = unat (ue_block_count e)" by simp
  then show ?case using 0 length_usfs_content [OF 0(2,3)] by simp
next
  case (Suc k)
  note inv = Suc.prems(1) and eo = Suc.prems(2) and eo2 = Suc.prems(3)
  from Suc have a: "a < unat (ue_block_count e)" "a < unat (ue_block_count e2)" and l: "[a..<unat (ue_block_count e)] = a # [Suc a..<unat (ue_block_count e)]"
    using le by (simp_all add: upt_conv_Cons e2)
  note d = usfs_entry_okD [OF inv eo]
  let ?old = "ue_first_block e + of_nat a" and ?new = "ue_first_block e2 + of_nat a"
  have b: "?old \<in> usfs_extent e"
    using usfs_blocks_extent(1) [OF d(2)] nth_mem [of a "usfs_blocks e"] a(1) usfs_block_word(2) [OF d(2) a(1)] by simp
  let ?p = "usfs_plain dev sb e ?old"
  note w = usfs_write_data_block [OF inv eo2 a(2) d(7) [OF b]]
  let ?d1 = "blk_write dev ?new (usfs_crypto_xform sb e2 ?p ?new)"
  have dev: "htl_reliable dev" using inv by (simp add: usfs_alloc_inv_def)
  have x: "usfs_crypto_xform sb e2 = usfs_crypto_xform sb e" and nf: "ue_first_block e2 = nf" by (simp_all add: e2)
  have step: "grow_copy dev sb e (ue_first_block e) nf [a..<unat (ue_block_count e)] = grow_copy ?d1 sb e (ue_first_block e) nf [Suc a..<unat (ue_block_count e)]"
    unfolding l using w(1) htl_read_reliable [OF dev d(5) [OF b]] by (simp add: usfs_plain_def x nf)
  have eo1: "usfs_entry_ok ?d1 sb e" using eo w(4) by (simp add: usfs_entry_ok_def)
  have bs: "set (usfs_blocks e) = usfs_extent e" by (rule usfs_blocks_extent(1) [OF d(2)])
  have same: "blk ?d1 x = blk dev x" if "x \<in> usfs_extent e" for x using w(6) [OF d(5) [OF that]] that dis by blast
  have ce: "usfs_content ?d1 sb e = usfs_content dev sb e" by (rule usfs_content_cong(1)) (simp_all add: bs same)
  have k: "k = unat (ue_block_count e) - Suc a" "Suc a \<le> unat (ue_block_count e)" using Suc.hyps(2) a(1) by linarith+
  obtain dev' where IH: "grow_copy ?d1 sb e (ue_first_block e) nf [Suc a..<unat (ue_block_count e)] = (USFS_OK, dev')" "usfs_alloc_inv dev' sb"
    "usfs_allocated dev' sb = usfs_allocated ?d1 sb" "same_device ?d1 dev'"
    "\<forall>x. x < total_blocks dev \<longrightarrow> x \<notin> usfs_extent e2 \<longrightarrow> blk dev' x = blk ?d1 x"
    "usfs_content dev' sb e2 = overwrite (4096 * Suc a) (drop (4096 * Suc a) (usfs_content ?d1 sb e)) (usfs_content ?d1 sb e2)"
    using Suc.hyps(1) [OF k(1) w(3) eo1 w(5) k(2)] by (auto simp del: mult_Suc_right)
  have lc: "length (usfs_content dev sb e) = 4096 * unat (ue_block_count e)" "length (usfs_content dev sb e2) = 4096 * unat (ue_block_count e2)"
    by (rule length_usfs_content [OF inv eo] length_usfs_content [OF inv eo2])+
  have "window (4096 * a) 4096 (usfs_content dev sb e) = ?p"
    using usfs_content_window [OF inv eo a(1), of 0 4096 "4096 * a"] d(7) [OF b] by (simp add: window_all)
  then have dr: "drop (4096 * a) (usfs_content dev sb e) = ?p @ drop (4096 * Suc a) (usfs_content dev sb e)"
    by (metis append_take_drop_id drop_drop window_def mult_Suc_right)
  have "4096 * Suc a + (4096 * unat (ue_block_count e) - 4096 * Suc a) \<le> 4096 * unat (ue_block_count e2)"
    using a le by (simp add: e2)
  then have "usfs_content dev' sb e2 = overwrite (4096 * a) (drop (4096 * a) (usfs_content dev sb e)) (usfs_content dev sb e2)"
    unfolding IH(6) ce w(8) dr using d(7) [OF b] lc by (subst overwrite_adjacent) simp_all
  then show ?case using step IH w(4,6) same_trans [OF w(7) IH(4)] by auto
qed

lemma usfs_content_update [simp]:
  "usfs_content dev sb (e\<lparr>ue_checksum := c\<rparr>) = usfs_content dev sb e" "usfs_content dev sb (e\<lparr>ue_size_bytes := s\<rparr>) = usfs_content dev sb e"
  "usfs_data dev sb (e\<lparr>ue_checksum := c\<rparr>) = usfs_data dev sb e"
  by (simp_all add: usfs_content_def usfs_data_def usfs_blocks_def usfs_plain_def comp_def)

lemma usfs_others_region:
  assumes "usfs_volume_ok dev sb" and "x \<in> usfs_others dev sb i"
  shows "x \<in> usfs_allocated dev sb" and "x \<in> usfs_region sb" and "x < total_blocks dev" and "usfs_outside sb x" and "usfs_off_table sb x"
proof -
  note d = usfs_volume_okD [OF assms(1)]
  show a: "x \<in> usfs_allocated dev sb" using d(8) assms(2) by blast
  then show r: "x \<in> usfs_region sb" by (simp add: usfs_allocated_def)
  show "x < total_blocks dev" "usfs_outside sb x" "usfs_off_table sb x"
    using usfs_region_outside(1,2) [OF d(3) r] usfs_off_table_bitmap(2) [OF d(3) r] by simp_all
qed

text \<open>A file that has blocks enough is left alone; otherwise it moves to a run of exactly the needed
  length, its content in front; when there is no such run nothing changes.\<close>

lemma grow_file_cases:
  fixes dev :: "'c htl_device"
  assumes ok: "usfs_volume_ok dev sb" and live: "unat n \<in> usfs_live dev sb" and vw: "usfs_volume_writable sb = USFS_OK"
    and e: "e = usfs_entry_at dev sb (unat n)"
  obtains (enough) "need \<le> ue_block_count e" "grow_file dev sb e n need = (USFS_OK, dev, sb, e)"
  | (grown) f dev' sb' e' where "ue_block_count e < need" "grow_file dev sb e n need = (USFS_OK, dev', sb', e')"
      "e' = usfs_entry_sealed (e\<lparr>ue_first_block := f, ue_block_count := need\<rparr>)" "usfs_updated dev sb (unat n) e' dev' sb'"
      "take (4096 * unat (ue_block_count e)) (usfs_content dev' sb' e') = usfs_content dev sb e"
  | (no_run) "ue_block_count e < need" "\<forall>s. \<not> usfs_run dev sb s (unat need)"
      "grow_file dev sb e n need = (USFS_ERR_NO_FREE_BLOCKS, dev, sb, e)"
proof (cases "need \<le> ue_block_count e")
  case True
  then show thesis by (intro enough) (simp_all add: grow_file_def)
next
  case False
  note d = usfs_volume_okD [OF ok]
  from False have lt: "ue_block_count e < need" "need \<noteq> 0" "unat (ue_block_count e) \<le> unat need" "0 < unat need"
    by (auto simp: word_le_nat_alt word_less_nat_alt unat_gt_0 not_le)
  show thesis
  proof (cases rule: usfs_block_alloc_cases [OF d(1) vw lt(2), case_names found none])
    case none
    then show thesis using lt(1) by (intro no_run) (simp_all add: grow_file_def not_le)
  next
    case (found s dev1 sb1)
    define f where "f = usb_data_region_start sb + of_nat s"
    define e2 where "e2 = e\<lparr>ue_first_block := f, ue_block_count := need\<rparr>"
    note k1 = usfs_keptD [OF found(5)] and s1 = usfs_kept_same_sb [OF found(5)]
    note c1 = usfs_layout_cong [OF usfs_same_sbD(1) [OF s1]]
    have eo: "usfs_entry_ok dev sb e" using d(6) [OF live] e by simp
    note x = usfs_entry_okD [OF d(1) eo]
    have al1: "usfs_allocated dev1 sb = usfs_allocated dev sb \<union> usfs_extent e2" using found(6) by (simp add: usfs_extent_def e2_def f_def c1)
    have new: "usfs_extent e2 \<subseteq> usfs_region sb - usfs_allocated dev sb"
      using usfs_run_free [OF d(3) found(1) lt(4)] by (simp add: usfs_extent_def e2_def f_def)
    have "s + unat need \<le> usfs_data_blocks sb" using found(1) by (simp add: usfs_run_def)
    then have "unat f + unat need \<le> unat (usb_total_blocks sb)" using usfs_run_extent(4) [OF d(3) _ lt(4)] by (simp add: f_def)
    then have "unat f + unat need \<le> 2 ^ 32" using unsigned_less [of "usb_total_blocks sb", where 'a = nat] by simp
    then have eo1: "usfs_entry_ok dev1 sb1 e" "usfs_entry_ok dev1 sb1 e2"
      using x(1-3) al1 lt(3) by (auto simp: usfs_entry_ok_def c1 e2_def)
    have dis: "usfs_extent e \<inter> usfs_extent e2 = {}" using x(1) new by auto
    obtain dev2 where g: "grow_copy dev1 sb1 e (ue_first_block e) f [0..<unat (ue_block_count e)] = (USFS_OK, dev2)" "usfs_alloc_inv dev2 sb1"
      "usfs_allocated dev2 sb1 = usfs_allocated dev1 sb1" "same_device dev1 dev2"
      "\<forall>x. x < total_blocks dev1 \<longrightarrow> x \<notin> usfs_extent e2 \<longrightarrow> blk dev2 x = blk dev1 x"
      "usfs_content dev2 sb1 e2 = overwrite 0 (usfs_content dev1 sb1 e) (usfs_content dev1 sb1 e2)"
      using grow_copy_ok [OF e2_def lt(3) dis found(4) eo1, of 0] by auto
    have "usfs_extent e \<subseteq> usfs_allocated dev2 sb1" using x(1) al1 g(3) by (auto simp: c1)
    then obtain dev3 sb3 where r: "(if ue_block_count e > 0 then usfs_block_free dev2 sb1 (ue_first_block e) (ue_block_count e) else (USFS_OK, dev2, sb1)) =
        (USFS_OK, dev3, sb3)" "usfs_alloc_inv dev3 sb3" "usfs_kept dev2 sb1 dev3 sb3" "usfs_allocated dev3 sb3 = usfs_allocated dev2 sb1 - usfs_extent e"
    proof (cases "ue_block_count e = 0")
      case True
      then show ?thesis using g(2) by (intro that [of dev2 sb1]) (simp_all add: usfs_kept_def usfs_extent_def)
    next
      case F: False
      assume "usfs_extent e \<subseteq> usfs_allocated dev2 sb1"
      then show ?thesis
        using usfs_block_free_ok [OF g(2) _ F, of "ue_first_block e"] vw k1(3) x(2) F that
        by (auto simp: usfs_extent_def word_neq_0_conv)
    qed
    note k3 = usfs_keptD [OF r(3)] and s3 = usfs_same_sb_trans [OF s1 usfs_kept_same_sb [OF r(3)]]
    have sd: "same_device dev dev3" using same_trans [OF same_trans [OF k1(5) g(4)] k3(5)] .
    have tb: "total_blocks dev1 = total_blocks dev" "total_blocks dev2 = total_blocks dev" using k1(1) same_deviceD [OF g(4)] by simp_all
    have ou: "usfs_outside sb1 = usfs_outside sb" by (rule c1(5))
    have b3: "blk dev3 x = blk dev x" if "x < total_blocks dev" "usfs_outside sb x" "x \<notin> usfs_extent e2" for x
      using k3(6) [of x] g(5) k1(6) [of x] that tb ou by simp
    have b32: "blk dev3 x = blk dev2 x" if "x \<in> usfs_region sb" for x
      using k3(6) [of x] tb ou usfs_region_outside(1,2) [OF d(3) that] by simp
    have al3: "usfs_allocated dev3 sb = (usfs_allocated dev sb \<union> usfs_extent e2) - usfs_extent e"
      using r(4) g(3) al1 by (simp add: c1 usfs_layout_cong(2) [OF usfs_same_sbD(1) [OF s3]])
    have eo3: "usfs_entry_ok dev3 sb e2" using eo1(2) al3 dis by (auto simp: usfs_entry_ok_def c1)
    note od = d(7) [OF live, folded e] and orr = usfs_others_region [OF ok]
    have oth: "usfs_others dev sb (unat n) \<subseteq> usfs_allocated dev3 sb" "usfs_extent e2 \<inter> usfs_others dev sb (unat n) = {}"
      using od al3 d(8) new by blast+
    have "unat n < unat (usb_total_entries sb)" "\<not> usfs_slot_free e" using live by (simp_all add: usfs_live_def e)
    then have wf: "usfs_entry_wf e2" "\<not> usfs_slot_free e2" using d(2,3) by (simp_all add: e2_def usfs_slot_free_def e)
    obtain dev' where w: "usfs_entry_write dev3 sb3 n e2 = (USFS_OK, dev', usfs_entry_sealed e2)"
      "usfs_updated dev sb (unat n) (usfs_entry_sealed e2) dev' sb3" "\<And>x. x \<in> usfs_region sb \<Longrightarrow> blk dev' x = blk dev3 x"
      "usfs_allocated dev' sb = usfs_allocated dev3 sb"
    proof (rule usfs_update_entry [OF ok live vw r(2) s3 sd _ oth(1) _ wf eo3 oth(2)])
      show "blk dev3 x = blk dev x" if "x < total_blocks dev" "\<not> usfs_off_table sb x" for x
        using b3 [OF that(1)] usfs_off_table_bitmap(1,2) [OF d(3)] that(2) new by blast
      show "blk dev3 x = blk dev x" if "x \<in> usfs_others dev sb (unat n)" for x
        using b3 [OF orr(3,4) [OF that]] that oth(2) by blast
    qed blast
    have run: "grow_file dev sb e n need = (USFS_OK, dev', sb3, usfs_entry_sealed e2)"
      using False found(3) g(1) r(1) w(1) by (simp add: grow_file_def f_def [symmetric] e2_def Let_def)
    note ss = usfs_same_sbD(4-6)
    have bs2: "set (usfs_blocks e2) = usfs_extent e2" "set (usfs_blocks e) = usfs_extent e"
      using usfs_blocks_extent(1) eo3 x(2) by (simp_all add: usfs_entry_ok_def)
    have "usfs_content dev' sb3 (usfs_entry_sealed e2) = usfs_content dev2 sb1 e2"
      using w(3) b32 new ss [OF s3] ss [OF s1] by (simp, intro usfs_content_cong(1)) (auto simp: bs2)
    moreover have "usfs_content dev1 sb1 e = usfs_content dev sb e"
      using k1(6) x(4,5) usfs_region_outside(2) [OF d(3)] ss [OF s1] by (intro usfs_content_cong(1)) (auto simp: bs2)
    ultimately have "take (4096 * unat (ue_block_count e)) (usfs_content dev' sb3 (usfs_entry_sealed e2)) = usfs_content dev sb e"
      using g(6) length_usfs_content [OF found(4) eo1(2)] length_usfs_content [OF d(1) eo] lt(3)
      by (simp add: overwrite_def e2_def)
    then show thesis using run w(2) lt(1) by (intro grown [of dev' sb3 "usfs_entry_sealed e2" f]) (simp_all add: e2_def)
  qed
qed

section \<open>Writing\<close>

lemma unat_blocks_needed:
  assumes "unat n \<le> 2 ^ 33"
  shows "unat (blocks_needed n) = (unat n + 4095) div 4096"
proof -
  have "n + 0x1000 - 1 = n + 4095" by simp
  moreover have "unat (n + 4095) = unat n + 4095" using assms by (simp add: unat_word_ariths)
  moreover have "take_bit 64 (unat n + 4095) = unat n + 4095" using assms by (intro take_bit_nat_eq_self) simp
  ultimately have u: "unat (drop_bit 12 (n + 0x1000 - 1)) = (unat n + 4095) div 4096"
    by (simp only: unsigned_drop_bit_eq) (simp add: drop_bit_eq_div)
  have "take_bit 32 ((unat n + 4095) div 4096) = (unat n + 4095) div 4096"
    using assms by (intro take_bit_nat_eq_self) (simp add: div_less_iff_less_mult)
  then show ?thesis by (simp only: blocks_needed_def unsigned_ucast_eq u) simp
qed

lemma usfs_updated_refl:
  "usfs_volume_ok dev sb \<Longrightarrow> usfs_updated dev sb i (usfs_entry_at dev sb i) dev sb"
  by (simp add: usfs_updated_def)

text \<open>Equal but for the place, the size and the checksum: name, parent, owner, permissions and flags agree.\<close>

definition usfs_same_file :: "usfs_entry \<Rightarrow> usfs_entry \<Rightarrow> bool" where
  "usfs_same_file e e' \<longleftrightarrow>
     e'\<lparr>ue_first_block := 0, ue_block_count := 0, ue_size_bytes := 0, ue_checksum := 0\<rparr> =
     e\<lparr>ue_first_block := 0, ue_block_count := 0, ue_size_bytes := 0, ue_checksum := 0\<rparr>"

lemma usfs_same_file_update [simp]:
  "usfs_same_file e e" "usfs_same_file e (e'\<lparr>ue_first_block := f\<rparr>) = usfs_same_file e e'"
  "usfs_same_file e (e'\<lparr>ue_block_count := n\<rparr>) = usfs_same_file e e'" "usfs_same_file e (e'\<lparr>ue_size_bytes := s\<rparr>) = usfs_same_file e e'"
  "usfs_same_file e (e'\<lparr>ue_checksum := c\<rparr>) = usfs_same_file e e'"
  by (simp_all add: usfs_same_file_def)

lemma usfs_same_fileD:
  assumes "usfs_same_file e e'"
  shows "ue_entry_type e' = ue_entry_type e" and "ue_parent_entry e' = ue_parent_entry e" and "ue_security_flags e' = ue_security_flags e"
    and "ue_name e' = ue_name e" and "ue_name_length e' = ue_name_length e" and "ue_permissions e' = ue_permissions e"
proof -
  note eq = assms [unfolded usfs_same_file_def, THEN arg_cong]
  show "ue_entry_type e' = ue_entry_type e" "ue_parent_entry e' = ue_parent_entry e" "ue_security_flags e' = ue_security_flags e"
    using eq [of ue_entry_type] eq [of ue_parent_entry] eq [of ue_security_flags] by simp_all
  show "ue_name e' = ue_name e" "ue_name_length e' = ue_name_length e" "ue_permissions e' = ue_permissions e"
    using eq [of ue_name] eq [of ue_name_length] eq [of ue_permissions] by simp_all
qed

text \<open>The state of the file once it has the blocks it needs.\<close>

lemma grow_file_ok:
  fixes dev :: "'c htl_device"
  assumes ok: "usfs_volume_ok dev sb" and live: "unat n \<in> usfs_live dev sb" and vw: "usfs_volume_writable sb = USFS_OK"
    and e: "e = usfs_entry_at dev sb (unat n)"
  obtains (grown) dev1 sb1 e1 where "grow_file dev sb e n need = (USFS_OK, dev1, sb1, e1)" "usfs_updated dev sb (unat n) e1 dev1 sb1"
      "need \<le> ue_block_count e1" "take (4096 * unat (ue_block_count e)) (usfs_content dev1 sb1 e1) = usfs_content dev sb e"
      "ue_size_bytes e1 = ue_size_bytes e" "ue_block_count e \<le> ue_block_count e1" "usfs_same_file e e1"
  | (no_run) "ue_block_count e < need" "\<forall>s. \<not> usfs_run dev sb s (unat need)" "grow_file dev sb e n need = (USFS_ERR_NO_FREE_BLOCKS, dev, sb, e)"
proof (cases rule: grow_file_cases [OF ok live vw e, of need, case_names enough grown no_run])
  case enough
  have "usfs_entry_ok dev sb e" using usfs_volume_okD(6) [OF ok live] e by simp
  then have "length (usfs_content dev sb e) = 4096 * unat (ue_block_count e)" using length_usfs_content usfs_volume_okD(1) [OF ok] by blast
  then show ?thesis using enough usfs_updated_refl [OF ok, of "unat n"] by (intro that(1) [of dev sb e]) (simp_all add: e [symmetric])
next
  case (grown f dev' sb' e')
  then show ?thesis by (intro that(1) [of dev' sb' e']) simp_all
next
  case no_run
  then show ?thesis by (rule that(2))
qed

lemma usfs_updatedD:
  assumes "usfs_updated dev sb i e dev' sb'"
  shows "usfs_volume_ok dev' sb'" and "usfs_layout sb' = usfs_layout sb" and "usfs_volume_writable sb' = usfs_volume_writable sb"
    and "usfs_live dev' sb' = usfs_live dev sb" and "usfs_entry_at dev' sb' i = e" and "same_device dev dev'" and "usfs_same_sb sb sb'"
    and "j < unat (usb_total_entries sb) \<Longrightarrow> j \<noteq> i \<Longrightarrow> usfs_entry_at dev' sb' j = usfs_entry_at dev sb j"
    and "x \<in> usfs_others dev sb i \<Longrightarrow> blk dev' x = blk dev x"
proof -
  have s: "usfs_same_sb sb sb'" using assms by (simp add: usfs_updated_def)
  note c = usfs_layout_cong [OF usfs_same_sbD(1) [OF s]]
  show "usfs_volume_ok dev' sb'" "usfs_layout sb' = usfs_layout sb" "usfs_volume_writable sb' = usfs_volume_writable sb"
    "usfs_live dev' sb' = usfs_live dev sb" "usfs_entry_at dev' sb' i = e" "same_device dev dev'" "usfs_same_sb sb sb'"
    "j < unat (usb_total_entries sb) \<Longrightarrow> j \<noteq> i \<Longrightarrow> usfs_entry_at dev' sb' j = usfs_entry_at dev sb j"
    "x \<in> usfs_others dev sb i \<Longrightarrow> blk dev' x = blk dev x"
    using assms s usfs_same_sbD(1,3) [OF s] unfolding usfs_updated_def c by simp_all
qed

text \<open>Writing the size back after the data blocks have been written.\<close>

lemma usfs_commit_size:
  fixes dev :: "'c htl_device"
  assumes ok: "usfs_volume_ok dev sb" and live: "unat n \<in> usfs_live dev sb" and vw: "usfs_volume_writable sb = USFS_OK"
    and e: "e = usfs_entry_at dev sb (unat n)" and inv: "usfs_alloc_inv dev1 sb" and al: "usfs_allocated dev1 sb = usfs_allocated dev sb"
    and sd: "same_device dev dev1" and same: "\<And>x. x < total_blocks dev \<Longrightarrow> x \<notin> usfs_extent e \<Longrightarrow> blk dev1 x = blk dev x"
    and sz: "unat s \<le> 4096 * unat (ue_block_count e)"
  obtains dev' where "usfs_entry_write dev1 sb n (e\<lparr>ue_size_bytes := s\<rparr>) = (USFS_OK, dev', usfs_entry_sealed (e\<lparr>ue_size_bytes := s\<rparr>))"
    "usfs_updated dev sb (unat n) (usfs_entry_sealed (e\<lparr>ue_size_bytes := s\<rparr>)) dev' sb"
    "usfs_content dev' sb (usfs_entry_sealed (e\<lparr>ue_size_bytes := s\<rparr>)) = usfs_content dev1 sb e"
proof -
  note d = usfs_volume_okD [OF ok] and orr = usfs_others_region [OF ok]
  have eo: "usfs_entry_ok dev sb e" using d(6) [OF live] e by simp
  note x = usfs_entry_okD [OF d(1) eo]
  have "unat n < unat (usb_total_entries sb)" "\<not> usfs_slot_free e" using live by (simp_all add: usfs_live_def e)
  then have wf: "usfs_entry_wf (e\<lparr>ue_size_bytes := s\<rparr>)" "\<not> usfs_slot_free (e\<lparr>ue_size_bytes := s\<rparr>)" using d(2,3) by (simp_all add: usfs_slot_free_def e)
  have od: "usfs_extent (e\<lparr>ue_size_bytes := s\<rparr>) \<inter> usfs_others dev sb (unat n) = {}" using d(7) [OF live, folded e] by simp
  have oth: "usfs_others dev sb (unat n) \<subseteq> usfs_allocated dev1 sb" using d(8) al by simp
  have eo': "usfs_entry_ok dev1 sb (e\<lparr>ue_size_bytes := s\<rparr>)" using eo sz al by (simp add: usfs_entry_ok_def)
  obtain dev' where w: "usfs_entry_write dev1 sb n (e\<lparr>ue_size_bytes := s\<rparr>) = (USFS_OK, dev', usfs_entry_sealed (e\<lparr>ue_size_bytes := s\<rparr>))"
    "usfs_updated dev sb (unat n) (usfs_entry_sealed (e\<lparr>ue_size_bytes := s\<rparr>)) dev' sb" "\<And>x. x \<in> usfs_region sb \<Longrightarrow> blk dev' x = blk dev1 x"
    "usfs_allocated dev' sb = usfs_allocated dev1 sb"
  proof (rule usfs_update_entry [OF ok live vw inv usfs_same_sb_refl sd _ oth _ wf eo' od])
    show "blk dev1 x = blk dev x" if "x < total_blocks dev" "\<not> usfs_off_table sb x" for x
      using same [OF that(1)] x(4) usfs_off_table_bitmap(2) [OF d(3)] that(2) by blast
    show "blk dev1 x = blk dev x" if "x \<in> usfs_others dev sb (unat n)" for x
      using same [OF orr(3) [OF that]] od that by auto
  qed blast
  have "usfs_content dev' sb e = usfs_content dev1 sb e"
    using w(3) x(4) by (intro usfs_content_cong(1)) (auto simp: usfs_blocks_extent(1) [OF x(2)])
  with w(1,2) show thesis by (intro that [of dev']) simp_all
qed

text \<open>A write that starts inside the file or at its end makes the file end where the write ends; the
  bytes before it are kept. When no run is long enough nothing changes.\<close>

lemma usfs_file_write_cases:
  fixes dev :: "'c htl_device"
  assumes ok: "usfs_volume_ok dev sb" and live: "unat n \<in> usfs_live dev sb" and vw: "usfs_volume_writable sb = USFS_OK"
    and e: "e = usfs_entry_at dev sb (unat n)" and ty: "ue_entry_type e = USFS_ENTRY_FILE" and ro: "ue_security_flags e AND USFS_SEC_READONLY = 0"
    and acc: "entry_access_check g e OW_ACCESS_WRITE = USFS_OK" and len: "len \<noteq> 0" "unat len \<le> length buf"
    and fit: "unat offset + unat len < 2 ^ 32"
  obtains (written) dev' sb' e' gap where "usfs_file_write g dev sb e n buf offset len w0 = (USFS_OK, len, dev', sb', e')"
      "usfs_updated dev sb (unat n) e' dev' sb'" "ue_size_bytes e' = offset + len" "length gap = unat offset - unat (ue_size_bytes e)"
      "usfs_data dev' sb' e' = take (unat offset) (usfs_data dev sb e) @ gap @ take (unat len) buf" "usfs_same_file e e'"
  | (no_run) "usfs_file_write g dev sb e n buf offset len w0 = (USFS_ERR_NO_FREE_BLOCKS, 0, dev, sb, e)" "unat (ue_block_count e) < (unat offset + unat len + 4095) div 4096"
      "\<forall>s. \<not> usfs_run dev sb s ((unat offset + unat len + 4095) div 4096)"
proof -
  let ?stop = "ucast offset + ucast len :: u64"
  let ?need = "blocks_needed ?stop"
  have ue: "unat ?stop = unat offset + unat len" using fit by (simp add: unat_word_ariths unat_ucast_up)
  have "unat ?stop \<le> 2 ^ 33" using fit unfolding ue by simp
  note nb = unat_blocks_needed [OF this, unfolded ue]
  have size: "ucast ?stop = offset + len" by (rule word_unat_eq_iff [THEN iffD2]) (use ue fit in \<open>simp add: unsigned_ucast_eq take_bit_nat_eq_self unat_word_ariths\<close>)
  have nz: "0 < len" using len(1) by (simp add: word_neq_0_conv)
  have run: "usfs_file_write g dev sb e n buf offset len w0 =
      (case grow_file dev sb e n ?need of (res, dev, sb, entry) \<Rightarrow>
        if res \<noteq> USFS_OK then (res, 0, dev, sb, entry)
        else case usfs_file_write_loop dev sb entry buf len 0 offset of (res, don, dev) \<Rightarrow>
        if res \<noteq> USFS_OK then (res, 0, dev, sb, entry)
        else case usfs_entry_write dev sb n (entry\<lparr>ue_size_bytes := offset + len\<rparr>) of (res, dev, entry) \<Rightarrow> (res, don, dev, sb, entry))"
    using ty vw ro acc len(1) by (simp only: usfs_file_write_def Let_def size simp_thms if_False)
  show thesis
  proof (cases rule: grow_file_ok [OF ok live vw e, of ?need, case_names grown no_run])
    case no_run
    then show thesis using run nb by (intro that(2)) (simp_all add: word_less_nat_alt)
  next
    case (grown dev1 sb1 e1)
    note u = usfs_updatedD [OF grown(2)]
    have live1: "unat n \<in> usfs_live dev1 sb1" and vw1: "usfs_volume_writable sb1 = USFS_OK" using live u(3,4) vw by simp_all
    note d1 = usfs_volume_okD [OF u(1)]
    have eo1: "usfs_entry_ok dev1 sb1 e1" using d1(6) [OF live1] u(5) by simp
    have cap: "unat offset + unat len \<le> 4096 * unat (ue_block_count e1)"
    proof -
      have "(unat offset + unat len + 4095) div 4096 \<le> unat (ue_block_count e1)" using grown(3) nb by (simp add: word_le_nat_alt)
      then show ?thesis by linarith
    qed
    obtain dev2 where w: "usfs_file_write_loop dev1 sb1 e1 buf len 0 offset = (USFS_OK, len, dev2)" "usfs_alloc_inv dev2 sb1"
      "usfs_allocated dev2 sb1 = usfs_allocated dev1 sb1" "same_device dev1 dev2"
      "\<And>x. x < total_blocks dev1 \<Longrightarrow> x \<notin> usfs_extent e1 \<Longrightarrow> blk dev2 x = blk dev1 x"
      "usfs_content dev2 sb1 e1 = overwrite (unat offset) (take (unat len) buf) (usfs_content dev1 sb1 e1)"
      using usfs_file_write_loop_ok [OF cap _ len(2) d1(1) eo1, of 0 offset] fit by (auto simp: window_def)
    have sz: "unat (offset + len) = unat offset + unat len" using fit by (simp add: unat_word_ariths)
    define e2 where "e2 = usfs_entry_sealed (e1\<lparr>ue_size_bytes := offset + len\<rparr>)"
    obtain dev3 where c: "usfs_entry_write dev2 sb1 n (e1\<lparr>ue_size_bytes := offset + len\<rparr>) = (USFS_OK, dev3, e2)"
      "usfs_updated dev1 sb1 (unat n) e2 dev3 sb1" "usfs_content dev3 sb1 e2 = usfs_content dev2 sb1 e1"
      unfolding e2_def by (rule usfs_commit_size [OF u(1) live1 vw1 u(5) [symmetric] w(2,3,4,5), of "offset + len"]) (use cap sz in simp_all)
    have bnd: "unat (ue_size_bytes e) \<le> 4096 * unat (ue_block_count e)" "unat (ue_block_count e) \<le> unat (ue_block_count e1)"
      using usfs_entry_okD(3) [OF usfs_volume_okD(1,6) [OF ok]] live grown(6) e by (auto simp: word_le_nat_alt)
    have lc: "length (usfs_content dev sb e) = 4096 * unat (ue_block_count e)"
      using length_usfs_content [OF usfs_volume_okD(1,6) [OF ok]] live e by blast
    note lc1 = length_usfs_content [OF d1(1) eo1]
    define gap where "gap = drop (unat (ue_size_bytes e)) (take (unat offset) (usfs_content dev1 sb1 e1))"
    have lg: "length gap = unat offset - unat (ue_size_bytes e)" using cap lc1 by (simp add: gap_def)
    have "take (unat (ue_size_bytes e)) (usfs_content dev1 sb1 e1) = usfs_data dev sb e"
      unfolding usfs_data_def grown(4) [symmetric] using bnd(1) by (simp add: min_def)
    then have pre: "take (unat offset) (usfs_content dev1 sb1 e1) = take (unat offset) (usfs_data dev sb e) @ gap"
      by (metis gap_def append_take_drop_id take_take min.commute)
    have "usfs_data dev3 sb1 e2 = take (unat offset) (usfs_content dev1 sb1 e1) @ take (unat len) buf"
      using c(3) w(6) sz cap len(2) lc1 by (simp add: usfs_data_def e2_def overwrite_def)
    then have dat: "usfs_data dev3 sb1 e2 = take (unat offset) (usfs_data dev sb e) @ gap @ take (unat len) buf" by (simp only: pre append_assoc)
    have "usfs_file_write g dev sb e n buf offset len w0 = (USFS_OK, len, dev3, sb1, e2)"
      unfolding run grown(1) using w(1) c(1) by simp
    then show thesis by (rule that(1)) (use usfs_updated_trans [OF grown(2) c(2)] dat lg grown(7) in \<open>simp_all add: e2_def\<close>)
  qed
qed

section \<open>Truncating\<close>

text \<open>The run of a file split after \<open>k\<close> blocks.\<close>

lemma usfs_extent_split:
  assumes "unat (ue_first_block e) + unat (ue_block_count e) \<le> 2 ^ 32" and "k < ue_block_count e"
  defines "tail \<equiv> extent (ue_first_block e + k) (ue_block_count e - k)"
  shows "tail \<subseteq> usfs_extent e" and "usfs_extent (e\<lparr>ue_block_count := k\<rparr>) = usfs_extent e - tail"
    and "unat (ue_first_block e + k) + unat (ue_block_count e - k) \<le> 2 ^ 32" and "ue_block_count e - k \<noteq> 0"
proof -
  have k: "unat k < unat (ue_block_count e)" using assms(2) by (simp add: word_less_nat_alt)
  then have u: "unat (ue_first_block e + k) = unat (ue_first_block e) + unat k" "unat (ue_block_count e - k) = unat (ue_block_count e) - unat k"
    using assms(1,2) by (simp_all add: unat_word_ariths unat_sub less_imp_le)
  then show "tail \<subseteq> usfs_extent e" "usfs_extent (e\<lparr>ue_block_count := k\<rparr>) = usfs_extent e - tail"
    "unat (ue_first_block e + k) + unat (ue_block_count e - k) \<le> 2 ^ 32"
    using k assms(1) by (auto simp: tail_def usfs_extent_def extent_def)
  show "ue_block_count e - k \<noteq> 0" using assms(2) by auto
qed

lemma usfs_content_shorter:
  assumes "usfs_alloc_inv dev sb" and "usfs_entry_ok dev sb e" and "unat k \<le> unat (ue_block_count e)"
  shows "usfs_content dev sb (e\<lparr>ue_block_count := k\<rparr>) = take (4096 * unat k) (usfs_content dev sb e)"
proof -
  note d = usfs_entry_okD [OF assms(1,2)]
  have b: "usfs_blocks e = usfs_blocks (e\<lparr>ue_block_count := k\<rparr>) @ map (\<lambda>k. ue_first_block e + of_nat k) [unat k..<unat (ue_block_count e)]"
    using upt_add_eq_append [of 0 "unat k" "unat (ue_block_count e) - unat k"] assms(3) by (simp add: usfs_blocks_def flip: map_append)
  have "set (usfs_blocks (e\<lparr>ue_block_count := k\<rparr>)) \<subseteq> usfs_extent e" using usfs_blocks_extent(1) [OF d(2)] b by auto
  then have l: "length (concat (map (usfs_plain dev sb e) (usfs_blocks (e\<lparr>ue_block_count := k\<rparr>)))) = 4096 * unat k"
    using d(7) by (subst length_concat_4096) auto
  have "usfs_plain dev sb (e\<lparr>ue_block_count := k\<rparr>) = usfs_plain dev sb e" by (simp add: usfs_plain_def fun_eq_iff)
  then show ?thesis unfolding usfs_content_def by (subst b) (simp add: l)
qed

lemma usfs_file_shrink:
  fixes dev :: "'c htl_device"
  assumes ok: "usfs_volume_ok dev sb" and live: "unat n \<in> usfs_live dev sb" and vw: "usfs_volume_writable sb = USFS_OK"
    and e: "e = usfs_entry_at dev sb (unat n)" and ty: "ue_entry_type e = USFS_ENTRY_FILE" and ro: "ue_security_flags e AND USFS_SEC_READONLY = 0"
    and acc: "entry_access_check g e OW_ACCESS_WRITE = USFS_OK" and lt: "s < ue_size_bytes e"
  obtains dev' sb' e' where "usfs_file_truncate g dev sb e n s = (USFS_OK, dev', sb', e')" "usfs_updated dev sb (unat n) e' dev' sb'"
    "ue_size_bytes e' = s" "unat (ue_block_count e') = (unat s + 4095) div 4096" "usfs_data dev' sb' e' = take (unat s) (usfs_data dev sb e)"
    "usfs_same_file e e'"
proof -
  note d = usfs_volume_okD [OF ok] and orr = usfs_others_region [OF ok]
  have eo: "usfs_entry_ok dev sb e" using d(6) [OF live] e by simp
  note x = usfs_entry_okD [OF d(1) eo]
  define k where "k = (if s = 0 then 0 else blocks_needed (ucast s))"
  have us: "unat (ucast s :: u64) = unat s" by (simp add: unat_ucast_up)
  have k: "unat k = (unat s + 4095) div 4096"
  proof (cases "s = 0")
    case False
    have "unat (ucast s :: u64) \<le> 2 ^ 33" using us unsigned_less [of s, where 'a = nat] by simp
    then show ?thesis using False unat_blocks_needed us by (simp add: k_def)
  qed (simp add: k_def)
  have kc: "unat k \<le> unat (ue_block_count e)" and ks: "unat s \<le> 4096 * unat k" using k lt x(3) by (simp_all add: word_less_nat_alt)
  define e1 where "e1 = e\<lparr>ue_block_count := k\<rparr>"
  obtain dev1 sb1 where r: "(if k < ue_block_count e then
        case usfs_block_free dev sb (ue_first_block e + k) (ue_block_count e - k) of (res, dev, sb) \<Rightarrow>
          (res, dev, sb, if res \<noteq> USFS_OK then e else e\<lparr>ue_block_count := k\<rparr>)
      else (USFS_OK, dev, sb, e)) = (USFS_OK, dev1, sb1, e1)" "usfs_alloc_inv dev1 sb1" "usfs_kept dev sb dev1 sb1"
    "usfs_allocated dev1 sb = usfs_allocated dev sb - (usfs_extent e - usfs_extent e1)" "usfs_extent e1 \<subseteq> usfs_extent e"
  proof (cases "k < ue_block_count e")
    case True
    note sp = usfs_extent_split [OF x(2) True]
    have "extent (ue_first_block e + k) (ue_block_count e - k) \<subseteq> usfs_allocated dev sb" using sp(1) x(1) by blast
    then obtain dev1 sb1 where f: "usfs_block_free dev sb (ue_first_block e + k) (ue_block_count e - k) = (USFS_OK, dev1, sb1)"
      "usfs_alloc_inv dev1 sb1" "usfs_kept dev sb dev1 sb1"
      "usfs_allocated dev1 sb1 = usfs_allocated dev sb - extent (ue_first_block e + k) (ue_block_count e - k)"
      using usfs_block_free_ok [OF d(1) vw sp(4) _ sp(3)] by auto
    have t: "extent (ue_first_block e + k) (ue_block_count e - k) = usfs_extent e - usfs_extent e1" using sp(1,2) by (auto simp: e1_def)
    show ?thesis
      using True f(1-3) f(4) [unfolded usfs_layout_cong(2) [OF usfs_kept_layout(1) [OF f(3)]] t] sp(2)
      by (intro that [of dev1 sb1]) (auto simp: e1_def)
  next
    case False
    then have "k = ue_block_count e" using kc by (simp add: word_le_nat_alt word_unat_eq_iff word_less_nat_alt)
    then have "e1 = e" by (cases e) (simp add: e1_def)
    then show ?thesis using False d(1) by (intro that [of dev sb]) (simp_all add: usfs_kept_def)
  qed
  note kd = usfs_keptD [OF r(3)] and s1 = usfs_kept_same_sb [OF r(3)]
  let ?e2 = "e1\<lparr>ue_size_bytes := s\<rparr>"
  have "unat n < unat (usb_total_entries sb)" "\<not> usfs_slot_free e" using live by (simp_all add: usfs_live_def e)
  then have wf: "usfs_entry_wf ?e2" "\<not> usfs_slot_free ?e2" using d(2,3) by (simp_all add: usfs_slot_free_def e e1_def)
  have od: "usfs_extent ?e2 \<inter> usfs_others dev sb (unat n) = {}" using d(7) [OF live, folded e] r(5) by auto
  have oth: "usfs_others dev sb (unat n) \<subseteq> usfs_allocated dev1 sb" using d(8) r(4) d(7) [OF live, folded e] by blast
  have eo2: "usfs_entry_ok dev1 sb ?e2"
    using ks kc x(1,2) r(4,5) by (auto simp: usfs_entry_ok_def e1_def usfs_extent_def)
  obtain dev' where w: "usfs_entry_write dev1 sb1 n ?e2 = (USFS_OK, dev', usfs_entry_sealed ?e2)"
    "usfs_updated dev sb (unat n) (usfs_entry_sealed ?e2) dev' sb1" "\<And>x. x \<in> usfs_region sb \<Longrightarrow> blk dev' x = blk dev1 x"
    "usfs_allocated dev' sb = usfs_allocated dev1 sb"
  proof (rule usfs_update_entry [OF ok live vw r(2) s1 kd(5) _ oth _ wf eo2 od])
    show "blk dev1 x = blk dev x" if "x < total_blocks dev" "\<not> usfs_off_table sb x" for x
      using kd(6) [OF that(1)] usfs_off_table_bitmap(1) [OF d(3)] that(2) by blast
    show "blk dev1 x = blk dev x" if "x \<in> usfs_others dev sb (unat n)" for x using kd(6) orr(3,4) [OF that] by blast
  qed blast
  have run: "usfs_file_truncate g dev sb e n s = (USFS_OK, dev', sb1, usfs_entry_sealed ?e2)"
  proof -
    have ns: "(s = ue_size_bytes e) = False" "(ue_size_bytes e < s) = False" using lt by auto
    show ?thesis
      unfolding usfs_file_truncate_def Let_def k_def [symmetric]
      by (simp only: ty vw ro acc ns r(1) w(1) simp_thms if_False if_True prod.case)
  qed
  have "set (usfs_blocks e1) = usfs_extent e1" using usfs_blocks_extent(1) eo2 by (simp add: usfs_entry_ok_def)
  then have "usfs_content dev' sb1 e1 = usfs_content dev sb e1"
    using w(3) kd(6) x(4,5) r(5) usfs_region_outside(2) [OF d(3)] usfs_same_sbD(4-6) [OF s1] by (intro usfs_content_cong(1)) auto
  also have "\<dots> = take (4096 * unat k) (usfs_content dev sb e)" unfolding e1_def by (rule usfs_content_shorter [OF d(1) eo kc])
  finally have dat: "usfs_data dev' sb1 (usfs_entry_sealed ?e2) = take (unat s) (usfs_data dev sb e)"
    using ks lt by (simp add: usfs_data_def min_def word_less_nat_alt)
  show thesis by (rule that [OF run w(2) _ _ dat]) (simp_all add: k e1_def)
qed

text \<open>Lengthening keeps the old bytes; what the new ones hold is what the disk held.\<close>

lemma usfs_file_lengthen_cases:
  fixes dev :: "'c htl_device"
  assumes ok: "usfs_volume_ok dev sb" and live: "unat n \<in> usfs_live dev sb" and vw: "usfs_volume_writable sb = USFS_OK"
    and e: "e = usfs_entry_at dev sb (unat n)" and ty: "ue_entry_type e = USFS_ENTRY_FILE" and ro: "ue_security_flags e AND USFS_SEC_READONLY = 0"
    and acc: "entry_access_check g e OW_ACCESS_WRITE = USFS_OK" and gt: "ue_size_bytes e < s"
  obtains (longer) dev' sb' e' where "usfs_file_truncate g dev sb e n s = (USFS_OK, dev', sb', e')" "usfs_updated dev sb (unat n) e' dev' sb'"
      "ue_size_bytes e' = s" "take (unat (ue_size_bytes e)) (usfs_data dev' sb' e') = usfs_data dev sb e"
      "usfs_same_file e e'"
  | (no_run) "usfs_file_truncate g dev sb e n s = (USFS_ERR_NO_FREE_BLOCKS, dev, sb, e)" "\<forall>r. \<not> usfs_run dev sb r ((unat s + 4095) div 4096)"
proof -
  have us: "unat (ucast s :: u64) = unat s" by (simp add: unat_ucast_up)
  then have "unat (ucast s :: u64) \<le> 2 ^ 33" using unsigned_less [of s, where 'a = nat] by simp
  note nb = unat_blocks_needed [OF this, unfolded us]
  have ns: "(s = ue_size_bytes e) = False" "(ue_size_bytes e < s) = True" using gt by auto
  have run: "usfs_file_truncate g dev sb e n s =
      (case grow_file dev sb e n (blocks_needed (ucast s)) of (res, dev, sb, entry) \<Rightarrow>
        if res \<noteq> USFS_OK then (res, dev, sb, entry)
        else case usfs_entry_write dev sb n (entry\<lparr>ue_size_bytes := s\<rparr>) of (res, dev, entry) \<Rightarrow> (res, dev, sb, entry))"
    unfolding usfs_file_truncate_def by (simp only: ty vw ro acc ns simp_thms if_False if_True)
  show thesis
  proof (cases rule: grow_file_ok [OF ok live vw e, of "blocks_needed (ucast s)", case_names grown no_run])
    case no_run
    then show thesis using run nb by (intro that(2)) simp_all
  next
    case (grown dev1 sb1 e1)
    note u = usfs_updatedD [OF grown(2)]
    have live1: "unat n \<in> usfs_live dev1 sb1" and vw1: "usfs_volume_writable sb1 = USFS_OK" using live u(3,4) vw by simp_all
    have "(unat s + 4095) div 4096 \<le> unat (ue_block_count e1)" using grown(3) nb by (simp add: word_le_nat_alt)
    then have cap: "unat s \<le> 4096 * unat (ue_block_count e1)" by linarith
    define e2 where "e2 = usfs_entry_sealed (e1\<lparr>ue_size_bytes := s\<rparr>)"
    obtain dev3 where c: "usfs_entry_write dev1 sb1 n (e1\<lparr>ue_size_bytes := s\<rparr>) = (USFS_OK, dev3, e2)"
      "usfs_updated dev1 sb1 (unat n) e2 dev3 sb1" "usfs_content dev3 sb1 e2 = usfs_content dev1 sb1 e1"
      unfolding e2_def by (rule usfs_commit_size [OF u(1) live1 vw1 u(5) [symmetric] usfs_volume_okD(1) [OF u(1)], of s]) (use cap in simp_all)
    have "unat (ue_size_bytes e) \<le> 4096 * unat (ue_block_count e)"
      using usfs_entry_okD(3) [OF usfs_volume_okD(1,6) [OF ok]] live e by blast
    then have "take (unat (ue_size_bytes e)) (usfs_content dev1 sb1 e1) = usfs_data dev sb e"
      unfolding usfs_data_def grown(4) [symmetric] by (simp add: min_def)
    then have dat: "take (unat (ue_size_bytes e)) (usfs_data dev3 sb1 e2) = usfs_data dev sb e"
      using c(3) gt by (simp add: usfs_data_def e2_def min_def word_less_nat_alt)
    have "usfs_file_truncate g dev sb e n s = (USFS_OK, dev3, sb1, e2)" unfolding run grown(1) using c(1) by simp
    then show thesis by (rule that(1)) (use usfs_updated_trans [OF grown(2) c(2)] dat grown(7) in \<open>simp_all add: e2_def\<close>)
  qed
qed

text \<open>An operation on one file leaves the data of every other file alone.\<close>

lemma usfs_updated_others:
  assumes ok: "usfs_volume_ok dev sb" and u: "usfs_updated dev sb i e dev' sb'" and j: "j \<in> usfs_live dev sb" "j \<noteq> i"
  shows "usfs_entry_at dev' sb' j = usfs_entry_at dev sb j"
    and "usfs_data dev' sb' (usfs_entry_at dev' sb' j) = usfs_data dev sb (usfs_entry_at dev sb j)"
proof -
  note d = usfs_volume_okD [OF ok] and ud = usfs_updatedD [OF u]
  show at: "usfs_entry_at dev' sb' j = usfs_entry_at dev sb j" using ud(8) j by (simp add: usfs_live_def)
  have "set (usfs_blocks (usfs_entry_at dev sb j)) \<subseteq> usfs_others dev sb i"
    using usfs_blocks_extent(1) d(6) [OF j(1)] j by (auto simp: usfs_others_def usfs_entry_ok_def)
  then show "usfs_data dev' sb' (usfs_entry_at dev' sb' j) = usfs_data dev sb (usfs_entry_at dev sb j)"
    unfolding at using ud(9) usfs_same_sbD(4-6) [OF ud(7)] by (intro usfs_content_cong(2)) auto
qed

end
