(* ===== verification/USFS_Format.thy ===== *)
theory USFS_Format
  imports USFS_Sync
begin

text \<open>
  \<^verbatim>\<open>usfs/src/usfs_format.c\<close>: laying out a volume, scrubbing it, and the two operations on its key. The
  superblock under construction is a static of the C file that no other function sees; formatting
  returns the status and the device. The lemmas show that the layout loop ends and covers the data
  region, that a formatted device holds a consistent volume with a root catalog, and what the key
  slots hold after setting and purging a key.
\<close>

unbundle bit_operations_syntax

text \<open>The loop of \<^verbatim>\<open>layout_bitmap_blocks\<close>: the number of bitmap blocks with the start of the data region, or
  0 when the volume is too small. The candidate grows in every round, so the loop ends.\<close>

function layout_loop :: "u32 \<Rightarrow> u32 \<Rightarrow> u32 \<times> u32" where
  "layout_loop nblocks b =
     (if nblocks \<le> 17 + b then (0, 0)
      else
        let data = nblocks - 17 - b;
            needed = (data + 32768 - 1) div 32768
        in if needed > b then layout_loop nblocks needed else (b, 17 + b))"
  by pat_completeness auto
termination
proof (relation "measure (\<lambda>(nblocks, b). 2 ^ 32 - unat b)", simp)
  fix nblocks b data needed :: u32
  assume "b < needed"
  then have "unat b < unat needed" "unat needed < 2 ^ 32"
    using unsigned_less [of needed, where 'a = nat] by (simp_all add: word_less_nat_alt)
  then show "((nblocks, needed), nblocks, b) \<in> measure (\<lambda>(nblocks, b). 2 ^ 32 - unat b)" by simp
qed

definition layout_bitmap_blocks :: "u32 \<Rightarrow> u32 \<times> u32" where
  "layout_bitmap_blocks nblocks = layout_loop nblocks 1"

definition usfs_superblock_zero :: usfs_superblock where
  "usfs_superblock_zero =
     \<lparr>usb_magic = 0, usb_version_major = 0, usb_version_minor = 0, usb_block_size = 0, usb_total_blocks = 0,
      usb_free_blocks = 0, usb_total_entries = 0, usb_used_entries = 0, usb_entry_table_start = 0,
      usb_entry_table_blocks = 0, usb_bitmap_start_block = 0, usb_bitmap_block_count = 0, usb_data_region_start = 0,
      usb_security_flags = 0, usb_state_flags = 0, usb_mount_count = 0, usb_signature = 0, usb_fletcher64_bitmap = 0,
      usb_volume_label = replicate 64 0, usb_key_slot_1 = replicate 256 0, usb_key_slot_2 = replicate 256 0,
      usb_checksum = 0, usb_crypto_nonce = replicate 12 0, usb_reserved = replicate 3432 0\<rparr>"

text \<open>The superblock fields \<^verbatim>\<open>usfs_format_volume\<close> assigns, with the volume label.\<close>

definition usfs_format_fields :: "u32 \<Rightarrow> u32 \<Rightarrow> u32 \<Rightarrow> bytes option \<Rightarrow> nat \<Rightarrow> usfs_superblock" where
  "usfs_format_fields nblocks bitmap_blocks data_region_start label label_len =
     (let sb = usfs_superblock_zero
           \<lparr>usb_magic := USFS_MAGIC, usb_version_major := 1, usb_version_minor := 2, usb_block_size := 0x1000,
            usb_total_blocks := nblocks, usb_entry_table_start := 1, usb_entry_table_blocks := 16,
            usb_total_entries := 16 * 16, usb_used_entries := 0, usb_bitmap_start_block := 17,
            usb_bitmap_block_count := bitmap_blocks, usb_data_region_start := data_region_start,
            usb_free_blocks := nblocks - data_region_start, usb_security_flags := 0, usb_state_flags := 0,
            usb_mount_count := 0, usb_signature := 0, usb_fletcher64_bitmap := 0\<rparr>
      in if label \<noteq> None \<and> label_len > 0 then
           case ow_sutf8_name_copy (Some (usb_volume_label sb)) 64 label label_len of
             (Some d, _) \<Rightarrow> sb\<lparr>usb_volume_label := d\<rparr>
           | (None, _) \<Rightarrow> sb
         else sb)"

fun usfs_format_table_loop :: "'c htl_device \<Rightarrow> usfs_superblock \<Rightarrow> nat list \<Rightarrow> usfs_status \<times> 'c htl_device" where
  "usfs_format_table_loop dev sb [] = (USFS_OK, dev)"
| "usfs_format_table_loop dev sb (i # is) =
     (case htl_write_block dev (usb_entry_table_start sb + of_nat i) (replicate 4096 0) of (hres, dev) \<Rightarrow>
        if hres \<noteq> HTL_OK then (USFS_ERR_IO, dev) else usfs_format_table_loop dev sb is)"

text \<open>The end of \<^verbatim>\<open>usfs_format_volume\<close>, from the creation of the root entry on.\<close>

definition usfs_format_root :: "ow_identity \<Rightarrow> 'c htl_device \<Rightarrow> usfs_superblock \<Rightarrow> usfs_status \<times> 'c htl_device" where
  "usfs_format_root g dev sb =
     (case usfs_entry_alloc g dev sb USFS_ENTRY_CATALOG (Some [0x2F, 0]) 1 0 of
        (Inl res, dev, sb) \<Rightarrow> (res, dev)
      | (Inr root_idx, dev, sb) \<Rightarrow>
          let sb = sb\<lparr>usb_used_entries := 1\<rparr> in
          case usfs_bitmap_compute_fletcher64 dev sb of (fl, dev) \<Rightarrow>
          let sb = sb\<lparr>usb_fletcher64_bitmap := fl\<rparr> in
          case usfs_signature_compute dev sb of (sig, dev) \<Rightarrow>
          case usfs_flush_dirty dev (sb\<lparr>usb_signature := sig\<rparr>) of (res, dev, _) \<Rightarrow> (res, dev))"

definition usfs_format_volume ::
  "ow_identity \<Rightarrow> 'c htl_device \<Rightarrow> u32 \<Rightarrow> bytes option \<Rightarrow> nat \<Rightarrow> usfs_status \<times> 'c htl_device" where
  "usfs_format_volume g dev nblocks label label_len =
     (if nblocks < 19 then (USFS_ERR_INVALID_PARAM, dev)
      else case layout_bitmap_blocks nblocks of (bitmap_blocks, data_region_start) \<Rightarrow>
        if bitmap_blocks = 0 then (USFS_ERR_INVALID_PARAM, dev)
        else
          let sb = usfs_format_fields nblocks bitmap_blocks data_region_start label label_len in
          case htl_get_entropy dev 12 of (hres, nonce, dev) \<Rightarrow>
          let sb = sb\<lparr>usb_crypto_nonce := (if hres \<noteq> HTL_OK then replicate 12 0 else nonce)\<rparr> in
          case usfs_format_table_loop dev sb [0..<unat (usb_entry_table_blocks sb)] of (res, dev) \<Rightarrow>
          if res \<noteq> USFS_OK then (res, dev)
          else case usfs_bitmap_init dev sb of (res, dev) \<Rightarrow>
            if res \<noteq> USFS_OK then (res, dev) else usfs_format_root g dev sb)"

definition usfs_quick_format ::
  "ow_identity \<Rightarrow> 'c htl_device \<Rightarrow> u32 \<Rightarrow> bytes option \<Rightarrow> nat \<Rightarrow> usfs_status \<times> 'c htl_device" where
  "usfs_quick_format g dev nblocks label label_len = usfs_format_volume g dev nblocks label label_len"

fun usfs_full_scrub_loop :: "'c htl_device \<Rightarrow> nat list \<Rightarrow> usfs_status \<times> 'c htl_device" where
  "usfs_full_scrub_loop dev [] = (USFS_OK, dev)"
| "usfs_full_scrub_loop dev (b # bs) =
     (case htl_zero_block dev (of_nat b) of (hres, dev) \<Rightarrow>
        if hres \<noteq> HTL_OK then (usfs_write_error hres, dev) else usfs_full_scrub_loop dev bs)"

definition usfs_full_scrub ::
  "ow_identity \<Rightarrow> 'c htl_device \<Rightarrow> u32 \<Rightarrow> bytes option \<Rightarrow> nat \<Rightarrow> usfs_status \<times> 'c htl_device" where
  "usfs_full_scrub g dev nblocks label label_len =
     (if nblocks < 19 then (USFS_ERR_INVALID_PARAM, dev)
      else case usfs_full_scrub_loop dev [0..<unat nblocks] of (res, dev) \<Rightarrow>
        if res \<noteq> USFS_OK then (res, dev) else usfs_format_volume g dev nblocks label label_len)"

definition usfs_crypto_set_key ::
  "'c htl_device \<Rightarrow> usfs_superblock \<Rightarrow> bytes option \<Rightarrow> nat \<Rightarrow> usfs_status \<times> 'c htl_device \<times> usfs_superblock" where
  "usfs_crypto_set_key dev sb key key_len =
     (case key of
        None \<Rightarrow> (USFS_ERR_INVALID_PARAM, dev, sb)
      | Some key \<Rightarrow>
          if key_len \<noteq> 32 then (USFS_ERR_KEY_INVALID, dev, sb)
          else if usfs_volume_writable sb \<noteq> USFS_OK then (usfs_volume_writable sb, dev, sb)
          else
            let sb = sb\<lparr>usb_key_slot_1 := ow_memset (usb_key_slot_1 sb) 0 0 256\<rparr>;
                sb = sb\<lparr>usb_key_slot_1 := ow_memcpy (usb_key_slot_1 sb) 0 key 0 32\<rparr>;
                sb = sb\<lparr>usb_security_flags := usb_security_flags sb OR USFS_SEC_ENCRYPTED\<rparr>
            in case usfs_superblock_write dev sb of (res, dev, sb) \<Rightarrow>
              if res \<noteq> USFS_OK then (res, dev, sb)
              else case htl_flush_cache dev of (_, dev) \<Rightarrow> (USFS_OK, dev, sb))"

text \<open>One overwriting pass of \<^verbatim>\<open>usfs_crypto_purge\<close>: both slots filled with a byte, written and flushed.\<close>

definition usfs_purge_pass ::
  "'c htl_device \<Rightarrow> usfs_superblock \<Rightarrow> int \<Rightarrow> usfs_status \<times> 'c htl_device \<times> usfs_superblock" where
  "usfs_purge_pass dev sb val =
     (let sb = sb\<lparr>usb_key_slot_1 := ow_memset (usb_key_slot_1 sb) 0 val 256,
                  usb_key_slot_2 := ow_memset (usb_key_slot_2 sb) 0 val 256\<rparr>
      in case usfs_superblock_write dev sb of (res, dev, sb) \<Rightarrow>
        if res \<noteq> USFS_OK then (res, dev, sb)
        else case htl_flush_cache dev of (_, dev) \<Rightarrow> (USFS_OK, dev, sb))"

definition usfs_crypto_purge ::
  "'c htl_device \<Rightarrow> usfs_superblock \<Rightarrow> usfs_status \<times> 'c htl_device \<times> usfs_superblock" where
  "usfs_crypto_purge dev sb =
     (case usfs_purge_pass dev sb 0xFF of (res, dev, sb) \<Rightarrow>
      if res \<noteq> USFS_OK then (res, dev, sb)
      else case usfs_purge_pass dev sb 0x00 of (res, dev, sb) \<Rightarrow>
      if res \<noteq> USFS_OK then (res, dev, sb)
      else case usfs_purge_pass dev sb 0xAA of (res, dev, sb) \<Rightarrow>
      if res \<noteq> USFS_OK then (res, dev, sb)
      else usfs_flush_dirty dev (sb\<lparr>usb_security_flags := usb_security_flags sb AND NOT USFS_SEC_ENCRYPTED\<rparr>))"

declare layout_loop.simps [simp del]

section \<open>The layout\<close>

text \<open>The number of bitmap blocks of a volume of \<open>n\<close> blocks: enough for the \<open>n - 18\<close> blocks that are left
  beside one bitmap block.\<close>

definition usfs_bitmap_need :: "nat \<Rightarrow> nat" where
  "usfs_bitmap_need n = (n - 18 + 32767) div 32768"

lemma usfs_bitmap_need_bounds:
  assumes "19 \<le> n"
  shows "0 < usfs_bitmap_need n" and "17 + usfs_bitmap_need n < n" and "n - 17 - usfs_bitmap_need n \<le> 32768 * usfs_bitmap_need n"
proof -
  let ?m = "usfs_bitmap_need n"
  have le: "32768 * ?m \<le> n - 18 + 32767" and gt: "n - 18 + 32767 < 32768 * ?m + 32768"
    using times_div_less_eq_dividend [of 32768 "n - 18 + 32767"] dividend_less_times_div [of 32768 "n - 18 + 32767"]
    by (simp_all add: usfs_bitmap_need_def)
  show pos: "0 < ?m" using gt assms by linarith
  show "17 + ?m < n" using le pos assms by linarith
  show "n - 17 - ?m \<le> 32768 * ?m" using gt pos by linarith
qed

lemma layout_round:
  fixes n b :: u32
  assumes "unat b < 200000" and "17 + unat b < unat n" and "unat n \<le> 0xFFFF8000"
  shows "\<not> n \<le> 17 + b" and "unat (17 + b) = 17 + unat b"
    and "unat ((n - 17 - b + 32768 - 1) div 32768) = (unat n - 17 - unat b + 32767) div 32768"
proof -
  show s: "unat (17 + b) = 17 + unat b" using assms(1) by (simp add: unat_word_ariths)
  then show "\<not> n \<le> 17 + b" using assms(2) by (simp add: word_le_nat_alt)
  have d: "n - 17 - b = n - (17 + b)" by simp
  have "unat (n - 17 - b) = unat n - 17 - unat b" unfolding d using s assms(2) by (simp add: unat_sub word_le_nat_alt)
  moreover have "n - 17 - b + 32768 - 1 = n - 17 - b + 32767" by simp
  ultimately have "unat (n - 17 - b + 32768 - 1) = unat n - 17 - unat b + 32767"
    using assms(3) by (simp only: unat_word_ariths) simp
  then show "unat ((n - 17 - b + 32768 - 1) div 32768) = (unat n - 17 - unat b + 32767) div 32768"
    by (simp only: unat_div) simp
qed

text \<open>The loop ends after at most two rounds with that number, whenever the sum in 32 bits cannot wrap.\<close>

lemma layout_bitmap_blocks_eq:
  assumes n: "19 \<le> unat n" "unat n \<le> 0xFFFF8000"
  shows "unat (fst (layout_bitmap_blocks n)) = usfs_bitmap_need (unat n)"
    and "unat (snd (layout_bitmap_blocks n)) = 17 + usfs_bitmap_need (unat n)"
proof -
  let ?m = "usfs_bitmap_need (unat n)"
  note m = usfs_bitmap_need_bounds [OF n(1)]
  have m2: "?m < 200000" using n(2) by (simp add: usfs_bitmap_need_def div_less_iff_less_mult)
  define b where "b = (n - 17 - 1 + 32768 - 1) div 32768"
  have r1: "\<not> n \<le> 17 + 1" "unat (17 + 1 :: u32) = 17 + 1" and b: "unat b = ?m"
    using layout_round [of 1 n] n by (simp_all add: b_def usfs_bitmap_need_def)
  have step: "layout_loop n 1 = (if b > 1 then layout_loop n b else (1, 17 + 1))"
    using r1(1) unfolding b_def by (subst layout_loop.simps) (simp add: Let_def)
  have "unat (fst (layout_loop n 1)) = ?m \<and> unat (snd (layout_loop n 1)) = 17 + ?m"
  proof (cases "b > 1")
    case False
    then have "?m = 1" using b m(1) by (simp add: word_less_nat_alt)
    then show ?thesis unfolding step using False by simp
  next
    case True
    have r: "\<not> n \<le> 17 + b" "unat (17 + b) = 17 + unat b" "unat ((n - 17 - b + 32768 - 1) div 32768) = (unat n - 17 - unat b + 32767) div 32768"
      using layout_round [of b n] b m2 m(2) n(2) by simp_all
    have "(unat n - 17 - ?m + 32767) div 32768 < Suc ?m" using m(3) by (intro less_mult_imp_div_less) simp
    then have "(unat n - 17 - ?m + 32767) div 32768 \<le> ?m" by simp
    then have "\<not> (n - 17 - b + 32768 - 1) div 32768 > b" using r(3) b by (simp add: word_less_nat_alt)
    then have "layout_loop n b = (b, 17 + b)" using r(1) by (subst layout_loop.simps) (simp add: Let_def)
    then show ?thesis unfolding step using True b r(2) by simp
  qed
  then show "unat (fst (layout_bitmap_blocks n)) = ?m" "unat (snd (layout_bitmap_blocks n)) = 17 + ?m"
    by (simp_all add: layout_bitmap_blocks_def)
qed

lemma usfs_format_fields_simps:
  "usb_total_blocks (usfs_format_fields n b ds l k) = n" "usb_entry_table_start (usfs_format_fields n b ds l k) = 1"
  "usb_entry_table_blocks (usfs_format_fields n b ds l k) = 16" "usb_total_entries (usfs_format_fields n b ds l k) = 256"
  "usb_used_entries (usfs_format_fields n b ds l k) = 0" "usb_bitmap_start_block (usfs_format_fields n b ds l k) = 17"
  "usb_bitmap_block_count (usfs_format_fields n b ds l k) = b" "usb_data_region_start (usfs_format_fields n b ds l k) = ds"
  "usb_free_blocks (usfs_format_fields n b ds l k) = n - ds" "usb_security_flags (usfs_format_fields n b ds l k) = 0"
  "usb_state_flags (usfs_format_fields n b ds l k) = 0" "usb_magic (usfs_format_fields n b ds l k) = USFS_MAGIC"
  "usb_block_size (usfs_format_fields n b ds l k) = 0x1000"
  by (simp_all add: usfs_format_fields_def Let_def split: prod.split option.split)

lemma usfs_format_fields_wf:
  assumes "name_arg_ok l k" and "length nonce = 12"
  shows "usfs_superblock_wf (usfs_format_fields n b ds l k\<lparr>usb_crypto_nonce := nonce\<rparr>)"
  using assms
  by (auto simp: usfs_superblock_wf_def usfs_format_fields_def usfs_superblock_zero_def Let_def ow_sutf8_name_copy_def
      name_arg_ok_def ow_memcpy_eq split: prod.split option.splits)

lemma usfs_format_geometry:
  assumes n: "19 \<le> unat n" "unat n \<le> 0xFFFF8000" "unat n \<le> unat (total_blocks dev)"
    and sb: "sb = usfs_format_fields n (fst (layout_bitmap_blocks n)) (snd (layout_bitmap_blocks n)) l k\<lparr>usb_crypto_nonce := nonce\<rparr>"
  shows "usfs_geometry dev sb" and "unat (usb_free_blocks sb) = usfs_data_blocks sb" and "usb_bitmap_block_count sb \<noteq> 0"
    and "usfs_data_blocks sb = unat n - 17 - usfs_bitmap_need (unat n)"
proof -
  note m = usfs_bitmap_need_bounds [OF n(1)] and l = layout_bitmap_blocks_eq [OF n(1,2)]
  have f: "usb_total_blocks sb = n" "usb_entry_table_start sb = 1" "usb_entry_table_blocks sb = 16" "usb_total_entries sb = 256"
    "usb_bitmap_start_block sb = 17" "unat (usb_bitmap_block_count sb) = usfs_bitmap_need (unat n)"
    "unat (usb_data_region_start sb) = 17 + usfs_bitmap_need (unat n)" "usb_free_blocks sb = n - usb_data_region_start sb"
    by (simp_all add: sb usfs_format_fields_simps l)
  show d: "usfs_data_blocks sb = unat n - 17 - usfs_bitmap_need (unat n)" by (simp add: usfs_data_blocks_def f)
  show "usfs_geometry dev sb" unfolding usfs_geometry_def d using f m n(3) by simp
  show "usb_bitmap_block_count sb \<noteq> 0" using f(6) m(1) by auto
  show "unat (usb_free_blocks sb) = usfs_data_blocks sb" unfolding f(8) d using f(7) m(2) by (simp add: unat_sub word_le_nat_alt)
qed

section \<open>A formatted device\<close>

lemma usfs_format_table_loop_ok:
  assumes "htl_reliable dev" and "\<forall>b\<in>set is. usb_entry_table_start sb + of_nat b < total_blocks dev"
  shows "\<exists>dev'. usfs_format_table_loop dev sb is = (USFS_OK, dev') \<and> htl_reliable dev' \<and> same_device dev dev' \<and>
    (\<forall>x. x < total_blocks dev \<longrightarrow> blk dev' x =
       (if x \<in> (\<lambda>b. usb_entry_table_start sb + of_nat b) ` set is then replicate 4096 0 else blk dev x))"
  using assms
proof (induction "is" arbitrary: dev)
  case (Cons i "is")
  let ?d = "blk_write dev (usb_entry_table_start sb + of_nat i) (replicate 4096 0)"
  obtain dev' where IH: "usfs_format_table_loop ?d sb is = (USFS_OK, dev')" "htl_reliable dev'" "same_device ?d dev'"
    "\<forall>x. x < total_blocks dev \<longrightarrow> blk dev' x =
       (if x \<in> (\<lambda>b. usb_entry_table_start sb + of_nat b) ` set is then replicate 4096 0 else blk ?d x)"
    using Cons.IH [of ?d] Cons.prems by (auto simp: dev_simps)
  have "usfs_format_table_loop dev sb (i # is) = (USFS_OK, dev')"
    using Cons.prems IH(1) by (simp add: dev_simps)
  moreover have "same_device dev dev'" using same_trans [OF same_write IH(3)] .
  ultimately show ?case using IH(2,4) Cons.prems by (auto simp: dev_simps)
qed simp

text \<open>After the table and the bitmap have been zeroed the volume is consistent and empty.\<close>

lemma usfs_format_empty:
  fixes dev :: "'c htl_device"
  assumes dev: "htl_reliable dev" and geo: "usfs_geometry dev sb" and bc: "usb_bitmap_block_count sb \<noteq> 0"
    and fb: "unat (usb_free_blocks sb) = usfs_data_blocks sb" and ue: "usb_used_entries sb = 0"
  obtains dev1 dev2 where "usfs_format_table_loop dev sb [0..<unat (usb_entry_table_blocks sb)] = (USFS_OK, dev1)"
    "usfs_bitmap_init dev1 sb = (USFS_OK, dev2)" "usfs_volume_ok dev2 sb" "usfs_allocated dev2 sb = {}" "usfs_live dev2 sb = {}"
    "same_device dev dev2" "kept_or_zero (usfs_region sb) dev dev2"
proof -
  obtain dev1 where t: "usfs_format_table_loop dev sb [0..<unat (usb_entry_table_blocks sb)] = (USFS_OK, dev1)" "htl_reliable dev1"
    "same_device dev dev1" "\<forall>x. x < total_blocks dev \<longrightarrow> blk dev1 x =
       (if x \<in> (\<lambda>b. usb_entry_table_start sb + of_nat b) ` {0..<unat (usb_entry_table_blocks sb)} then replicate 4096 0 else blk dev x)"
    using usfs_format_table_loop_ok [OF dev, of "[0..<unat (usb_entry_table_blocks sb)]" sb] usfs_table_block(1) [OF geo] by auto
  have tb: "total_blocks dev1 = total_blocks dev" using same_deviceD [OF t(3)] by simp
  have geo1: "usfs_geometry dev1 sb" using geo usfs_geometry_dev [OF tb] by simp
  obtain dev2 where b: "usfs_bitmap_init dev1 sb = (USFS_OK, dev2)" "htl_reliable dev2" "same_device dev1 dev2"
    "\<And>x. x < total_blocks dev1 \<Longrightarrow> usfs_outside sb x \<Longrightarrow> blk dev2 x = blk dev1 x"
    "usfs_free_set dev2 sb = {..<usfs_data_blocks sb}" "usfs_allocated dev2 sb = {}"
    using usfs_bitmap_init_ok [OF t(2) geo1 bc] by metis
  have tb2: "total_blocks dev2 = total_blocks dev1" using same_deviceD [OF b(3)] by simp
  have geo2: "usfs_geometry dev2 sb" using geo1 usfs_geometry_dev [OF tb2] by simp
  have inv: "usfs_alloc_inv dev2 sb" using b(2,5) geo2 fb by (simp add: usfs_alloc_inv_def)
  have zero: "ue_entry_type (usfs_entry_at dev2 sb i) = 0" if i: "i < unat (usb_total_entries sb)" for i
  proof -
    have k: "i div 16 < unat (usb_entry_table_blocks sb)"
      using usfs_table(2) [OF geo i] by (simp add: less_mult_imp_div_less mult.commute)
    let ?b = "usb_entry_table_start sb + of_nat (i div 16)"
    note x = uer.table_block [OF usfs_table(1) usfs_table(2), OF geo geo i]
    have "\<not> usfs_off_table sb ?b" using x(1) k by (simp add: usfs_off_table_def)
    then have "usfs_outside sb ?b" using usfs_off_table_bitmap(1) [OF geo] by blast
    then have z: "blk dev2 ?b = replicate 4096 0" using b(4) t(4) x(2) k tb by auto
    have "i mod 16 * 256 + 256 \<le> 4096" using mod_less_divisor [of 16 i] by linarith
    then have "window (i mod 16 * 256) 256 (replicate 4096 (0 :: u8)) = replicate 256 0" by (simp add: window_def min_def)
    then show ?thesis
      by (simp add: usfs_entry_at_def uer.table_get_def uer.slot_get_def z usfs_entry_of_bytes_def)
  qed
  then have live: "usfs_live dev2 sb = {}" by (auto simp: usfs_live_def usfs_slot_free_def)
  have "usfs_volume_ok dev2 sb" using inv zero ue by (simp add: usfs_volume_ok_def live)
  moreover have "kept_or_zero (usfs_region sb) dev dev2"
    using usfs_region_outside [OF geo] b(4) t(4) tb by (auto simp: kept_or_zero_def)
  ultimately show thesis using that [OF t(1) b(1)] b(6) live same_trans [OF t(3) b(3)] by simp
qed

text \<open>What a formatted device holds: a clean, consistent volume whose only entry is the root catalog, with
  one block of zeros.\<close>

definition usfs_fresh_volume :: "'c htl_device \<Rightarrow> bool" where
  "usfs_fresh_volume dev \<longleftrightarrow>
     (let sb = usfs_disk_sb dev; root = usfs_entry_at dev sb 0 in
      usfs_disk dev \<and> usfs_superblock_wf sb \<and> usfs_superblock_validate sb \<and> usfs_volume_ok dev sb \<and>
      usfs_live dev sb = {0} \<and> \<not> usfs_is_dirty sb \<and> usfs_volume_writable sb = USFS_OK \<and> usb_security_flags sb = 0 \<and>
      usb_total_entries sb = 256 \<and> usb_signature sb = usfs_table_crc dev sb \<and>
      ue_entry_type root = USFS_ENTRY_CATALOG \<and> usfs_name root = [0x2F] \<and> ue_parent_entry root = 0 \<and>
      ue_permissions root = USFS_MODE_DEFAULT_DIR \<and>
      usfs_extent root = {usb_data_region_start sb} \<and> usfs_allocated dev sb = {usb_data_region_start sb} \<and>
      (\<forall>b \<in> usfs_extent root. blk dev b = replicate 4096 0))"

lemma usfs_created_root:
  fixes dev :: "'c htl_device"
  assumes ok: "usfs_volume_ok dev sb" and e: "usfs_allocated dev sb = {}" "usfs_live dev sb = {}" "usb_used_entries sb = 0" "usb_total_entries sb = 256"
    and st: "usb_state_flags sb = 0" "usb_security_flags sb = 0"
  obtains dev' sb' root where "usfs_entry_alloc g dev sb USFS_ENTRY_CATALOG (Some [0x2F, 0]) 1 0 = (Inr 0, dev', sb')"
    "usfs_volume_ok dev' sb'" "usfs_sb_counters sb sb'" "usb_used_entries sb' = 1" "same_device dev dev'" "usfs_live dev' sb' = {0}"
    "usfs_entry_at dev' sb' 0 = root" "ue_entry_type root = USFS_ENTRY_CATALOG" "usfs_name root = [0x2F]" "ue_parent_entry root = 0"
    "ue_permissions root = USFS_MODE_DEFAULT_DIR" "usfs_extent root = usfs_allocated dev' sb'"
    "usfs_extent root = {usb_data_region_start sb}" "\<And>b. b \<in> usfs_extent root \<Longrightarrow> blk dev' b = replicate 4096 0"
    "kept_or_zero (usfs_region sb) dev dev'"
proof -
  have vw: "usfs_volume_writable sb = USFS_OK" using st by (simp add: usfs_volume_writable_def)
  have po: "usfs_parent_ok g dev sb 0" using e(3) by (simp add: usfs_parent_ok_def)
  have val: "ow_sutf8_validate (Some [0x2F, 0]) 1" by code_simp
  have geo: "usfs_geometry dev sb" by (rule usfs_volume_okD(3) [OF ok])
  show thesis
  proof (cases rule: usfs_entry_alloc_cases [where t = USFS_ENTRY_CATALOG and g = g and k = 1 and nm = "[0x2F, 0]" and p = 0, OF ok vw _ _ _ _ val po,
        case_names t k1 k2 k3 created full no_block])
    case full
    then have "(0 :: nat) \<in> usfs_live dev sb" by (simp add: e(4))
    then show thesis using e(2) by simp
  next
    case no_block
    then have "usfs_region sb = {}" using e(1) by simp
    moreover have "usb_data_region_start sb \<in> usfs_region sb"
      using geo by (simp add: usfs_region_def usfs_geometry_def word_less_nat_alt)
    ultimately show thesis by simp
  next
    case (created i e0 first dev' sb')
    define f where "f = usfs_entry_fresh g sb USFS_ENTRY_CATALOG (usfs_mode_for USFS_ENTRY_CATALOG) (Some [0x2F, 0]) 1 0 (of_nat i)"
    have e0_def: "e0 = f\<lparr>ue_first_block := first, ue_block_count := 1\<rparr>" using created(3) by (simp add: f_def Let_def)
    have c: "usfs_created dev sb i e0 dev' sb'" by (rule created(2))
    have ct: "usfs_sb_counters sb sb'" and vok: "usfs_volume_ok dev' sb'" using c by (simp_all add: usfs_created_def)
    note lay = usfs_layout_cong [OF usfs_sb_countersD(1) [OF ct]]
    have i0: "i = 0"
    proof (rule ccontr)
      assume "i \<noteq> 0"
      then have "0 \<in> usfs_live dev sb" using c by (simp add: usfs_created_def)
      then show False using e(2) by simp
    qed
    have lv: "usfs_live dev' sb' = {0}" using c e(2) i0 unfolding lay by (simp add: usfs_created_def)
    have at: "usfs_entry_at dev' sb' 0 = usfs_entry_sealed e0" using c i0 unfolding lay by (simp add: usfs_created_def)
    have "unat (usb_used_entries sb') = 1" using usfs_volume_okD(4) [OF vok] lv by simp
    then have used: "usb_used_entries sb' = 1" by (simp add: word_unat_eq_iff)
    note fp = usfs_entry_fresh_props [OF _ _ _ f_def]
    have nm: "usfs_name f = [0x2F]" using fp(7,8) by (simp add: usfs_name_def)
    have "usfs_entry_alloc g dev sb USFS_ENTRY_CATALOG (Some [0x2F, 0]) 1 0 = (Inr 0, dev', sb')" using created(1) i0 by simp
    moreover have "usfs_extent (usfs_entry_sealed e0) = usfs_allocated dev' sb'" using c e(1) unfolding lay by (simp add: usfs_created_def)
    moreover have "usfs_extent (usfs_entry_sealed e0) = {usb_data_region_start sb}"
    proof -
      have x: "usfs_extent e0 = {first}" by (simp add: e0_def usfs_extent_def extent_one_word)
      have "usfs_allocated dev' sb = usfs_extent e0" using c e(1) by (simp add: usfs_created_def)
      then have "first \<in> usfs_region sb" using x by (auto simp: usfs_allocated_def)
      then have "usb_data_region_start sb \<le> first" by (simp add: usfs_region_def)
      moreover have "usb_data_region_start sb \<in> usfs_region sb" using geo by (simp add: usfs_region_def usfs_geometry_def word_less_nat_alt)
      then have "\<not> usb_data_region_start sb < first" using c x e(1) by (auto simp: usfs_created_def)
      ultimately show ?thesis using x by simp
    qed
    moreover have "same_device dev dev'" "\<And>b. b \<in> usfs_extent (usfs_entry_sealed e0) \<Longrightarrow> blk dev' b = replicate 4096 0"
      using c by (simp_all add: usfs_created_def)
    moreover have "kept_or_zero (usfs_region sb) dev dev'" using c by (auto simp: kept_or_zero_def usfs_created_def)
    ultimately show thesis
      using vok ct used lv at fp(2,6,9) nm
      by (intro that [of dev' sb' "usfs_entry_sealed e0"]) (simp_all add: e0_def usfs_name_def usfs_mode_for_def)
  qed simp_all
qed

lemma usfs_format_root_ok:
  fixes dev :: "'c htl_device"
  assumes ok: "usfs_volume_ok dev sb" and e: "usfs_allocated dev sb = {}" "usfs_live dev sb = {}" "usb_used_entries sb = 0" "usb_total_entries sb = 256"
    and st: "usb_state_flags sb = 0" "usb_security_flags sb = 0" and wf: "usfs_superblock_wf sb"
    and id: "usb_magic sb = USFS_MAGIC" "usb_block_size sb = 0x1000"
  obtains dev' where "usfs_format_root g dev sb = (USFS_OK, dev')" "usfs_fresh_volume dev'" "same_device dev dev'"
    "usfs_layout (usfs_disk_sb dev') = usfs_layout sb" "kept_or_zero (usfs_region sb) dev dev'"
proof -
  obtain dev1 sb1 root where a: "usfs_entry_alloc g dev sb USFS_ENTRY_CATALOG (Some [0x2F, 0]) 1 0 = (Inr 0, dev1, sb1)"
    "usfs_volume_ok dev1 sb1" "usfs_sb_counters sb sb1" "usb_used_entries sb1 = 1" "same_device dev dev1" "usfs_live dev1 sb1 = {0}"
    "usfs_entry_at dev1 sb1 0 = root" "ue_entry_type root = USFS_ENTRY_CATALOG" "usfs_name root = [0x2F]" "ue_parent_entry root = 0"
    "ue_permissions root = USFS_MODE_DEFAULT_DIR" "usfs_extent root = usfs_allocated dev1 sb1"
    "usfs_extent root = {usb_data_region_start sb}" "\<And>b. b \<in> usfs_extent root \<Longrightarrow> blk dev1 b = replicate 4096 0"
    "kept_or_zero (usfs_region sb) dev dev1"
    by (rule usfs_created_root [OF ok e st]) blast
  note d = usfs_volume_okD [OF a(2)] and ct = usfs_sb_countersD [OF a(3)]
  define fl where "fl = ow_fletcher64 (usfs_bitmap_bytes dev1 sb1) (4096 * unat (usb_bitmap_block_count sb1))"
  define s where "s = sb1\<lparr>usb_fletcher64_bitmap := fl, usb_signature := usfs_table_crc dev1 sb1\<rparr>"
  have u: "sb1\<lparr>usb_used_entries := 1\<rparr> = sb1" using a(4) by (cases sb1) simp
  let ?f = "sb1\<lparr>usb_fletcher64_bitmap := fl\<rparr>"
  have gf: "usfs_geometry dev1 ?f" using d(3) usfs_layout_cong(1) [of ?f sb1 dev1] by simp
  have sig: "usfs_signature_compute dev1 ?f = (usfs_table_crc dev1 sb1, dev1)"
    using usfs_signature_compute_eq [OF d(2) gf] by (simp add: usfs_table_crc_def)
  have wfs: "usfs_superblock_wf s" using wf ct(7) by (simp add: s_def)
  have gs: "usfs_geometry dev1 s" using d(3) usfs_layout_cong(1) [of s sb1 dev1] by (simp add: s_def)
  have bb: "usfs_bitmap_bytes dev1 s = usfs_bitmap_bytes dev1 sb1" by (rule usfs_layout_cong(12)) (simp add: s_def)
  define s2 where "s2 = usfs_cleaned (s\<lparr>usb_fletcher64_bitmap :=
      ow_fletcher64 (usfs_bitmap_bytes dev1 s) (4096 * unat (usb_bitmap_block_count s))\<rparr>)"
  define dev2 where "dev2 = htl_flushed (usfs_put_sb dev1 s2)"
  have flush: "usfs_flush_dirty dev1 s = (USFS_OK, dev2, usfs_sealed s2)"
    unfolding usfs_flush_disk [OF d(2) gs wfs] Let_def s2_def dev2_def by (rule refl)
  have run: "usfs_format_root g dev sb = (USFS_OK, dev2)"
    using a(1) usfs_bitmap_fletcher64_eq [OF d(2,3)] sig flush
    by (simp add: usfs_format_root_def u Let_def fl_def [symmetric]) (simp add: s_def)
  have disk: "usfs_disk dev1" by (rule usfs_geometry_disk [OF d(2,3)])
  have wf2: "usfs_superblock_wf s2" using wfs by (simp add: s2_def)
  note p = usfs_put_sb_props [OF disk wf2] and fp = usfs_flushed_props [OF usfs_put_sb_props(2) [OF disk wf2]]
  have dsb: "usfs_disk_sb dev2 = usfs_sealed s2" and disk2: "usfs_disk dev2" using fp(2,3) p(3) by (simp_all add: dev2_def)
  have same: "blk dev2 x = blk dev1 x" if "x < total_blocks dev1" "x \<noteq> 0" for x using fp(4) p(4,6) that by (simp add: dev2_def)
  have rel: "htl_reliable dev2" "total_blocks dev2 = total_blocks dev1" using disk2 p(4) by (simp_all add: usfs_disk_def dev2_def)
  have lay: "usfs_layout (usfs_sealed s2) = usfs_layout sb1" by (simp add: s2_def s_def)
  note c = usfs_layout_cong(2,7,9) [OF lay, where dev = dev2] and v = usfs_volume_ok_same_blocks [OF a(2) rel same] and sz = usfs_same_but_0 [OF d(3) same]
  have vok: "usfs_volume_ok dev2 (usfs_sealed s2)"
    using v(1) by (subst usfs_volume_ok_layout [OF lay]) (simp_all add: s2_def s_def)
  have at: "usfs_entry_at dev2 sb1 0 = root"
    using sz(1) [of 0] a(7) e(4) usfs_layout_cong(13) [OF ct(1)] by simp
  have crc: "usfs_table_crc dev2 (usfs_sealed s2) = usfs_table_crc dev1 sb1"
    using usfs_check_same(2) [OF d(3) rel(2) same] by (simp add: usfs_table_crc_def s2_def s_def)
  have z: "blk dev2 b = replicate 4096 0" if "b \<in> usfs_extent root" for b
    using that a(12,14) sz(5) by (simp add: usfs_allocated_def)
  have flags: "usb_state_flags (usfs_sealed s2) = 0" "usb_security_flags (usfs_sealed s2) = 0" "usb_signature (usfs_sealed s2) = usfs_table_crc dev1 sb1"
    "usb_magic s2 = USFS_MAGIC" "usb_block_size s2 = 0x1000" "usb_total_entries (usfs_sealed s2) = 256"
    "usb_data_region_start (usfs_sealed s2) = usb_data_region_start sb"
    using st id ct(1-9) e(4) usfs_layout_cong(13) [OF ct(1)] by (simp_all add: s2_def s_def) (simp add: usfs_layout_def)
  have "usfs_fresh_volume dev2"
    unfolding usfs_fresh_volume_def Let_def dsb c at crc
    using disk2 wf2 vok flags sz(2) a(6,8-13) v(2) z usfs_sealed_validate [OF wf2]
    by (simp add: usfs_is_dirty_def usfs_volume_writable_def)
  moreover have "same_device dev dev2" using same_trans [OF same_trans [OF a(5) p(5)] same_flush] by (simp add: dev2_def)
  moreover have kz: "kept_or_zero (usfs_region sb) dev1 dev2"
    using sz(5) usfs_layout_cong(4) [OF ct(1)] by (simp add: kept_or_zero_def)
  moreover have "kept_or_zero (usfs_region sb) dev dev2" by (rule kept_or_zero_trans [OF a(15) kz])
  ultimately show thesis using run lay ct(1) by (intro that [of dev2]) (simp_all add: dsb)
qed

text \<open>Formatting a working device succeeds for every size from 19 blocks up to the device (and below the
  bound where the layout arithmetic would wrap).\<close>

lemma usfs_format_volume_ok:
  fixes dev :: "'c htl_device"
  assumes dev: "htl_reliable dev" and n: "19 \<le> unat n" "unat n \<le> 0xFFFF8000" "unat n \<le> unat (total_blocks dev)"
    and label: "name_arg_ok label k"
  obtains dev' where "usfs_format_volume g dev n label k = (USFS_OK, dev')" "usfs_fresh_volume dev'" "same_device dev dev'"
    "usb_total_blocks (usfs_disk_sb dev') = n" "unat (usb_data_region_start (usfs_disk_sb dev')) = 17 + usfs_bitmap_need (unat n)"
    "kept_or_zero (usfs_region (usfs_disk_sb dev')) dev dev'"
proof -
  obtain hres out dev1 where e: "htl_get_entropy dev 12 = (hres, out, dev1)" by (metis surj_pair)
  note r = htl_entropy_reliable [OF dev e]
  have tb: "total_blocks dev1 = total_blocks dev" using same_deviceD [OF r(2)] by simp
  define nonce where "nonce = (if hres \<noteq> HTL_OK then replicate 12 0 else out)"
  define sb where "sb = usfs_format_fields n (fst (layout_bitmap_blocks n)) (snd (layout_bitmap_blocks n)) label k\<lparr>usb_crypto_nonce := nonce\<rparr>"
  have nl: "length nonce = 12" using r(3) by (auto simp: nonce_def)
  have wf: "usfs_superblock_wf sb" unfolding sb_def by (rule usfs_format_fields_wf [OF label nl])
  have n1: "unat n \<le> unat (total_blocks dev1)" using n(3) tb by simp
  note geo = usfs_format_geometry [OF n(1,2) n1 sb_def]
  have f: "usb_used_entries sb = 0" "usb_total_entries sb = 256" "usb_state_flags sb = 0" "usb_security_flags sb = 0"
    "usb_magic sb = USFS_MAGIC" "usb_block_size sb = 0x1000" "usb_total_blocks sb = n" "usb_entry_table_blocks sb = 16"
    "usb_data_region_start sb = snd (layout_bitmap_blocks n)" "usb_bitmap_block_count sb = fst (layout_bitmap_blocks n)"
    by (simp_all add: sb_def usfs_format_fields_simps)
  obtain dev2 dev3 where i: "usfs_format_table_loop dev1 sb [0..<unat (usb_entry_table_blocks sb)] = (USFS_OK, dev2)"
    "usfs_bitmap_init dev2 sb = (USFS_OK, dev3)" "usfs_volume_ok dev3 sb" "usfs_allocated dev3 sb = {}" "usfs_live dev3 sb = {}" "same_device dev1 dev3"
    "kept_or_zero (usfs_region sb) dev1 dev3"
    using usfs_format_empty [OF r(1) geo(1,3,2) f(1)] by blast
  obtain dev4 where o: "usfs_format_root g dev3 sb = (USFS_OK, dev4)" "usfs_fresh_volume dev4" "same_device dev3 dev4"
    "usfs_layout (usfs_disk_sb dev4) = usfs_layout sb" "kept_or_zero (usfs_region sb) dev3 dev4"
    using usfs_format_root_ok [OF i(3,4,5) f(1,2,3,4) wf f(5,6)] by blast
  have "\<not> n < 19" using n(1) by (simp add: word_less_nat_alt)
  then have "usfs_format_volume g dev n label k = (USFS_OK, dev4)"
    unfolding usfs_format_volume_def split_beta Let_def e fst_conv snd_conv nonce_def [symmetric] sb_def [symmetric] i(1,2) o(1)
    using geo(3) f(10) by simp
  moreover have "usb_total_blocks (usfs_disk_sb dev4) = n" "usb_data_region_start (usfs_disk_sb dev4) = snd (layout_bitmap_blocks n)"
    using o(4) f(7,9) by (simp_all add: usfs_layout_def)
  moreover have "kept_or_zero (usfs_region (usfs_disk_sb dev4)) dev dev4"
  proof -
    have "kept_or_zero (usfs_region sb) dev dev1"
      using r(4) usfs_region_outside(1) [OF geo(1)] tb by (auto simp: kept_or_zero_def)
    also note i(7)
    also note o(5)
    finally show ?thesis using o(4) by (simp add: usfs_region_def usfs_layout_def)
  qed
  ultimately show thesis
    using that o(2) same_trans [OF same_trans [OF r(2) i(6)] o(3)] layout_bitmap_blocks_eq(2) [OF n(1,2)] by simp
qed

section \<open>Keys\<close>

lemma usfs_crypto_set_key_ok:
  assumes dev: "usfs_disk dev" and wf: "usfs_superblock_wf sb" and w: "usfs_volume_writable sb = USFS_OK" and key: "32 \<le> length key"
  shows "\<exists>dev' sb'. usfs_crypto_set_key dev sb (Some key) 32 = (USFS_OK, dev', sb') \<and> usfs_disk dev' \<and> usfs_disk_sb dev' = sb' \<and>
    usb_key_slot_1 sb' = take 32 key @ replicate 224 0 \<and> usb_security_flags sb' = usb_security_flags sb OR USFS_SEC_ENCRYPTED \<and>
    (\<forall>x. x < total_blocks dev \<longrightarrow> x \<noteq> 0 \<longrightarrow> blk dev' x = blk dev x)"
proof -
  have l: "length (usb_key_slot_1 sb) = 256" using wf by (simp add: usfs_superblock_wf_def)
  define k where "k = ow_memcpy (ow_memset (usb_key_slot_1 sb) 0 0 256) 0 key 0 32"
  have k: "k = take 32 key @ replicate 224 0"
    using l key by (simp add: k_def ow_memset_eq ow_memcpy_eq overwrite_def window_def)
  define s where "s = sb\<lparr>usb_key_slot_1 := k, usb_security_flags := usb_security_flags sb OR USFS_SEC_ENCRYPTED\<rparr>"
  have wfs: "usfs_superblock_wf s" using wf key by (simp add: s_def usfs_superblock_wf_def k)
  note p = usfs_put_sb_props [OF dev wfs] and fl = usfs_flushed_props [OF usfs_put_sb_props(2) [OF dev wfs]]
  have "usfs_crypto_set_key dev sb (Some key) 32 = (USFS_OK, htl_flushed (usfs_put_sb dev s), usfs_sealed s)"
    using w p(1) fl(1) by (simp add: usfs_crypto_set_key_def Let_def s_def k_def)
  then show ?thesis using p fl k by (auto simp: s_def)
qed

lemma usfs_purge_pass_ok:
  assumes dev: "usfs_disk dev" and wf: "usfs_superblock_wf sb"
    and s_def: "s = sb\<lparr>usb_key_slot_1 := replicate 256 (word_of_int v), usb_key_slot_2 := replicate 256 (word_of_int v)\<rparr>"
  shows "usfs_purge_pass dev sb v = (USFS_OK, htl_flushed (usfs_put_sb dev s), usfs_sealed s)"
    and "usfs_superblock_wf (usfs_sealed s)" and "usfs_disk (htl_flushed (usfs_put_sb dev s))"
    and "x < total_blocks dev \<Longrightarrow> x \<noteq> 0 \<Longrightarrow> blk (htl_flushed (usfs_put_sb dev s)) x = blk dev x"
    and "total_blocks (htl_flushed (usfs_put_sb dev s)) = total_blocks dev"
proof -
  have l: "length (usb_key_slot_1 sb) = 256" "length (usb_key_slot_2 sb) = 256" using wf by (simp_all add: usfs_superblock_wf_def)
  have wfs: "usfs_superblock_wf s" using wf by (simp add: s_def usfs_superblock_wf_def)
  then show "usfs_superblock_wf (usfs_sealed s)" by simp
  note p = usfs_put_sb_props [OF dev wfs] and fl = usfs_flushed_props [OF usfs_put_sb_props(2) [OF dev wfs]]
  show "usfs_purge_pass dev sb v = (USFS_OK, htl_flushed (usfs_put_sb dev s), usfs_sealed s)"
    using p(1) fl(1) l by (simp add: usfs_purge_pass_def Let_def s_def ow_memset_eq overwrite_def)
  show "usfs_disk (htl_flushed (usfs_put_sb dev s))" by (rule fl(2))
  show "x < total_blocks dev \<Longrightarrow> x \<noteq> 0 \<Longrightarrow> blk (htl_flushed (usfs_put_sb dev s)) x = blk dev x"
    using fl(4) p(4,6) by simp
  show "total_blocks (htl_flushed (usfs_put_sb dev s)) = total_blocks dev" using p(4) by (simp add: dev_simps)
qed

text \<open>After a purge neither the superblock in memory nor the device holds any byte of either key.\<close>

lemma usfs_crypto_purge_ok:
  assumes dev: "htl_reliable dev" and geo: "usfs_geometry dev sb" and wf: "usfs_superblock_wf sb"
  shows "\<exists>dev' sb'. usfs_crypto_purge dev sb = (USFS_OK, dev', sb') \<and> usfs_disk dev' \<and> usfs_disk_sb dev' = sb' \<and>
    usb_key_slot_1 sb' = replicate 256 0xAA \<and> usb_key_slot_2 sb' = replicate 256 0xAA \<and>
    usb_security_flags sb' = usb_security_flags sb AND NOT USFS_SEC_ENCRYPTED \<and> usfs_layout sb' = usfs_layout sb \<and>
    (\<forall>x. x < total_blocks dev \<longrightarrow> x \<noteq> 0 \<longrightarrow> blk dev' x = blk dev x)"
proof -
  have disk: "usfs_disk dev" by (rule usfs_geometry_disk [OF dev geo])
  define s1 where "s1 = sb\<lparr>usb_key_slot_1 := replicate 256 (word_of_int 0xFF), usb_key_slot_2 := replicate 256 (word_of_int 0xFF)\<rparr>"
  define d1 where "d1 = htl_flushed (usfs_put_sb dev s1)"
  note p1 = usfs_purge_pass_ok [OF disk wf s1_def, folded d1_def]
  define s2 where "s2 = usfs_sealed s1\<lparr>usb_key_slot_1 := replicate 256 (word_of_int 0), usb_key_slot_2 := replicate 256 (word_of_int 0)\<rparr>"
  define d2 where "d2 = htl_flushed (usfs_put_sb d1 s2)"
  note p2 = usfs_purge_pass_ok [OF p1(3,2) s2_def, folded d2_def]
  define s3 where "s3 = usfs_sealed s2\<lparr>usb_key_slot_1 := replicate 256 (word_of_int 0xAA), usb_key_slot_2 := replicate 256 (word_of_int 0xAA)\<rparr>"
  define d3 where "d3 = htl_flushed (usfs_put_sb d2 s3)"
  note p3 = usfs_purge_pass_ok [OF p2(3,2) s3_def, folded d3_def]
  define s4 where "s4 = usfs_sealed s3\<lparr>usb_security_flags := usb_security_flags (usfs_sealed s3) AND NOT USFS_SEC_ENCRYPTED\<rparr>"
  have wf4: "usfs_superblock_wf s4" using p3(2) by (simp add: s4_def usfs_superblock_wf_def)
  have lay: "usfs_layout s4 = usfs_layout sb" by (simp add: s4_def s3_def s2_def s1_def)
  have tb: "total_blocks d3 = total_blocks dev" using p1(5) p2(5) p3(5) by simp
  have geo3: "usfs_geometry d3 s4" using geo usfs_layout_cong(1) [OF lay, of dev] usfs_geometry_dev [OF tb] by simp
  have rel: "htl_reliable d3" using p3(3) by (simp add: usfs_disk_def)
  define s5 where "s5 = usfs_cleaned (s4\<lparr>usb_fletcher64_bitmap :=
    ow_fletcher64 (usfs_bitmap_bytes d3 s4) (4096 * unat (usb_bitmap_block_count s4))\<rparr>)"
  have wf5: "usfs_superblock_wf s5" using wf4 by (simp add: s5_def)
  note p = usfs_put_sb_props [OF p3(3) wf5] and fl = usfs_flushed_props [OF usfs_put_sb_props(2) [OF p3(3) wf5]]
  have run: "usfs_crypto_purge dev sb = (USFS_OK, htl_flushed (usfs_put_sb d3 s5), usfs_sealed s5)"
    unfolding usfs_crypto_purge_def p1(1) p2(1) p3(1) prod.case s4_def [symmetric]
      usfs_flush_disk [OF rel geo3 wf4] s5_def [symmetric] Let_def by simp
  have same: "blk (htl_flushed (usfs_put_sb d3 s5)) x = blk dev x" if "x < total_blocks dev" "x \<noteq> 0" for x
    using that p1(4,5) p2(4,5) p3(4) fl(4) p(4,6) tb by simp
  have lay5: "usfs_layout (usfs_sealed s5) = usfs_layout sb" using lay by (simp add: s5_def)
  have slots: "usb_key_slot_1 (usfs_sealed s5) = replicate 256 0xAA" "usb_key_slot_2 (usfs_sealed s5) = replicate 256 0xAA"
    "usb_security_flags (usfs_sealed s5) = usb_security_flags sb AND NOT USFS_SEC_ENCRYPTED"
    unfolding s5_def s4_def s3_def by (simp_all, simp add: s2_def s1_def)
  show ?thesis
    using run fl(2,3) p(3) slots lay5 same by (intro exI [of _ "htl_flushed (usfs_put_sb d3 s5)"] exI [of _ "usfs_sealed s5"]) simp
qed

section \<open>Scrubbing\<close>

lemma usfs_full_scrub_loop_ok:
  assumes "htl_reliable dev" and "\<forall>b\<in>set bs. b < unat (total_blocks dev)"
  shows "\<exists>dev'. usfs_full_scrub_loop dev bs = (USFS_OK, dev') \<and> htl_reliable dev' \<and> total_blocks dev' = total_blocks dev \<and>
    (\<forall>x. x < total_blocks dev \<longrightarrow> blk dev' x = (if unat x \<in> set bs then replicate 4096 0 else blk dev x))"
  using assms
proof (induction bs arbitrary: dev)
  case (Cons b bs)
  have "unat (total_blocks dev) < 2 ^ 32" using unsigned_less [where 'a = nat and 'b = 32] by simp
  then have b: "unat (of_nat b :: u32) = b" "(of_nat b :: u32) < total_blocks dev"
    using Cons.prems(2) by (simp_all add: unat_of_nat word_less_nat_alt take_bit_nat_eq_self)
  let ?d = "blk_write dev (of_nat b) (replicate 4096 0)"
  obtain dev' where IH: "usfs_full_scrub_loop ?d bs = (USFS_OK, dev')" "htl_reliable dev'" "total_blocks dev' = total_blocks dev"
    "\<forall>x. x < total_blocks dev \<longrightarrow> blk dev' x = (if unat x \<in> set bs then replicate 4096 0 else blk ?d x)"
    using Cons.IH [of ?d] Cons.prems b(2) by (auto simp: dev_simps)
  have "usfs_full_scrub_loop dev (b # bs) = (USFS_OK, dev')"
    using Cons.prems(1) b(2) IH(1) by (simp add: dev_simps)
  moreover have "(x = of_nat b) = (unat x = b)" for x :: u32 using b(1) by auto
  ultimately show ?case using IH(2-4) Cons.prems(1) b(2) by (auto simp: dev_simps)
qed simp

lemma usfs_full_scrub_eq:
  fixes dev :: "'c htl_device"
  assumes dev: "htl_reliable dev" and n: "19 \<le> unat n" "unat n \<le> unat (total_blocks dev)"
  shows "\<exists>dev0. usfs_full_scrub g dev n label k = usfs_format_volume g dev0 n label k \<and> htl_reliable dev0 \<and>
    total_blocks dev0 = total_blocks dev \<and> (\<forall>x. x < n \<longrightarrow> blk dev0 x = replicate 4096 0)"
proof -
  obtain dev0 where s: "usfs_full_scrub_loop dev [0..<unat n] = (USFS_OK, dev0)" "htl_reliable dev0" "total_blocks dev0 = total_blocks dev"
    "\<forall>x. x < total_blocks dev \<longrightarrow> blk dev0 x = (if unat x \<in> set [0..<unat n] then replicate 4096 0 else blk dev x)"
    using usfs_full_scrub_loop_ok [OF dev, of "[0..<unat n]"] n by auto
  have "\<not> n < 19" using n(1) by (simp add: word_less_nat_alt)
  then have "usfs_full_scrub g dev n label k = usfs_format_volume g dev0 n label k" using s(1) by (simp add: usfs_full_scrub_def)
  moreover have "blk dev0 x = replicate 4096 0" if "x < n" for x
    using s(4) [rule_format, of x] that n by (simp add: word_less_nat_alt)
  ultimately show ?thesis using s(2,3) by blast
qed

lemma usfs_full_scrub_ok:
  fixes dev :: "'c htl_device"
  assumes dev: "htl_reliable dev" and n: "19 \<le> unat n" "unat n \<le> 0xFFFF8000" "unat n \<le> unat (total_blocks dev)" and label: "name_arg_ok label k"
  obtains dev' where "usfs_full_scrub g dev n label k = (USFS_OK, dev')" "usfs_fresh_volume dev'" "usb_total_blocks (usfs_disk_sb dev') = n"
    "\<And>x. x \<in> usfs_region (usfs_disk_sb dev') \<Longrightarrow> blk dev' x = replicate 4096 0"
proof -
  obtain dev0 where z: "usfs_full_scrub g dev n label k = usfs_format_volume g dev0 n label k" "htl_reliable dev0"
    "total_blocks dev0 = total_blocks dev" "\<forall>x. x < n \<longrightarrow> blk dev0 x = replicate 4096 0"
    using usfs_full_scrub_eq [OF dev n(1,3), of g label k] by blast
  have n0: "unat n \<le> unat (total_blocks dev0)" using n(3) z(3) by simp
  obtain dev' where f: "usfs_format_volume g dev0 n label k = (USFS_OK, dev')" "usfs_fresh_volume dev'" "usb_total_blocks (usfs_disk_sb dev') = n"
    "kept_or_zero (usfs_region (usfs_disk_sb dev')) dev0 dev'"
    by (rule usfs_format_volume_ok [OF z(2) n(1,2) n0 label])
  then show thesis using z(1,4) by (intro that [of dev']) (auto simp: kept_or_zero_def usfs_region_def)
qed

end
