(* ===== verification/USFS_Volume.thy ===== *)
theory USFS_Volume
  imports USFS_File USFS_Format
begin

text \<open>
  The properties of a USFS volume as a whole, and the volume on which they are applied: the RAM disk of
  the host tests, formatted, with one file. Each property is stated over the operations of the
  components and rests on their lemmas.
\<close>

unbundle bit_operations_syntax

section \<open>A freshly formatted volume\<close>

lemma usfs_superuser_access [simp]: "entry_access_check superuser e want = USFS_OK" "ue_entry_type e \<noteq> 0 \<Longrightarrow> entry_check_access superuser e want = USFS_OK"
  by (simp_all add: entry_access_check_def entry_check_access_def ow_sec_access_def)

lemma usfs_fresh_facts:
  fixes dev :: "'c htl_device"
  assumes f: "usfs_fresh_volume dev"
  defines "sb \<equiv> usfs_disk_sb dev"
  shows "usfs_volume_ok dev sb" and "usfs_live dev sb = {0}" and "usfs_volume_writable sb = USFS_OK" and "usb_total_entries sb = 256"
    and "usfs_superblock_wf sb" and "usfs_superblock_validate sb" and "usb_magic sb = USFS_MAGIC" and "usb_block_size sb = 0x1000"
    and "usfs_disk dev" and "usb_used_entries sb = 1" and "usfs_parent_ok superuser dev sb 0" and "usfs_allocated dev sb = {usb_data_region_start sb}"
    and "usb_security_flags sb = 0"
proof -
  let ?root = "usfs_entry_at dev sb 0"
  show v: "usfs_volume_ok dev sb" "usfs_live dev sb = {0}" "usfs_volume_writable sb = USFS_OK" "usb_total_entries sb = 256"
    "usfs_superblock_wf sb" "usfs_superblock_validate sb" "usfs_disk dev" "usfs_allocated dev sb = {usb_data_region_start sb}" "usb_security_flags sb = 0"
    using f by (simp_all add: usfs_fresh_volume_def Let_def sb_def)
  then show "usb_magic sb = USFS_MAGIC" "usb_block_size sb = 0x1000" by (simp_all add: usfs_superblock_validate_def split: if_splits)
  have "unat (usb_used_entries sb) = 1" using usfs_volume_okD(4) [OF v(1)] v(2) by simp
  then show "usb_used_entries sb = 1" by (simp add: word_unat_eq_iff)
  have "ue_entry_type ?root \<noteq> 0" using f by (simp add: usfs_fresh_volume_def Let_def sb_def)
  then show "usfs_parent_ok superuser dev sb 0" using v(4) by (simp add: usfs_parent_ok_def)
qed

section \<open>The example volume\<close>

definition usfs_demo_device :: "ramdisk htl_device" where
  "usfs_demo_device = snd (usfs_format_volume superuser usfs_ramdisk_device 256 None 0)"

definition usfs_demo_sb :: usfs_superblock where
  "usfs_demo_sb = usfs_disk_sb usfs_demo_device"

lemma usfs_demo_fresh:
  "usfs_fresh_volume usfs_demo_device" "usb_total_blocks usfs_demo_sb = 256" "unat (usb_data_region_start usfs_demo_sb) = 18"
proof -
  have t: "total_blocks usfs_ramdisk_device = 256" by (simp add: usfs_ramdisk_device_def)
  obtain dev' where d: "usfs_format_volume superuser usfs_ramdisk_device 256 None 0 = (USFS_OK, dev')" "usfs_fresh_volume dev'"
    "usb_total_blocks (usfs_disk_sb dev') = 256" "unat (usb_data_region_start (usfs_disk_sb dev')) = 17 + usfs_bitmap_need (unat (256 :: u32))"
    by (rule usfs_format_volume_ok [OF usfs_ramdisk_reliable, of 256 None 0 superuser]) (simp_all add: t name_arg_ok_def)
  then show "usfs_fresh_volume usfs_demo_device" "usb_total_blocks usfs_demo_sb = 256" "unat (usb_data_region_start usfs_demo_sb) = 18"
    by (simp_all add: usfs_demo_device_def usfs_demo_sb_def usfs_bitmap_need_def)
qed

lemmas usfs_demo_facts = usfs_fresh_facts [OF usfs_demo_fresh(1), folded usfs_demo_sb_def]

lemma usfs_demo_room: "255 \<in> usfs_region usfs_demo_sb" "255 \<notin> usfs_allocated usfs_demo_device usfs_demo_sb"
proof -
  show "255 \<in> usfs_region usfs_demo_sb" using usfs_demo_fresh(2,3) by (simp add: usfs_region_def word_le_nat_alt)
  show "255 \<notin> usfs_allocated usfs_demo_device usfs_demo_sb"
    unfolding usfs_demo_facts(12) using usfs_demo_fresh(3) by (auto dest!: arg_cong [of _ _ unat])
qed

text \<open>The same volume with an empty file \<^verbatim>\<open>a\<close> in the root, entry 1.\<close>

definition usfs_demo_file_device :: "ramdisk htl_device" where
  "usfs_demo_file_device = fst (snd (usfs_entry_alloc superuser usfs_demo_device usfs_demo_sb USFS_ENTRY_FILE (Some [0x61]) 1 0))"

definition usfs_demo_file_sb :: usfs_superblock where
  "usfs_demo_file_sb = snd (snd (usfs_entry_alloc superuser usfs_demo_device usfs_demo_sb USFS_ENTRY_FILE (Some [0x61]) 1 0))"

definition usfs_demo_file :: usfs_entry where
  "usfs_demo_file = usfs_entry_at usfs_demo_file_device usfs_demo_file_sb 1"

text \<open>Creating a file in the root of a volume that holds nothing else.\<close>

lemma usfs_create_first:
  fixes dev :: "'c htl_device"
  assumes v: "usfs_volume_ok dev sb" "usfs_live dev sb = {0}" "usfs_volume_writable sb = USFS_OK" "usb_total_entries sb = 256"
    "usfs_parent_ok superuser dev sb 0" "usfs_allocated dev sb = {usb_data_region_start sb}"
    and k: "0 < k" "k < 128" "k \<le> length nm" "ow_sutf8_validate (Some nm) k"
  obtains dev' sb' where "usfs_entry_alloc superuser dev sb USFS_ENTRY_FILE (Some nm) k 0 = (Inr 1, dev', sb')" "usfs_volume_ok dev' sb'"
    "usfs_sb_counters sb sb'" "usfs_live dev' sb' = {0, 1}" "usfs_allocated dev' sb' = {usb_data_region_start sb}"
    "usfs_entry_at dev' sb' 1 = usfs_entry_sealed (usfs_entry_fresh superuser sb USFS_ENTRY_FILE USFS_MODE_DEFAULT_FILE (Some nm) k 0 1)"
    "same_device dev dev'" "usfs_entry_at dev' sb' 0 = usfs_entry_at dev sb 0"
proof -
  show thesis
  proof (cases rule: usfs_entry_alloc_cases [where t = USFS_ENTRY_FILE and p = 0, OF v(1,3) _ k v(5), case_names t created full no_block])
    case (created i e first dev' sb')
    have e: "e = usfs_entry_fresh superuser sb USFS_ENTRY_FILE USFS_MODE_DEFAULT_FILE (Some nm) k 0 (of_nat i)"
      using created(3) by (simp add: Let_def usfs_mode_for_def)
    note fp = usfs_entry_fresh_props [OF k(1-3) e] and c = created(2)
    have ct: "usfs_sb_counters sb sb'" and vok: "usfs_volume_ok dev' sb'" using c by (simp_all add: usfs_created_def)
    note lay = usfs_layout_cong [OF usfs_sb_countersD(1) [OF ct]]
    have "i \<noteq> 0" and lo: "\<forall>j < i. j = 0" using c unfolding usfs_created_def v(2) by simp_all
    moreover have "\<not> 1 < i" using lo by auto
    ultimately have i: "i = 1" by linarith
    have x: "usfs_extent e = {}" using fp(3) by (simp add: usfs_extent_def)
    show thesis
    proof (rule that)
      show "usfs_entry_alloc superuser dev sb USFS_ENTRY_FILE (Some nm) k 0 = (Inr 1, dev', sb')" using created(1) i by simp
      show "usfs_live dev' sb' = {0, 1}" "usfs_allocated dev' sb' = {usb_data_region_start sb}" "same_device dev dev'"
        "usfs_entry_at dev' sb' 0 = usfs_entry_at dev sb 0"
        using c i x v(2,4,6) unfolding lay by (auto simp: usfs_created_def)
      show "usfs_entry_at dev' sb' 1 = usfs_entry_sealed (usfs_entry_fresh superuser sb USFS_ENTRY_FILE USFS_MODE_DEFAULT_FILE (Some nm) k 0 1)"
        using c i e unfolding lay by (simp add: usfs_created_def)
    qed (rule vok ct)+
  next
    case full
    then have "(1 :: nat) \<in> usfs_live dev sb" by (simp add: v(4))
    then show thesis using v(2) by simp
  qed simp_all
qed

lemma usfs_name_a: "ow_sutf8_validate (Some [0x61]) 1" "sutf8_validate_loop (take 1 [0x61])"
  by code_simp+

lemma usfs_demo_file_facts:
  "usfs_volume_ok usfs_demo_file_device usfs_demo_file_sb" "usfs_live usfs_demo_file_device usfs_demo_file_sb = {0, 1}"
  "usfs_volume_writable usfs_demo_file_sb = USFS_OK" "usfs_layout usfs_demo_file_sb = usfs_layout usfs_demo_sb"
  "ue_entry_type usfs_demo_file = USFS_ENTRY_FILE" "ue_size_bytes usfs_demo_file = 0" "ue_block_count usfs_demo_file = 0"
  "ue_security_flags usfs_demo_file = 0" "ue_parent_entry usfs_demo_file = 0" "usfs_name usfs_demo_file = [0x61]"
  "usfs_allocated usfs_demo_file_device usfs_demo_file_sb = {usb_data_region_start usfs_demo_sb}"
  "usfs_superblock_wf usfs_demo_file_sb" "usb_magic usfs_demo_file_sb = USFS_MAGIC" "usb_block_size usfs_demo_file_sb = 0x1000"
  "usb_total_entries usfs_demo_file_sb = 256" "usfs_name (usfs_entry_at usfs_demo_file_device usfs_demo_file_sb 0) = [0x2F]"
proof -
  obtain dev' sb' where c: "usfs_entry_alloc superuser usfs_demo_device usfs_demo_sb USFS_ENTRY_FILE (Some [0x61]) 1 0 = (Inr 1, dev', sb')"
    "usfs_volume_ok dev' sb'" "usfs_sb_counters usfs_demo_sb sb'" "usfs_live dev' sb' = {0, 1}" "usfs_allocated dev' sb' = {usb_data_region_start usfs_demo_sb}"
    "usfs_entry_at dev' sb' 1 = usfs_entry_sealed (usfs_entry_fresh superuser usfs_demo_sb USFS_ENTRY_FILE USFS_MODE_DEFAULT_FILE (Some [0x61]) 1 0 1)"
    "usfs_entry_at dev' sb' 0 = usfs_entry_at usfs_demo_device usfs_demo_sb 0"
    using usfs_create_first [OF usfs_demo_facts(1-4,11,12), of 1 "[0x61]"] usfs_name_a(1) by (simp, metis)
  note ct = usfs_sb_countersD [OF c(3)]
  have d: "usfs_demo_file_device = dev'" "usfs_demo_file_sb = sb'" unfolding usfs_demo_file_device_def usfs_demo_file_sb_def c(1) by simp_all
  show "usfs_volume_ok usfs_demo_file_device usfs_demo_file_sb" "usfs_live usfs_demo_file_device usfs_demo_file_sb = {0, 1}"
    "usfs_volume_writable usfs_demo_file_sb = USFS_OK" "usfs_layout usfs_demo_file_sb = usfs_layout usfs_demo_sb"
    "usfs_allocated usfs_demo_file_device usfs_demo_file_sb = {usb_data_region_start usfs_demo_sb}"
    "usfs_superblock_wf usfs_demo_file_sb" "usb_magic usfs_demo_file_sb = USFS_MAGIC" "usb_block_size usfs_demo_file_sb = 0x1000"
    "usb_total_entries usfs_demo_file_sb = 256"
    using c(2,4,5) ct usfs_layout_cong(13) [OF ct(1)] usfs_demo_facts(3,4,5,7,8) by (simp_all add: d)
  show "usfs_name (usfs_entry_at usfs_demo_file_device usfs_demo_file_sb 0) = [0x2F]"
    using c(7) usfs_demo_fresh(1) by (simp add: d usfs_fresh_volume_def Let_def usfs_demo_sb_def)
  define e where "e = usfs_entry_fresh superuser usfs_demo_sb USFS_ENTRY_FILE USFS_MODE_DEFAULT_FILE (Some [0x61]) 1 0 1"
  have f: "usfs_demo_file = usfs_entry_sealed e" using c(6) by (simp add: usfs_demo_file_def d e_def)
  note fp = usfs_entry_fresh_props [OF _ _ _ e_def]
  show "ue_entry_type usfs_demo_file = USFS_ENTRY_FILE" "ue_size_bytes usfs_demo_file = 0" "ue_block_count usfs_demo_file = 0"
    "ue_security_flags usfs_demo_file = 0" "ue_parent_entry usfs_demo_file = 0" "usfs_name usfs_demo_file = [0x61]"
    using fp(2,3,5,6,7,8,13) usfs_demo_facts(13) by (simp_all add: f usfs_name_def)
qed

lemma usfs_demo_file_live: "unat (1 :: u32) \<in> usfs_live usfs_demo_file_device usfs_demo_file_sb"
    "usfs_demo_file = usfs_entry_at usfs_demo_file_device usfs_demo_file_sb (unat (1 :: u32))"
  by (simp_all add: usfs_demo_file_facts(2) usfs_demo_file_def)

lemma usfs_demo_file_room: "\<exists>s. usfs_run usfs_demo_file_device usfs_demo_file_sb s 1"
proof -
  have "\<not> usfs_region usfs_demo_file_sb \<subseteq> usfs_allocated usfs_demo_file_device usfs_demo_file_sb"
    using usfs_demo_room usfs_demo_facts(12) usfs_demo_file_facts(11) usfs_layout_cong(4) [OF usfs_demo_file_facts(4)] by auto
  then show ?thesis using usfs_run_one [OF usfs_volume_okD(3) [OF usfs_demo_file_facts(1)]] by simp
qed

section \<open>Formatting\<close>

text \<open>C23: for every volume of at least 19 blocks (and few enough that the sum in 32 bits does not wrap) the loop that
  sizes the bitmap, a fixed-point iteration without a bound, stops with a result that is positive, leaves at least one
  data block, gives every data block a bit, and equals the closed form.\<close>

theorem layout_bitmap_blocks_correct:
  assumes "19 \<le> unat n" and "unat n \<le> 0xFFFF8000"
  shows "\<exists>b ds. layout_bitmap_blocks n = (b, ds) \<and> 0 < unat b \<and> unat ds = 17 + unat b \<and> unat ds < unat n \<and>
    unat n - unat ds \<le> 32768 * unat b \<and> unat b = (unat n - 18 + 32767) div 32768"
proof -
  note l = layout_bitmap_blocks_eq [OF assms] and m = usfs_bitmap_need_bounds [OF assms(1)]
  show ?thesis
    using l m by (intro exI [of _ "fst (layout_bitmap_blocks n)"] exI [of _ "snd (layout_bitmap_blocks n)"]) (simp add: usfs_bitmap_need_def)
qed

theorem layout_bitmap_blocks_correct_witness: "\<exists>b ds. layout_bitmap_blocks 100000 = (b, ds) \<and> unat b = 4 \<and> unat ds = 21"
  using layout_bitmap_blocks_correct [of 100000] by auto

text \<open>C22: formatting any working device that holds the requested number of blocks (at least 19) succeeds and leaves a clean,
  consistent, writable volume whose only entry is the root catalog with the first data block, zeroed; every other data
  block is free and the signature of the entry table is right.\<close>

theorem usfs_format_volume_correct:
  fixes dev :: "'c htl_device"
  assumes "htl_reliable dev" and "19 \<le> unat n" and "unat n \<le> 0xFFFF8000" and "unat n \<le> unat (total_blocks dev)" and "name_arg_ok label k"
  shows "\<exists>dev'. usfs_format_volume g dev n label k = (USFS_OK, dev') \<and> usfs_fresh_volume dev' \<and>
    usb_total_blocks (usfs_disk_sb dev') = n \<and> unat (usb_data_region_start (usfs_disk_sb dev')) = 17 + usfs_bitmap_need (unat n)"
  using usfs_format_volume_ok [OF assms, of g] by metis

theorem usfs_format_volume_correct_witness:
  "\<exists>dev'. usfs_format_volume superuser usfs_ramdisk_device 100 None 0 = (USFS_OK, dev') \<and> usfs_fresh_volume dev' \<and>
    unat (usb_data_region_start (usfs_disk_sb dev')) = 18"
  using usfs_format_volume_correct [OF usfs_ramdisk_reliable, of 100 None 0 superuser]
  by (auto simp: usfs_ramdisk_device_def name_arg_ok_def usfs_bitmap_need_def)

section \<open>Blocks\<close>

text \<open>C21: allocating a run of blocks on a consistent volume returns the lowest run of free blocks of that length, marks
  exactly its blocks and leaves every block outside the bitmap alone; it fails only when there is no such run, and then
  nothing has changed.\<close>

theorem usfs_block_alloc_first_fit:
  fixes dev :: "'c htl_device"
  assumes inv: "usfs_alloc_inv dev sb" and vw: "usfs_volume_writable sb = USFS_OK" and n: "count \<noteq> 0"
  shows "if \<exists>s. usfs_run dev sb s (unat count)
    then \<exists>dev' sb' first. usfs_block_alloc dev sb count = (Inr first, dev', sb') \<and> usfs_alloc_inv dev' sb' \<and>
      unat first = unat (usb_data_region_start sb) + (LEAST s. usfs_run dev sb s (unat count)) \<and>
      extent first count \<subseteq> usfs_region sb - usfs_allocated dev sb \<and>
      usfs_allocated dev' sb' = usfs_allocated dev sb \<union> extent first count \<and>
      (\<forall>x. x < total_blocks dev \<longrightarrow> usfs_outside sb x \<longrightarrow> blk dev' x = blk dev x)
    else usfs_block_alloc dev sb count = (Inl USFS_ERR_NO_FREE_BLOCKS, dev, sb)"
proof -
  have geo: "usfs_geometry dev sb" using inv by (simp add: usfs_alloc_inv_def)
  have pos: "0 < unat count" using n by (simp add: unat_gt_0)
  show ?thesis
  proof (cases rule: usfs_block_alloc_cases [OF inv vw n, case_names found none])
    case (found s dev' sb')
    have least: "(LEAST s. usfs_run dev sb s (unat count)) = s"
      using found(1,2) by (intro Least_equality) (auto simp: not_less [symmetric])
    have "s + unat count \<le> usfs_data_blocks sb" using found(1) by (simp add: usfs_run_def)
    note x = usfs_run_extent(1) [OF geo this pos] and fr = usfs_run_free [OF geo found(1) pos]
    show ?thesis using found(1,3,4,6) x fr usfs_keptD(6) [OF found(5)] by (auto simp: least)
  next
    case none
    then show ?thesis by simp
  qed
qed

theorem usfs_block_alloc_first_fit_witness:
  "\<exists>dev' sb' first. usfs_block_alloc usfs_demo_device usfs_demo_sb 1 = (Inr first, dev', sb') \<and>
    usfs_allocated dev' sb' = usfs_allocated usfs_demo_device usfs_demo_sb \<union> extent first 1"
proof -
  note d = usfs_volume_okD [OF usfs_demo_facts(1)]
  have "\<exists>s. usfs_run usfs_demo_device usfs_demo_sb s (unat (1 :: u32))"
    using usfs_run_one [OF d(3)] usfs_demo_room by auto
  then show ?thesis using usfs_block_alloc_first_fit [OF d(1) usfs_demo_facts(3), of 1] by auto
qed

section \<open>Entries\<close>

text \<open>C11: creating an entry with a valid name under a parent the caller may write takes the lowest free slot of the table,
  fills it with a sealed entry of that name, parent and type (a catalog with one zeroed block that was free), counts
  it, and leaves every other entry and every other data block as it was; it fails, and changes nothing, only when the
  table or, for a catalog, the data region is full.\<close>

theorem usfs_entry_alloc_correct:
  fixes dev :: "'c htl_device"
  assumes ok: "usfs_volume_ok dev sb" and vw: "usfs_volume_writable sb = USFS_OK" and t: "t = USFS_ENTRY_FILE \<or> t = USFS_ENTRY_CATALOG"
    and k: "0 < k" "k < 128" "k \<le> length nm" "ow_sutf8_validate (Some nm) k" and p: "usfs_parent_ok g dev sb p"
  shows "(\<exists>i e dev' sb'. usfs_entry_alloc g dev sb t (Some nm) k p = (Inr (of_nat i), dev', sb') \<and> usfs_created dev sb i e dev' sb' \<and>
      ue_entry_type e = t \<and> usfs_name e = take k nm \<and> ue_parent_entry e = p \<and> ue_size_bytes e = 0 \<and>
      ue_permissions e = usfs_mode_for t \<and> card (usfs_extent e) = (if t = USFS_ENTRY_CATALOG then 1 else 0)) \<or>
    usfs_entry_alloc g dev sb t (Some nm) k p = (Inl USFS_ERR_NO_FREE_ENTRIES, dev, sb) \<and> usfs_live dev sb = {..<unat (usb_total_entries sb)} \<or>
    usfs_entry_alloc g dev sb t (Some nm) k p = (Inl USFS_ERR_NO_FREE_BLOCKS, dev, sb) \<and> t = USFS_ENTRY_CATALOG \<and>
      usfs_region sb \<subseteq> usfs_allocated dev sb"
proof (cases rule: usfs_entry_alloc_cases [OF ok vw t k p, case_names created full no_block])
  case (created i e first dev' sb')
  define f where "f = usfs_entry_fresh g sb t (usfs_mode_for t) (Some nm) k p (of_nat i)"
  note fp = usfs_entry_fresh_props [OF k(1-3) f_def]
  have e: "e = (if t = USFS_ENTRY_CATALOG then f\<lparr>ue_first_block := first, ue_block_count := 1\<rparr> else f)"
    using created(3) by (simp add: f_def Let_def)
  have "card (usfs_extent e) = (if t = USFS_ENTRY_CATALOG then 1 else 0)"
    using fp(3) by (simp add: e usfs_extent_def extent_one_word)
  moreover have "ue_entry_type e = t" "usfs_name e = take k nm" "ue_parent_entry e = p" "ue_size_bytes e = 0" "ue_permissions e = usfs_mode_for t"
    using fp(2,5-9) by (simp_all add: e usfs_name_def)
  ultimately show ?thesis using created(1,2) by blast
next
  case full
  then show ?thesis by blast
next
  case no_block
  then show ?thesis by blast
qed

theorem usfs_entry_alloc_correct_witness:
  "\<exists>i e dev' sb'. usfs_entry_alloc superuser usfs_demo_device usfs_demo_sb USFS_ENTRY_CATALOG (Some [0x61]) 1 0 = (Inr (of_nat i), dev', sb') \<and>
    usfs_created usfs_demo_device usfs_demo_sb i e dev' sb' \<and> usfs_name e = [0x61] \<and> card (usfs_extent e) = 1"
proof -
  have "1 \<notin> usfs_live usfs_demo_device usfs_demo_sb" "1 < unat (usb_total_entries usfs_demo_sb)" using usfs_demo_facts(2,4) by simp_all
  then have nf: "usfs_live usfs_demo_device usfs_demo_sb \<noteq> {..<unat (usb_total_entries usfs_demo_sb)}" by blast
  have nb: "\<not> usfs_region usfs_demo_sb \<subseteq> usfs_allocated usfs_demo_device usfs_demo_sb" using usfs_demo_room by blast
  have t: "take 1 [0x61 :: u8] = [0x61]" by simp
  show ?thesis
    using usfs_entry_alloc_correct [OF usfs_demo_facts(1,3) disjI2 _ _ _ usfs_name_a(1) usfs_demo_facts(11), OF refl, unfolded t] nf nb
    by (simp only: list.size) fastforce
qed

text \<open>C17: deleting a live entry that is not read-only and that the caller may write succeeds: its run returns to the
  allocator and nothing else does, its slot becomes free, the volume stays consistent, and every other entry and every
  data block keeps its content.\<close>

theorem usfs_entry_free_correct:
  fixes dev :: "'c htl_device"
  assumes "usfs_volume_ok dev sb" and "usfs_volume_writable sb = USFS_OK" and "unat n \<in> usfs_live dev sb"
    and "ue_security_flags (usfs_entry_at dev sb (unat n)) AND USFS_SEC_READONLY = 0"
    and "entry_check_access g (usfs_entry_at dev sb (unat n)) OW_ACCESS_WRITE = USFS_OK"
  shows "\<exists>dev' sb'. usfs_entry_free g dev sb n = (USFS_OK, dev', sb') \<and> usfs_volume_ok dev' sb' \<and>
    usfs_live dev' sb = usfs_live dev sb - {unat n} \<and>
    usfs_allocated dev' sb = usfs_allocated dev sb - usfs_extent (usfs_entry_at dev sb (unat n)) \<and>
    (\<forall>j < unat (usb_total_entries sb). j \<noteq> unat n \<longrightarrow> usfs_entry_at dev' sb j = usfs_entry_at dev sb j) \<and>
    (\<forall>x \<in> usfs_region sb. blk dev' x = blk dev x)"
  by (rule usfs_entry_free_ok [OF assms]) blast

theorem usfs_entry_free_correct_witness:
  "\<exists>dev' sb'. usfs_entry_free superuser usfs_demo_file_device usfs_demo_file_sb 1 = (USFS_OK, dev', sb') \<and> usfs_volume_ok dev' sb' \<and>
    usfs_live dev' usfs_demo_file_sb = {0}"
proof -
  note f = usfs_demo_file_live(2) [symmetric] and l = usfs_demo_file_facts(2)
  have "ue_security_flags (usfs_entry_at usfs_demo_file_device usfs_demo_file_sb (unat (1 :: u32))) AND USFS_SEC_READONLY = 0"
    "entry_check_access superuser (usfs_entry_at usfs_demo_file_device usfs_demo_file_sb (unat (1 :: u32))) OW_ACCESS_WRITE = USFS_OK"
    unfolding f using usfs_demo_file_facts(5,8) by simp_all
  from usfs_entry_free_correct [OF usfs_demo_file_facts(1,3) usfs_demo_file_live(1) this] show ?thesis unfolding l by auto
qed

text \<open>C18: looking a valid name up under a parent returns the lowest entry of that name and parent that is in use and that the
  caller may see (a hidden entry is shown to its owner and to the superuser only), and reports that there is none
  otherwise; nothing changes.\<close>

theorem usfs_entry_lookup_correct:
  assumes ok: "usfs_volume_ok dev sb" and k: "0 < k" "k < 128" and v: "sutf8_validate_loop (take k nm)"
  shows "case usfs_entry_lookup g dev sb p (Some nm) k of (r, dev') \<Rightarrow> dev' = dev \<and>
    (case r of
       Inl st \<Rightarrow> st = USFS_ERR_NOT_FOUND \<and> (\<forall>i < unat (usb_total_entries sb). \<not> usfs_entry_match g dev sb p (take k nm) i)
     | Inr i \<Rightarrow> usfs_entry_match g dev sb p (take k nm) (unat i) \<and> (\<forall>j < unat i. \<not> usfs_entry_match g dev sb p (take k nm) j))"
proof (cases "find (usfs_entry_match g dev sb p (take k nm)) [0..<unat (usb_total_entries sb)]")
  case None
  then have "\<forall>i < unat (usb_total_entries sb). \<not> usfs_entry_match g dev sb p (take k nm) i" by (auto simp: find_None_iff)
  then show ?thesis unfolding usfs_entry_lookup_find [OF ok k v] None by simp
next
  case (Some i)
  then have i: "i < unat (usb_total_entries sb)" "usfs_entry_match g dev sb p (take k nm) i" "\<forall>j < i. \<not> usfs_entry_match g dev sb p (take k nm) j"
    by (auto simp: find_Some_iff)
  then show ?thesis unfolding usfs_entry_lookup_find [OF ok k v] Some using usfs_entry_index(1) [OF i(1)] by simp
qed

theorem usfs_entry_lookup_correct_witness: "usfs_entry_lookup superuser usfs_demo_file_device usfs_demo_file_sb 0 (Some [0x61]) 1 = (Inr 1, usfs_demo_file_device)"
proof -
  let ?m = "usfs_entry_match superuser usfs_demo_file_device usfs_demo_file_sb 0 (take 1 [0x61])"
  have m: "?m 1" using usfs_demo_file_facts(2,9,10) by (simp add: usfs_entry_match_def usfs_demo_file_def Let_def ow_sec_is_superuser_def)
  note l = usfs_entry_lookup_correct [OF usfs_demo_file_facts(1) _ _ usfs_name_a(2), of superuser 0]
  obtain i where i: "usfs_entry_lookup superuser usfs_demo_file_device usfs_demo_file_sb 0 (Some [0x61]) 1 = (Inr i, usfs_demo_file_device)"
    "?m (unat i)" "\<forall>j < unat i. \<not> ?m j"
    using l m usfs_demo_file_facts(15) by (auto split: prod.splits sum.splits)
  have "unat i \<le> 1" using i(3) m by (meson not_le)
  moreover have "unat i \<noteq> 0"
  proof
    assume "unat i = 0"
    then have "usfs_name (usfs_entry_at usfs_demo_file_device usfs_demo_file_sb 0) = [0x61]"
      using i(2) by (simp only: usfs_entry_match_def Let_def) simp
    then show False using usfs_demo_file_facts(16) by simp
  qed
  ultimately have "i = 1" by (simp add: word_unat_eq_iff)
  then show ?thesis using i(1) by simp
qed

section \<open>Files\<close>

definition usfs_may_write :: "ow_identity \<Rightarrow> usfs_superblock \<Rightarrow> usfs_entry \<Rightarrow> bool" where
  "usfs_may_write g sb e \<longleftrightarrow> ue_entry_type e = USFS_ENTRY_FILE \<and> usfs_volume_writable sb = USFS_OK \<and>
     ue_security_flags e AND USFS_SEC_READONLY = 0 \<and> entry_access_check g e OW_ACCESS_WRITE = USFS_OK"

text \<open>Every live entry but \<open>i\<close> is as it was and its file reads as before.\<close>

definition usfs_others_kept ::
  "'c htl_device \<Rightarrow> usfs_superblock \<Rightarrow> nat \<Rightarrow> 'c htl_device \<Rightarrow> usfs_superblock \<Rightarrow> bool" where
  "usfs_others_kept dev sb i dev' sb' \<longleftrightarrow>
     usfs_live dev' sb' = usfs_live dev sb \<and>
     (\<forall>j \<in> usfs_live dev sb - {i}. usfs_entry_at dev' sb' j = usfs_entry_at dev sb j \<and>
        usfs_data dev' sb' (usfs_entry_at dev' sb' j) = usfs_data dev sb (usfs_entry_at dev sb j))"

lemma usfs_updated_kept:
  assumes "usfs_volume_ok dev sb" and "usfs_updated dev sb i e dev' sb'"
  shows "usfs_volume_ok dev' sb'" and "usfs_entry_at dev' sb' i = e" and "usfs_others_kept dev sb i dev' sb'"
  using usfs_updatedD(1,4,5) [OF assms(2)] usfs_updated_others [OF assms] by (auto simp: usfs_others_kept_def)

text \<open>C19: reading a file copies the window of its decrypted data that lies below its size into the caller's buffer, reports
  that number of bytes, leaves the rest of the buffer alone and changes nothing on the device.\<close>

theorem usfs_file_read_correct:
  fixes offset len :: u32
  assumes ok: "usfs_volume_ok dev sb" and live: "i \<in> usfs_live dev sb" and e: "e = usfs_entry_at dev sb i"
    and ty: "ue_entry_type e = USFS_ENTRY_FILE" and acc: "entry_access_check g e OW_ACCESS_READ = USFS_OK" and buf: "unat len \<le> length buf"
  shows "let n = min (unat len) (unat (ue_size_bytes e) - unat offset) in
    usfs_file_read g dev sb e buf offset len r0 =
      (USFS_OK, of_nat n, overwrite 0 (window (unat offset) n (usfs_data dev sb e)) buf, dev)"
  using usfs_file_read_ok [OF usfs_volume_okD(1) [OF ok] _ ty acc buf] usfs_volume_okD(6) [OF ok live] e by (simp add: Let_def)

theorem usfs_file_read_correct_witness:
  "usfs_file_read superuser usfs_demo_file_device usfs_demo_file_sb usfs_demo_file (replicate 8 5) 0 8 77 = (USFS_OK, 0, replicate 8 5, usfs_demo_file_device)"
proof -
  have "unat (8 :: u32) \<le> length (replicate 8 (5 :: u8))" by simp
  from usfs_file_read_correct [OF usfs_demo_file_facts(1) usfs_demo_file_live(1,2) usfs_demo_file_facts(5) usfs_superuser_access(1) this, of 0 77]
  show ?thesis using usfs_demo_file_facts(6) by (simp add: overwrite_def)
qed



text \<open>C20: truncating a file to another size keeps the bytes below both sizes, sets the size, keeps every other file and the
  consistency of the volume, and when the file becomes shorter leaves it exactly the blocks its size needs; lengthening
  fails, with nothing changed, only when no run of free blocks is long enough.\<close>

theorem usfs_file_truncate_correct:
  fixes dev :: "'c htl_device"
  assumes ok: "usfs_volume_ok dev sb" and live: "unat n \<in> usfs_live dev sb" and e: "e = usfs_entry_at dev sb (unat n)"
    and may: "usfs_may_write g sb e" and s: "s \<noteq> ue_size_bytes e"
  shows "(\<exists>dev' sb' e'. usfs_file_truncate g dev sb e n s = (USFS_OK, dev', sb', e') \<and>
      usfs_volume_ok dev' sb' \<and> usfs_entry_at dev' sb' (unat n) = e' \<and> usfs_others_kept dev sb (unat n) dev' sb' \<and>
      usfs_same_file e e' \<and> ue_size_bytes e' = s \<and> (s < ue_size_bytes e \<longrightarrow> unat (ue_block_count e') = (unat s + 4095) div 4096) \<and>
      take (unat (ue_size_bytes e)) (usfs_data dev' sb' e') = take (unat s) (usfs_data dev sb e)) \<or>
    ue_size_bytes e < s \<and> usfs_file_truncate g dev sb e n s = (USFS_ERR_NO_FREE_BLOCKS, dev, sb, e) \<and>
      (\<nexists>r. usfs_run dev sb r ((unat s + 4095) div 4096))"
proof -
  from may have m: "usfs_volume_writable sb = USFS_OK" "ue_entry_type e = USFS_ENTRY_FILE" "ue_security_flags e AND USFS_SEC_READONLY = 0"
    "entry_access_check g e OW_ACCESS_WRITE = USFS_OK" by (simp_all add: usfs_may_write_def)
  consider "s < ue_size_bytes e" | "ue_size_bytes e < s" using s by (meson not_less_iff_gr_or_eq)
  then show ?thesis
  proof cases
    case 1
    obtain dev' sb' e' where t: "usfs_file_truncate g dev sb e n s = (USFS_OK, dev', sb', e')" "usfs_updated dev sb (unat n) e' dev' sb'"
      "ue_size_bytes e' = s" "unat (ue_block_count e') = (unat s + 4095) div 4096" "usfs_data dev' sb' e' = take (unat s) (usfs_data dev sb e)"
      "usfs_same_file e e'" by (rule usfs_file_shrink [OF ok live m(1) e m(2,3,4) 1])
    have "take (unat (ue_size_bytes e)) (usfs_data dev' sb' e') = take (unat s) (usfs_data dev sb e)"
      using t(5) 1 by (simp add: min_def word_less_nat_alt)
    then show ?thesis using t(1,3,4,6) usfs_updated_kept [OF ok t(2)] by blast
  next
    case 2
    then have ns: "\<not> s < ue_size_bytes e" by simp
    have "take (unat s) (usfs_data dev sb e) = usfs_data dev sb e" using 2 by (simp add: usfs_data_def min_def word_less_nat_alt)
    then show ?thesis
      using 2 ns usfs_updated_kept [OF ok]
      by (cases rule: usfs_file_lengthen_cases [OF ok live m(1) e m(2,3,4) 2, case_names longer no_run]) (metis, blast)
  qed
qed

theorem usfs_file_truncate_correct_witness:
  "\<exists>dev' sb' e'. usfs_file_truncate superuser usfs_demo_file_device usfs_demo_file_sb usfs_demo_file 1 4000 = (USFS_OK, dev', sb', e') \<and>
    usfs_volume_ok dev' sb' \<and> ue_size_bytes e' = 4000"
proof -
  have may: "usfs_may_write superuser usfs_demo_file_sb usfs_demo_file" using usfs_demo_file_facts(3,5,8) by (simp add: usfs_may_write_def)
  have ne: "(4000 :: u32) \<noteq> ue_size_bytes usfs_demo_file" using usfs_demo_file_facts(6) by simp
  have "\<not> (\<nexists>r. usfs_run usfs_demo_file_device usfs_demo_file_sb r ((unat (4000 :: u32) + 4095) div 4096))" using usfs_demo_file_room by simp
  then show ?thesis using usfs_file_truncate_correct [OF usfs_demo_file_facts(1) usfs_demo_file_live may ne] by blast
qed

section \<open>Volumes\<close>

text \<open>What a flush leaves on the device is a volume with the same entries and the same data.\<close>

lemma usfs_flush_recover:
  fixes dev :: "'c htl_device"
  assumes ok: "usfs_volume_ok dev sb" and wf: "usfs_superblock_wf sb" and vw: "usfs_volume_writable sb = USFS_OK"
    and id: "usb_magic sb = USFS_MAGIC" "usb_block_size sb = 0x1000"
  obtains dev1 sb1 dev2 sb2 where "usfs_flush_dirty dev sb = (USFS_OK, dev1, sb1)" "usfs_mount dev1 sb0 = (USFS_OK, dev2, sb2)"
    "usfs_volume_ok dev2 sb2" "usfs_volume_writable sb2 = USFS_OK" "usfs_live dev2 sb2 = usfs_live dev sb"
    "\<forall>j \<in> usfs_live dev sb. usfs_entry_at dev2 sb2 j = usfs_entry_at dev sb j \<and>
       usfs_data dev2 sb2 (usfs_entry_at dev sb j) = usfs_data dev sb (usfs_entry_at dev sb j)"
    "usfs_layout sb2 = usfs_layout sb"
proof -
  note d = usfs_volume_okD [OF ok]
  obtain dev1 sb1 dev2 sb2 where r: "usfs_flush_dirty dev sb = (USFS_OK, dev1, sb1)" "usfs_mount dev1 sb0 = (USFS_OK, dev2, sb2)"
    "usfs_volume_ok dev2 sb2" "usfs_volume_writable sb2 = USFS_OK" "usfs_layout sb2 = usfs_layout sb"
    "usb_security_flags sb2 = usb_security_flags sb" "usb_key_slot_1 sb2 = usb_key_slot_1 sb" "usb_crypto_nonce sb2 = usb_crypto_nonce sb"
    and same: "\<And>x. x < total_blocks dev \<Longrightarrow> x \<noteq> 0 \<Longrightarrow> blk dev2 x = blk dev x"
    by (rule usfs_flush_mount [OF ok wf vw id, of sb0]) blast
  note s = usfs_same_but_0 [OF d(3) same]
  have live: "usfs_live dev2 sb2 = usfs_live dev sb" using s(2) by (simp add: usfs_layout_cong(9) [OF r(5)])
  have "usfs_entry_at dev2 sb2 j = usfs_entry_at dev sb j \<and> usfs_data dev2 sb2 (usfs_entry_at dev sb j) = usfs_data dev sb (usfs_entry_at dev sb j)"
    if j: "j \<in> usfs_live dev sb" for j
  proof
    show "usfs_entry_at dev2 sb2 j = usfs_entry_at dev sb j"
      using s(1) j by (simp add: usfs_layout_cong(7) [OF r(5)] usfs_live_def)
    note o = usfs_entry_okD [OF d(1) d(6) [OF j]]
    show "usfs_data dev2 sb2 (usfs_entry_at dev sb j) = usfs_data dev sb (usfs_entry_at dev sb j)"
      by (rule usfs_content_cong(2)) (use s(5) o(2,4) usfs_blocks_extent(1) r(6-8) in auto)
  qed
  with r live show thesis by (intro that) blast+
qed

text \<open>C6: after a flush of a writable, consistent volume a crash loses nothing: mounting the device succeeds, and the
  mounted volume is consistent and writable and has the same entries with the same data.\<close>

theorem usfs_flush_survives_crash:
  fixes dev :: "'c htl_device"
  assumes ok: "usfs_volume_ok dev sb" and wf: "usfs_superblock_wf sb" and vw: "usfs_volume_writable sb = USFS_OK"
    and id: "usb_magic sb = USFS_MAGIC" "usb_block_size sb = 0x1000"
  shows "\<exists>dev1 sb1 dev2 sb2. usfs_flush_dirty dev sb = (USFS_OK, dev1, sb1) \<and> usfs_mount dev1 sb0 = (USFS_OK, dev2, sb2) \<and>
    usfs_volume_ok dev2 sb2 \<and> usfs_volume_writable sb2 = USFS_OK \<and> usfs_live dev2 sb2 = usfs_live dev sb \<and>
    (\<forall>j \<in> usfs_live dev sb. usfs_entry_at dev2 sb2 j = usfs_entry_at dev sb j \<and>
       usfs_data dev2 sb2 (usfs_entry_at dev sb j) = usfs_data dev sb (usfs_entry_at dev sb j))"
  by (rule usfs_flush_recover [OF assms, of sb0]) blast

theorem usfs_flush_survives_crash_witness:
  "\<exists>dev1 sb1 dev2 sb2. usfs_flush_dirty usfs_demo_file_device usfs_demo_file_sb = (USFS_OK, dev1, sb1) \<and>
    usfs_mount dev1 usfs_demo_sb = (USFS_OK, dev2, sb2) \<and> usfs_live dev2 sb2 = {0, 1} \<and> usfs_entry_at dev2 sb2 1 = usfs_demo_file"
proof -
  note f = usfs_demo_file_facts
  show ?thesis
    using usfs_flush_survives_crash [OF f(1,12,3,13,14), of usfs_demo_sb] unfolding f(2) usfs_demo_file_def by blast
qed

text \<open>C24: the consistency check of a volume whose superblock is valid returns the exact number of faults (entries with a wrong
  checksum, a bitmap checksum or a free counter that disagrees with the bitmap, on signed volumes a signature that
  disagrees with the entry table), and clears the dirty, locked and error marks on the device exactly when there is
  none; no block but the superblock changes.\<close>

theorem usfs_consistency_check_correct:
  fixes dev :: "'c htl_device"
  assumes dev: "htl_reliable dev" and geo: "usfs_geometry dev sb" and wf: "usfs_superblock_wf sb" and val: "usfs_superblock_validate sb"
    and small: "usfs_check_count dev sb < 2 ^ 32"
  shows "\<exists>dev' sb'. usfs_consistency_check dev sb =
      (if usfs_check_count dev sb = 0 then USFS_OK else USFS_ERR_CHECKSUM_MISMATCH, of_nat (usfs_check_count dev sb), dev', sb') \<and>
    usfs_disk_sb dev' = sb' \<and>
    (if usfs_check_count dev sb = 0
     then \<not> bit (usb_state_flags sb') 0 \<and> \<not> bit (usb_state_flags sb') 1 \<and> \<not> bit (usb_state_flags sb') 2
     else bit (usb_state_flags sb') 1 \<and> bit (usb_state_flags sb') 2) \<and>
    (\<forall>x. x < total_blocks dev \<longrightarrow> x \<noteq> 0 \<longrightarrow> blk dev' x = blk dev x)"
proof -
  define s where "s = sb\<lparr>usb_state_flags := usb_state_flags sb OR USFS_STATE_LOCKED\<rparr>"
  define t where "t = usfs_sealed s\<lparr>usb_state_flags := if usfs_check_count dev sb = 0
       then usb_state_flags (usfs_sealed s) AND NOT (USFS_STATE_DIRTY OR USFS_STATE_LOCKED OR USFS_STATE_ERROR)
       else usb_state_flags (usfs_sealed s) OR USFS_STATE_ERROR\<rparr>"
  note run = usfs_consistency_check_run [OF assms, folded s_def, folded t_def]
  have wfs: "usfs_superblock_wf s" using wf by (simp add: s_def)
  note w = usfs_put_sb_props [OF usfs_geometry_disk [OF dev geo] wfs]
  note p = usfs_put_sb_props [OF w(2) run(3)] and fl = usfs_flushed_props [OF usfs_put_sb_props(2) [OF w(2) run(3)]]
  let ?d = "htl_flushed (usfs_put_sb (usfs_put_sb dev s) t)"
  have "blk ?d x = blk dev x" if "x < total_blocks dev" "x \<noteq> 0" for x using that w(4,6) p(4,6) fl(4) by simp
  moreover have "usfs_disk_sb ?d = usfs_sealed t" using fl(3) p(3) by simp
  ultimately show ?thesis using run(1,2) unfolding clean_flags_def by blast
qed

theorem usfs_consistency_check_correct_witness:
  "\<exists>dev' sb'. usfs_consistency_check usfs_demo_device usfs_demo_sb =
      (if usfs_check_count usfs_demo_device usfs_demo_sb = 0 then USFS_OK else USFS_ERR_CHECKSUM_MISMATCH,
       of_nat (usfs_check_count usfs_demo_device usfs_demo_sb), dev', sb') \<and> usfs_disk_sb dev' = sb'"
proof -
  note d = usfs_volume_okD [OF usfs_demo_facts(1)]
  have "usfs_bad_entries usfs_demo_device usfs_demo_sb \<subseteq> {..<256}" using usfs_demo_facts(4) by (auto simp: usfs_bad_entries_def)
  then have "card (usfs_bad_entries usfs_demo_device usfs_demo_sb) \<le> 256" using card_mono [of "{..<256 :: nat}"] by force
  then have "usfs_check_count usfs_demo_device usfs_demo_sb < 2 ^ 32" by (simp add: usfs_check_count_def)
  from usfs_consistency_check_correct [OF d(2,3) usfs_demo_facts(5,6) this] show ?thesis by blast
qed

text \<open>The consistency check decides about a volume with a valid superblock. Without faults: mounting it, losing it in a
  crash, being refused by the next mount, checking it and mounting it again succeeds, and only the superblock has
  changed. With faults: the check reports their number, and no sequence of mounts opens the volume afterwards.\<close>

lemma usfs_volume_decided:
  fixes dev :: "'c htl_device"
  assumes snd: "usfs_sound dev" and small: "usfs_faults dev < 2 ^ 32"
  shows "(usfs_faults dev = 0 \<and> clean_flags (usb_state_flags (usfs_disk_sb dev)) \<longrightarrow>
      (\<exists>dev1 sb1 dev2 sb2 dev3 sb3 dev4 sb4. usfs_mount dev sb0 = (USFS_OK, dev1, sb1) \<and>
        usfs_mount dev1 sb0 = (USFS_ERR_VOLUME_DIRTY, dev2, sb2) \<and> usfs_consistency_check dev2 sb2 = (USFS_OK, 0, dev3, sb3) \<and>
        usfs_mount dev3 sb0 = (USFS_OK, dev4, sb4) \<and> usfs_only_sb dev dev4)) \<and>
    (usfs_faults dev \<noteq> 0 \<longrightarrow>
      (\<exists>dev' sb'. usfs_consistency_check dev (usfs_disk_sb dev) = (USFS_ERR_CHECKSUM_MISMATCH, of_nat (usfs_faults dev), dev', sb') \<and>
        (\<forall>ss s. fst (usfs_mount (fold (\<lambda>s d. fst (snd (usfs_mount d s))) ss dev') s) = USFS_ERR_VOLUME_DIRTY)))"
proof (intro conjI impI)
  assume f: "usfs_faults dev = 0 \<and> clean_flags (usb_state_flags (usfs_disk_sb dev))"
  show "\<exists>dev1 sb1 dev2 sb2 dev3 sb3 dev4 sb4. usfs_mount dev sb0 = (USFS_OK, dev1, sb1) \<and>
        usfs_mount dev1 sb0 = (USFS_ERR_VOLUME_DIRTY, dev2, sb2) \<and> usfs_consistency_check dev2 sb2 = (USFS_OK, 0, dev3, sb3) \<and>
        usfs_mount dev3 sb0 = (USFS_OK, dev4, sb4) \<and> usfs_only_sb dev dev4"
    by (rule usfs_mp.crash_recovery [OF snd conjunct2 [OF f] conjunct1 [OF f], of sb0]) blast
next
  assume "usfs_faults dev \<noteq> 0"
  then have "0 < usfs_faults dev" by simp
  then show "\<exists>dev' sb'. usfs_consistency_check dev (usfs_disk_sb dev) = (USFS_ERR_CHECKSUM_MISMATCH, of_nat (usfs_faults dev), dev', sb') \<and>
        (\<forall>ss s. fst (usfs_mount (fold (\<lambda>s d. fst (snd (usfs_mount d s))) ss dev') s) = USFS_ERR_VOLUME_DIRTY)"
    by (rule usfs_mp.faults_shut [OF snd _ small]) blast
qed

section \<open>Volumes that may not be written\<close>

lemma usfs_refused:
  assumes "usfs_volume_writable sb \<noteq> USFS_OK"
  shows "\<exists>st. st \<noteq> USFS_OK \<and> usfs_block_alloc dev sb n = (Inl st, dev, sb)"
    and "n \<noteq> 0 \<Longrightarrow> \<exists>st. st \<noteq> USFS_OK \<and> usfs_block_free dev sb f n = (st, dev, sb)"
    and "\<exists>st. st \<noteq> USFS_OK \<and> usfs_entry_alloc g dev sb t nm k p = (Inl st, dev, sb)"
    and "\<exists>st. st \<noteq> USFS_OK \<and> usfs_entry_free g dev sb i = (st, dev, sb)"
    and "\<exists>st. st \<noteq> USFS_OK \<and> usfs_entry_write dev sb i e = (st, dev, e)"
    and "\<exists>st. st \<noteq> USFS_OK \<and> usfs_file_truncate g dev sb e i s = (st, dev, sb, e)"
    and "len \<noteq> 0 \<Longrightarrow> \<exists>st w. st \<noteq> USFS_OK \<and> usfs_file_write g dev sb e i b f len w0 = (st, w, dev, sb, e)"
    and "\<exists>st. st \<noteq> USFS_OK \<and> usfs_crypto_set_key dev sb key kl = (st, dev, sb)"
  using assms by (auto simp: usfs_block_alloc_def usfs_block_free_def usfs_entry_alloc_def usfs_entry_free_def
      usfs_entry_write_def usfs_file_truncate_def usfs_file_write_def usfs_crypto_set_key_def Let_def split: option.split)

section \<open>The first file\<close>

text \<open>A volume that holds the root catalog only has room for a file in all its other data blocks.\<close>

lemma usfs_first_run:
  assumes geo: "usfs_geometry dev sb" and al: "usfs_allocated dev sb = {usb_data_region_start sb}" and m: "m < usfs_data_blocks sb"
  shows "usfs_run dev sb 1 m"
proof -
  have "\<not> usfs_used dev sb k" if k: "1 \<le> k" "k < 1 + m" for k
  proof -
    have le: "k + unat (1 :: u32) \<le> usfs_data_blocks sb" using k m by simp
    note e = usfs_run_extent(1,2) [OF geo le]
    let ?b = "usb_data_region_start sb + of_nat k"
    have b: "?b \<in> usfs_region sb" "unat ?b = unat (usb_data_region_start sb) + k" using e by (simp_all add: extent_one)
    then have "?b \<notin> usfs_allocated dev sb" using k(1) unfolding al by auto
    then show ?thesis using b by (simp add: usfs_allocated_def)
  qed
  then show ?thesis using m by (simp add: usfs_run_def)
qed

text \<open>Mounting a freshly formatted volume and creating a file in its root.\<close>

lemma usfs_fresh_mount:
  fixes dev :: "'c htl_device"
  assumes f: "usfs_fresh_volume dev"
  defines "sb \<equiv> usfs_disk_sb dev"
  obtains dev' sb' where "usfs_mount dev sb0 = (USFS_OK, dev', sb')" "usfs_volume_ok dev' sb'" "usfs_live dev' sb' = {0}"
    "usfs_volume_writable sb' = USFS_OK" "usb_total_entries sb' = 256" "usfs_parent_ok superuser dev' sb' 0"
    "usfs_allocated dev' sb' = {usb_data_region_start sb'}" "usfs_superblock_wf sb'" "usb_magic sb' = USFS_MAGIC" "usb_block_size sb' = 0x1000"
    "usb_security_flags sb' = 0" "usfs_layout sb' = usfs_layout sb" "usfs_entry_at dev' sb' 0 = usfs_entry_at dev sb 0"
proof -
  note v = usfs_fresh_facts [OF f, folded sb_def] and d = usfs_volume_okD [OF usfs_fresh_facts(1) [OF f]]
  have dsb: "usfs_disk_sb dev = sb" by (simp add: sb_def)
  have "\<not> usfs_is_dirty sb" using f by (simp add: usfs_fresh_volume_def Let_def sb_def)
  then have clean: "\<not> bit (usb_state_flags sb) 0" unfolding usfs_is_dirty_def state_mask_bits by blast
  obtain dev' sb' where r: "usfs_mount dev sb0 = (USFS_OK, dev', sb')" "usfs_volume_ok dev' sb'" "usfs_volume_writable sb' = USFS_OK"
    "usfs_superblock_wf sb'" "usfs_layout sb' = usfs_layout sb" "usb_security_flags sb' = usb_security_flags sb"
    "usb_magic sb' = USFS_MAGIC" "usb_block_size sb' = 0x1000" "same_device dev dev'" "usb_used_entries sb' = usb_used_entries sb"
    and same: "\<And>x. x < total_blocks dev \<Longrightarrow> x \<noteq> 0 \<Longrightarrow> blk dev' x = blk dev x"
    by (rule usfs_mount_ok [OF v(1,5,3,6) dsb clean, of sb0]) blast
  note c = usfs_layout_cong [OF r(5)] and s = usfs_same_but_0 [OF usfs_volume_okD(3) [OF v(1)] same]
  have ds: "usb_data_region_start sb' = usb_data_region_start sb" using r(5) by (simp add: usfs_layout_def)
  have rel: "htl_reliable dev'" by (rule usfs_volume_okD(2) [OF r(2)])
  have tb: "total_blocks dev' = total_blocks dev" using same_deviceD [OF r(9)] by simp
  have at: "usfs_entry_at dev' sb' 0 = usfs_entry_at dev sb 0" using s(1) [of 0] v(4) by (simp add: c)
  have po: "usfs_parent_ok superuser dev' sb' 0" using v(10,11) r(10) at c(13) by (simp add: usfs_parent_ok_def)
  show thesis
    by (rule that [OF r(1,2) _ r(3) _ po _ r(4,7,8) _ r(5) at])
      (use s(2) v(2,4,12,13) r(6) usfs_volume_ok_same_blocks(2) [OF v(1) rel tb same] in \<open>simp_all add: c ds\<close>)
qed


text \<open>The second entry of a volume is found under its name.\<close>

lemma usfs_second_found:
  assumes ok: "usfs_volume_ok dev sb" and live: "usfs_live dev sb = {0, 1}" and n: "1 < unat (usb_total_entries sb)"
    and ne: "usfs_name (usfs_entry_at dev sb 0) \<noteq> take k nm"
    and at: "ue_parent_entry (usfs_entry_at dev sb 1) = p" "usfs_name (usfs_entry_at dev sb 1) = take k nm"
    and k: "0 < k" "k < 128" "ow_sutf8_validate (Some nm) k"
  shows "usfs_entry_lookup superuser dev sb p (Some nm) k = (Inr 1, dev)"
proof -
  let ?m = "usfs_entry_match superuser dev sb p (take k nm)"
  have m: "\<not> ?m 0" "?m 1" using live ne at by (simp_all add: usfs_entry_match_def Let_def ow_sec_is_superuser_def)
  have v: "sutf8_validate_loop (take k nm)" using k(3) by (simp add: ow_sutf8_validate_def)
  have "[0..<unat (usb_total_entries sb)] = 0 # 1 # [2..<unat (usb_total_entries sb)]"
    using n upt_conv_Cons [of 0] upt_conv_Cons [of 1] by (simp add: numeral_2_eq_2)
  then show ?thesis unfolding usfs_entry_lookup_find [OF ok k(1,2) v] using m by simp
qed

lemma usfs_live_read:
  assumes ok: "usfs_volume_ok dev sb" and live: "unat num \<in> usfs_live dev sb"
  shows "usfs_entry_read dev sb num e0 = (USFS_OK, dev, usfs_entry_at dev sb (unat num))"
proof -
  have n: "unat num < unat (usb_total_entries sb)" using live by (simp add: usfs_live_def)
  then have "num < usb_total_entries sb" by (simp add: word_less_nat_alt)
  with usfs_entry_read_reliable [OF usfs_volume_okD(2,3) [OF ok]] usfs_volume_okD(5) [OF ok n] show ?thesis by (auto simp: Let_def)
qed

text \<open>Mounting a fresh volume, creating a file and writing to it.\<close>

lemma usfs_fresh_store:
  fixes dev :: "'c htl_device"
  assumes fresh: "usfs_fresh_volume dev" and k: "0 < k" "k < 128" "k \<le> length nm" "ow_sutf8_validate (Some nm) k"
    and len: "len \<noteq> 0" "unat len \<le> length data" and room: "(unat len + 4095) div 4096 < usfs_data_blocks (usfs_disk_sb dev)"
  obtains dev2 sb2 dev3 sb3 dev4 sb4 e4 where "usfs_mount dev s0 = (USFS_OK, dev2, sb2)"
    "usfs_entry_alloc superuser dev2 sb2 USFS_ENTRY_FILE (Some nm) k 0 = (Inr 1, dev3, sb3)"
    "usfs_file_write superuser dev3 sb3 (usfs_entry_at dev3 sb3 1) 1 data 0 len 0 = (USFS_OK, len, dev4, sb4, e4)"
    "usfs_volume_ok dev4 sb4" "usfs_superblock_wf sb4" "usfs_volume_writable sb4 = USFS_OK" "usb_magic sb4 = USFS_MAGIC" "usb_block_size sb4 = 0x1000"
    "usfs_live dev4 sb4 = {0, 1}" "usb_total_entries sb4 = 256" "usfs_name (usfs_entry_at dev4 sb4 0) = [0x2F]" "usfs_entry_at dev4 sb4 1 = e4"
    "ue_entry_type e4 = USFS_ENTRY_FILE" "ue_size_bytes e4 = len" "ue_parent_entry e4 = 0" "usfs_name e4 = take k nm"
    "usfs_data dev4 sb4 e4 = take (unat len) data" "usfs_entry_read dev3 sb3 1 e0 = (USFS_OK, dev3, usfs_entry_at dev3 sb3 1)"
proof -
  obtain dev2 sb2 where m: "usfs_mount dev s0 = (USFS_OK, dev2, sb2)" "usfs_volume_ok dev2 sb2" "usfs_live dev2 sb2 = {0}"
    "usfs_volume_writable sb2 = USFS_OK" "usb_total_entries sb2 = 256" "usfs_parent_ok superuser dev2 sb2 0"
    "usfs_allocated dev2 sb2 = {usb_data_region_start sb2}" "usfs_superblock_wf sb2" "usb_magic sb2 = USFS_MAGIC" "usb_block_size sb2 = 0x1000"
    "usb_security_flags sb2 = 0" "usfs_layout sb2 = usfs_layout (usfs_disk_sb dev)" "usfs_entry_at dev2 sb2 0 = usfs_entry_at dev (usfs_disk_sb dev) 0"
    by (rule usfs_fresh_mount [OF fresh, of s0])
  define e where "e = usfs_entry_fresh superuser sb2 USFS_ENTRY_FILE USFS_MODE_DEFAULT_FILE (Some nm) k 0 1"
  obtain dev3 sb3 where c: "usfs_entry_alloc superuser dev2 sb2 USFS_ENTRY_FILE (Some nm) k 0 = (Inr 1, dev3, sb3)" "usfs_volume_ok dev3 sb3"
    "usfs_sb_counters sb2 sb3" "usfs_live dev3 sb3 = {0, 1}" "usfs_allocated dev3 sb3 = {usb_data_region_start sb2}"
    "usfs_entry_at dev3 sb3 1 = usfs_entry_sealed e" "usfs_entry_at dev3 sb3 0 = usfs_entry_at dev2 sb2 0"
    by (rule usfs_create_first [OF m(2-7) k(1-4), folded e_def])
  note ct = usfs_sb_countersD [OF c(3)] and ep = usfs_entry_fresh_props [OF k(1-3) e_def]
  define f where "f = usfs_entry_sealed e"
  have fp: "ue_entry_type f = USFS_ENTRY_FILE" "ue_size_bytes f = 0" "ue_security_flags f AND USFS_SEC_READONLY = 0" "ue_parent_entry f = 0"
    "usfs_name f = take k nm"
    using ep(2,5,6,7,8,13) m(11) by (simp_all add: usfs_name_def f_def)
  have live: "unat (1 :: u32) \<in> usfs_live dev3 sb3" and at: "f = usfs_entry_at dev3 sb3 (unat (1 :: u32))" using c(4,6) by (simp_all add: f_def)
  have vw: "usfs_volume_writable sb3 = USFS_OK" using ct(2) m(4) by simp
  have lay: "usfs_layout sb3 = usfs_layout (usfs_disk_sb dev)" using ct(1) m(12) by simp
  have run: "usfs_run dev3 sb3 1 ((unat (0 :: u32) + unat len + 4095) div 4096)"
    by (rule usfs_first_run [OF usfs_volume_okD(3) [OF c(2)]])
      (use c(5) ct(1) room lay in \<open>simp_all add: usfs_layout_def usfs_data_blocks_def\<close>)
  have fit: "unat (0 :: u32) + unat len < 2 ^ 32" using unsigned_less [of len, where 'a = nat] by simp
  obtain dev4 sb4 e4 gap where w: "usfs_file_write superuser dev3 sb3 f 1 data 0 len 0 = (USFS_OK, len, dev4, sb4, e4)"
    "usfs_updated dev3 sb3 (unat (1 :: u32)) e4 dev4 sb4" "ue_size_bytes e4 = 0 + len"
    "usfs_data dev4 sb4 e4 = take (unat (0 :: u32)) (usfs_data dev3 sb3 f) @ gap @ take (unat len) data" "usfs_same_file f e4"
    "length gap = unat (0 :: u32) - unat (ue_size_bytes f)"
    by (cases rule: usfs_file_write_cases [OF c(2) live vw at fp(1,3) usfs_superuser_access(1) len fit, of 0, case_names written no_run])
      (use run in blast)+
  note u = usfs_updatedD [OF w(2)] and s = usfs_same_sbD [OF usfs_updatedD(7) [OF w(2)]] and sf = usfs_same_fileD [OF w(5)]
  have root: "usfs_name (usfs_entry_at dev3 sb3 0) = [0x2F]" using fresh m(13) c(7) by (simp add: usfs_fresh_volume_def Let_def)
  have t: "usb_total_entries sb3 = 256" "usb_total_entries sb4 = 256"
    using m(5) usfs_layout_cong(13) [OF ct(1)] usfs_layout_cong(13) [OF s(1)] by simp_all
  show thesis
    by (rule that [OF m(1) c(1) w(1) [unfolded at unat_1] u(1)])
      (use usfs_live_read [OF c(2) live, of e0] s(3,7-9) ct(7-9) m(8-10) vw u(4) u(8) [of 0] u(5) c(4) root t w(3,4,6) sf fp in \<open>simp_all add: usfs_name_def\<close>)
qed

end
