(* ===== verification/OW_Access.thy ===== *)
theory OW_Access
  imports OWFS_Store USFS_Volume
begin

text \<open>
  What the permission bits of \<^verbatim>\<open>ow_sec.c\<close> mean for the operations of both file systems: when the triple of a
  principal's class lacks the bit for reading or writing, the operations on the object report an error and
  change nothing.
\<close>

unbundle bit_operations_syntax

text \<open>The permission bit of the class a principal belongs to: 2 for reading, 1 for writing.\<close>

definition mode_denies :: "ow_identity \<Rightarrow> u16 \<Rightarrow> u16 \<Rightarrow> u16 \<Rightarrow> nat \<Rightarrow> bool" where
  "mode_denies g mode ou og b \<longleftrightarrow> uid g \<noteq> 0 \<and> \<not> bit mode (access_shift g ou og + b)"

lemma mode_denies_access:
  "mode_denies g mode ou og 1 \<Longrightarrow> \<not> ow_sec_access g mode ou og OW_ACCESS_WRITE"
  "mode_denies g mode ou og 2 \<Longrightarrow> \<not> ow_sec_access g mode ou og OW_ACCESS_READ"
  by (simp_all add: mode_denies_def ow_sec_access_bits Let_def OW_ACCESS_WRITE_def OW_ACCESS_READ_def)

abbreviation owfs_denies :: "ow_identity \<Rightarrow> owfs_inode \<Rightarrow> nat \<Rightarrow> bool" where
  "owfs_denies g ino b \<equiv> mode_denies g (ino_permissions ino) (ino_owner_uid ino) (ino_owner_gid ino) b"

abbreviation usfs_denies :: "ow_identity \<Rightarrow> usfs_entry \<Rightarrow> nat \<Rightarrow> bool" where
  "usfs_denies g e b \<equiv> mode_denies g (ue_permissions e) (ue_owner_uid e) (ue_owner_gid e) b"

lemma owfs_denied_check:
  "owfs_denies g ino 1 \<Longrightarrow> owfs_inode_access_check g ino OW_ACCESS_WRITE = OWFS_ERR_ACCESS_DENIED"
  "owfs_denies g ino 2 \<Longrightarrow> owfs_inode_access_check g ino OW_ACCESS_READ = OWFS_ERR_ACCESS_DENIED"
  using mode_denies_access by (simp_all add: owfs_inode_access_check_def)

lemma usfs_denied_check:
  "usfs_denies g e 1 \<Longrightarrow> entry_access_check g e OW_ACCESS_WRITE = USFS_ERR_ACCESS_DENIED"
  "usfs_denies g e 2 \<Longrightarrow> entry_access_check g e OW_ACCESS_READ = USFS_ERR_ACCESS_DENIED"
  "usfs_denies g e 1 \<Longrightarrow> entry_check_access g e OW_ACCESS_WRITE \<noteq> USFS_OK"
  using mode_denies_access by (simp_all add: entry_access_check_def entry_check_access_def)

text \<open>On a working device looking a name up leaves the device alone, whatever the catalog holds.\<close>

lemma owfs_lookup_same:
  assumes ok: "owfs_volume_ok dev sb" and live: "unat n \<in> owfs_live dev sb"
  shows "snd (owfs_catalog_lookup g dev sb n nm k) = dev"
    and "catalog_read dev sb n temp = (if owfs_is_catalog dev sb n then OWFS_OK else OWFS_ERR_NOT_CATALOG, dev, owfs_inode_at dev sb (unat n))"
proof -
  note d = owfs_volume_okD [OF ok]
  let ?i = "owfs_inode_at dev sb (unat n)"
  show cr: "catalog_read dev sb n temp = (if owfs_is_catalog dev sb n then OWFS_OK else OWFS_ERR_NOT_CATALOG, dev, ?i)" for temp
    using owfs_live_read [OF ok live] live by (simp add: catalog_read_def owfs_is_catalog_def)
  show "snd (owfs_catalog_lookup g dev sb n nm k) = dev"
    using lookup_blocks_find [OF d(1) d(6) [OF live], of "[0..<unat (ino_block_count ?i)]" g]
    by (simp add: owfs_catalog_lookup_def cr split: option.split)
qed

lemma owfs_write_denied:
  assumes ok: "owfs_volume_ok dev sb" and live: "unat n \<in> owfs_live dev sb" and ino: "ino = owfs_inode_at dev sb (unat n)"
    and den: "owfs_denies g ino 1"
  shows "\<exists>st. st \<noteq> OWFS_OK \<and> owfs_inode_free g dev sb n = (st, dev, sb)"
    and "\<exists>st. st \<noteq> OWFS_OK \<and> owfs_catalog_insert g dev sb n nm k j t = (st, dev, sb)"
    and "\<exists>st. st \<noteq> OWFS_OK \<and> owfs_catalog_remove g dev sb n nm k = (st, dev)"
    and "\<exists>st. st \<noteq> OWFS_OK \<and> owfs_file_truncate g dev sb ino m s = (st, dev, sb, ino)"
    and "len \<noteq> 0 \<Longrightarrow> \<exists>st. st \<noteq> OWFS_OK \<and> owfs_file_write g dev sb ino m b off len = (st, 0, dev, sb, ino)"
proof -
  note c = owfs_denied_check(1) [OF den]
  have nf: "ino_entry_type ino \<noteq> 0" "ino_entry_type ino AND OWFS_ENTRY_DELETED = 0" using live by (auto simp: owfs_live_def owfs_slot_free_def ino)
  show "\<exists>st. st \<noteq> OWFS_OK \<and> owfs_inode_free g dev sb n = (st, dev, sb)"
    using owfs_live_read [OF ok live] c nf by (simp add: owfs_inode_free_def ino)
  show "\<exists>st. st \<noteq> OWFS_OK \<and> owfs_catalog_remove g dev sb n nm k = (st, dev)"
    using owfs_lookup_same(2) [OF ok live] c by (simp add: owfs_catalog_remove_def ino split: option.split)
  obtain r where l: "owfs_catalog_lookup g dev sb n nm k = (r, dev)" using owfs_lookup_same(1) [OF ok live, of g nm k] by (metis prod.collapse)
  show "\<exists>st. st \<noteq> OWFS_OK \<and> owfs_catalog_insert g dev sb n nm k j t = (st, dev, sb)"
    using owfs_lookup_same(2) [OF ok live] c l by (cases nm; cases r) (simp_all add: owfs_catalog_insert_def ino)
  show "\<exists>st. st \<noteq> OWFS_OK \<and> owfs_file_truncate g dev sb ino m s = (st, dev, sb, ino)"
    using c by (simp add: owfs_file_truncate_def)
  show "len \<noteq> 0 \<Longrightarrow> \<exists>st. st \<noteq> OWFS_OK \<and> owfs_file_write g dev sb ino m b off len = (st, 0, dev, sb, ino)"
    using c by (simp add: owfs_file_write_def)
qed

text \<open>Creating a file takes an inode before the catalog is looked at; when the catalog refuses, the inode is freed again.\<close>

lemma owfs_create_denied:
  fixes dev :: "'c htl_device"
  assumes ok: "owfs_volume_ok dev sb" and live: "unat n \<in> owfs_live dev sb" and den: "owfs_denies g (owfs_inode_at dev sb (unat n)) 1"
    and vw: "owfs_volume_writable sb = OWFS_OK" and t: "t = OWFS_ENTRY_FILE \<or> t = OWFS_ENTRY_CATALOG"
    and k: "k < 128" "k \<le> length nm" and v: "ow_sutf8_validate (Some nm) k" and uid: "unat (uid g) < 2 ^ 16"
  shows "\<exists>st dev' sb'. st \<noteq> OWFS_OK \<and> owfs_create_as t g dev sb n (Some nm) k = (Inl st, dev', sb') \<and>
    owfs_volume_ok dev' sb' \<and> owfs_kept dev sb dev' sb'"
proof -
  note d = owfs_volume_okD [OF ok]
  have nm: "name_arg_ok (Some nm) k" using k(2) by (simp add: name_arg_ok_def)
  obtain r dev1 sb1 where a: "owfs_inode_alloc g dev sb t (Some nm) k n = (r, dev1, sb1)"
    by (cases "owfs_inode_alloc g dev sb t (Some nm) k n")
  show ?thesis
  proof (cases r)
    case (Inl e)
    from owfs_inode_alloc_none [OF ok nm a [unfolded Inl] vw t k(1)] v a Inl ok
    show ?thesis by (simp add: owfs_create_as_def owfs_kept_def)
  next
    case (Inr i)
    note s = owfs_inode_alloc_some [OF ok nm a [unfolded Inr]]
    have cong: "owfs_live dx sb1 = owfs_live dx sb" "owfs_inode_at dx sb1 = owfs_inode_at dx sb" "owfs_content dx sb1 x = owfs_content dx sb x"
      for dx :: "'c htl_device" and x unfolding s(7) by simp_all
    have ne: "j < unat (sb_total_inodes sb)" "j \<noteq> unat i" if "j \<in> owfs_live dev sb" for j using that s(2) by (auto simp: owfs_live_def)
    have same: "owfs_inode_at dev1 sb1 j = owfs_inode_at dev sb j" if "j \<in> owfs_live dev sb" for j
      using s(9) [OF ne [OF that]] by (simp add: cong)
    have live1: "unat n \<in> owfs_live dev1 sb1" and i1: "unat i \<in> owfs_live dev1 sb1" using live s(5) by (simp_all add: cong)
    have "owfs_denies g (owfs_inode_at dev1 sb1 (unat n)) 1" using den same [OF live] by simp
    then obtain st where st: "st \<noteq> OWFS_OK" "owfs_catalog_insert g dev1 sb1 n (Some nm) k i t = (st, dev1, sb1)"
      using owfs_write_denied(2) [OF s(1) live1 refl] by blast
    have at: "owfs_inode_at dev1 sb1 (unat i) = owfs_inode_fresh g sb t (Some nm) k n i" using s(4) by (simp add: cong)
    have vw1: "owfs_volume_writable sb1 = OWFS_OK" using vw by (simp add: s(7))
    note fa = owfs_inode_fresh_access [OF uid, of sb t "Some nm" k n i]
    obtain dev2 sb2 where f: "owfs_inode_free g dev1 sb1 i = (OWFS_OK, dev2, sb2)" "owfs_volume_ok dev2 sb2"
      "owfs_live dev2 sb2 = owfs_live dev1 sb1 - {unat i}" "owfs_frame sb1 (owfs_table sb1) dev1 dev2"
      "\<forall>j \<in> owfs_live dev1 sb1 - {unat i}. owfs_inode_at dev2 sb2 j = owfs_inode_at dev1 sb1 j"
      "sb2 = sb1\<lparr>sb_free_blocks := sb_free_blocks sb2, sb_free_inodes := sb_free_inodes sb1 + 1\<rparr>"
      using owfs_inode_free_ok [OF s(1) i1 vw1, of g] at fa by auto
    have lv: "owfs_live dev2 sb2 = owfs_live dev sb" using f(3) s(2,5) by (simp add: cong)
    have ino: "owfs_inode_at dev2 sb2 j = owfs_inode_at dev sb j" if "j \<in> owfs_live dev sb" for j
      using f(5) s(5) ne(2) [OF that] that same [OF that] by (simp add: cong)
    have con: "owfs_content dev2 sb2 (owfs_inode_at dev sb j) = owfs_content dev sb (owfs_inode_at dev sb j)" if j: "j \<in> owfs_live dev sb" for j
    proof -
      have own: "owfs_table sb \<inter> owfs_owned dev (owfs_inode_at dev sb j) = {}"
        using owfs_map_okD(5,6) [OF d(1) d(6) [OF j]] owfs_table_region [of sb] by blast
      have j1: "j \<in> owfs_live dev1 sb1" using j s(5) by (simp add: cong)
      note d1 = owfs_volume_okD [OF s(1)]
      have own1: "owfs_table sb1 \<inter> owfs_owned dev1 (owfs_inode_at dev1 sb1 j) = {}"
        using owfs_map_okD(5,6) [OF d1(1) d1(6) [OF j1]] owfs_table_region [of sb1] by blast
      have "owfs_content dev2 sb2 x = owfs_content dev2 sb1 x" for x by (subst f(6)) simp
      then show ?thesis
        using owfs_content_frame [OF d(1) d(6) [OF j] s(8) own] owfs_content_frame [OF d1(1) d1(6) [OF j1] f(4) own1] same [OF j]
        by (simp add: cong)
    qed
    have run: "owfs_create_as t g dev sb n (Some nm) k = (Inl st, dev2, sb2)" using a Inr st f(1) by (simp add: owfs_create_as_def)
    have "owfs_kept dev sb dev2 sb2" using lv ino con by (simp add: owfs_kept_def)
    with run st(1) f(2) show ?thesis by blast
  qed
qed

lemma owfs_read_denied:
  assumes ok: "owfs_volume_ok dev sb" and live: "unat n \<in> owfs_live dev sb" and ino: "ino = owfs_inode_at dev sb (unat n)"
    and den: "owfs_denies g ino 2"
  shows "\<exists>st r. st \<noteq> OWFS_OK \<and> owfs_file_read g dev sb ino buf off len = (st, r, buf, dev)"
    and "\<exists>st. st \<noteq> OWFS_OK \<and> owfs_catalog_lookup g dev sb n nm k = (Inl st, dev)"
    and "\<exists>st. st \<noteq> OWFS_OK \<and> owfs_catalog_list g dev sb n mx = (st, [], dev)"
proof -
  note c = owfs_denied_check(2) [OF den]
  show "\<exists>st r. st \<noteq> OWFS_OK \<and> owfs_file_read g dev sb ino buf off len = (st, r, buf, dev)"
    using c by (simp add: owfs_file_read_def)
  show "\<exists>st. st \<noteq> OWFS_OK \<and> owfs_catalog_lookup g dev sb n nm k = (Inl st, dev)"
    using owfs_lookup_same(2) [OF ok live] c by (simp add: owfs_catalog_lookup_def ino split: option.split)
  show "\<exists>st. st \<noteq> OWFS_OK \<and> owfs_catalog_list g dev sb n mx = (st, [], dev)"
    using owfs_lookup_same(2) [OF ok live] c by (simp add: owfs_catalog_list_def ino)
qed

lemma usfs_denied:
  assumes ok: "usfs_volume_ok dev sb" and live: "unat n \<in> usfs_live dev sb" and e: "e = usfs_entry_at dev sb (unat n)"
  shows "usfs_denies g e 1 \<Longrightarrow> \<exists>st. st \<noteq> USFS_OK \<and> usfs_entry_free g dev sb n = (st, dev, sb)"
    and "usfs_denies g e 1 \<Longrightarrow> \<exists>st. st \<noteq> USFS_OK \<and> usfs_entry_alloc g dev sb t nm k n = (Inl st, dev, sb)"
    and "usfs_denies g e 1 \<Longrightarrow> \<exists>st. st \<noteq> USFS_OK \<and> usfs_file_truncate g dev sb e m s = (st, dev, sb, e)"
    and "usfs_denies g e 1 \<Longrightarrow> \<exists>st. st \<noteq> USFS_OK \<and> usfs_file_write g dev sb e m b off len w0 = (st, w0, dev, sb, e)"
    and "usfs_denies g e 2 \<Longrightarrow> \<exists>st. st \<noteq> USFS_OK \<and> usfs_file_read g dev sb e buf off len r0 = (st, r0, buf, dev)"
proof -
  have nf: "ue_entry_type e \<noteq> 0" using live by (auto simp: usfs_live_def usfs_slot_free_def e)
  note rd = usfs_live_read [OF ok live]
  have "0 < card (usfs_live dev sb)" using live by (auto simp: card_gt_0_iff usfs_live_def)
  then have used: "usb_used_entries sb > 0" using usfs_volume_okD(4) [OF ok] by (simp add: word_less_nat_alt)
  show "usfs_denies g e 1 \<Longrightarrow> \<exists>st. st \<noteq> USFS_OK \<and> usfs_entry_free g dev sb n = (st, dev, sb)"
    using rd usfs_denied_check(3) [of g e] nf by (simp add: usfs_entry_free_def e)
  show "usfs_denies g e 1 \<Longrightarrow> \<exists>st. st \<noteq> USFS_OK \<and> usfs_entry_alloc g dev sb t nm k n = (Inl st, dev, sb)"
    using rd usfs_denied_check(3) [of g e] nf used by (simp add: usfs_entry_alloc_def parent_check_def e)
  show "usfs_denies g e 1 \<Longrightarrow> \<exists>st. st \<noteq> USFS_OK \<and> usfs_file_truncate g dev sb e m s = (st, dev, sb, e)"
    "usfs_denies g e 1 \<Longrightarrow> \<exists>st. st \<noteq> USFS_OK \<and> usfs_file_write g dev sb e m b off len w0 = (st, w0, dev, sb, e)"
    "usfs_denies g e 2 \<Longrightarrow> \<exists>st. st \<noteq> USFS_OK \<and> usfs_file_read g dev sb e buf off len r0 = (st, r0, buf, dev)"
    using usfs_denied_check(1,2) [of g e] by (simp_all add: usfs_file_truncate_def usfs_file_write_def usfs_file_read_def)
qed

end
