(* ===== verification/OW_Findings.thy ===== *)
theory OW_Findings
  imports OW_Access
begin

text \<open>
  Consequences of the code that its authors will not have intended, as lemmas about the model: what the
  stream cipher's block counter leaks, what becomes of owners whose id needs more than 16 bits, deleting an entry
  twice, and the name of the root of a USFS volume.
\<close>

unbundle bit_operations_syntax

section \<open>Neighbouring blocks share their keystream\<close>

lemma keystream_next: "keystream (c + 1) key nonce j = keystream c key nonce (j + 64)"
proof -
  have "(j + 64) div 64 = j div 64 + 1" by simp
  then show ?thesis by (simp only: keystream_def mod_add_self2 of_nat_add of_nat_1 add.assoc add.commute [of 1])
qed

lemma xor_common_key: "(a XOR k) XOR (b XOR k) = (a XOR b :: 'a::len word)"
  by (simp add: xor.assoc xor.left_commute xor.commute)

text \<open>The counter of a block is its number, but a block takes 64 counters: the ciphertexts of two blocks in a row, one
  shifted by 64 bytes, differ exactly where the plain texts do, whatever the key is.\<close>

lemma chacha20_xor_overlap:
  assumes "length p = 4096" and "length q = 4096" and "j + 64 < 4096"
  shows "ow_chacha20_xor c key nonce p 4096 ! (j + 64) XOR ow_chacha20_xor (c + 1) key nonce q 4096 ! j = p ! (j + 64) XOR q ! j"
  using assms by (simp add: ow_chacha20_xor_nth keystream_next xor_common_key)

lemma owfs_neighbours_leak:
  assumes "is_encrypted sb inode" and "length p = 4096" and "length q = 4096" and "j + 64 < 4096"
  shows "crypto_xform sb inode p b ! (j + 64) XOR crypto_xform sb inode q (b + 1) ! j = p ! (j + 64) XOR q ! j"
  using chacha20_xor_overlap [OF assms(2-4)] assms(1) by (simp add: crypto_xform_def)

lemma usfs_neighbours_leak:
  assumes "usfs_is_encrypted sb entry" and "length p = 4096" and "length q = 4096" and "j + 64 < 4096"
  shows "usfs_crypto_xform sb entry p b ! (j + 64) XOR usfs_crypto_xform sb entry q (b + 1) ! j = p ! (j + 64) XOR q ! j"
  using chacha20_xor_overlap [OF assms(2-4)] assms(1) by (simp add: usfs_crypto_xform_def)

section \<open>Owners of more than 16 bits\<close>

text \<open>A user whose id does not fit the 16-bit owner field is not the owner of what it creates; when its group's id does
  not fit either, it may not write the file it has just created.\<close>

lemma wide_uid_not_owner: "2 ^ 16 \<le> unat (uid g) \<Longrightarrow> uid g \<noteq> ucast (ucast (uid g) :: u16)"
proof
  assume w: "2 ^ 16 \<le> unat (uid g)" and e: "uid g = ucast (ucast (uid g) :: u16)"
  have "unat (ucast (ucast (uid g) :: u16) :: u32) < 2 ^ 16" using take_bit_nat_less_exp [of 16 "unat (uid g)"] by (simp add: unsigned_ucast_eq unsigned_take_bit_eq)
  with w e show False by simp
qed

lemma owfs_wide_creator_denied:
  assumes "2 ^ 16 \<le> unat (uid g)" and "2 ^ 16 \<le> unat (gid g)" and "owfs_inode_fresh g sb OWFS_ENTRY_FILE nm k p i = inode"
  shows "owfs_denies g inode 1"
proof -
  have "uid g \<noteq> ucast (ucast (uid g) :: u16)" "gid g \<noteq> ucast (ucast (gid g) :: u16)" "uid g \<noteq> 0"
    using wide_uid_not_owner [of g] wide_uid_not_owner [of "\<lparr>uid = gid g, gid = 0\<rparr>"] assms(1,2) by auto
  moreover have "ino_permissions inode = OWFS_MODE_DEFAULT_FILE" "ino_owner_uid inode = ucast (uid g)" "ino_owner_gid inode = ucast (gid g)"
    using assms(3) by (auto simp: owfs_inode_fresh_def ow_sec_current_def Let_def split: option.splits)
  ultimately show ?thesis by (simp add: mode_denies_def access_shift_def)
qed

section \<open>Deleting an entry twice\<close>

text \<open>Deleting an entry that is deleted already succeeds and counts one entry less, so the volume is not consistent
  afterwards.\<close>

lemma usfs_double_free:
  assumes ok: "usfs_volume_ok dev sb" and vw: "usfs_volume_writable sb = USFS_OK" and n: "n < usb_total_entries sb"
    and e: "ue_entry_type (usfs_entry_at dev sb (unat n)) = USFS_ENTRY_DELETED" "ue_block_count (usfs_entry_at dev sb (unat n)) = 0"
      "ue_security_flags (usfs_entry_at dev sb (unat n)) AND USFS_SEC_READONLY = 0"
    and live: "usfs_live dev sb \<noteq> {}"
  shows "\<exists>dev' sb'. usfs_entry_free superuser dev sb n = (USFS_OK, dev', sb') \<and> usfs_live dev' sb' = usfs_live dev sb \<and> \<not> usfs_volume_ok dev' sb'"
proof -
  note d = usfs_volume_okD [OF ok]
  let ?e = "usfs_entry_at dev sb (unat n)"
  have un: "unat n < unat (usb_total_entries sb)" using n by (simp add: word_less_nat_alt)
  have ty: "ue_entry_type ?e \<noteq> 0" using e(1) by simp
  have rd: "usfs_entry_read dev sb n usfs_entry_zero = (USFS_OK, dev, ?e)"
    using usfs_entry_read_reliable [OF d(2,3) n] d(5) [OF un] by (simp add: Let_def)
  have same: "?e\<lparr>ue_entry_type := USFS_ENTRY_DELETED\<rparr> = ?e" using e(1) by (cases ?e) simp
  have wf: "usfs_entry_wf ?e" using d(2,3) un by simp
  define dev' where "dev' = usfs_entry_put dev sb (unat n) (usfs_entry_sealed ?e)"
  define sb' where "sb' = sb\<lparr>usb_used_entries := usb_used_entries sb - 1\<rparr>"
  have wr: "usfs_entry_write dev sb n ?e = (USFS_OK, dev', usfs_entry_sealed ?e)"
    using usfs_entry_write_reliable [OF d(2,3) n vw wf] by (simp add: dev'_def)
  have card: "0 < card (usfs_live dev sb)" using live by (simp add: card_gt_0_iff usfs_live_def)
  then have used: "0 < usb_used_entries sb" "usb_used_entries sb \<noteq> 0" using d(4) by (auto simp: word_less_nat_alt)
  have run: "usfs_entry_free superuser dev sb n = (USFS_OK, dev', sb')"
    using vw rd ty e(2,3) same wr used by (simp add: usfs_entry_free_def sb'_def)
  have wf': "usfs_entry_wf (usfs_entry_sealed ?e)" using wf by simp
  have at: "usfs_entry_at dev' sb j = (if j = unat n then usfs_entry_sealed ?e else usfs_entry_at dev sb j)" if "j < unat (usb_total_entries sb)" for j
    using usfs_entry_put_props(5) [OF d(1) un wf' that] by (simp add: dev'_def)
  have "usfs_slot_free (usfs_entry_at dev' sb j) = usfs_slot_free (usfs_entry_at dev sb j)" if "j < unat (usb_total_entries sb)" for j
    using at [OF that] by (simp add: usfs_slot_free_def)
  then have "usfs_live dev' sb = usfs_live dev sb" by (auto simp: usfs_live_def)
  moreover have "usfs_live dev' sb' = usfs_live dev' sb" by (rule usfs_layout_cong(9)) (simp add: sb'_def usfs_layout_def)
  ultimately have lv: "usfs_live dev' sb' = usfs_live dev sb" by simp
  have "unat (usb_used_entries sb') = unat (usb_used_entries sb) - 1" using used by (simp add: sb'_def unat_sub word_le_nat_alt word_less_nat_alt Suc_le_eq)
  then have "\<not> usfs_volume_ok dev' sb'" using lv d(4) card usfs_volume_okD(4) [of dev' sb'] by auto
  then show ?thesis using run lv by blast
qed

section \<open>The name of the root\<close>

text \<open>The root of a fresh USFS volume is an entry of itself: looking up its own name in it finds it.\<close>

lemma usfs_root_in_itself:
  assumes f: "usfs_fresh_volume dev"
  shows "usfs_entry_lookup superuser dev (usfs_disk_sb dev) 0 (Some [0x2F]) 1 = (Inr 0, dev)"
proof -
  note v = usfs_fresh_facts [OF f]
  have val: "sutf8_validate_loop (take 1 [0x2F])" by code_simp
  have "usfs_entry_match superuser dev (usfs_disk_sb dev) 0 (take 1 [0x2F]) 0"
    using f by (simp add: usfs_fresh_volume_def usfs_entry_match_def Let_def ow_sec_is_superuser_def)
  then have "find (usfs_entry_match superuser dev (usfs_disk_sb dev) 0 (take 1 [0x2F])) [0..<256] = Some 0"
    by (simp add: upt_conv_Cons)
  then show ?thesis using usfs_entry_lookup_find [OF v(1) _ _ val, of superuser 0] v(4) by simp
qed

end
